(* ===== verification/Go_Prelude.thy ===== *)
theory Go_Prelude
  imports
    Main
    "HOL-Library.Word"
    "HOL-Library.List_Lexorder"
    "HOL-Library.Char_ord"
    "HOL-Library.AList"
    "HOL-Library.Monad_Syntax"
begin

text \<open>
  What every component of the development shares: the Go types the code uses (bytes, byte
  strings, errors), the little-endian encodings of \<open>encoding/binary\<close>, slicing with
  Go's bounds rules, reads from a regular file at a position, the error monad, and the
  interface \<open>record_codec\<close> of a self-delimiting record format with the facts about logs
  of such records.

  Go strings and byte slices are both lists of bytes; Go's \<open><\<close> on strings is the
  bytewise lexicographic order, which is the order of \<open>List_Lexorder\<close> on \<open>8 word list\<close>.
\<close>

unbundle bit_operations_syntax

named_theorems codec_simps \<open>round trips of the little-endian encodings\<close>
named_theorems wf_intros \<open>operations keep the well-formedness of their component\<close>

type_synonym byte = "8 word"
type_synonym bytes = "8 word list"

text \<open>
  An error value: end of file and unexpected end of file of package \<open>io\<close>, an error made by
  \<open>errors.New\<close> or \<open>fmt.Errorf\<close> (with its constant text), an error of the operating
  system, or a run-time panic.
\<close>

datatype go_error = ErrEOF | ErrUnexpectedEOF | Errorf string | ErrOS | Panic

type_synonym 'a result = "go_error + 'a"

section \<open>The error monad\<close>

definition bindE :: "'a result \<Rightarrow> ('a \<Rightarrow> 'b result) \<Rightarrow> 'b result" where
  "bindE r f = (case r of Inl e \<Rightarrow> Inl e | Inr a \<Rightarrow> f a)"

lemma bindE_simps [simp]:
  "bindE (Inl e) f = Inl e"
  "bindE (Inr a) f = f a"
  by (simp_all add: bindE_def)

lemma bindE_Inr_iff:
  "bindE r f = Inr b \<longleftrightarrow> (\<exists>a. r = Inr a \<and> f a = Inr b)"
  by (cases r) simp_all

text \<open>A loop over a slice whose body may fail: the loop stops at the first error.\<close>

fun foldE :: "('s \<Rightarrow> 'a \<Rightarrow> 's result) \<Rightarrow> 's \<Rightarrow> 'a list \<Rightarrow> 's result" where
  "foldE f s [] = Inr s"
| "foldE f s (x # xs) = bindE (f s x) (\<lambda>s'. foldE f s' xs)"

lemma foldE_append: "foldE f s (xs @ ys) = bindE (foldE f s xs) (\<lambda>s'. foldE f s' ys)"
proof (induction xs arbitrary: s)
  case (Cons x xs)
  then show ?case by (cases "f s x") simp_all
qed simp

text \<open>A loop whose body never fails in states of an invariant and keeps the invariant.\<close>

lemma foldE_total:
  assumes "P s" and "\<And>s x. P s \<Longrightarrow> \<exists>s'. f s x = Inr s' \<and> P s'"
  shows "\<exists>s'. foldE f s xs = Inr s' \<and> P s'"
  using assms(1)
proof (induction xs arbitrary: s)
  case (Cons x xs)
  from assms(2) [OF Cons.prems, of x] obtain t where "f s x = Inr t" "P t" by auto
  with Cons.IH [of t] show ?case by simp
qed simp

section \<open>Little-endian integers\<close>

primrec le_bytes :: "nat \<Rightarrow> nat \<Rightarrow> bytes" where
  "le_bytes 0 x = []"
| "le_bytes (Suc k) x = word_of_nat (x mod 256) # le_bytes k (x div 256)"

primrec le_nat :: "bytes \<Rightarrow> nat" where
  "le_nat [] = 0"
| "le_nat (b # bs) = unat b + 256 * le_nat bs"

lemma unat_bound: "unat (w :: 'a::len word) < 2 ^ LENGTH('a)"
  by (rule unsigned_less)

lemma length_le_bytes [simp]: "length (le_bytes k x) = k"
  by (induction k arbitrary: x) simp_all

lemma unat_byte_of_nat [simp]: "unat (word_of_nat (x mod 256) :: byte) = x mod 256"
  by (simp add: unat_of_nat)

lemma le_nat_le_bytes [codec_simps]: "le_nat (le_bytes k x) = x mod 256 ^ k"
proof (induction k arbitrary: x)
  case 0
  then show ?case by simp
next
  case (Suc k)
  have "x mod 256 ^ Suc k = x mod 256 + 256 * (x div 256 mod 256 ^ k)"
    using mod_mult2_eq [of x 256 "256 ^ k"] by simp
  with Suc.IH show ?case by simp
qed

lemma le_nat_bound: "le_nat bs < 256 ^ length bs"
proof (induction bs)
  case Nil
  then show ?case by simp
next
  case (Cons b bs)
  have "unat b \<le> 255" using unat_bound [of b] by simp
  with Cons.IH show ?case by simp
qed

lemma le_bytes_mod: "le_bytes k (x mod 256 ^ k) = le_bytes k x"
proof (induction k arbitrary: x)
  case 0
  then show ?case by simp
next
  case (Suc k)
  have "x mod (256 * 256 ^ k) mod 256 = x mod 256"
    by (simp add: mod_mod_cancel)
  moreover have "x mod (256 * 256 ^ k) div 256 = x div 256 mod 256 ^ k"
    by (simp add: mod_mult2_eq)
  ultimately show ?case by (simp add: Suc.IH)
qed

definition PutUint16 :: "16 word \<Rightarrow> bytes" where "PutUint16 w = le_bytes 2 (unat w)"
definition PutUint32 :: "32 word \<Rightarrow> bytes" where "PutUint32 w = le_bytes 4 (unat w)"
definition PutUint64 :: "64 word \<Rightarrow> bytes" where "PutUint64 w = le_bytes 8 (unat w)"

definition Uint16 :: "bytes \<Rightarrow> 16 word" where "Uint16 bs = word_of_nat (le_nat (take 2 bs))"
definition Uint32 :: "bytes \<Rightarrow> 32 word" where "Uint32 bs = word_of_nat (le_nat (take 4 bs))"
definition Uint64 :: "bytes \<Rightarrow> 64 word" where "Uint64 bs = word_of_nat (le_nat (take 8 bs))"

lemma length_PutUint [simp]:
  "length (PutUint16 a) = 2" "length (PutUint32 b) = 4" "length (PutUint64 c) = 8"
  by (simp_all add: PutUint16_def PutUint32_def PutUint64_def)

lemma PutUint_nonempty [simp]: "PutUint16 a \<noteq> []" "PutUint32 b \<noteq> []" "PutUint64 c \<noteq> []"
  by (simp_all flip: length_0_conv)

lemma Uint16_PutUint16 [simp, codec_simps]: "Uint16 (PutUint16 w @ r) = w"
proof -
  have "unat w < 256 ^ 2" using unat_bound [of w] by simp
  then show ?thesis by (simp add: Uint16_def PutUint16_def le_nat_le_bytes)
qed

lemma Uint32_PutUint32 [simp, codec_simps]: "Uint32 (PutUint32 w @ r) = w"
proof -
  have "unat w < 256 ^ 4" using unat_bound [of w] by simp
  then show ?thesis by (simp add: Uint32_def PutUint32_def le_nat_le_bytes)
qed

lemma Uint64_PutUint64 [simp, codec_simps]: "Uint64 (PutUint64 w @ r) = w"
proof -
  have "unat w < 256 ^ 8" using unat_bound [of w] by simp
  then show ?thesis by (simp add: Uint64_def PutUint64_def le_nat_le_bytes)
qed

lemmas Uint_PutUint_whole [simp] =
  Uint16_PutUint16 [where r = "[]", simplified]
  Uint32_PutUint32 [where r = "[]", simplified]
  Uint64_PutUint64 [where r = "[]", simplified]

lemma unat_len16 [simp]: "n < 65536 \<Longrightarrow> unat (word_of_nat n :: 16 word) = n"
  by (simp add: unat_of_nat)

lemma unat_len32 [simp]: "n < 4294967296 \<Longrightarrow> unat (word_of_nat n :: 32 word) = n"
  by (simp add: unat_of_nat)

lemma unat_len64 [simp]: "n < 18446744073709551616 \<Longrightarrow> unat (word_of_nat n :: 64 word) = n"
  by (simp add: unat_of_nat)

lemma unat_Uint16: "length bs = 2 \<Longrightarrow> unat (Uint16 bs) = le_nat bs"
  using le_nat_bound [of bs] by (simp add: Uint16_def unat_of_nat)

lemma unat_Uint32: "length bs = 4 \<Longrightarrow> unat (Uint32 bs) = le_nat bs"
  using le_nat_bound [of bs] by (simp add: Uint32_def unat_of_nat)

lemma PutUint16_small: "n < 256 \<Longrightarrow> PutUint16 (word_of_nat n) = [word_of_nat n, 0]"
  by (simp add: PutUint16_def numeral_2_eq_2)

section \<open>Slices and files\<close>

text \<open>
  \<open>s[i:j]\<close> of a slice with contents \<open>s\<close> and capacity \<open>c\<close>: Go checks \<open>j\<close> against the
  capacity, not the length, and the array behind an appended-to \<open>make([]byte, 0, c)\<close> is zero
  beyond the length.
\<close>

definition reslice :: "bytes \<Rightarrow> nat \<Rightarrow> nat \<Rightarrow> nat \<Rightarrow> bytes result" where
  "reslice s c i j =
     (if i \<le> j \<and> j \<le> c
      then Inr (take (j - i) (drop i (s @ replicate (c - length s) 0)))
      else Inl Panic)"

lemma reslice_inside:
  "i \<le> j \<Longrightarrow> j \<le> length s \<Longrightarrow> length s \<le> c \<Longrightarrow> reslice s c i j = Inr (take (j - i) (drop i s))"
  by (simp add: reslice_def)

text \<open>
  Sequential reads from a regular file (or a buffered reader over one) whose unread contents
  are \<open>rest\<close>. \<open>stream_Read rest n\<close> is \<open>os.File.Read\<close> into a fresh zeroed buffer
  of \<open>n\<close> bytes: an empty buffer reads nothing, at the end the read is \<open>io.EOF\<close>, and
  a short read leaves the rest of the buffer zero. \<open>stream_ReadFull\<close> is \<open>io.ReadFull\<close>:
  all \<open>n\<close> bytes, or an error that tells a clean end from a torn one. Both return the buffer
  and what is left to read.
\<close>

definition stream_Read :: "bytes \<Rightarrow> nat \<Rightarrow> (bytes \<times> bytes) result" where
  "stream_Read rest n =
     (if n = 0 then Inr ([], rest)
      else if rest = [] then Inl ErrEOF
      else Inr (take n rest @ replicate (n - length rest) 0, drop n rest))"

definition stream_ReadFull :: "bytes \<Rightarrow> nat \<Rightarrow> (bytes \<times> bytes) result" where
  "stream_ReadFull rest n =
     (if n = 0 then Inr ([], rest)
      else if rest = [] then Inl ErrEOF
      else if length rest < n then Inl ErrUnexpectedEOF
      else Inr (take n rest, drop n rest))"

lemma stream_Read_append [simp]: "length x = n \<Longrightarrow> stream_Read (x @ r) n = Inr (x, r)"
  by (auto simp: stream_Read_def)

lemma stream_Read_total: "rest \<noteq> [] \<Longrightarrow> \<exists>b r. stream_Read rest n = Inr (b, r)"
  by (simp add: stream_Read_def)

lemma stream_Read_to_end:
  "rest \<noteq> [] \<Longrightarrow> length rest \<le> n \<Longrightarrow> \<exists>b. stream_Read rest n = Inr (b, [])"
  by (cases rest) (auto simp: stream_Read_def)

lemma stream_ReadFull_append [simp]: "length x = n \<Longrightarrow> stream_ReadFull (x @ r) n = Inr (x, r)"
  by (auto simp: stream_ReadFull_def)

lemma stream_Read_shrinks:
  "stream_Read rest n = Inr (b, r) \<Longrightarrow> length r \<le> length rest \<and> (0 < n \<longrightarrow> length r < length rest)"
  by (auto simp: stream_Read_def split: if_splits)

lemma stream_ReadFull_shrinks:
  "stream_ReadFull rest n = Inr (b, r) \<Longrightarrow> length r \<le> length rest \<and> (0 < n \<longrightarrow> length r < length rest)"
  by (auto simp: stream_ReadFull_def split: if_splits)

text \<open>
  A file open for writing, on a device with \<open>quota\<close> bytes left: a write that does not fit
  writes what fits and fails.
\<close>

record gofile =
  content :: bytes
  quota :: nat

definition file_Write :: "gofile \<Rightarrow> bytes \<Rightarrow> go_error option \<times> gofile" where
  "file_Write f bs =
     (if length bs \<le> quota f
      then (None, f\<lparr>content := content f @ bs, quota := quota f - length bs\<rparr>)
      else (Some ErrOS, f\<lparr>content := content f @ take (quota f) bs, quota := 0\<rparr>))"

text \<open>Several writes in a row, each checked, as the writers do them.\<close>

fun file_Writes :: "gofile \<Rightarrow> bytes list \<Rightarrow> go_error option \<times> gofile" where
  "file_Writes f [] = (None, f)"
| "file_Writes f (bs # bss) =
     (case file_Write f bs of
        (Some e, f') \<Rightarrow> (Some e, f')
      | (None, f') \<Rightarrow> file_Writes f' bss)"

lemma file_Writes_enough:
  "length (concat bss) \<le> quota f \<Longrightarrow>
     file_Writes f bss = (None, f\<lparr>content := content f @ concat bss, quota := quota f - length (concat bss)\<rparr>)"
  by (induction bss arbitrary: f) (auto simp: file_Write_def)

lemma file_Writes_None:
  "file_Writes f bss = (None, f') \<Longrightarrow>
     length (concat bss) \<le> quota f \<and>
     f' = f\<lparr>content := content f @ concat bss, quota := quota f - length (concat bss)\<rparr>"
proof (induction bss arbitrary: f)
  case (Cons bs bss)
  then have "length bs \<le> quota f"
    by (auto simp: file_Write_def split: if_splits)
  with Cons.prems Cons.IH [of "f\<lparr>content := content f @ bs, quota := quota f - length bs\<rparr>"]
  show ?case by (auto simp: file_Write_def)
qed simp

section \<open>Self-delimiting records\<close>

text \<open>
  A record format with an encoder and a decoder that reads one record from the front of a
  byte string. The law is that the decoder stops exactly behind an encoded record of the
  format, whatever follows; what the two write-ahead logs and the table formats need of it
  is proved once here: a log of records decodes to these records in order.
\<close>

locale record_codec =
  fixes enc :: "'r \<Rightarrow> bytes"
    and dec :: "bytes \<Rightarrow> ('r \<times> bytes) option"
    and ok :: "'r \<Rightarrow> bool"
  assumes dec_enc: "ok r \<Longrightarrow> dec (enc r @ rest) = Some (r, rest)"
begin

lemma enc_inj:
  assumes "ok r" and "ok s" and "enc r @ x = enc s @ y"
  shows "r = s \<and> x = y"
proof -
  from assms have "Some (r, x) = Some (s, y)"
    by (metis dec_enc)
  then show ?thesis by simp
qed

lemma enc_log_inj:
  assumes "\<forall>r \<in> set rs. ok r" and "\<forall>s \<in> set ss. ok s" and "length rs = length ss"
    and "concat (map enc rs) @ x = concat (map enc ss) @ y"
  shows "rs = ss \<and> x = y"
  using assms(3,1,2,4)
proof (induction rs ss rule: list_induct2)
  case Nil
  then show ?case by simp
next
  case (Cons r rs s ss)
  have "r = s \<and> concat (map enc rs) @ x = concat (map enc ss) @ y"
    by (rule enc_inj) (use Cons.prems in simp_all)
  moreover from this have "rs = ss \<and> x = y"
    using Cons.prems by (intro Cons.IH) simp_all
  ultimately show ?case by simp
qed

end

section \<open>Step systems\<close>

text \<open>
  A component whose operations interleave: states reachable from the initial ones by steps,
  and the two arguments about them, an invariant and a measure that never decreases.
\<close>

inductive reach :: "('s \<Rightarrow> bool) \<Rightarrow> ('s \<Rightarrow> 's \<Rightarrow> bool) \<Rightarrow> 's \<Rightarrow> bool"
  for init :: "'s \<Rightarrow> bool" and step :: "'s \<Rightarrow> 's \<Rightarrow> bool" where
  reach_init: "init s \<Longrightarrow> reach init step s"
| reach_step: "reach init step s \<Longrightarrow> step s t \<Longrightarrow> reach init step t"

locale invariant_system =
  fixes init :: "'s \<Rightarrow> bool" and step :: "'s \<Rightarrow> 's \<Rightarrow> bool" and inv :: "'s \<Rightarrow> bool"
  assumes init_inv: "init s \<Longrightarrow> inv s"
    and step_inv: "inv s \<Longrightarrow> step s t \<Longrightarrow> inv t"
begin

lemma reach_inv: "reach init step s \<Longrightarrow> inv s"
  by (induction rule: reach.induct) (auto intro: init_inv step_inv)

lemma steps_inv: "step\<^sup>*\<^sup>* s t \<Longrightarrow> inv s \<Longrightarrow> inv t"
  by (induction rule: rtranclp_induct) (auto intro: step_inv)

end

locale monotone_system = invariant_system +
  fixes rank :: "'s \<Rightarrow> 'r :: preorder"
  assumes step_rank: "inv s \<Longrightarrow> step s t \<Longrightarrow> rank s \<le> rank t"
begin

lemma steps_rank: "step\<^sup>*\<^sup>* s t \<Longrightarrow> inv s \<Longrightarrow> rank s \<le> rank t"
proof (induction rule: rtranclp_induct)
  case (step t u)
  have "inv t" using step.hyps(1) step.prems by (rule steps_inv)
  with step.hyps(2) have "rank t \<le> rank u" by (rule_tac step_rank)
  with step.IH [OF step.prems] show ?case by (rule order_trans)
qed (rule order_refl)

end

end
