(* ===== verification/Arena.thy ===== *)
theory Arena
  imports Go_Prelude
begin

text \<open>
  The arena allocator of \<^verbatim>\<open>pkg/arena/arena.go\<close>: one byte slice with a fixed capacity to
  which entries are appended and from which they are read back by offset. Offsets and lengths
  are \<open>nat\<close>: they start at 0 and only grow. The lemmas give the invariant every \<open>Put\<close>
  keeps, the round trip of an entry through the arena, and that entries stay readable.
\<close>

record arena =
  arena_data :: bytes
  arena_cap :: nat \<comment> \<open>\<open>cap(a.data)\<close>\<close>
  arena_offset :: nat

definition typeVal :: byte where "typeVal = 0"
definition typeTombStone :: byte where "typeTombStone = 1"

definition NewArena :: "nat \<Rightarrow> arena" where
  "NewArena sz = \<lparr>arena_data = [], arena_cap = sz, arena_offset = 0\<rparr>"

text \<open>The bytes one entry occupies: header, the two lengths, the key, and the value of a put.\<close>

definition arena_entry :: "bytes \<Rightarrow> bytes \<Rightarrow> bool \<Rightarrow> bytes" where
  "arena_entry key val isDelete =
     (if isDelete then typeTombStone else typeVal)
     # (PutUint16 (word_of_nat (length key)) @ PutUint32 (word_of_nat (length val)))
     @ key @ (if isDelete then [] else val)"

definition arena_Put :: "arena \<Rightarrow> bytes \<Rightarrow> bytes \<Rightarrow> bool \<Rightarrow> nat result \<times> arena" where
  "arena_Put a key val isDelete =
     (let entrySize = (if isDelete then 1 + 2 + 4 + length key
                       else 1 + 2 + 4 + length key + length val)
      in if arena_offset a + entrySize > arena_cap a
         then (Inl (Errorf ''arena is full''), a)
         else (Inr (arena_offset a),
               a\<lparr>arena_data := arena_data a @ arena_entry key val isDelete,
                 arena_offset := arena_offset a + entrySize\<rparr>))"

definition arena_Get :: "arena \<Rightarrow> nat \<Rightarrow> (bytes \<times> bool) result" where
  "arena_Get a offset =
     (if offset \<ge> length (arena_data a) then Inl (Errorf ''offset out of range'')
      else if arena_data a ! offset AND typeTombStone \<noteq> 0 then Inr ([], True)
      else let cursor = offset + 1 in
        bindE (reslice (arena_data a) (arena_cap a) cursor (cursor + 2)) (\<lambda>kl.
        bindE (reslice (arena_data a) (arena_cap a) (cursor + 2) (cursor + 6)) (\<lambda>vl.
        let cursor = cursor + 6 + unat (Uint16 kl) in
        bindE (reslice (arena_data a) (arena_cap a) cursor (cursor + unat (Uint32 vl))) (\<lambda>val.
        Inr (val, False)))))"

section \<open>The invariant\<close>

definition arena_wf :: "arena \<Rightarrow> bool" where
  "arena_wf a \<longleftrightarrow> arena_offset a = length (arena_data a) \<and> length (arena_data a) \<le> arena_cap a"

lemma length_arena_entry:
  "length (arena_entry key val isDelete) =
     (if isDelete then 7 + length key else 7 + length key + length val)"
  by (simp add: arena_entry_def)

lemma arena_wf_New [wf_intros]: "arena_wf (NewArena sz)"
  by (simp add: arena_wf_def NewArena_def)

lemma arena_wf_Put [wf_intros]: "arena_wf a \<Longrightarrow> arena_wf (snd (arena_Put a key val isDelete))"
  by (auto simp: arena_wf_def arena_Put_def length_arena_entry Let_def)

lemma arena_Put_cases:
  assumes "arena_Put a key val isDelete = (r, a')"
  obtains (full) "arena_cap a < arena_offset a + length (arena_entry key val isDelete)"
      "r = Inl (Errorf ''arena is full'')" "a' = a"
    | (ok) "arena_offset a + length (arena_entry key val isDelete) \<le> arena_cap a"
      "r = Inr (arena_offset a)" "arena_data a' = arena_data a @ arena_entry key val isDelete"
      "arena_offset a' = arena_offset a + length (arena_entry key val isDelete)"
      "arena_cap a' = arena_cap a"
proof (cases "arena_cap a < arena_offset a + length (arena_entry key val isDelete)")
  case True
  with assms show thesis
    by (intro full) (simp_all add: arena_Put_def length_arena_entry Let_def split: if_splits)
next
  case False
  with assms have "a' = a\<lparr>arena_data := arena_data a @ arena_entry key val isDelete,
      arena_offset := arena_offset a + length (arena_entry key val isDelete)\<rparr>"
    and "r = Inr (arena_offset a)"
    by (simp_all add: arena_Put_def length_arena_entry Let_def split: if_splits)
  with False show thesis by (intro ok) simp_all
qed

section \<open>Entries in the arena\<close>

definition entry_at :: "arena \<Rightarrow> nat \<Rightarrow> bytes \<Rightarrow> bool" where
  "entry_at a off e \<longleftrightarrow>
     (\<exists>pre post. arena_data a = pre @ e @ post \<and> length pre = off)"

lemma entry_at_Put_new:
  assumes "arena_wf a" and "arena_Put a key val isDelete = (Inr off, a')"
  shows "entry_at a' off (arena_entry key val isDelete)"
  using assms(2)
proof (cases rule: arena_Put_cases)
  case ok
  with assms(1) have "arena_data a' = arena_data a @ arena_entry key val isDelete @ []"
    and "length (arena_data a) = off"
    by (simp_all add: arena_wf_def)
  then show ?thesis unfolding entry_at_def by blast
qed simp

lemma entry_at_Put_old:
  assumes "entry_at a off e"
  shows "entry_at (snd (arena_Put a key val isDelete)) off e"
proof -
  obtain r a' where P: "arena_Put a key val isDelete = (r, a')"
    by (cases "arena_Put a key val isDelete")
  from assms obtain pre post where d: "arena_data a = pre @ e @ post" "length pre = off"
    by (auto simp: entry_at_def)
  from P show ?thesis
  proof (cases rule: arena_Put_cases)
    case full
    with P assms show ?thesis by simp
  next
    case ok
    with d have "arena_data a' = pre @ e @ (post @ arena_entry key val isDelete)" by simp
    with P d(2) show ?thesis unfolding entry_at_def by auto
  qed
qed

lemma entry_at_nth:
  "entry_at a off e \<Longrightarrow> i < length e \<Longrightarrow>
     off + i < length (arena_data a) \<and> arena_data a ! (off + i) = e ! i"
  by (auto simp: entry_at_def nth_append)

lemma entry_at_reslice:
  assumes "entry_at a off (x @ y @ z)" and "arena_wf a"
    and "i = off + length x" and "j = off + length x + length y"
  shows "reslice (arena_data a) (arena_cap a) i j = Inr y"
proof -
  from assms(1) obtain pre post where "arena_data a = pre @ (x @ y @ z) @ post" "length pre = off"
    by (auto simp: entry_at_def)
  with assms(2-4) show ?thesis
    by (subst reslice_inside) (auto simp: arena_wf_def)
qed

text \<open>A stored tombstone reads back as a tombstone, whatever the length of its key.\<close>

lemma arena_Get_tombstone:
  "entry_at a off (arena_entry key val True) \<Longrightarrow> arena_Get a off = Inr ([], True)"
  using entry_at_nth [of a off "arena_entry key val True" 0]
  by (auto simp: arena_Get_def arena_entry_def typeTombStone_def)

text \<open>A stored value reads back if its key and value lengths fit their length fields.\<close>

lemma arena_Get_value:
  assumes e: "entry_at a off (arena_entry key val False)" and wf: "arena_wf a"
    and k: "length key < 2 ^ 16" and v: "length val < 2 ^ 32"
  shows "arena_Get a off = Inr (val, False)"
proof -
  let ?kl = "PutUint16 (word_of_nat (length key))" and ?vl = "PutUint32 (word_of_nat (length val))"
  have hd: "off < length (arena_data a)" "arena_data a ! off = typeVal"
    using entry_at_nth [OF e, of 0] by (simp_all add: arena_entry_def)
  have 1: "reslice (arena_data a) (arena_cap a) (off + 1) (off + 1 + 2) = Inr ?kl"
    using e by (intro entry_at_reslice [where x = "[typeVal]" and z = "?vl @ key @ val"])
      (simp_all add: arena_entry_def wf)
  have 2: "reslice (arena_data a) (arena_cap a) (off + 1 + 2) (off + 1 + 6) = Inr ?vl"
    using e by (intro entry_at_reslice [where x = "typeVal # ?kl" and z = "key @ val"])
      (simp_all add: arena_entry_def wf)
  have 3: "reslice (arena_data a) (arena_cap a) (off + 1 + 6 + length key)
      (off + 1 + 6 + length key + length val) = Inr val"
    using e by (intro entry_at_reslice [where x = "typeVal # ?kl @ ?vl @ key" and z = "[]"])
      (simp_all add: arena_entry_def wf)
  from hd 1 2 3 k v show ?thesis
    by (simp add: arena_Get_def typeVal_def Let_def)
qed

section \<open>Properties\<close>

text \<open>A sequence of puts; a put that does not fit leaves the arena as it is.\<close>

fun arena_Puts :: "arena \<Rightarrow> (bytes \<times> bytes \<times> bool) list \<Rightarrow> arena" where
  "arena_Puts a [] = a"
| "arena_Puts a ((key, val, isDelete) # ops) = arena_Puts (snd (arena_Put a key val isDelete)) ops"

lemma arena_Puts_keeps:
  "arena_wf a \<Longrightarrow> entry_at a off e \<Longrightarrow> arena_wf (arena_Puts a ops) \<and> entry_at (arena_Puts a ops) off e"
  by (induction a ops rule: arena_Puts.induct) (simp_all add: arena_wf_Put entry_at_Put_old)

text \<open>
  C25: An entry stored in the arena reads back at the offset \<open>Put\<close> returned, and stays readable
  there after any further puts: a value as itself, a delete as a tombstone, provided the key
  and value lengths fit their 16- and 32-bit fields.
\<close>

theorem arena_put_get_stable:
  assumes "arena_wf a" and "arena_Put a key val isDelete = (Inr off, a')"
    and "length key < 2 ^ 16" and "length val < 2 ^ 32"
  shows "arena_Get (arena_Puts a' ops) off = Inr (if isDelete then ([], True) else (val, False))"
proof -
  have "arena_wf a'" using arena_wf_Put [OF assms(1), of key val isDelete] assms(2) by simp
  from arena_Puts_keeps [OF this entry_at_Put_new [OF assms(1,2)], of ops]
  show ?thesis using arena_Get_tombstone arena_Get_value assms(3,4) by (cases isDelete) auto
qed

theorem arena_put_get_stable_witness:
  "\<exists>a'. arena_Put (NewArena 100) [1] [2, 3] False = (Inr 0, a') \<and>
     arena_Get (arena_Puts a' [([1], [9], False), ([4], [], True)]) 0 = Inr ([2, 3], False)"
proof -
  obtain a' where p: "arena_Put (NewArena 100) [1] [2, 3] False = (Inr 0, a')"
    by (simp add: arena_Put_def NewArena_def)
  from arena_put_get_stable [OF arena_wf_New p, of "[([1], [9], False), ([4], [], True)]"] p show ?thesis
    by simp
qed

text \<open>
  C28: The bounds of the arena: \<open>Put\<close> fails exactly if the entry does not fit the remaining
  capacity, and then changes nothing; otherwise it returns the old end and keeps all bytes. The
  data never exceeds the capacity, so the slice is never reallocated.
\<close>

theorem arena_put_bounds:
  assumes "arena_wf a" and "arena_Put a key val isDelete = (r, a')"
  shows "arena_wf a' \<and> arena_cap a' = arena_cap a \<and>
    (if arena_cap a < length (arena_data a) + 7 + length key + (if isDelete then 0 else length val)
     then r = Inl (Errorf ''arena is full'') \<and> a' = a
     else r = Inr (length (arena_data a)) \<and> (\<exists>e. arena_data a' = arena_data a @ e \<and>
       length e = 7 + length key + (if isDelete then 0 else length val)))"
  using assms(2)
proof (cases rule: arena_Put_cases)
  case full
  with assms(1) show ?thesis by (auto simp: arena_wf_def length_arena_entry split: if_splits)
next
  case ok
  with assms(1) show ?thesis by (auto simp: arena_wf_def length_arena_entry split: if_splits)
qed

theorem arena_put_bounds_witness:
  "arena_Put (NewArena 8) [1] [2] False = (Inl (Errorf ''arena is full''), NewArena 8)"
  using arena_put_bounds [OF arena_wf_New [of 8] surjective_pairing, of "[1]" "[2]" False]
  by (simp add: NewArena_def prod_eq_iff)

end
