(* ===== verification/Kv_Wal.thy ===== *)
theory Kv_Wal
  imports Go_Prelude
begin

text \<open>
  The write-ahead log of \<^verbatim>\<open>pkg/wal/wal.go\<close>: records with a CRC-32 checksum, a sequence number
  (the byte offset of the record), a timestamp, a command, a key and a value. The file is opened
  without append mode, so a write goes to the current position. \<open>time.Now\<close> and the outcome
  of the file operations are arguments. The lemmas show the round trip of a sequence of writes
  through recovery and what recovery does with a damaged log.
\<close>

section \<open>CRC-32 (IEEE), of \<open>hash/crc32\<close>\<close>

definition crc_bit :: "32 word \<Rightarrow> 32 word" where
  "crc_bit c = (if c AND 1 = 1 then drop_bit 1 c XOR 0xEDB88320 else drop_bit 1 c)"

definition crc_byte :: "32 word \<Rightarrow> byte \<Rightarrow> 32 word" where
  "crc_byte c b = (crc_bit ^^ 8) (c XOR ucast b)"

definition crc_Update :: "32 word \<Rightarrow> bytes \<Rightarrow> 32 word" where
  "crc_Update crc p = NOT (foldl crc_byte (NOT crc) p)"

definition ChecksumIEEE :: "bytes \<Rightarrow> 32 word" where
  "ChecksumIEEE data = crc_Update 0 data"

lemma crc_Update_append: "crc_Update (crc_Update c a) b = crc_Update c (a @ b)"
  by (simp add: crc_Update_def)

section \<open>The log\<close>

definition wal_CmdPut :: byte where "wal_CmdPut = 1"
definition wal_CmdDelete :: byte where "wal_CmdDelete = 2"

definition headerSize :: nat where "headerSize = 29"

record wal_entry =
  we_CRC :: "32 word"
  we_LSN :: "64 word"
  we_TimeStamp :: "64 word"
  we_Cmd :: byte
  we_Key :: bytes
  we_Value :: bytes

record kv_wal =
  w_content :: bytes
  w_pos :: nat \<comment> \<open>the position of the open file\<close>
  w_path :: string
  w_currentLSN :: "64 word"

definition OpenWAL :: "string \<Rightarrow> bytes \<Rightarrow> kv_wal" where
  "OpenWAL path f = \<lparr>w_content = f, w_pos = 0, w_path = path, w_currentLSN = word_of_nat (length f)\<rparr>"

definition put_at :: "nat \<Rightarrow> bytes \<Rightarrow> bytes \<Rightarrow> bytes" where
  "put_at pos buf f = take pos f @ buf @ drop (pos + length buf) f"

text \<open>
  \<open>Write\<close>: \<open>short\<close> is \<open>Some n\<close> if the file write fails after \<open>n\<close> bytes, \<open>sync_ok\<close> tells
  whether \<open>Sync\<close> succeeds, \<open>now\<close> is the clock.
\<close>

definition record_body :: "64 word \<Rightarrow> 64 word \<Rightarrow> byte \<Rightarrow> bytes \<Rightarrow> bytes \<Rightarrow> bytes" where
  "record_body lsn timestamp cmd key val =
     PutUint64 lsn @ PutUint64 timestamp @ [cmd] @ PutUint32 (word_of_nat (length key)) @
     PutUint32 (word_of_nat (length val)) @ key @ val"

definition wal_Write :: "nat option \<Rightarrow> bool \<Rightarrow> 64 word \<Rightarrow> kv_wal \<Rightarrow> bytes \<Rightarrow> bytes \<Rightarrow> byte \<Rightarrow>
    go_error option \<times> kv_wal" where
  "wal_Write short sync_ok now w key val cmd =
     (let totalSize = headerSize + length key + length val;
          body = record_body (w_currentLSN w) now cmd key val;
          buf = PutUint32 (ChecksumIEEE body) @ body
      in case short of
           Some n \<Rightarrow> (Some ErrOS, w\<lparr>w_content := put_at (w_pos w) (take n buf) (w_content w),
                                w_pos := w_pos w + min n (length buf)\<rparr>)
         | None \<Rightarrow>
           let w = w\<lparr>w_content := put_at (w_pos w) buf (w_content w), w_pos := w_pos w + length buf\<rparr>
           in if \<not> sync_ok then (Some ErrOS, w)
              else (None, w\<lparr>w_currentLSN := w_currentLSN w + word_of_nat totalSize\<rparr>))"

text \<open>One round of the loop of \<open>Recover\<close>: an entry and the unread rest, or the error of the round.\<close>

definition recover_record :: "bytes \<Rightarrow> (wal_entry \<times> bytes) result" where
  "recover_record rest =
     bindE (stream_ReadFull rest headerSize) (\<lambda>(header, rest).
     let crc = Uint32 header;
         lsn = Uint64 (drop 4 header);
         timestamp = Uint64 (drop 12 header);
         cmd = header ! 20;
         keySize = unat (Uint32 (drop 21 header));
         valSize = unat (Uint32 (drop 25 header))
     in case stream_ReadFull rest (valSize + keySize) of
          Inl _ \<Rightarrow> Inl ErrUnexpectedEOF
        | Inr (data, rest) \<Rightarrow>
          if crc_Update (crc_Update 0 (drop 4 header)) data \<noteq> crc
          then Inl (Errorf ''checksum mismatch for key/val at LSN'')
          else Inr (\<lparr>we_CRC = crc, we_LSN = lsn, we_TimeStamp = timestamp, we_Cmd = cmd,
                     we_Key = take keySize data, we_Value = drop keySize data\<rparr>, rest))"

lemma recover_record_shrinks: "recover_record rest = Inr (e, r) \<Longrightarrow> length r < length rest"
proof -
  assume r: "recover_record rest = Inr (e, r)"
  then obtain header rest1 where 1: "stream_ReadFull rest headerSize = Inr (header, rest1)"
    by (auto simp: recover_record_def bindE_Inr_iff)
  let ?n = "unat (Uint32 (drop 25 header)) + unat (Uint32 (drop 21 header))"
  from r 1 obtain data where "stream_ReadFull rest1 ?n = Inr (data, r)"
    by (cases "stream_ReadFull rest1 ?n") (auto simp: recover_record_def Let_def split: if_splits)
  with 1 show "length r < length rest"
    by (auto simp: headerSize_def dest!: stream_ReadFull_shrinks)
qed

text \<open>
  What a failed round leaves unread: a read that hits the end leaves nothing, a checksum
  mismatch leaves what follows the record.
\<close>

definition unread_after_error :: "go_error \<Rightarrow> bytes \<Rightarrow> bytes" where
  "unread_after_error err rest =
     (if err = ErrEOF \<or> err = ErrUnexpectedEOF then []
      else drop (headerSize + unat (Uint32 (drop 21 rest)) + unat (Uint32 (drop 25 rest))) rest)"

text \<open>
  The loop, with the unread rest it ends with: the entries so far are dropped when a round
  fails, but the sequence number reached so far stays.
\<close>

function recover_loop ::
  "bytes \<Rightarrow> wal_entry list \<Rightarrow> 64 word \<Rightarrow> wal_entry list result \<times> 64 word \<times> bytes" where
  "recover_loop rest entries lsn =
     (case recover_record rest of
        Inl err \<Rightarrow> (if err = ErrEOF then Inr entries else Inl err, lsn, unread_after_error err rest)
      | Inr (e, rest') \<Rightarrow>
          recover_loop rest' (entries @ [e])
            (we_LSN e + word_of_nat headerSize + word_of_nat (length (we_Key e)) +
             word_of_nat (length (we_Value e))))"
  by pat_completeness auto
termination
  by (relation "measure (\<lambda>(rest, es, l). length rest)") (auto dest: recover_record_shrinks)

declare recover_loop.simps [simp del]

definition wal_Recover :: "kv_wal \<Rightarrow> wal_entry list result \<times> kv_wal" where
  "wal_Recover w =
     (let (r, lsn, unread) = recover_loop (w_content w) [] (w_currentLSN w)
      in (r, w\<lparr>w_pos := length (w_content w) - length unread, w_currentLSN := lsn\<rparr>))"

section \<open>Records\<close>

definition enc_wal :: "wal_entry \<Rightarrow> bytes" where
  "enc_wal e = PutUint32 (we_CRC e) @
     record_body (we_LSN e) (we_TimeStamp e) (we_Cmd e) (we_Key e) (we_Value e)"

text \<open>An entry as \<open>Write\<close> produces it: the lengths fit and the checksum is that of its body.\<close>

definition wal_ok :: "wal_entry \<Rightarrow> bool" where
  "wal_ok e \<longleftrightarrow> length (we_Key e) < 2 ^ 32 \<and> length (we_Value e) < 2 ^ 32 \<and>
     we_CRC e = ChecksumIEEE (record_body (we_LSN e) (we_TimeStamp e) (we_Cmd e) (we_Key e) (we_Value e))"

definition enc_header :: "wal_entry \<Rightarrow> bytes" where
  "enc_header e = PutUint32 (we_CRC e) @ PutUint64 (we_LSN e) @ PutUint64 (we_TimeStamp e) @ [we_Cmd e] @
     PutUint32 (word_of_nat (length (we_Key e))) @ PutUint32 (word_of_nat (length (we_Value e)))"

lemma enc_wal_header: "enc_wal e = enc_header e @ we_Key e @ we_Value e"
  by (simp add: enc_wal_def enc_header_def record_body_def)

lemma length_enc_header [simp]: "length (enc_header e) = headerSize"
  by (simp add: enc_header_def headerSize_def)

lemma header_fields:
  "Uint32 (enc_header e) = we_CRC e"
  "Uint64 (drop 4 (enc_header e)) = we_LSN e"
  "Uint64 (drop 12 (enc_header e)) = we_TimeStamp e"
  "enc_header e ! 20 = we_Cmd e"
  "Uint32 (drop 21 (enc_header e)) = word_of_nat (length (we_Key e))"
  "Uint32 (drop 25 (enc_header e)) = word_of_nat (length (we_Value e))"
  by (simp_all add: enc_header_def nth_append)

lemma header_body: "drop 4 (enc_header e) @ we_Key e @ we_Value e =
    record_body (we_LSN e) (we_TimeStamp e) (we_Cmd e) (we_Key e) (we_Value e)"
  by (simp add: enc_header_def record_body_def)

lemma recover_record_enc:
  assumes "wal_ok e"
  shows "recover_record (enc_wal e @ rest) = Inr (e, rest)"
proof -
  have len: "unat (word_of_nat (length (we_Key e)) :: 32 word) = length (we_Key e)"
    "unat (word_of_nat (length (we_Value e)) :: 32 word) = length (we_Value e)"
    using assms by (simp_all add: wal_ok_def)
  have "stream_ReadFull (enc_header e @ (we_Key e @ we_Value e) @ rest) headerSize =
      Inr (enc_header e, (we_Key e @ we_Value e) @ rest)" by (rule stream_ReadFull_append) simp
  moreover have "stream_ReadFull ((we_Key e @ we_Value e) @ rest) (length (we_Value e) + length (we_Key e)) =
      Inr (we_Key e @ we_Value e, rest)" by (rule stream_ReadFull_append) simp
  moreover have "crc_Update (crc_Update 0 (drop 4 (enc_header e))) (we_Key e @ we_Value e) = we_CRC e"
    using assms by (simp add: crc_Update_append header_body wal_ok_def ChecksumIEEE_def)
  ultimately show ?thesis
    by (simp add: recover_record_def enc_wal_header header_fields len Let_def)
qed

interpretation wal_codec: record_codec enc_wal "\<lambda>bs. case recover_record bs of Inr x \<Rightarrow> Some x | Inl _ \<Rightarrow> None" wal_ok
  by unfold_locales (simp add: recover_record_enc)

lemma recover_record_Nil [simp]: "recover_record [] = Inl ErrEOF"
  by (simp add: recover_record_def stream_ReadFull_def headerSize_def)

lemma recover_loop_Nil [simp]: "recover_loop [] es lsn = (Inr es, lsn, [])"
  by (subst recover_loop.simps) (simp add: unread_after_error_def)

text \<open>The sequence number after an entry, as \<open>Recover\<close> computes it.\<close>

definition next_lsn :: "wal_entry \<Rightarrow> 64 word" where
  "next_lsn e = we_LSN e + word_of_nat headerSize + word_of_nat (length (we_Key e)) +
     word_of_nat (length (we_Value e))"

lemma recover_loop_entries:
  assumes "\<forall>e \<in> set es. wal_ok e"
  shows "recover_loop (concat (map enc_wal es) @ rest) acc lsn =
    recover_loop rest (acc @ es) (if es = [] then lsn else next_lsn (last es))"
  using assms
proof (induction es arbitrary: acc lsn)
  case (Cons e es)
  then have "recover_loop (enc_wal e @ concat (map enc_wal es) @ rest) acc lsn =
      recover_loop (concat (map enc_wal es) @ rest) (acc @ [e]) (next_lsn e)"
    by (subst recover_loop.simps) (simp add: recover_record_enc next_lsn_def)
  with Cons show ?case by simp
qed simp

section \<open>A sequence of writes\<close>

text \<open>Each write is a time, a key, a value and a command; all of them succeed.\<close>

type_synonym wal_op = "64 word \<times> bytes \<times> bytes \<times> byte"

fun wal_Writes :: "kv_wal \<Rightarrow> wal_op list \<Rightarrow> kv_wal" where
  "wal_Writes w [] = w"
| "wal_Writes w ((now, key, val, cmd) # ops) =
     wal_Writes (snd (wal_Write None True now w key val cmd)) ops"

definition op_entry :: "64 word \<Rightarrow> wal_op \<Rightarrow> wal_entry" where
  "op_entry lsn op = (case op of (now, key, val, cmd) \<Rightarrow>
     \<lparr>we_CRC = ChecksumIEEE (record_body lsn now cmd key val), we_LSN = lsn, we_TimeStamp = now,
      we_Cmd = cmd, we_Key = key, we_Value = val\<rparr>)"

fun log_entries :: "64 word \<Rightarrow> wal_op list \<Rightarrow> wal_entry list" where
  "log_entries lsn [] = []"
| "log_entries lsn (op # ops) = op_entry lsn op # log_entries (next_lsn (op_entry lsn op)) ops"

definition wal_op_ok :: "wal_op \<Rightarrow> bool" where
  "wal_op_ok op = (case op of (now, key, val, cmd) \<Rightarrow> length key < 2 ^ 32 \<and> length val < 2 ^ 32)"

lemma wal_ok_op_entry: "wal_op_ok op \<Longrightarrow> wal_ok (op_entry lsn op)"
  by (auto simp: wal_ok_def op_entry_def wal_op_ok_def)

lemma wal_ok_log_entries: "\<forall>op \<in> set ops. wal_op_ok op \<Longrightarrow> \<forall>e \<in> set (log_entries lsn ops). wal_ok e"
  by (induction ops arbitrary: lsn) (auto intro: wal_ok_op_entry)

lemma wal_Write_append:
  assumes "w_pos w = length (w_content w)"
  shows "wal_Write None True now w key val cmd = (None, w\<lparr>
    w_content := w_content w @ enc_wal (op_entry (w_currentLSN w) (now, key, val, cmd)),
    w_pos := length (w_content w @ enc_wal (op_entry (w_currentLSN w) (now, key, val, cmd))),
    w_currentLSN := next_lsn (op_entry (w_currentLSN w) (now, key, val, cmd))\<rparr>)"
  using assms
  by (simp add: wal_Write_def Let_def put_at_def enc_wal_def op_entry_def next_lsn_def)

lemma wal_Writes_content:
  assumes "w_pos w = length (w_content w)"
  shows "w_content (wal_Writes w ops) =
      w_content w @ concat (map enc_wal (log_entries (w_currentLSN w) ops))"
    and "w_currentLSN (wal_Writes w ops) =
      (if ops = [] then w_currentLSN w else next_lsn (last (log_entries (w_currentLSN w) ops)))"
proof -
  have "w_content (wal_Writes w ops) =
      w_content w @ concat (map enc_wal (log_entries (w_currentLSN w) ops)) \<and>
    w_currentLSN (wal_Writes w ops) =
      (if ops = [] then w_currentLSN w else next_lsn (last (log_entries (w_currentLSN w) ops)))"
    using assms
  proof (induction ops arbitrary: w)
    case (Cons op ops)
    obtain now key val cmd where op: "op = (now, key, val, cmd)" by (cases op)
    let ?w = "snd (wal_Write None True now w key val cmd)"
    have "w_pos ?w = length (w_content ?w)" by (simp add: wal_Write_append [OF Cons.prems])
    from Cons.IH [OF this] show ?case
      by (cases ops) (simp_all add: op wal_Write_append [OF Cons.prems])
  qed simp
  then show "w_content (wal_Writes w ops) =
      w_content w @ concat (map enc_wal (log_entries (w_currentLSN w) ops))"
    and "w_currentLSN (wal_Writes w ops) =
      (if ops = [] then w_currentLSN w else next_lsn (last (log_entries (w_currentLSN w) ops)))"
    by simp_all
qed

text \<open>A torn record at the end: recovery fails, whatever was before it.\<close>

lemma recover_record_torn:
  assumes "wal_ok e" and "0 < n" and "n < length (enc_wal e)"
  shows "recover_record (take n (enc_wal e)) = Inl ErrUnexpectedEOF"
proof (cases "n < headerSize")
  case True
  with assms(2,3) show ?thesis
    by (auto simp: recover_record_def stream_ReadFull_def headerSize_def)
next
  case False
  define m where "m = n - headerSize"
  have len: "unat (word_of_nat (length (we_Key e)) :: 32 word) = length (we_Key e)"
    "unat (word_of_nat (length (we_Value e)) :: 32 word) = length (we_Value e)"
    using assms(1) by (simp_all add: wal_ok_def)
  have "take n (enc_wal e) = enc_header e @ take m (we_Key e @ we_Value e)"
    using False by (simp add: enc_wal_header m_def not_less)
  moreover have "m < length (we_Value e) + length (we_Key e)"
    using False assms(3) by (simp add: enc_wal_header m_def)
  then have "\<exists>err. stream_ReadFull (take m (we_Key e @ we_Value e)) (length (we_Value e) + length (we_Key e)) = Inl err"
    by (auto simp: stream_ReadFull_def)
  ultimately show ?thesis
    by (auto simp: recover_record_def header_fields len Let_def)
qed

lemma wal_Recover_torn:
  assumes "\<forall>e \<in> set es. wal_ok e" and "wal_ok e" and "0 < n" and "n < length (enc_wal e)"
  shows "fst (wal_Recover (OpenWAL path (concat (map enc_wal es) @ take n (enc_wal e)))) =
    Inl ErrUnexpectedEOF"
  using recover_record_torn [OF assms(2-4)]
  by (simp add: wal_Recover_def OpenWAL_def recover_loop_entries [OF assms(1)]
      recover_loop.simps [of "take n (enc_wal e)"])

lemma wal_Recover_Writes:
  assumes "\<forall>op \<in> set ops. wal_op_ok op"
  shows "wal_Recover (OpenWAL path (w_content (wal_Writes (OpenWAL path []) ops))) =
    (Inr (log_entries 0 ops),
     \<lparr>w_content = w_content (wal_Writes (OpenWAL path []) ops),
      w_pos = length (w_content (wal_Writes (OpenWAL path []) ops)), w_path = path,
      w_currentLSN = w_currentLSN (wal_Writes (OpenWAL path []) ops)\<rparr>)"
proof -
  have c: "w_content (wal_Writes (OpenWAL path []) ops) = concat (map enc_wal (log_entries 0 ops)) @ []"
    "w_currentLSN (wal_Writes (OpenWAL path []) ops) =
      (if ops = [] then 0 else next_lsn (last (log_entries 0 ops)))"
    by (simp_all add: wal_Writes_content OpenWAL_def)
  have ne: "log_entries 0 ops = [] \<longleftrightarrow> ops = []" by (cases ops) simp_all
  have r: "recover_loop (concat (map enc_wal (log_entries 0 ops)) @ []) [] lsn =
      (Inr (log_entries 0 ops), if ops = [] then lsn else next_lsn (last (log_entries 0 ops)), [])" for lsn
    using recover_loop_entries [OF wal_ok_log_entries [OF assms], of 0 "[]" "[]" lsn] ne by simp
  show ?thesis
    unfolding wal_Recover_def c(2) unfolding c(1)
    by (simp add: OpenWAL_def r [simplified] ne)
qed

lemma wal_Writes_at_end:
  "w_pos w = length (w_content w) \<Longrightarrow>
     w_pos (wal_Writes w ops) = length (w_content (wal_Writes w ops)) \<and> w_path (wal_Writes w ops) = w_path w"
  by (induction w ops rule: wal_Writes.induct) (simp_all add: wal_Write_append)

lemma log_entries_ops:
  "map (\<lambda>e. (we_TimeStamp e, we_Key e, we_Value e, we_Cmd e)) (log_entries lsn ops) = ops"
  by (induction ops arbitrary: lsn) (auto simp: op_entry_def split: prod.splits)

lemma log_entries_snoc: "\<exists>lsn'. log_entries lsn (ops @ [op]) = log_entries lsn ops @ [op_entry lsn' op]"
  by (induction ops arbitrary: lsn) auto

section \<open>Properties\<close>

text \<open>
  The write-ahead log round trip: after any sequence of successful writes to a new log,
  recovery of the file returns exactly one entry per write, in order, with its time, key, value
  and command, and the reopened log is in the state of the one that was written, ready for
  further writes.
\<close>

lemma wal_roundtrip:
  assumes "\<forall>op \<in> set ops. wal_op_ok op" and "w = wal_Writes (OpenWAL path []) ops"
  shows "\<exists>es. wal_Recover (OpenWAL path (w_content w)) = (Inr es, w) \<and>
    map (\<lambda>e. (we_TimeStamp e, we_Key e, we_Value e, we_Cmd e)) es = ops"
proof -
  have "w_pos w = length (w_content w)" "w_path w = path"
    using wal_Writes_at_end [of "OpenWAL path []" ops] assms(2) by (simp_all add: OpenWAL_def)
  then have "w = \<lparr>w_content = w_content w, w_pos = length (w_content w), w_path = path,
      w_currentLSN = w_currentLSN w\<rparr>" by simp
  with wal_Recover_Writes [OF assms(1), of path] log_entries_ops [of 0 ops] assms(2) show ?thesis by auto
qed

definition demo_ops :: "wal_op list" where
  "demo_ops = [(10, [1], [2, 3], wal_CmdPut), (11, [1], [], wal_CmdDelete)]"

lemma wal_roundtrip_witness:
  "\<exists>es. fst (wal_Recover (OpenWAL ''w'' (w_content (wal_Writes (OpenWAL ''w'' []) demo_ops)))) = Inr es \<and>
     map we_Key es = [[1], [1]] \<and> map we_Value es = [[2, 3], []]"
proof -
  have "\<forall>op \<in> set demo_ops. wal_op_ok op" by (simp add: demo_ops_def wal_op_ok_def)
  from wal_roundtrip [OF this refl, of "''w''"] obtain es where
    e: "wal_Recover (OpenWAL ''w'' (w_content (wal_Writes (OpenWAL ''w'' []) demo_ops))) =
        (Inr es, wal_Writes (OpenWAL ''w'' []) demo_ops)"
      "map (\<lambda>e. (we_TimeStamp e, we_Key e, we_Value e, we_Cmd e)) es = demo_ops" by blast
  have "map (\<lambda>(t, k, v, c). k) (map (\<lambda>e. (we_TimeStamp e, we_Key e, we_Value e, we_Cmd e)) es) = map we_Key es"
    "map (\<lambda>(t, k, v, c). v) (map (\<lambda>e. (we_TimeStamp e, we_Key e, we_Value e, we_Cmd e)) es) = map we_Value es"
    by simp_all
  with e show ?thesis by (auto simp: demo_ops_def)
qed

text \<open>
  A torn last record makes recovery fail as a whole: if the file ends inside a record, the
  result is an error and none of the complete records before it is returned.
\<close>

lemma wal_torn_tail_loses_all:
  assumes "\<forall>op \<in> set (ops @ [op]). wal_op_ok op" and "w = wal_Writes (OpenWAL path []) ops"
    and "w2 = wal_Writes (OpenWAL path []) (ops @ [op])"
    and "length (w_content w) < n" and "n < length (w_content w2)"
  shows "fst (wal_Recover (OpenWAL path (take n (w_content w2)))) = Inl ErrUnexpectedEOF"
proof -
  obtain lsn where l: "log_entries 0 (ops @ [op]) = log_entries 0 ops @ [op_entry lsn op]"
    using log_entries_snoc by blast
  have c: "w_content w = concat (map enc_wal (log_entries 0 ops))"
    "w_content w2 = w_content w @ enc_wal (op_entry lsn op)"
    using wal_Writes_content(1) [of "OpenWAL path []"] l assms(2,3) by (simp_all add: OpenWAL_def)
  define m where "m = n - length (w_content w)"
  have m: "0 < m" "m < length (enc_wal (op_entry lsn op))" using assms(4,5) c(2) by (simp_all add: m_def)
  have "take n (w_content w2) = concat (map enc_wal (log_entries 0 ops)) @ take m (enc_wal (op_entry lsn op))"
    using assms(4) c by (simp add: m_def)
  moreover have "\<forall>e \<in> set (log_entries 0 ops). wal_ok e" "wal_ok (op_entry lsn op)"
    using assms(1) wal_ok_log_entries [of ops 0] wal_ok_op_entry [of op] by simp_all
  ultimately show ?thesis using wal_Recover_torn m by simp
qed

lemma wal_torn_tail_loses_all_witness:
  "fst (wal_Recover (OpenWAL ''w'' (take 40 (w_content (wal_Writes (OpenWAL ''w'' [])
     ([(10, [1], [2, 3], wal_CmdPut)] @ [(11, [1], [], wal_CmdDelete)])))))) = Inl ErrUnexpectedEOF"
  by (rule wal_torn_tail_loses_all [OF _ refl refl])
    (simp_all add: wal_op_ok_def wal_Write_append OpenWAL_def enc_wal_header headerSize_def op_entry_def)

end
