(* ===== verification/Go_Strings.thy ===== *)
theory Go_Strings
  imports Go_Prelude
begin

text \<open>
  The string functions of the Go library that file names go through: decimal printing
  (\<open>%d\<close> and \<open>%05d\<close>), prefixes and suffixes, scanning \<open>%05d\<close> back, and sorting names in
  descending order. The lemmas show that printed numbers of the same number of digits compare as
  the numbers do, which is what makes the newest file sort first.

  File names are \<open>string\<close>s of ASCII characters, ordered by their codes.
\<close>

section \<open>Decimal numbers\<close>

definition digit :: "nat \<Rightarrow> char" where
  "digit n = char_of (48 + n)"

fun decimal :: "nat \<Rightarrow> string" where
  "decimal n = (if n < 10 then [digit n] else decimal (n div 10) @ [digit (n mod 10)])"

declare decimal.simps [simp del]

text \<open>\<open>%0wd\<close>: at least \<open>w\<close> digits.\<close>

definition decimal0 :: "nat \<Rightarrow> nat \<Rightarrow> string" where
  "decimal0 w n = replicate (w - length (decimal n)) (digit 0) @ decimal n"

text \<open>Exactly \<open>w\<close> digits: the number modulo \<open>10 ^ w\<close>.\<close>

fun fixed :: "nat \<Rightarrow> nat \<Rightarrow> string" where
  "fixed 0 n = []"
| "fixed (Suc w) n = fixed w (n div 10) @ [digit (n mod 10)]"

lemma length_fixed [simp]: "length (fixed w n) = w"
  by (induction w arbitrary: n) simp_all

lemma of_char_digit: "n < 10 \<Longrightarrow> of_char (digit n) = (48 + n :: nat)"
  by (simp add: digit_def)

lemma char_code: "of_char d = n \<Longrightarrow> of_char c = n \<longleftrightarrow> c = d" for n :: nat
  by auto

lemma digit_less: "m < 10 \<Longrightarrow> n < 10 \<Longrightarrow> digit m < digit n \<longleftrightarrow> m < n"
  by (simp add: less_char_def of_char_digit)

lemma digit_inj: "m < 10 \<Longrightarrow> n < 10 \<Longrightarrow> digit m = digit n \<longleftrightarrow> m = n"
  by (metis add_left_cancel of_char_digit)

lemma snoc_less:
  fixes xs ys :: "'a :: order list"
  assumes "length xs = length ys"
  shows "xs @ [a] < ys @ [b] \<longleftrightarrow> xs < ys \<or> xs = ys \<and> a < b"
  using assms by (induction xs ys rule: list_induct2) auto

lemma div_mod_less:
  "(m :: nat) < n \<longleftrightarrow> m div 10 < n div 10 \<or> m div 10 = n div 10 \<and> m mod 10 < n mod 10"
proof -
  have "10 * a + b < 10 * c + d \<longleftrightarrow> a < c \<or> a = c \<and> b < d" if "b < 10" "d < 10" for a b c d :: nat
    using that by arith
  from this [of "m mod 10" "n mod 10" "m div 10" "n div 10"] show ?thesis by simp
qed

lemma fixed_eq: "m < 10 ^ w \<Longrightarrow> n < 10 ^ w \<Longrightarrow> fixed w m = fixed w n \<longleftrightarrow> m = n"
proof (induction w arbitrary: m n)
  case (Suc w)
  have "m div 10 < 10 ^ w" "n div 10 < 10 ^ w" using Suc.prems by auto
  note Suc.IH [OF this]
  moreover have "digit (m mod 10) = digit (n mod 10) \<longleftrightarrow> m mod 10 = n mod 10" by (simp add: digit_inj)
  moreover have "m = n \<longleftrightarrow> m div 10 = n div 10 \<and> m mod 10 = n mod 10" by (metis div_mult_mod_eq)
  ultimately show ?case by simp
qed simp

lemma fixed_less: "m < 10 ^ w \<Longrightarrow> n < 10 ^ w \<Longrightarrow> fixed w m < fixed w n \<longleftrightarrow> m < n"
proof (induction w arbitrary: m n)
  case (Suc w)
  have lt: "m div 10 < 10 ^ w" "n div 10 < 10 ^ w" using Suc.prems by auto
  have "fixed (Suc w) m < fixed (Suc w) n \<longleftrightarrow>
      m div 10 < n div 10 \<or> m div 10 = n div 10 \<and> m mod 10 < n mod 10"
    using Suc.IH [OF lt] fixed_eq [OF lt] by (simp add: snoc_less digit_less)
  then show ?case by (simp only: div_mod_less [of m n])
qed simp

lemma decimal_fixed: "10 ^ w \<le> n \<Longrightarrow> n < 10 ^ Suc w \<Longrightarrow> decimal n = fixed (Suc w) n"
proof (induction w arbitrary: n)
  case 0
  then show ?case by (simp add: decimal.simps)
next
  case (Suc w)
  have "10 ^ w \<le> n div 10" "n div 10 < 10 ^ Suc w" using Suc.prems by auto
  note Suc.IH [OF this]
  moreover have "10 \<le> n" using Suc.prems(1) order_trans [of 10 "10 ^ Suc w" n] by simp
  ultimately show ?case by (subst decimal.simps) simp
qed

lemma fixed_zeros: "n < 10 ^ w \<Longrightarrow> fixed (v + w) n = replicate v (digit 0) @ fixed w n"
proof (induction w arbitrary: n)
  case 0
  then have "n = 0" by simp
  moreover have "fixed v 0 = replicate v (digit 0)"
    by (induction v) (simp_all add: replicate_append_same)
  ultimately show ?case by simp
next
  case (Suc w)
  then have "n div 10 < 10 ^ w" by auto
  from Suc.IH [OF this] show ?case by simp
qed

lemma digits_exist: "0 < n \<Longrightarrow> \<exists>w. 10 ^ w \<le> n \<and> n < 10 ^ Suc w" for n :: nat
proof (induction n rule: less_induct)
  case (less n)
  show ?case
  proof (cases "n < 10")
    case True
    with less.prems show ?thesis by (intro exI [of _ 0]) simp
  next
    case False
    then have "0 < n div 10" "n div 10 < n" by (simp_all add: div_greater_zero_iff)
    then obtain w where w: "10 ^ w \<le> n div 10" "n div 10 < 10 ^ Suc w" using less.IH by blast
    have "10 ^ Suc w \<le> n" using w(1) by simp
    moreover have "n < 10 ^ Suc (Suc w)" using w(2) by simp
    ultimately show ?thesis by blast
  qed
qed

lemma decimal0_fixed:
  assumes "n < 10 ^ w" and "0 < w"
  shows "decimal0 w n = fixed w n"
proof (cases "n = 0")
  case True
  have "fixed 1 0 = [digit 0]" "decimal 0 = [digit 0]" by (simp_all add: decimal.simps)
  with fixed_zeros [of 0 1 "w - 1"] assms(2) show ?thesis by (simp add: decimal0_def True)
next
  case False
  then obtain v where v: "10 ^ v \<le> n" "n < 10 ^ Suc v" using digits_exist by blast
  then have "10 ^ v < (10 :: nat) ^ w" using assms(1) by (rule_tac le_less_trans)
  then have "Suc v \<le> w" by (simp add: Suc_le_eq)
  then have "fixed w n = replicate (w - Suc v) (digit 0) @ fixed (Suc v) n"
    using fixed_zeros [OF v(2), of "w - Suc v"] by simp
  with decimal_fixed [OF v] show ?thesis by (simp add: decimal0_def)
qed

section \<open>Prefixes, suffixes, scanning\<close>

definition HasPrefix :: "string \<Rightarrow> string \<Rightarrow> bool" where
  "HasPrefix s p \<longleftrightarrow> take (length p) s = p"

definition HasSuffix :: "string \<Rightarrow> string \<Rightarrow> bool" where
  "HasSuffix s p \<longleftrightarrow> length p \<le> length s \<and> drop (length s - length p) s = p"

lemma HasPrefix_append [simp]: "HasPrefix (p @ s) p"
  by (simp add: HasPrefix_def)

lemma HasSuffix_append [simp]: "HasSuffix (s @ p) p"
  by (simp add: HasSuffix_def)

definition is_digit :: "char \<Rightarrow> bool" where
  "is_digit c \<longleftrightarrow> 48 \<le> (of_char c :: nat) \<and> of_char c \<le> (57 :: nat)"

fun nat_of_digits :: "string \<Rightarrow> nat \<Rightarrow> nat" where
  "nat_of_digits [] acc = acc"
| "nat_of_digits (c # cs) acc = nat_of_digits cs (acc * 10 + (of_char c - 48))"

text \<open>
  \<open>fmt.Sscanf\<close> for a format that is a literal, one \<open>%0wd\<close> and a literal: the literals have
  to match, the number is a sign and digits, together at most \<open>w\<close> characters, and what follows
  the second literal is ignored. Names with blanks after the first literal are not modelled.
\<close>

definition sscanf_number :: "string \<Rightarrow> nat \<Rightarrow> string \<Rightarrow> string \<Rightarrow> int result" where
  "sscanf_number before w after s =
     (if \<not> HasPrefix s before then Inl (Errorf ''input does not match format'')
      else let s = drop (length before) s;
               sign = (s \<noteq> [] \<and> 0 < w \<and> hd s \<in> {CHR ''+'', CHR ''-''});
               neg = (sign \<and> hd s = CHR ''-'');
               digs = takeWhile is_digit (take (if sign then w - 1 else w) (if sign then tl s else s));
               rest = drop (length digs) (if sign then tl s else s)
           in if digs = [] then Inl (Errorf ''expected integer'')
              else if \<not> HasPrefix rest after then Inl (Errorf ''input does not match format'')
              else Inr (if neg then - int (nat_of_digits digs 0) else int (nat_of_digits digs 0)))"

lemma is_digit_digit: "n < 10 \<Longrightarrow> is_digit (digit n)"
  by (simp add: is_digit_def of_char_digit)

lemma fixed_digits: "\<forall>c \<in> set (fixed w n). is_digit c"
  by (induction w arbitrary: n) (auto intro: is_digit_digit)

lemma nat_of_digits_append:
  "nat_of_digits (xs @ ys) a = nat_of_digits ys (nat_of_digits xs a)"
  by (induction xs arbitrary: a) simp_all

lemma nat_of_digits_fixed: "n < 10 ^ w \<Longrightarrow> nat_of_digits (fixed w n) 0 = n"
proof (induction w arbitrary: n)
  case (Suc w)
  then have "nat_of_digits (fixed w (n div 10)) 0 = n div 10" by (intro Suc.IH) auto
  then show ?case by (simp add: nat_of_digits_append of_char_digit mult.commute)
qed simp

lemma not_digit: "\<not> is_digit (CHR ''.'')" "\<not> is_digit (CHR ''+'')" "\<not> is_digit (CHR ''-'')"
  by (simp_all add: is_digit_def)

lemma sscanf_number_fixed:
  assumes "n < 10 ^ w" and "0 < w"
  shows "sscanf_number before w (CHR ''.'' # after) (before @ fixed w n @ CHR ''.'' # after) = Inr (int n)"
proof -
  let ?s = "fixed w n @ CHR ''.'' # after"
  obtain v where v: "w = Suc v" using assms(2) by (cases w) simp_all
  have ne: "fixed w n \<noteq> []" using assms(2) length_fixed [of w n] by (metis length_greater_0_conv)
  then have "hd ?s \<in> set (fixed w n)" by simp
  then have "hd ?s \<noteq> CHR ''+''" "hd ?s \<noteq> CHR ''-''" using fixed_digits not_digit(2,3) by metis+
  moreover have tw: "takeWhile is_digit (fixed w n) = fixed w n"
    using fixed_digits [of w n] by (simp add: takeWhile_eq_all_conv)
  ultimately show ?thesis
    using ne nat_of_digits_fixed [OF assms(1)]
    by (simp add: sscanf_number_def Let_def HasPrefix_def tw)
qed

section \<open>Decimal numbers read back\<close>

lemma decimal_digits: "\<forall>c \<in> set (decimal n). is_digit c" "decimal n \<noteq> []"
proof -
  show "\<forall>c \<in> set (decimal n). is_digit c"
  proof (induction n rule: decimal.induct)
    case (1 n)
    show ?case
    proof (cases "n < 10")
      case True
      then show ?thesis by (subst decimal.simps) (simp add: is_digit_digit)
    next
      case False
      then show ?thesis using 1 by (subst decimal.simps) (auto intro: is_digit_digit)
    qed
  qed
  show "decimal n \<noteq> []" by (subst decimal.simps) simp
qed

lemma nat_of_digits_decimal [simp]: "nat_of_digits (decimal n) 0 = n"
proof (induction n rule: decimal.induct)
  case (1 n)
  show ?case
  proof (cases "n < 10")
    case True
    then show ?thesis by (subst decimal.simps) (simp add: of_char_digit)
  next
    case False
    then show ?thesis using 1 by (subst decimal.simps) (simp add: nat_of_digits_append of_char_digit)
  qed
qed

lemma decimal_inject [simp]: "decimal m = decimal n \<longleftrightarrow> m = n"
  by (metis nat_of_digits_decimal)

text \<open>An \<open>int\<close> with \<^verbatim>\<open>%d\<close>.\<close>

definition show_int :: "int \<Rightarrow> string" where
  "show_int i = (if i < 0 then CHR ''-'' # decimal (nat (- i)) else decimal (nat i))"

lemma show_int_inject [simp]: "show_int i = show_int j \<longleftrightarrow> i = j"
proof -
  have "decimal n \<noteq> CHR ''-'' # w" for n w using decimal_digits(1) [of n] not_digit(3) by auto
  then show ?thesis unfolding show_int_def by (auto simp: eq_commute [of "CHR ''-'' # _"])
qed

section \<open>Splitting and joining\<close>

text \<open>\<open>strings.Split\<close> at a character, and \<open>strings.Join\<close>.\<close>

fun strings_Split :: "char \<Rightarrow> string \<Rightarrow> string list" where
  "strings_Split c [] = [[]]"
| "strings_Split c (x # s) =
     (if x = c then [] # strings_Split c s
      else case strings_Split c s of [] \<Rightarrow> [[x]] | w # ws \<Rightarrow> (x # w) # ws)"

fun Join :: "string list \<Rightarrow> string \<Rightarrow> string" where
  "Join [] sep = []"
| "Join [w] sep = w"
| "Join (w # ws) sep = w @ sep @ Join ws sep"

lemma Join_Cons: "ws \<noteq> [] \<Longrightarrow> Join (w # ws) sep = w @ sep @ Join ws sep"
  by (cases ws) simp_all

lemma strings_Split_not_Nil [simp]: "strings_Split c s \<noteq> []"
  by (induction s) (auto split: list.splits)

lemma strings_Split_absent: "c \<notin> set w \<Longrightarrow> strings_Split c w = [w]"
  by (induction w) auto

lemma strings_Split_append: "c \<notin> set w \<Longrightarrow> strings_Split c (w @ c # s) = w # strings_Split c s"
  by (induction w) auto

lemma strings_Split_Join:
  assumes "ws \<noteq> []" and "\<forall>w \<in> set ws. c \<notin> set w"
  shows "strings_Split c (Join ws [c]) = ws"
  using assms
proof (induction ws)
  case (Cons w ws)
  then show ?case
    by (cases "ws = []") (simp_all add: Join_Cons strings_Split_append strings_Split_absent)
qed simp

lemma strings_Split_trailing: "strings_Split c (s @ [c]) = strings_Split c s @ [[]]"
  by (induction s) (auto split: list.splits)

lemma strings_Split_snoc:
  assumes "c \<notin> set w"
  shows "strings_Split c (s @ c # w) = strings_Split c s @ [w]"
  by (induction s) (auto simp: strings_Split_absent [OF assms] split: list.splits)

lemma Join_snoc: "ws \<noteq> [] \<Longrightarrow> Join (ws @ [w]) sep = Join ws sep @ sep @ w"
proof (induction ws)
  case (Cons v ws)
  then show ?case by (cases "ws = []") (simp_all add: Join_Cons)
qed simp

section \<open>Sorting names\<close>

text \<open>\<open>sort.Sort(sort.Reverse(sort.StringSlice(names)))\<close>.\<close>

definition sort_reverse :: "string list \<Rightarrow> string list" where
  "sort_reverse names = rev (sort names)"

lemma set_sort_reverse [simp]: "set (sort_reverse names) = set names"
  by (simp add: sort_reverse_def)

lemma distinct_sort_reverse [simp]: "distinct (sort_reverse names) = distinct names"
  by (simp add: sort_reverse_def)

lemma sorted_sort_reverse: "sorted_wrt (\<ge>) (sort_reverse names)"
  unfolding sort_reverse_def sorted_wrt_rev using sorted_sort [of names] by simp

lemma last_sort:
  assumes "m \<in> set xs" and "\<And>x. x \<in> set xs \<Longrightarrow> x \<le> m"
  shows "last (sort xs) = (m :: 'a :: linorder)"
proof -
  have ne: "sort xs \<noteq> []" using assms(1) by (metis empty_iff empty_set set_sort)
  obtain i where i: "i < length (sort xs)" "sort xs ! i = m" using assms(1) by (metis in_set_conv_nth set_sort)
  then have "m \<le> last (sort xs)"
    using sorted_nth_mono [OF sorted_sort, of i "length (sort xs) - 1" xs] ne by (simp add: last_conv_nth)
  moreover have "last (sort xs) \<le> m" using assms(2) last_in_set [OF ne] by (metis set_sort)
  ultimately show ?thesis by simp
qed

lemma append_less_suffix:
  fixes xs ys :: "'a :: order list"
  assumes "length xs = length ys"
  shows "xs @ zs < ys @ zs \<longleftrightarrow> xs < ys"
  using assms by (induction xs ys rule: list_induct2) auto

lemma append_less_prefix: "zs @ xs < zs @ ys \<longleftrightarrow> xs < ys" for zs :: "'a :: order list"
  by (induction zs) auto

end
