(* ===== verification/Wal_Files.thy ===== *)
theory Wal_Files
  imports Kv_Wal Go_Strings
begin

text \<open>
  The files of the write-ahead log of the store (\<^verbatim>\<open>pkg/wal/wal.go\<close>): their names, the search
  for the active one, opening and removing one. A directory is an association list from names to
  contents; the directory part of a path is left out.
\<close>

type_synonym directory = "(string \<times> bytes) list"

definition wal_name :: "nat \<Rightarrow> string" where
  "wal_name i = ''wal-'' @ decimal0 5 i @ ''.log''"

definition is_wal_name :: "string \<Rightarrow> bool" where
  "is_wal_name f \<longleftrightarrow> HasPrefix f ''wal-'' \<and> HasSuffix f ''.log''"

text \<open>The argument is the result of \<open>os.ReadDir\<close>, \<open>None\<close> for an error.\<close>

definition FindActiveFile :: "string list option \<Rightarrow> (string \<times> int) result" where
  "FindActiveFile files =
     (case files of
        None \<Rightarrow> Inl ErrOS
      | Some names \<Rightarrow>
          let walFiles = sort (filter is_wal_name names)
          in if walFiles = [] then Inr (wal_name 0, 0)
             else let lastFile = last walFiles
                  in bindE (sscanf_number ''wal-'' 5 ''.log'' lastFile) (\<lambda>activeSegmentID.
                     Inr (lastFile, activeSegmentID)))"

text \<open>Opening with \<open>O_CREATE\<close>: a missing file is created empty.\<close>

definition OpenWAL_id :: "directory \<Rightarrow> nat \<Rightarrow> kv_wal \<times> directory" where
  "OpenWAL_id dir i =
     (let path = wal_name i
      in case map_of dir path of
           Some f \<Rightarrow> (OpenWAL path f, dir)
         | None \<Rightarrow> (OpenWAL path [], AList.update path [] dir))"

definition wal_Remove :: "directory \<Rightarrow> kv_wal \<Rightarrow> go_error option \<times> directory" where
  "wal_Remove dir w =
     (if map_of dir (w_path w) = None then (Some ErrOS, dir) else (None, AList.delete (w_path w) dir))"

section \<open>Names\<close>

lemma wal_name_fixed: "i < 10 ^ 5 \<Longrightarrow> wal_name i = ''wal-'' @ fixed 5 i @ ''.log''"
  by (simp only: wal_name_def decimal0_fixed)

lemma is_wal_name_wal_name [simp]: "is_wal_name (wal_name i)"
proof -
  have "HasSuffix ((''wal-'' @ decimal0 5 i) @ ''.log'') ''.log''" by (rule HasSuffix_append)
  then show ?thesis unfolding is_wal_name_def wal_name_def append_assoc by (simp only: HasPrefix_append)
qed

lemma wal_name_less:
  assumes "i < 10 ^ 5" and "j < 10 ^ 5"
  shows "wal_name i < wal_name j \<longleftrightarrow> i < j"
  using assms
  by (simp only: wal_name_fixed append_less_prefix append_less_suffix length_fixed fixed_less)

lemma wal_name_mono:
  assumes "i < 10 ^ 5" and "j < 10 ^ 5" and "i \<le> j"
  shows "wal_name i \<le> wal_name j"
  using wal_name_less [OF assms(1,2)] assms(3) by (cases "i = j") (auto intro: less_imp_le)

section \<open>Properties\<close>

text \<open>
  The active log file is found: if the log files of the directory are the ones of some
  segments below 100000, \<open>FindActiveFile\<close> returns the name and the number of the last segment.
\<close>

lemma find_active_last_segment:
  assumes "\<forall>i \<in> set ids. i < 10 ^ 5" and "ids \<noteq> []"
    and "filter is_wal_name names = map wal_name ids"
  shows "FindActiveFile (Some names) = Inr (wal_name (Max (set ids)), int (Max (set ids)))"
proof -
  let ?m = "Max (set ids)" and ?s = "sort (map wal_name ids)"
  have m: "?m \<in> set ids" "?m < 10 ^ 5" using assms(1,2) by simp_all
  have ne: "?s \<noteq> []" using assms(2) by (metis Nil_is_map_conv set_empty set_sort)
  have "wal_name i \<le> wal_name ?m" if "i \<in> set ids" for i
    using assms(1) that m by (intro wal_name_mono) simp_all
  then have last: "last ?s = wal_name ?m" using m(1) by (intro last_sort) auto
  have "sscanf_number ''wal-'' 5 ''.log'' (''wal-'' @ fixed 5 ?m @ ''.log'') = Inr (int ?m)"
    using m(2) by (intro sscanf_number_fixed) simp_all
  then show ?thesis
    using ne last by (simp add: FindActiveFile_def assms(3) Let_def wal_name_fixed [OF m(2)]
        del: fixed.simps append_Cons)
qed

lemma find_active_last_segment_witness:
  "FindActiveFile (Some [''LOCK'', wal_name 3, wal_name 12]) = Inr (wal_name 12, 12)"
proof -
  have "filter is_wal_name [''LOCK'', wal_name 3, wal_name 12] = map wal_name [3, 12]"
    by (simp add: is_wal_name_def [of "''LOCK''"] HasPrefix_def)
  from find_active_last_segment [OF _ _ this] show ?thesis by simp
qed

text \<open>
  Segment numbers of 100000 and more are not recognised: the name is printed with six or more
  digits, but scanned with a width of five, so that the scan fails if such a file is the last.
\<close>

lemma find_active_fails_beyond_99999:
  assumes "10 ^ 5 \<le> i" and "sort (filter is_wal_name names) = fs @ [wal_name i]"
  shows "\<exists>err. FindActiveFile (Some names) = Inl err"
proof -
  obtain w where w: "10 ^ w \<le> i" "i < 10 ^ Suc w" using digits_exist [of i] assms(1) by auto
  have "(10 :: nat) ^ 5 < 10 ^ Suc w" using assms(1) w(2) by linarith
  then have w5: "5 \<le> w" using power_strict_increasing_iff [of "10 :: nat" 5 "Suc w"] by simp
  define ds where "ds = fixed (Suc w) i"
  have len: "length ds = Suc w" by (simp only: ds_def length_fixed)
  have dig: "\<forall>c \<in> set ds. is_digit c" unfolding ds_def by (rule fixed_digits)
  have "decimal0 5 i = ds" using decimal_fixed [OF w] w5 len by (simp add: decimal0_def ds_def)
  then have name: "wal_name i = ''wal-'' @ ds @ ''.log''" by (simp only: wal_name_def)
  obtain d where d: "ds ! 5 = d" "is_digit d" using dig w5 len by (metis nth_mem less_Suc_eq_le)
  have split: "ds = take 5 ds @ d # drop 6 ds"
    using id_take_nth_drop [of 5 ds] d(1) w5 len by simp
  have "ds \<noteq> []" using len by auto
  then have "hd ds \<noteq> CHR ''+''" "hd ds \<noteq> CHR ''-''" using dig not_digit(2,3) by (metis hd_in_set)+
  moreover have tw: "takeWhile is_digit (take 5 ds) = take 5 ds"
    using dig by (metis in_set_takeD takeWhile_eq_all_conv)
  have "d \<noteq> CHR ''.''" using d(2) not_digit(1) by metis
  moreover have "drop 5 (ds @ ''.log'') = d # drop 6 ds @ ''.log''" using split w5 len
    by (metis append_Cons append_assoc append_eq_conv_conj length_take min.absorb2 less_Suc_eq_le le_SucI)
  ultimately have "\<exists>err. sscanf_number ''wal-'' 5 ''.log'' (''wal-'' @ ds @ ''.log'') = Inl err"
    using \<open>ds \<noteq> []\<close> len w5 by (simp add: sscanf_number_def Let_def HasPrefix_def tw)
  then show ?thesis by (auto simp: FindActiveFile_def assms(2) Let_def name)
qed

lemma find_active_fails_beyond_99999_witness:
  "\<exists>err. FindActiveFile (Some [wal_name 100000]) = Inl err"
  by (rule find_active_fails_beyond_99999 [where i = 100000 and fs = "[]"]) simp_all

end
