(* ===== verification/Memtable.thy ===== *)
theory Memtable
  imports Arena Wal_Files
begin

text \<open>
  The in-memory table of the store (\<^verbatim>\<open>kv/store.go\<close>, \<^verbatim>\<open>kv/lib.go\<close>): an index from keys to arena
  offsets, the arena with the entries, a size counter and the write-ahead log. The Go map is
  an association list without duplicate keys. The interface \<open>kv_table\<close> states what the store
  relies on, the value of a key after a put; its lemma about sequences of puts is used for the
  table of the code through the interpretation below.
\<close>

record memtable =
  mt_Index :: "(bytes \<times> nat) list"
  mt_Arena :: arena
  mt_Size :: "32 word"
  mt_Wal :: "kv_wal option"

definition mapLimit :: nat where "mapLimit = 10 * 1024 * 1024"

definition NewMemTable :: "nat \<Rightarrow> kv_wal option \<Rightarrow> memtable" where
  "NewMemTable sz newWal = \<lparr>mt_Index = [], mt_Arena = NewArena sz, mt_Size = 0, mt_Wal = newWal\<rparr>"

text \<open>
  The writes of \<open>applyInternal\<close> and of the recovery in \<open>NewKVStore\<close>: store the entry in the
  arena, point the index to it, and add to the size, which the two count differently.
\<close>

definition mt_put :: "memtable \<Rightarrow> bytes \<Rightarrow> bytes \<Rightarrow> bool \<Rightarrow> nat \<Rightarrow> go_error option \<times> memtable" where
  "mt_put t key val isDelete entrySize =
     (case arena_Put (mt_Arena t) key val isDelete of
        (Inl err, _) \<Rightarrow> (Some err, t)
      | (Inr offset, a) \<Rightarrow> (None, t\<lparr>mt_Arena := a, mt_Index := AList.update key offset (mt_Index t),
                             mt_Size := mt_Size t + word_of_nat entrySize\<rparr>))"

text \<open>The value, whether it is a tombstone, whether the key was found.\<close>

definition checkTable :: "memtable option \<Rightarrow> bytes \<Rightarrow> (bytes \<times> bool \<times> bool) result" where
  "checkTable table key =
     (case table of
        None \<Rightarrow> Inr ([], False, False)
      | Some t \<Rightarrow>
        (case map_of (mt_Index t) key of
           None \<Rightarrow> Inr ([], False, False)
         | Some offset \<Rightarrow>
           (case arena_Get (mt_Arena t) offset of
              Inl err \<Rightarrow> if err = Panic then Inl Panic else Inr ([], False, False)
            | Inr (valBytes, isTombstone) \<Rightarrow>
                if isTombstone then Inr ([], True, True) else Inr (valBytes, False, True))))"

section \<open>The interface of a table\<close>

locale kv_table =
  fixes put :: "'t \<Rightarrow> 'k \<Rightarrow> 'v \<Rightarrow> 't option"
    and lookup :: "'t \<Rightarrow> 'k \<Rightarrow> 'v option"
    and ok :: "'k \<Rightarrow> 'v \<Rightarrow> bool"
    and inv :: "'t \<Rightarrow> bool"
  assumes put_inv: "inv t \<Longrightarrow> ok k v \<Longrightarrow> put t k v = Some t' \<Longrightarrow> inv t'"
    and lookup_put: "inv t \<Longrightarrow> ok k v \<Longrightarrow> put t k v = Some t' \<Longrightarrow>
      lookup t' j = (if j = k then Some v else lookup t j)"
begin

fun puts :: "'t \<Rightarrow> ('k \<times> 'v) list \<Rightarrow> 't option" where
  "puts t [] = Some t"
| "puts t ((k, v) # ops) = (case put t k v of None \<Rightarrow> None | Some t' \<Rightarrow> puts t' ops)"

lemma lookup_puts:
  "inv t \<Longrightarrow> \<forall>(k, v) \<in> set ops. ok k v \<Longrightarrow> puts t ops = Some t' \<Longrightarrow>
     inv t' \<and> lookup t' j = (case map_of (rev ops) j of Some v \<Rightarrow> Some v | None \<Rightarrow> lookup t j)"
proof (induction t ops rule: puts.induct)
  case (2 t k v ops)
  then obtain u where u: "put t k v = Some u" "puts u ops = Some t'" by (auto split: option.splits)
  then have "inv u" "lookup u j = (if j = k then Some v else lookup t j)"
    using 2(2,3) by (auto intro: put_inv simp: lookup_put)
  with 2(1) [OF u(1) _ _ u(2)] 2(3) show ?case
    by (auto simp: map_add_def split: option.splits)
qed simp

end

section \<open>The table of the code is such a table\<close>

definition mt_wf :: "memtable \<Rightarrow> bool" where
  "mt_wf t \<longleftrightarrow> arena_wf (mt_Arena t) \<and> distinct (map fst (mt_Index t)) \<and>
     (\<forall>k off. map_of (mt_Index t) k = Some off \<longrightarrow> length k < 2 ^ 16 \<and>
        (\<exists>v d. entry_at (mt_Arena t) off (arena_entry k v d) \<and> length v < 2 ^ 32))"

text \<open>The contents: the value of a key and whether it is a tombstone, which has no value.\<close>

definition mt_lookup :: "memtable \<Rightarrow> bytes \<Rightarrow> (bytes \<times> bool) option" where
  "mt_lookup t k = (case map_of (mt_Index t) k of
     None \<Rightarrow> None
   | Some off \<Rightarrow> (case arena_Get (mt_Arena t) off of Inr x \<Rightarrow> Some x | Inl _ \<Rightarrow> None))"

lemma mt_wf_New [wf_intros]: "mt_wf (NewMemTable sz w)"
  by (simp add: mt_wf_def NewMemTable_def arena_wf_New)

lemma mt_lookup_New [simp]: "mt_lookup (NewMemTable sz w) k = None"
  by (simp add: mt_lookup_def NewMemTable_def)

lemma entry_Get:
  assumes "arena_wf a" and "entry_at a off (arena_entry k v d)" and "length k < 2 ^ 16" and "length v < 2 ^ 32"
  shows "arena_Get a off = Inr (if d then ([], True) else (v, False))"
  using assms arena_Get_tombstone arena_Get_value by (cases d) auto

lemma mt_wf_Get:
  assumes "mt_wf t" and "map_of (mt_Index t) k = Some off"
  obtains x where "arena_Get (mt_Arena t) off = Inr x" "snd x \<Longrightarrow> fst x = []" "length (fst x) < 2 ^ 32"
    "length k < 2 ^ 16"
proof -
  from assms obtain v d where
    "entry_at (mt_Arena t) off (arena_entry k v d)" "length k < 2 ^ 16" "length v < 2 ^ 32" "arena_wf (mt_Arena t)"
    unfolding mt_wf_def by blast
  with entry_Get [of "mt_Arena t" off k v d] that show thesis by (cases d) auto
qed

lemma checkTable_wf:
  assumes "mt_wf t"
  shows "checkTable (Some t) k = Inr (case mt_lookup t k of
    None \<Rightarrow> ([], False, False) | Some (v, d) \<Rightarrow> if d then ([], True, True) else (v, False, True))"
proof (cases "map_of (mt_Index t) k")
  case None
  then show ?thesis by (simp add: checkTable_def mt_lookup_def)
next
  case (Some off)
  then obtain x where "arena_Get (mt_Arena t) off = Inr x" using mt_wf_Get [OF assms] by blast
  with Some show ?thesis by (cases x) (simp add: checkTable_def mt_lookup_def)
qed

lemma arena_Put_fits:
  "arena_wf a \<Longrightarrow> (\<exists>off a'. arena_Put a k v d = (Inr off, a')) \<longleftrightarrow>
     length (arena_data a) + 7 + length k + (if d then 0 else length v) \<le> arena_cap a"
  by (auto simp: arena_Put_def arena_wf_def Let_def split: if_splits)

lemma mt_put_cases:
  assumes "mt_put t k v d n = (r, t')"
  obtains (full) err where "arena_Put (mt_Arena t) k v d = (Inl err, mt_Arena t)" "r = Some err" "t' = t"
    | (ok) off a where "arena_Put (mt_Arena t) k v d = (Inr off, a)" "r = None"
      "t' = t\<lparr>mt_Arena := a, mt_Index := AList.update k off (mt_Index t), mt_Size := mt_Size t + word_of_nat n\<rparr>"
proof -
  obtain x a where p: "arena_Put (mt_Arena t) k v d = (x, a)" by (cases "arena_Put (mt_Arena t) k v d")
  show thesis
  proof (cases x)
    case (Inl err)
    with p have "a = mt_Arena t" by (auto simp: arena_Put_def Let_def split: if_splits)
    with Inl p assms show thesis by (intro full) (auto simp: mt_put_def)
  next
    case (Inr off)
    with p assms show thesis by (intro ok) (auto simp: mt_put_def)
  qed
qed

lemma mt_put_wf:
  assumes wf: "mt_wf t" and put: "mt_put t k v d n = (None, t')" and len: "length k < 2 ^ 16" "length v < 2 ^ 32"
  shows "mt_wf t'"
  using put
proof (cases rule: mt_put_cases)
  case (ok off a)
  have a: "arena_wf (mt_Arena t)" using wf by (simp add: mt_wf_def)
  have "arena_wf a" using arena_wf_Put [OF a, of k v d] ok(1) by simp
  moreover have "entry_at a off (arena_entry k v d)" using a ok(1) by (rule entry_at_Put_new)
  moreover have "entry_at a p e" if "entry_at (mt_Arena t) p e" for p e
    using entry_at_Put_old [OF that, of k v d] ok(1) by simp
  moreover have "distinct (map fst (AList.update k off (mt_Index t)))"
    using wf by (simp add: mt_wf_def distinct_update)
  ultimately show ?thesis
    using wf len by (fastforce simp: mt_wf_def ok(3) update_conv')
qed simp

lemma mt_put_lookup:
  assumes wf: "mt_wf t" and put: "mt_put t k v d n = (None, t')" and len: "length k < 2 ^ 16" "length v < 2 ^ 32"
  shows "mt_lookup t' j = (if j = k then Some (if d then ([], True) else (v, False)) else mt_lookup t j)"
  using put
proof (cases rule: mt_put_cases)
  case (ok off a)
  have wa: "arena_wf (mt_Arena t)" using wf by (simp add: mt_wf_def)
  have wf': "arena_wf a" using arena_wf_Put [OF wa, of k v d] ok(1) by simp
  show ?thesis
  proof (cases "j = k")
    case True
    have "arena_Get a off = Inr (if d then ([], True) else (v, False))"
      using wf' entry_at_Put_new [OF wa ok(1)] len by (rule entry_Get)
    with True show ?thesis by (simp add: mt_lookup_def ok(3) update_conv')
  next
    case False
    have "arena_Get a p = arena_Get (mt_Arena t) p" if p: "map_of (mt_Index t) j = Some p" for p
    proof -
      from wf p obtain w e where e: "entry_at (mt_Arena t) p (arena_entry j w e)" "length j < 2 ^ 16" "length w < 2 ^ 32"
        unfolding mt_wf_def by blast
      have "entry_at a p (arena_entry j w e)" using entry_at_Put_old [OF e(1), of k v d] ok(1) by simp
      from entry_Get [OF wf' this e(2,3)] entry_Get [OF wa e] show ?thesis by simp
    qed
    with False show ?thesis by (simp add: mt_lookup_def ok(3) update_conv' split: option.splits)
  qed
qed simp

text \<open>A put as the store does it: the size grows by the header, the key and the value.\<close>

definition mt_store :: "memtable \<Rightarrow> bytes \<Rightarrow> bytes \<times> bool \<Rightarrow> memtable option" where
  "mt_store t k x = (case mt_put t k (fst x) (snd x) (7 + length k + length (fst x)) of
     (None, t') \<Rightarrow> Some t' | (Some _, _) \<Rightarrow> None)"

definition mt_entry_ok :: "bytes \<Rightarrow> bytes \<times> bool \<Rightarrow> bool" where
  "mt_entry_ok k x \<longleftrightarrow> length k < 2 ^ 16 \<and> length (fst x) < 2 ^ 32 \<and> (snd x \<longrightarrow> fst x = [])"

interpretation mem: kv_table mt_store mt_lookup mt_entry_ok mt_wf
proof unfold_locales
  fix t t' k j and x :: "bytes \<times> bool"
  assume "mt_wf t" "mt_entry_ok k x" "mt_store t k x = Some t'"
  then have "mt_put t k (fst x) (snd x) (7 + length k + length (fst x)) = (None, t')"
    "length k < 2 ^ 16" "length (fst x) < 2 ^ 32" "snd x \<Longrightarrow> fst x = []"
    by (auto simp: mt_store_def mt_entry_ok_def split: prod.splits option.splits)
  with \<open>mt_wf t\<close> show "mt_wf t'" and "mt_lookup t' j = (if j = k then Some x else mt_lookup t j)"
    using mt_put_wf mt_put_lookup by (auto simp: prod_eq_iff)
qed

end
