(* ===== verification/Bloom.thy ===== *)
theory Bloom
  imports Go_Prelude
begin

text \<open>
  The Bloom filter of \<^verbatim>\<open>pkg/bloom/bloom.go\<close>. The 64-bit hash \<open>murmur3.Sum64\<close> is third-party
  code and therefore a parameter \<open>sum64\<close> of every operation; nothing is assumed of it. The
  bit positions are computed at the widths the code uses (32-bit wrap-around of the combined
  hash, 64-bit \<open>uint\<close> modulus). The interface \<open>membership_filter\<close> is what the table
  builder and reader rely on: no false negatives.
\<close>

record bloom =
  bitset :: bytes
  bloom_k :: "64 word" \<comment> \<open>number of hash functions\<close>
  bloom_m :: "64 word" \<comment> \<open>number of bits\<close>

definition bloom_New :: "int \<Rightarrow> bloom" where
  "bloom_New n =
     (let n = (if n < 1 then 1 else n);
          neededBits = word_of_int (n * 10) :: 64 word;
          bytesNeeded = (neededBits + 7) div 8
      in \<lparr>bitset = replicate (unat bytesNeeded) 0, bloom_k = 7, bloom_m = bytesNeeded * 8\<rparr>)"

text \<open>\<open>(h1 + i*h2) % m\<close>: the sum in 32 bits, the remainder in 64.\<close>

definition bitPos :: "64 word \<Rightarrow> nat \<Rightarrow> 64 word \<Rightarrow> 64 word" where
  "bitPos h64 i m =
     (let h1 = ucast h64 :: 32 word;
          h2 = ucast (drop_bit 32 h64) :: 32 word;
          combinedHash = h1 + word_of_nat i * h2
      in ucast combinedHash mod m)"

definition set_bit_at :: "64 word \<Rightarrow> bloom \<Rightarrow> nat \<Rightarrow> bloom result" where
  "set_bit_at h64 bf i =
     (if bloom_m bf = 0 then Inl Panic
      else let pos = bitPos h64 i (bloom_m bf);
               byteIndex = unat (pos div 8);
               bitIndex = unat (pos mod 8)
           in if byteIndex < length (bitset bf)
              then Inr (bf\<lparr>bitset := (bitset bf)[byteIndex := bitset bf ! byteIndex OR push_bit bitIndex 1]\<rparr>)
              else Inl Panic)"

definition bloom_Add :: "(bytes \<Rightarrow> 64 word) \<Rightarrow> bloom \<Rightarrow> bytes \<Rightarrow> bloom result" where
  "bloom_Add sum64 bf key = foldE (set_bit_at (sum64 key)) bf [0..<unat (bloom_k bf)]"

fun bits_set :: "64 word \<Rightarrow> bloom \<Rightarrow> nat list \<Rightarrow> bool result" where
  "bits_set h64 bf [] = Inr True"
| "bits_set h64 bf (i # is) =
     (if bloom_m bf = 0 then Inl Panic
      else let pos = bitPos h64 i (bloom_m bf);
               byteIndex = unat (pos div 8);
               bitIndex = unat (pos mod 8)
           in if byteIndex < length (bitset bf)
              then if bitset bf ! byteIndex AND push_bit bitIndex 1 = 0 then Inr False
                   else bits_set h64 bf is
              else Inl Panic)"

definition bloom_MaybeContains :: "(bytes \<Rightarrow> 64 word) \<Rightarrow> bloom \<Rightarrow> bytes \<Rightarrow> bool result" where
  "bloom_MaybeContains sum64 bf key = bits_set (sum64 key) bf [0..<unat (bloom_k bf)]"

definition bloom_Bytes :: "bloom \<Rightarrow> bytes" where
  "bloom_Bytes bf = bitset bf"

definition bloom_Load :: "bytes \<Rightarrow> bloom" where
  "bloom_Load data = \<lparr>bitset = data, bloom_k = 7, bloom_m = word_of_nat (length data * 8)\<rparr>"

section \<open>What a user of a filter relies on\<close>

locale membership_filter =
  fixes add :: "'f \<Rightarrow> 'k \<Rightarrow> 'f result"
    and query :: "'f \<Rightarrow> 'k \<Rightarrow> bool result"
    and invar :: "'f \<Rightarrow> bool"
  assumes add_total: "invar f \<Longrightarrow> \<exists>f'. add f k = Inr f' \<and> invar f'"
    and query_total: "invar f \<Longrightarrow> \<exists>b. query f k = Inr b"
    and query_added: "invar f \<Longrightarrow> add f k = Inr f' \<Longrightarrow> query f' k = Inr True"
    and query_kept: "invar f \<Longrightarrow> add f k = Inr f' \<Longrightarrow> query f j = Inr True \<Longrightarrow> query f' j = Inr True"
begin

lemma add_all_total: "invar f \<Longrightarrow> \<exists>f'. foldE add f ks = Inr f' \<and> invar f'"
  by (rule foldE_total [where P = invar]) (auto intro: add_total)

lemma invar_add: "invar f \<Longrightarrow> add f k = Inr f' \<Longrightarrow> invar f'"
  using add_total [of f k] by auto

lemma query_all_kept:
  "invar f \<Longrightarrow> foldE add f ks = Inr f' \<Longrightarrow> query f j = Inr True \<Longrightarrow> query f' j = Inr True"
proof (induction ks arbitrary: f)
  case (Cons k ks)
  from Cons.prems obtain g where "add f k = Inr g" "foldE add g ks = Inr f'"
    by (auto simp: bindE_Inr_iff)
  with Cons show ?case by (blast intro: invar_add query_kept)
qed simp

lemma no_false_negatives:
  "invar f \<Longrightarrow> foldE add f ks = Inr f' \<Longrightarrow> k \<in> set ks \<Longrightarrow> query f' k = Inr True"
proof (induction ks arbitrary: f)
  case (Cons j ks)
  from Cons.prems obtain g where g: "add f j = Inr g" "foldE add g ks = Inr f'"
    by (auto simp: bindE_Inr_iff)
  from Cons.prems g(1) have "invar g" by (blast intro: invar_add)
  moreover from Cons.prems g(1) have "query g j = Inr True" by (blast intro: query_added)
  ultimately show ?case
    using Cons g by (auto intro: query_all_kept)
qed simp

end

section \<open>The filter of the code is such a filter\<close>

definition bloom_wf :: "bloom \<Rightarrow> bool" where
  "bloom_wf bf \<longleftrightarrow> unat (bloom_m bf) = 8 * length (bitset bf) \<and> 0 < length (bitset bf)"

definition bit_at :: "bytes \<Rightarrow> 64 word \<Rightarrow> bool" where
  "bit_at bs pos \<longleftrightarrow> bit (bs ! unat (pos div 8)) (unat (pos mod 8))"

lemma bitPos_in_range:
  assumes "bloom_wf bf"
  shows "bloom_m bf \<noteq> 0" and "unat (bitPos h i (bloom_m bf) div 8) < length (bitset bf)"
proof -
  from assms show m: "bloom_m bf \<noteq> 0" by (auto simp: bloom_wf_def)
  have "unat (bitPos h i (bloom_m bf)) < 8 * length (bitset bf)"
    using assms m by (simp add: bitPos_def Let_def unat_mod bloom_wf_def)
  then show "unat (bitPos h i (bloom_m bf) div 8) < length (bitset bf)"
    by (simp add: unat_div less_mult_imp_div_less mult.commute)
qed

lemma set_bit_at_wf:
  assumes "bloom_wf bf"
  obtains bf' where "set_bit_at h bf i = Inr bf'" "bloom_wf bf'"
    "bloom_m bf' = bloom_m bf" "bloom_k bf' = bloom_k bf" "length (bitset bf') = length (bitset bf)"
    "\<And>p. unat (p div 8) < length (bitset bf) \<Longrightarrow>
       bit_at (bitset bf') p = (bit_at (bitset bf) p \<or> p = bitPos h i (bloom_m bf))"
proof -
  let ?p = "bitPos h i (bloom_m bf)"
  let ?bf = "bf\<lparr>bitset := (bitset bf)[unat (?p div 8) :=
      bitset bf ! unat (?p div 8) OR push_bit (unat (?p mod 8)) 1]\<rparr>"
  have eq: "p = ?p" if "unat (p div 8) = unat (?p div 8)" "unat (p mod 8) = unat (?p mod 8)" for p
    using that by (metis word_mod_div_equality unat_eq_nat_uint word_unat_eq_iff)
  have small: "unat (p mod 8) < 8" for p :: "64 word"
    by (simp add: unat_mod)
  have "bit_at (bitset ?bf) p = (bit_at (bitset bf) p \<or> p = ?p)"
    if "unat (p div 8) < length (bitset bf)" for p
    using that eq [of p] small [of p] bitPos_in_range(1) [OF assms] bitPos_in_range(2) [OF assms, of h i]
    by (auto simp: bit_at_def nth_list_update bit_or_iff bit_exp_iff)
  moreover have "set_bit_at h bf i = Inr ?bf"
    using bitPos_in_range(1) [OF assms] bitPos_in_range(2) [OF assms, of h i] by (simp add: set_bit_at_def Let_def)
  ultimately show thesis
    using assms by (intro that [of ?bf]) (auto simp: bloom_wf_def)
qed

lemma bits_set_wf:
  assumes "bloom_wf bf"
  shows "bits_set h bf is = Inr (\<forall>i \<in> set is. bit_at (bitset bf) (bitPos h i (bloom_m bf)))"
proof (induction "is")
  case (Cons i "is")
  let ?p = "bitPos h i (bloom_m bf)"
  have "(bitset bf ! unat (?p div 8) AND push_bit (unat (?p mod 8)) 1 = 0) = (\<not> bit_at (bitset bf) ?p)"
    by (simp add: bit_at_def and_exp_eq_0_iff_not_bit)
  with Cons bitPos_in_range(1) [OF assms] bitPos_in_range(2) [OF assms, of h i] show ?case
    by (simp add: Let_def)
qed simp

text \<open>Setting the bits of a list of probes sets exactly these bits.\<close>

lemma set_bits_wf:
  assumes "bloom_wf bf"
  shows "\<exists>bf'. foldE (set_bit_at h) bf is = Inr bf' \<and> bloom_wf bf' \<and>
    bloom_m bf' = bloom_m bf \<and> bloom_k bf' = bloom_k bf \<and> length (bitset bf') = length (bitset bf) \<and>
    (\<forall>p. unat (p div 8) < length (bitset bf) \<longrightarrow>
       bit_at (bitset bf') p = (bit_at (bitset bf) p \<or> p \<in> (\<lambda>i. bitPos h i (bloom_m bf)) ` set is))"
  using assms
proof (induction "is" arbitrary: bf)
  case (Cons i "is")
  from set_bit_at_wf [OF Cons.prems, of h i] obtain bf1 where
    1: "set_bit_at h bf i = Inr bf1" "bloom_wf bf1" "bloom_m bf1 = bloom_m bf"
      "bloom_k bf1 = bloom_k bf" "length (bitset bf1) = length (bitset bf)"
      "\<And>p. unat (p div 8) < length (bitset bf) \<Longrightarrow>
         bit_at (bitset bf1) p = (bit_at (bitset bf) p \<or> p = bitPos h i (bloom_m bf))"
    by metis
  from Cons.IH [OF 1(2)] 1 show ?case by auto
qed simp

lemma bloom_Add_wf:
  assumes "bloom_wf bf"
  obtains bf' where "bloom_Add sum64 bf key = Inr bf'" "bloom_wf bf'"
    "bloom_m bf' = bloom_m bf" "bloom_k bf' = bloom_k bf" "length (bitset bf') = length (bitset bf)"
    "\<And>p. unat (p div 8) < length (bitset bf) \<Longrightarrow> bit_at (bitset bf') p =
      (bit_at (bitset bf) p \<or> (\<exists>i < unat (bloom_k bf). p = bitPos (sum64 key) i (bloom_m bf)))"
proof -
  from set_bits_wf [OF assms, of "sum64 key" "[0..<unat (bloom_k bf)]"] obtain bf' where
    "bloom_Add sum64 bf key = Inr bf'" "bloom_wf bf'"
    "bloom_m bf' = bloom_m bf" "bloom_k bf' = bloom_k bf" "length (bitset bf') = length (bitset bf)"
    "\<forall>p. unat (p div 8) < length (bitset bf) \<longrightarrow> bit_at (bitset bf') p = (bit_at (bitset bf) p \<or>
       p \<in> (\<lambda>i. bitPos (sum64 key) i (bloom_m bf)) ` set [0..<unat (bloom_k bf)])"
    unfolding bloom_Add_def by blast
  then show thesis by (intro that [of bf']) (auto simp: image_iff)
qed

lemma bloom_MaybeContains_wf:
  "bloom_wf bf \<Longrightarrow> bloom_MaybeContains sum64 bf key =
     Inr (\<forall>i < unat (bloom_k bf). bit_at (bitset bf) (bitPos (sum64 key) i (bloom_m bf)))"
  by (auto simp: bloom_MaybeContains_def bits_set_wf)

interpretation bloom: membership_filter "bloom_Add sum64" "bloom_MaybeContains sum64" bloom_wf
proof unfold_locales
  fix f :: bloom and k assume wf: "bloom_wf f"
  show "\<exists>f'. bloom_Add sum64 f k = Inr f' \<and> bloom_wf f'"
    by (rule bloom_Add_wf [OF wf, of sum64 k]) blast
  show "\<exists>b. bloom_MaybeContains sum64 f k = Inr b"
    using wf by (simp add: bloom_MaybeContains_wf)
next
  fix f f' :: bloom and k j
  assume wf: "bloom_wf f" and add: "bloom_Add sum64 f k = Inr f'"
  show "bloom_MaybeContains sum64 f' k = Inr True"
    by (rule bloom_Add_wf [OF wf, of sum64 k])
      (use add bitPos_in_range [OF wf] in \<open>auto simp: bloom_MaybeContains_wf\<close>)
  assume "bloom_MaybeContains sum64 f j = Inr True"
  with wf add show "bloom_MaybeContains sum64 f' j = Inr True"
    by (rule_tac bloom_Add_wf [OF wf, of sum64 k])
      (use bitPos_in_range [OF wf] in \<open>auto simp: bloom_MaybeContains_wf\<close>)
qed

section \<open>Creation and reloading\<close>

lemma bloom_New_bytes:
  assumes "n < 2 ^ 59"
  shows "length (bitset (bloom_New n)) = (nat (max 1 n) * 10 + 7) div 8"
proof -
  define k where "k = nat (max 1 n)"
  have k: "max 1 n = int k" "k < 2 ^ 59" "1 \<le> k" using assms by (auto simp: k_def)
  have "(if n < 1 then 1 else n) = int k" using k(1) by (simp add: max_def split: if_splits)
  moreover have "unat ((word_of_int (int k * 10) + 7 :: 64 word) div 8) = (k * 10 + 7) div 8"
  proof -
    have "word_of_int (int k * 10) + 7 = (word_of_nat (k * 10 + 7) :: 64 word)" by simp
    moreover have "unat (word_of_nat (k * 10 + 7) :: 64 word) = k * 10 + 7"
      using k(2) by (intro unat_len64) simp
    ultimately show ?thesis by (simp add: unat_div)
  qed
  ultimately show ?thesis by (simp add: bloom_New_def Let_def k_def)
qed

lemma bloom_New_wf [wf_intros]:
  assumes "n < 2 ^ 59"
  shows "bloom_wf (bloom_New n)"
proof -
  let ?b = "(word_of_int ((if n < 1 then 1 else n) * 10) + 7 :: 64 word) div 8"
  have len: "unat ?b = (nat (max 1 n) * 10 + 7) div 8"
    using bloom_New_bytes [OF assms] by (simp add: bloom_New_def Let_def)
  have "nat (max 1 n) < 576460752303423488" "1 \<le> nat (max 1 n)" using assms by auto
  then have "(nat (max 1 n) * 10 + 7) div 8 * 8 < 2 ^ 64" "0 < (nat (max 1 n) * 10 + 7) div 8"
    by simp_all
  with len have "unat ?b * 8 < 2 ^ 64" "0 < unat ?b" by simp_all
  moreover have "unat (?b * 8) = unat ?b * 8"
    using unat_mult_lem [of ?b 8] \<open>unat ?b * 8 < 2 ^ 64\<close> by simp
  ultimately show ?thesis by (simp add: bloom_wf_def bloom_New_def Let_def)
qed

text \<open>
  The reader loads the filter from the bytes the builder wrote: the size in bits is a
  multiple of 8, so the loaded filter is the written one, bit for bit.
\<close>

lemma bloom_Load_Bytes:
  assumes "bloom_wf bf" and "bloom_k bf = 7"
  shows "bloom_Load (bloom_Bytes bf) = bf"
proof -
  have "word_of_nat (length (bitset bf) * 8) = (word_of_nat (unat (bloom_m bf)) :: 64 word)"
    using assms(1) by (simp add: bloom_wf_def mult.commute)
  then have "word_of_nat (length (bitset bf) * 8) = bloom_m bf" by simp
  with assms(2) show ?thesis by (simp add: bloom_Load_def bloom_Bytes_def)
qed

lemma bloom_adds_k:
  "bloom_wf bf \<Longrightarrow> foldE (bloom_Add sum64) bf ks = Inr bf' \<Longrightarrow> bloom_k bf' = bloom_k bf"
proof (induction ks arbitrary: bf)
  case (Cons k ks)
  from Cons.prems(2) obtain bf1 where 1: "bloom_Add sum64 bf k = Inr bf1" "foldE (bloom_Add sum64) bf1 ks = Inr bf'"
    by (auto simp: bindE_Inr_iff)
  have "bloom_wf bf1 \<and> bloom_k bf1 = bloom_k bf"
    by (rule bloom_Add_wf [OF Cons.prems(1), of sum64 k]) (use 1(1) in simp)
  with Cons.IH [OF _ 1(2)] show ?case by simp
qed simp

section \<open>Properties\<close>

text \<open>
  C26: The Bloom filter of a table has no false negatives: adding any keys to a new filter
  succeeds, and the filter loaded from its bytes answers yes for each of them, whatever the
  hash function; it answers for every key.
\<close>

theorem bloom_loaded_no_false_negatives:
  assumes "n < 2 ^ 59"
  shows "\<exists>bf. foldE (bloom_Add sum64) (bloom_New n) ks = Inr bf \<and>
    (\<forall>k \<in> set ks. bloom_MaybeContains sum64 (bloom_Load (bloom_Bytes bf)) k = Inr True) \<and>
    (\<forall>k. \<exists>c. bloom_MaybeContains sum64 (bloom_Load (bloom_Bytes bf)) k = Inr c)"
proof -
  note wf = bloom_New_wf [OF assms]
  from bloom.add_all_total [OF wf] obtain bf where
    bf: "foldE (bloom_Add sum64) (bloom_New n) ks = Inr bf" "bloom_wf bf" by blast
  have "bloom_k bf = 7" using bloom_adds_k [OF wf bf(1)] by (simp add: bloom_New_def Let_def)
  with bf bloom.no_false_negatives [OF wf bf(1)] bloom.query_total [OF bf(2)] show ?thesis
    by (auto simp: bloom_Load_Bytes)
qed

theorem bloom_loaded_no_false_negatives_witness:
  "\<exists>bf. foldE (bloom_Add (\<lambda>k. word_of_nat (length k))) (bloom_New 2) [[97], [98, 99]] = Inr bf \<and>
     bloom_MaybeContains (\<lambda>k. word_of_nat (length k)) (bloom_Load (bloom_Bytes bf)) [98, 99] = Inr True"
  using bloom_loaded_no_false_negatives [of 2 "\<lambda>k. word_of_nat (length k)" "[[97], [98, 99]]"] by auto

end
