(* ===== verification/Sstable_Builder.thy ===== *)
theory Sstable_Builder
  imports Bloom
begin

text \<open>
  The SSTable writer of \<^verbatim>\<open>sstable/builder.go\<close>. A table file is the entries in key order, a
  sparse index with one entry per block of more than 4 KB, the Bloom filter, and a 16-byte footer
  with the offsets of the last two. Writes go to a file with a quota, so that each write of
  the code has its error branch; \<open>Sync\<close> and \<open>Close\<close> of the file are taken to succeed.
  The lemmas give the bytes a successful build produces and the invariant that relates the
  sparse index to the entries written so far.
\<close>

definition blockSize :: int where "blockSize = 4 * 1024"

record index_entry =
  ie_key :: bytes
  ie_Offset :: int \<comment> \<open>\<open>int64\<close>\<close>

record builder =
  b_File :: gofile
  b_index :: "index_entry list"
  b_filter :: bloom
  b_currentOffset :: int
  b_blockStart :: int

definition NewBuilder :: "nat \<Rightarrow> int \<Rightarrow> builder" where
  "NewBuilder device_quota keyCount =
     \<lparr>b_File = \<lparr>content = [], quota = device_quota\<rparr>, b_index = [], b_filter = bloom_New keyCount,
      b_currentOffset = 0, b_blockStart = 0\<rparr>"

text \<open>The key, the value and whether it is a tombstone.\<close>

type_synonym sst_entry = "bytes \<times> bytes \<times> bool"

text \<open>What one \<open>Add\<close> writes: the header, the two lengths, the key, and the value of a put.\<close>

fun entry_chunks :: "sst_entry \<Rightarrow> bytes list" where
  "entry_chunks (key, val, isTombstone) =
     (let header = (if isTombstone then 1 else 0);
          valLen = (if isTombstone then 0 else length val);
          lenBuf = PutUint16 (word_of_nat (length key)) @ PutUint32 (word_of_nat valLen)
      in [[header], lenBuf, key] @ (if isTombstone then [] else [val]))"

definition builder_Add ::
  "(bytes \<Rightarrow> 64 word) \<Rightarrow> builder \<Rightarrow> sst_entry \<Rightarrow> go_error option \<times> builder" where
  "builder_Add sum64 b e =
     (case e of (key, val, isTombstone) \<Rightarrow>
      case bloom_Add sum64 (b_filter b) key of
        Inl err \<Rightarrow> (Some err, b)
      | Inr filter' \<Rightarrow>
        let b = b\<lparr>b_filter := filter'\<rparr>;
            b = (if b_currentOffset b = 0 \<or> b_currentOffset b - b_blockStart b > blockSize
                 then b\<lparr>b_index := b_index b @ [\<lparr>ie_key = key, ie_Offset = b_currentOffset b\<rparr>],
                        b_blockStart := b_currentOffset b\<rparr>
                 else b);
            valLen = (if isTombstone then 0 else length val);
            entrySize = int (1 + 2 + 4 + length key + valLen)
        in case file_Writes (b_File b) (entry_chunks (key, val, isTombstone)) of
             (Some err, f) \<Rightarrow> (Some err, b\<lparr>b_File := f\<rparr>)
           | (None, f) \<Rightarrow> (None, b\<lparr>b_File := f, b_currentOffset := b_currentOffset b + entrySize\<rparr>))"

text \<open>The loop of \<open>Close\<close> over the index: \<open>[KeyLen(2)][KeyBytes][Offset(8)]\<close> per entry.\<close>

fun write_index :: "builder \<Rightarrow> index_entry list \<Rightarrow> go_error option \<times> builder" where
  "write_index b [] = (None, b)"
| "write_index b (entry # es) =
     (case file_Writes (b_File b)
             [PutUint16 (word_of_nat (length (ie_key entry))), ie_key entry,
              PutUint64 (word_of_int (ie_Offset entry))] of
        (Some err, f) \<Rightarrow> (Some err, b\<lparr>b_File := f\<rparr>)
      | (None, f) \<Rightarrow>
          write_index (b\<lparr>b_File := f,
            b_currentOffset := b_currentOffset b + int (2 + length (ie_key entry) + 8)\<rparr>) es)"

definition builder_Close :: "builder \<Rightarrow> go_error option \<times> builder" where
  "builder_Close b =
     (let indexStartOffset = b_currentOffset b in
      case write_index b (b_index b) of
        (Some err, b) \<Rightarrow> (Some err, b)
      | (None, b) \<Rightarrow>
        let filterStartOffset = b_currentOffset b;
            filterBytes = bloom_Bytes (b_filter b)
        in case file_Write (b_File b) filterBytes of
             (Some err, f) \<Rightarrow> (Some err, b\<lparr>b_File := f\<rparr>)
           | (None, f) \<Rightarrow>
             let b = b\<lparr>b_File := f, b_currentOffset := b_currentOffset b + int (length filterBytes)\<rparr>
             in case file_Write (b_File b)
                       (PutUint64 (word_of_int indexStartOffset) @
                        PutUint64 (word_of_int filterStartOffset)) of
                  (Some err, f) \<Rightarrow> (Some err, b\<lparr>b_File := f\<rparr>)
                | (None, f) \<Rightarrow> (None, b\<lparr>b_File := f\<rparr>))"

text \<open>Adding a list of entries, stopping at the first error: the loops of the two clients.\<close>

fun builder_AddAll ::
  "(bytes \<Rightarrow> 64 word) \<Rightarrow> builder \<Rightarrow> sst_entry list \<Rightarrow> go_error option \<times> builder" where
  "builder_AddAll sum64 b [] = (None, b)"
| "builder_AddAll sum64 b (e # es) =
     (case builder_Add sum64 b e of
        (Some err, b') \<Rightarrow> (Some err, b')
      | (None, b') \<Rightarrow> builder_AddAll sum64 b' es)"

section \<open>The bytes of a table\<close>

fun enc_entry :: "sst_entry \<Rightarrow> bytes" where
  "enc_entry (key, val, isTombstone) =
     (if isTombstone then 1 else 0) # PutUint16 (word_of_nat (length key)) @
     PutUint32 (word_of_nat (if isTombstone then 0 else length val)) @ key @
     (if isTombstone then [] else val)"

definition enc_index_entry :: "index_entry \<Rightarrow> bytes" where
  "enc_index_entry ie = PutUint16 (word_of_nat (length (ie_key ie))) @ ie_key ie @
     PutUint64 (word_of_int (ie_Offset ie))"

abbreviation enc_entries :: "sst_entry list \<Rightarrow> bytes" where
  "enc_entries es \<equiv> concat (map enc_entry es)"

abbreviation enc_index :: "index_entry list \<Rightarrow> bytes" where
  "enc_index is \<equiv> concat (map enc_index_entry is)"

text \<open>Entries whose lengths fit their length fields, and a tombstone has no value.\<close>

fun entry_ok :: "sst_entry \<Rightarrow> bool" where
  "entry_ok (key, val, isTombstone) \<longleftrightarrow>
     length key < 2 ^ 16 \<and> length val < 2 ^ 32 \<and> (isTombstone \<longrightarrow> val = [])"

definition keys_of :: "sst_entry list \<Rightarrow> bytes list" where
  "keys_of es = map fst es"

lemma keys_of_simps [simp]:
  "keys_of [] = []" "keys_of (e # es) = fst e # keys_of es"
  "keys_of (es @ fs) = keys_of es @ keys_of fs" "length (keys_of es) = length es"
  by (simp_all add: keys_of_def)

lemma length_enc_entry:
  "length (enc_entry (key, val, t)) = 7 + length key + (if t then 0 else length val)"
  by simp

lemma enc_entry_nonempty [simp]: "enc_entry e \<noteq> []"
  by (cases e) simp

text \<open>
  How the two readers of the format take an encoded entry apart, read by read: the header,
  the six bytes of lengths, the key.
\<close>

definition entry_lens :: "sst_entry \<Rightarrow> bytes" where
  "entry_lens e = (case e of (key, val, t) \<Rightarrow>
     PutUint16 (word_of_nat (length key)) @ PutUint32 (word_of_nat (if t then 0 else length val)))"

lemma entry_reads:
  "stream_Read (enc_entry (key, val, t) @ rest) 1 =
     Inr ([if t then 1 else 0], entry_lens (key, val, t) @ key @ (if t then [] else val) @ rest)"
  "stream_Read (entry_lens e @ r) 6 = Inr (entry_lens e, r)"
  by (simp_all add: stream_Read_def entry_lens_def split: prod.splits)

lemma entry_lens_decode:
  assumes "entry_ok (key, val, t)"
  shows "unat (Uint16 (take 2 (entry_lens (key, val, t)))) = length key"
    and "unat (Uint32 (take 4 (drop 2 (entry_lens (key, val, t))))) = (if t then 0 else length val)"
  using assms by (simp_all add: entry_lens_def)

section \<open>The sparse index while building\<close>

text \<open>
  After the entries \<open>es\<close> have been added without error: the file holds exactly their
  encodings, the offset is its length, every index entry points at the start of the entry
  with its key, the index keys are the keys of a subsequence of the entries, and the first
  entry is indexed.
\<close>

definition indexed_at :: "sst_entry list \<Rightarrow> index_entry \<Rightarrow> bool" where
  "indexed_at es ie \<longleftrightarrow> (\<exists>pre e post. es = pre @ e # post \<and> ie_key ie = fst e \<and>
     ie_Offset ie = int (length (enc_entries pre)))"

definition builder_inv :: "sst_entry list \<Rightarrow> builder \<Rightarrow> bool" where
  "builder_inv es b \<longleftrightarrow>
     content (b_File b) = enc_entries es \<and>
     b_currentOffset b = int (length (enc_entries es)) \<and>
     (\<forall>ie \<in> set (b_index b). indexed_at es ie) \<and>
     sorted_wrt (<) (map ie_Offset (b_index b)) \<and>
     (\<forall>ie \<in> set (b_index b). ie_Offset ie < b_currentOffset b) \<and>
     (es \<noteq> [] \<longrightarrow> (\<exists>ie is. b_index b = ie # is \<and> ie_Offset ie = 0)) \<and>
     (es = [] \<longrightarrow> b_index b = []) \<and>
     bloom_wf (b_filter b) \<and> bloom_k (b_filter b) = 7"

lemma enc_entries_snoc: "enc_entries (es @ [e]) = enc_entries es @ enc_entry e"
  by simp

lemma indexed_at_snoc:
  "indexed_at es ie \<Longrightarrow> indexed_at (es @ [e]) ie"
  "ie_key ie = fst e \<Longrightarrow> ie_Offset ie = int (length (enc_entries es)) \<Longrightarrow> indexed_at (es @ [e]) ie"
proof -
  assume "indexed_at es ie"
  then obtain pre f post where "es = pre @ f # post" "ie_key ie = fst f"
    "ie_Offset ie = int (length (enc_entries pre))"
    unfolding indexed_at_def by blast
  then have "es @ [e] = pre @ f # (post @ [e]) \<and> ie_key ie = fst f \<and>
    ie_Offset ie = int (length (enc_entries pre))" by simp
  then show "indexed_at (es @ [e]) ie" unfolding indexed_at_def by blast
next
  assume "ie_key ie = fst e" "ie_Offset ie = int (length (enc_entries es))"
  then have "es @ [e] = es @ e # [] \<and> ie_key ie = fst e \<and>
    ie_Offset ie = int (length (enc_entries es))" by simp
  then show "indexed_at (es @ [e]) ie" unfolding indexed_at_def by blast
qed

lemma builder_inv_New:
  assumes "keyCount < 2 ^ 59"
  shows "builder_inv [] (NewBuilder q keyCount)"
  using bloom_New_wf [OF assms]
  by (simp add: builder_inv_def NewBuilder_def) (simp add: bloom_New_def Let_def)

lemma concat_entry_chunks [simp]: "concat (entry_chunks e) = enc_entry e"
  by (cases e) (simp add: Let_def)

declare enc_entry.simps [simp del] entry_chunks.simps [simp del]

text \<open>The state of the builder after the sparse-index step of an \<open>Add\<close>.\<close>

definition index_step :: "builder \<Rightarrow> bytes \<Rightarrow> bloom \<Rightarrow> builder" where
  "index_step b key filter' =
     (if b_currentOffset b = 0 \<or> b_currentOffset b - b_blockStart b > blockSize
      then b\<lparr>b_filter := filter',
             b_index := b_index b @ [\<lparr>ie_key = key, ie_Offset = b_currentOffset b\<rparr>],
             b_blockStart := b_currentOffset b\<rparr>
      else b\<lparr>b_filter := filter'\<rparr>)"

lemma builder_Add_unfold:
  assumes "bloom_Add sum64 (b_filter b) (fst e) = Inr filter'"
  shows "builder_Add sum64 b e =
    (case file_Writes (b_File b) (entry_chunks e) of
       (Some err, f) \<Rightarrow> (Some err, (index_step b (fst e) filter')\<lparr>b_File := f\<rparr>)
     | (None, f) \<Rightarrow> (None, (index_step b (fst e) filter')\<lparr>b_File := f,
         b_currentOffset := b_currentOffset b + int (length (enc_entry e))\<rparr>))"
proof (cases e)
  case (fields key val t)
  with assms show ?thesis
    by (cases t) (auto simp: builder_Add_def index_step_def Let_def length_enc_entry
        split: prod.splits option.splits)
qed

lemma builder_Add_None:
  assumes "bloom_Add sum64 (b_filter b) (fst e) = Inr filter'"
    and "length (enc_entry e) \<le> quota (b_File b)"
  shows "builder_Add sum64 b e = (None, (index_step b (fst e) filter')\<lparr>
    b_File := \<lparr>content = content (b_File b) @ enc_entry e, quota = quota (b_File b) - length (enc_entry e)\<rparr>,
    b_currentOffset := b_currentOffset b + int (length (enc_entry e))\<rparr>)"
  using assms by (simp add: builder_Add_unfold file_Writes_enough)

lemma builder_Add_None_quota:
  assumes "bloom_Add sum64 (b_filter b) (fst e) = Inr filter'" and "builder_Add sum64 b e = (None, b')"
  shows "length (enc_entry e) \<le> quota (b_File b)"
  using assms
  by (auto simp: builder_Add_unfold dest!: file_Writes_None split: prod.splits option.splits)

lemma builder_inv_Add:
  assumes inv: "builder_inv es b"
    and bloom: "bloom_Add sum64 (b_filter b) (fst e) = Inr filter'"
  shows "builder_inv (es @ [e]) ((index_step b (fst e) filter')\<lparr>
    b_File := \<lparr>content = content (b_File b) @ enc_entry e, quota = q\<rparr>,
    b_currentOffset := b_currentOffset b + int (length (enc_entry e))\<rparr>)"
proof -
  have wf: "bloom_wf (b_filter b)" and k: "bloom_k (b_filter b) = 7"
    using inv by (auto simp: builder_inv_def)
  have flt: "bloom_wf filter'" "bloom_k filter' = 7"
    by (rule bloom_Add_wf [OF wf, of sum64 "fst e"], use bloom k in simp)+
  have empty: "b_currentOffset b = 0 \<longleftrightarrow> es = []"
    using inv by (cases es) (auto simp: builder_inv_def)
  have len: "0 < length (enc_entry e)" by simp
  note snoc = indexed_at_snoc [where es = es and e = e]
  show ?thesis
  proof (cases "es = []")
    case True
    with inv flt empty len snoc(2) [of "\<lparr>ie_key = fst e, ie_Offset = 0\<rparr>"] show ?thesis
      by (simp add: builder_inv_def index_step_def)
  next
    case False
    with inv obtain ie "is" where idx: "b_index b = ie # is" "ie_Offset ie = 0"
      by (auto simp: builder_inv_def)
    with False inv flt empty len snoc(1)
      snoc(2) [of "\<lparr>ie_key = fst e, ie_Offset = b_currentOffset b\<rparr>"] show ?thesis
      by (auto simp: builder_inv_def index_step_def sorted_wrt_append)
  qed
qed

lemma builder_AddAll_inv:
  assumes "builder_inv es b" and "builder_AddAll sum64 b fs = (None, b')"
  shows "builder_inv (es @ fs) b' \<and>
    foldE (bloom_Add sum64) (b_filter b) (keys_of fs) = Inr (b_filter b')"
  using assms
proof (induction fs arbitrary: es b)
  case (Cons f fs)
  from Cons.prems(1) have wf: "bloom_wf (b_filter b)" by (simp add: builder_inv_def)
  then obtain filter' where bl: "bloom_Add sum64 (b_filter b) (fst f) = Inr filter'"
    using bloom.add_total by blast
  from Cons.prems(2) obtain b1 where b1: "builder_Add sum64 b f = (None, b1)"
    and rest: "builder_AddAll sum64 b1 fs = (None, b')"
    by (auto split: prod.splits option.splits)
  from builder_Add_None [OF bl builder_Add_None_quota [OF bl b1]] b1
  have "builder_inv (es @ [f]) b1" "b_filter b1 = filter'"
    using builder_inv_Add [OF Cons.prems(1) bl] by (auto simp: index_step_def)
  with Cons.IH [OF _ rest, of "es @ [f]"] bl show ?case by simp
qed simp

lemma builder_AddAll_total:
  assumes "builder_inv es b" and "length (enc_entries fs) \<le> quota (b_File b)"
  shows "\<exists>b'. builder_AddAll sum64 b fs = (None, b') \<and>
    quota (b_File b') = quota (b_File b) - length (enc_entries fs)"
  using assms
proof (induction fs arbitrary: es b)
  case (Cons f fs)
  from Cons.prems(1) have wf: "bloom_wf (b_filter b)" by (simp add: builder_inv_def)
  then obtain filter' where bl: "bloom_Add sum64 (b_filter b) (fst f) = Inr filter'"
    using bloom.add_total by blast
  let ?b = "(index_step b (fst f) filter')\<lparr>b_File := \<lparr>content = content (b_File b) @ enc_entry f,
      quota = quota (b_File b) - length (enc_entry f)\<rparr>,
    b_currentOffset := b_currentOffset b + int (length (enc_entry f))\<rparr>"
  have "builder_Add sum64 b f = (None, ?b)"
    using Cons.prems(2) by (intro builder_Add_None [OF bl]) simp
  moreover have "\<exists>b'. builder_AddAll sum64 ?b fs = (None, b') \<and>
      quota (b_File b') = quota (b_File ?b) - length (enc_entries fs)"
    using Cons.prems(2) by (intro Cons.IH [OF builder_inv_Add [OF Cons.prems(1) bl]]) simp
  ultimately show ?case by auto
qed simp

section \<open>A finished table\<close>

text \<open>The bytes of a finished table with entries \<open>es\<close>, index \<open>idx\<close> and filter \<open>flt\<close>.\<close>

definition sst_meta :: "sst_entry list \<Rightarrow> index_entry list \<Rightarrow> bloom \<Rightarrow> bytes" where
  "sst_meta es idx flt = enc_index idx @ bloom_Bytes flt @
     PutUint64 (word_of_nat (length (enc_entries es))) @
     PutUint64 (word_of_nat (length (enc_entries es) + length (enc_index idx)))"

definition sst_file :: "sst_entry list \<Rightarrow> index_entry list \<Rightarrow> bloom \<Rightarrow> bytes" where
  "sst_file es idx flt = enc_entries es @ sst_meta es idx flt"

text \<open>Building a table in one go, as both clients do: create, add in order, close.\<close>

definition build_table ::
  "(bytes \<Rightarrow> 64 word) \<Rightarrow> nat \<Rightarrow> int \<Rightarrow> sst_entry list \<Rightarrow> go_error option \<times> builder" where
  "build_table sum64 device_quota keyCount es =
     (case builder_AddAll sum64 (NewBuilder device_quota keyCount) es of
        (Some err, b) \<Rightarrow> (Some err, b)
      | (None, b) \<Rightarrow> builder_Close b)"

lemma length_enc_index_entry: "length (enc_index_entry ie) = 10 + length (ie_key ie)"
  by (simp add: enc_index_entry_def)

lemma write_index_None:
  "write_index b is = (None, b') \<Longrightarrow>
     content (b_File b') = content (b_File b) @ enc_index is \<and>
     b_currentOffset b' = b_currentOffset b + int (length (enc_index is)) \<and>
     b_filter b' = b_filter b"
proof (induction "is" arbitrary: b)
  case (Cons ie "is")
  obtain err f where w: "file_Writes (b_File b) [PutUint16 (word_of_nat (length (ie_key ie))),
      ie_key ie, PutUint64 (word_of_int (ie_Offset ie))] = (err, f)" by fastforce
  with Cons.prems have "err = None" by (cases err) simp_all
  with w have "content f = content (b_File b) @ enc_index_entry ie"
    by (auto dest!: file_Writes_None simp: enc_index_entry_def simp del: file_Writes.simps)
  with Cons.IH Cons.prems w \<open>err = None\<close> show ?case
    by (auto simp: length_enc_index_entry simp del: file_Writes.simps)
qed simp

lemma write_index_total:
  "length (enc_index is) \<le> quota (b_File b) \<Longrightarrow>
     \<exists>b'. write_index b is = (None, b') \<and> quota (b_File b') = quota (b_File b) - length (enc_index is)"
proof (induction "is" arbitrary: b)
  case (Cons ie "is")
  let ?f = "(b_File b)\<lparr>content := content (b_File b) @ enc_index_entry ie,
      quota := quota (b_File b) - length (enc_index_entry ie)\<rparr>"
  let ?b = "b\<lparr>b_File := ?f, b_currentOffset := b_currentOffset b + int (2 + length (ie_key ie) + 8)\<rparr>"
  from Cons.prems have "file_Writes (b_File b) [PutUint16 (word_of_nat (length (ie_key ie))),
      ie_key ie, PutUint64 (word_of_int (ie_Offset ie))] = (None, ?f)"
    by (subst file_Writes_enough) (simp_all add: enc_index_entry_def)
  then have "write_index b (ie # is) = write_index ?b is"
    by (simp del: file_Writes.simps)
  moreover have "length (enc_index is) \<le> quota (b_File ?b)" using Cons.prems by simp
  ultimately show ?case using Cons.IH [of ?b] by simp
qed simp

lemma file_Write_None:
  "file_Write f bs = (None, f') \<Longrightarrow> content f' = content f @ bs"
  by (auto simp: file_Write_def split: if_splits)

lemma builder_Close_content:
  assumes "builder_inv es b" and "builder_Close b = (None, b')"
  shows "content (b_File b') = sst_file es (b_index b) (b_filter b)"
proof -
  from assms(2) obtain b1 f1 f2 where
    w: "write_index b (b_index b) = (None, b1)"
      "file_Write (b_File b1) (bloom_Bytes (b_filter b1)) = (None, f1)"
      "file_Write f1 (PutUint64 (word_of_int (b_currentOffset b)) @
         PutUint64 (word_of_int (b_currentOffset b1))) = (None, f2)"
      "b_File b' = f2"
    by (auto simp: builder_Close_def Let_def split: prod.splits option.splits)
  from assms(1) have "content (b_File b) = enc_entries es"
    "b_currentOffset b = int (length (enc_entries es))"
    by (simp_all add: builder_inv_def)
  with write_index_None [OF w(1)] file_Write_None [OF w(2)] file_Write_None [OF w(3)] w(4)
  show ?thesis by (simp add: sst_file_def sst_meta_def)
qed

lemma builder_Close_total:
  assumes "builder_inv es b"
    and "length (sst_meta es (b_index b) (b_filter b)) \<le> quota (b_File b)"
  shows "\<exists>b'. builder_Close b = (None, b')"
proof -
  from assms(2) obtain b1 where w: "write_index b (b_index b) = (None, b1)"
    and q: "quota (b_File b1) = quota (b_File b) - length (enc_index (b_index b))"
    using write_index_total [of "b_index b" b] by (auto simp: sst_meta_def)
  with assms(2) write_index_None [OF w] show ?thesis
    by (auto simp: builder_Close_def Let_def file_Write_def sst_meta_def)
qed

text \<open>What the reader needs to know of a finished table.\<close>

definition table_built ::
  "(bytes \<Rightarrow> 64 word) \<Rightarrow> sst_entry list \<Rightarrow> index_entry list \<Rightarrow> bloom \<Rightarrow> bool" where
  "table_built sum64 es idx flt \<longleftrightarrow>
     (\<forall>ie \<in> set idx. indexed_at es ie) \<and> sorted_wrt (<) (map ie_Offset idx) \<and>
     (es \<noteq> [] \<longrightarrow> idx \<noteq> [] \<and> ie_Offset (hd idx) = 0) \<and> (es = [] \<longrightarrow> idx = []) \<and>
     bloom_wf flt \<and> bloom_k flt = 7 \<and>
     (\<forall>k \<in> set (keys_of es). bloom_MaybeContains sum64 flt k = Inr True)"

lemma build_table_built:
  assumes "build_table sum64 q n es = (None, b')" and "n < 2 ^ 59"
  obtains idx flt where "content (b_File b') = sst_file es idx flt" "table_built sum64 es idx flt"
proof -
  from assms(1) obtain b where add: "builder_AddAll sum64 (NewBuilder q n) es = (None, b)"
    and close: "builder_Close b = (None, b')"
    by (auto simp: build_table_def split: prod.splits option.splits)
  from builder_AddAll_inv [OF builder_inv_New [OF assms(2)] add]
  have inv: "builder_inv es b"
    and bl: "foldE (bloom_Add sum64) (b_filter (NewBuilder q n)) (keys_of es) = Inr (b_filter b)"
    by simp_all
  have "bloom_wf (b_filter (NewBuilder q n))"
    using builder_inv_New [OF assms(2)] by (simp add: builder_inv_def)
  from bloom.no_false_negatives [OF this bl] inv
  have "table_built sum64 es (b_index b) (b_filter b)"
    by (cases "es = []") (auto simp: table_built_def builder_inv_def)
  with builder_Close_content [OF inv close] show thesis by (rule that)
qed

end
