(* ===== verification/Sstable_Reader.thy ===== *)
theory Sstable_Reader
  imports Sstable_Builder
begin

text \<open>
  The SSTable reader of \<^verbatim>\<open>sstable/reader.go\<close>: \<open>OpenSSTable\<close> parses the footer, the sparse
  index and the Bloom filter, \<open>Get\<close> asks the filter, searches the index and scans the file
  from the start of a block. The scan reads the file sequentially and only skips forward, so its
  state is the unread rest of the file. The lemmas relate it to the writer: an opened table
  has the written index and filter, and a scan over written entries finds exactly them.
\<close>

record reader =
  r_file :: bytes
  r_index :: "index_entry list"
  r_filter :: bloom
  r_filename :: string

text \<open>\<open>bytes.Reader.Read\<close>: unlike a file, it reports the end even for an empty buffer.\<close>

definition bytes_Reader_Read :: "bytes \<Rightarrow> nat \<Rightarrow> (bytes \<times> bytes) result" where
  "bytes_Reader_Read rest n =
     (if rest = [] then Inl ErrEOF
      else Inr (take n rest @ replicate (n - length rest) 0, drop n rest))"

lemma bytes_Reader_Read_shrinks:
  "bytes_Reader_Read rest n = Inr (b, r) \<Longrightarrow> length r \<le> length rest"
  by (auto simp: bytes_Reader_Read_def split: if_splits)

text \<open>One round of the loop that parses the index; \<open>None\<close> is one of its \<open>break\<close>s.\<close>

definition parse_index_entry :: "bytes \<Rightarrow> (index_entry \<times> bytes) option" where
  "parse_index_entry buf =
     (case stream_ReadFull buf 2 of Inl _ \<Rightarrow> None | Inr (kb, buf) \<Rightarrow>
      let kLen = unat (Uint16 kb) in
      case bytes_Reader_Read buf kLen of Inl _ \<Rightarrow> None | Inr (keyBytes, buf) \<Rightarrow>
      case stream_ReadFull buf 8 of Inl _ \<Rightarrow> None | Inr (ob, buf) \<Rightarrow>
      Some (\<lparr>ie_key = keyBytes, ie_Offset = sint (Uint64 ob)\<rparr>, buf))"

lemma parse_index_entry_shrinks:
  "parse_index_entry buf = Some (ie, buf') \<Longrightarrow> length buf' < length buf"
  by (auto simp: parse_index_entry_def Let_def split: sum.splits prod.splits
      dest!: stream_ReadFull_shrinks bytes_Reader_Read_shrinks)

function parse_index :: "bytes \<Rightarrow> index_entry list" where
  "parse_index buf =
     (if buf = [] then []
      else case parse_index_entry buf of
             None \<Rightarrow> []
           | Some (ie, buf') \<Rightarrow> ie # parse_index buf')"
  by pat_completeness auto
termination
  by (relation "measure length") (auto dest: parse_index_entry_shrinks)

declare parse_index.simps [simp del]

definition OpenSSTable :: "string \<Rightarrow> bytes \<Rightarrow> reader result" where
  "OpenSSTable filename f =
     (if length f < 16 then Inl (Errorf ''invalid ssTable: too small'')
      else let footer = drop (length f - 16) f;
               indexOffset = sint (Uint64 footer);
               filterOffset = sint (Uint64 (drop 8 footer));
               indexSize = filterOffset - indexOffset;
               filterSize = int (length f) - filterOffset - 16
           in if indexOffset < 0 then Inl ErrOS
              else if indexSize < 0 then Inl Panic
              else bindE (stream_Read (drop (nat indexOffset) f) (nat indexSize)) (\<lambda>(indexBytes, _).
                let index = parse_index indexBytes
                in if filterSize < 0 then Inl Panic
                   else if filterOffset < 0 then Inl ErrOS
                   else bindE (stream_Read (drop (nat filterOffset) f) (nat filterSize))
                     (\<lambda>(filterBytes, _).
                       Inr \<lparr>r_file = f, r_index = index, r_filter = bloom_Load filterBytes,
                            r_filename = filename\<rparr>)))"

text \<open>\<open>sort.Search\<close>: the least \<open>i\<close> in \<open>[lo, hi)\<close> with \<open>f i\<close>, by bisection.\<close>

function sort_Search :: "nat \<Rightarrow> nat \<Rightarrow> (nat \<Rightarrow> bool) \<Rightarrow> nat" where
  "sort_Search i j f =
     (if i < j then let h = (i + j) div 2
                    in if \<not> f h then sort_Search (h + 1) j f else sort_Search i h f
      else i)"
  by pat_completeness auto
termination
  by (relation "measure (\<lambda>(i, j, f). j - i)") auto

declare sort_Search.simps [simp del]

text \<open>
  One round of the scan: an error, or the decoded head of an entry (whether it is a
  tombstone, its value length and key) with the unread rest, or the end of the file.
\<close>

datatype scan_head = ScanEOF | ScanHead bool nat bytes bytes

definition scan_entry_head :: "bytes \<Rightarrow> scan_head result" where
  "scan_entry_head rest =
     (case stream_Read rest 1 of
        Inl err \<Rightarrow> if err = ErrEOF then Inr ScanEOF else Inl err
      | Inr (header, rest) \<Rightarrow>
        let isTombstone = (hd header = 1) in
        bindE (stream_Read rest 6) (\<lambda>(lenBuf, rest).
        let kLen = unat (Uint16 (take 2 lenBuf));
            vLen = unat (Uint32 (take 4 (drop 2 lenBuf)))
        in bindE (stream_Read rest kLen) (\<lambda>(keyBytes, rest).
           Inr (ScanHead isTombstone vLen keyBytes rest))))"

lemma scan_entry_head_shrinks:
  "scan_entry_head rest = Inr (ScanHead t v k rest') \<Longrightarrow> length rest' < length rest"
  by (auto simp: scan_entry_head_def Let_def bindE_Inr_iff split: sum.splits prod.splits if_splits
      dest!: stream_Read_shrinks)

function scan_block :: "bytes \<Rightarrow> bytes \<Rightarrow> (bytes \<times> bool \<times> bool) result" where
  "scan_block targetKey rest =
     (case scan_entry_head rest of
        Inl err \<Rightarrow> Inl err
      | Inr ScanEOF \<Rightarrow> Inr ([], False, False)
      | Inr (ScanHead isTombstone vLen currentKey rest') \<Rightarrow>
          if currentKey = targetKey
          then if isTombstone then Inr ([], True, True)
               else bindE (stream_Read rest' vLen) (\<lambda>(valBytes, _). Inr (valBytes, False, True))
          else if currentKey > targetKey then Inr ([], False, False)
          else if \<not> isTombstone then scan_block targetKey (drop vLen rest')
          else scan_block targetKey rest')"
  by pat_completeness auto
termination
  by (relation "measure (\<lambda>(t, rest). length rest)") (auto dest: scan_entry_head_shrinks)

declare scan_block.simps [simp del]

text \<open>The result is the value, whether it is a tombstone, and whether the key was found.\<close>

definition reader_Get ::
  "(bytes \<Rightarrow> 64 word) \<Rightarrow> reader \<Rightarrow> bytes \<Rightarrow> (bytes \<times> bool \<times> bool) result" where
  "reader_Get sum64 r targetKey =
     bindE (bloom_MaybeContains sum64 (r_filter r) targetKey) (\<lambda>maybe.
       if \<not> maybe then Inr ([], False, False)
       else let idx = sort_Search 0 (length (r_index r)) (\<lambda>i. ie_key (r_index r ! i) > targetKey)
            in if idx = 0 then Inr ([], False, False)
               else let blockStart = ie_Offset (r_index r ! (idx - 1))
                    in if blockStart < 0 then Inl ErrOS
                       else scan_block targetKey (drop (nat blockStart) (r_file r)))"

section \<open>Bisection\<close>

lemma sort_Search_done [simp]: "sort_Search i i f = i"
  by (simp add: sort_Search.simps)

lemma sort_Search_spec:
  assumes "i \<le> j" and "\<And>a b. a \<le> b \<Longrightarrow> b < j \<Longrightarrow> f a \<Longrightarrow> f b" and "\<And>a. a < i \<Longrightarrow> \<not> f a"
  shows "sort_Search i j f \<le> j \<and> (\<forall>a < sort_Search i j f. \<not> f a) \<and>
    (\<forall>a. sort_Search i j f \<le> a \<longrightarrow> a < j \<longrightarrow> f a)"
  using assms
proof (induction i j f rule: sort_Search.induct)
  case (1 i j f)
  show ?case
  proof (cases "i < j")
    case False
    with "1.prems" show ?thesis by simp
  next
    case True
    define h where "h = (i + j) div 2"
    have h: "i \<le> h" "h < j" using True by (auto simp: h_def)
    show ?thesis
    proof (cases "f h")
      case False
      have "sort_Search (h + 1) j f \<le> j \<and> (\<forall>a < sort_Search (h + 1) j f. \<not> f a) \<and>
          (\<forall>a. sort_Search (h + 1) j f \<le> a \<longrightarrow> a < j \<longrightarrow> f a)"
      proof (rule "1.IH"(1) [OF True h_def False])
        show "h + 1 \<le> j" using h by simp
        show "f b" if "a \<le> b" "b < j" "f a" for a b using that by (rule "1.prems"(2))
        show "\<not> f a" if "a < h + 1" for a
          using that False "1.prems"(2) [of a h] h(2) by auto
      qed
      with True False show ?thesis by (simp add: sort_Search.simps [of i j f] h_def Let_def)
    next
      case fh: True
      have "sort_Search i h f \<le> h \<and> (\<forall>a < sort_Search i h f. \<not> f a) \<and>
          (\<forall>a. sort_Search i h f \<le> a \<longrightarrow> a < h \<longrightarrow> f a)"
      proof (rule "1.IH"(2) [OF True h_def])
        show "\<not> \<not> f h" using fh by simp
        show "i \<le> h" by (rule h(1))
        show "f b" if "a \<le> b" "b < h" "f a" for a b using that h(2) by (intro "1.prems"(2) [of a b]) auto
        show "\<not> f a" if "a < i" for a using that by (rule "1.prems"(3))
      qed
      moreover have "f a" if "h \<le> a" "a < j" for a
        using that fh "1.prems"(2) by blast
      ultimately have "sort_Search i h f \<le> j \<and> (\<forall>a < sort_Search i h f. \<not> f a) \<and>
          (\<forall>a. sort_Search i h f \<le> a \<longrightarrow> a < j \<longrightarrow> f a)"
        using h by (meson le_less_linear less_imp_le order_trans)
      with True fh show ?thesis by (simp add: sort_Search.simps [of i j f] h_def Let_def)
    qed
  qed
qed

section \<open>Scanning written entries\<close>

lemma scan_entry_head_enc:
  assumes "entry_ok (key, val, t)"
  shows "scan_entry_head (enc_entry (key, val, t) @ rest) =
    Inr (ScanHead t (if t then 0 else length val) key ((if t then [] else val) @ rest))"
  using entry_reads(1) [of key val t rest] entry_lens_decode [OF assms]
  by (simp add: scan_entry_head_def Let_def entry_reads(2))

lemma scan_block_enc:
  "entry_ok (key, val, t) \<Longrightarrow> scan_block target (enc_entry (key, val, t) @ rest) =
     (if key = target then Inr (if t then ([], True, True) else (val, False, True))
      else if target < key then Inr ([], False, False) else scan_block target rest)"
  by (subst scan_block.simps) (auto simp: scan_entry_head_enc)

text \<open>
  A scan over entries in key order stops at the key, or at the first larger key, or runs on
  into whatever follows the entries.
\<close>

lemma scan_block_entries:
  assumes "\<forall>e \<in> set es. entry_ok e" and "sorted_wrt (<) (keys_of es)"
  shows "scan_block target (enc_entries es @ rest) =
    (case map_of es target of
       Some (v, t) \<Rightarrow> Inr (if t then ([], True, True) else (v, False, True))
     | None \<Rightarrow> if \<exists>k \<in> set (keys_of es). target < k then Inr ([], False, False)
               else scan_block target rest)"
  using assms
proof (induction es)
  case (Cons e es)
  obtain key val t where e: "e = (key, val, t)" by (cases e)
  have sorted: "\<forall>k \<in> set (keys_of es). key < k" using Cons.prems(2) by (simp add: e)
  then have "key \<notin> fst ` set es" by (auto simp: keys_of_def)
  then have none: "map_of es key = None" by (simp add: map_of_eq_None_iff)
  consider (eq) "key = target" | (gt) "target < key" | (lt) "key < target" by fastforce
  then show ?case
  proof cases
    case eq
    with Cons.prems e show ?thesis
      by (simp add: scan_block_enc)
  next
    case gt
    with sorted have "target \<notin> fst ` set es" by (force simp: keys_of_def)
    then have "map_of es target = None" by (simp add: map_of_eq_None_iff)
    with gt Cons.prems e show ?thesis
      by (auto simp: scan_block_enc)
  next
    case lt
    then have "scan_block target (enc_entries (e # es) @ rest) = scan_block target (enc_entries es @ rest)"
      using Cons.prems e by (auto simp: scan_block_enc)
    with lt Cons e show ?thesis by (auto split: option.splits)
  qed
qed simp

section \<open>Opening a written table\<close>

lemma parse_index_entry_enc:
  assumes "length (ie_key ie) < 2 ^ 16" and "0 \<le> ie_Offset ie" and "ie_Offset ie < 2 ^ 63"
  shows "parse_index_entry (enc_index_entry ie @ rest) = Some (ie, rest)"
proof -
  have "sint (word_of_int (ie_Offset ie) :: 64 word) = ie_Offset ie"
    using assms by (simp add: signed_of_int signed_take_bit_int_eq_self)
  moreover have "bytes_Reader_Read (ie_key ie @ PutUint64 off @ rest) (length (ie_key ie)) =
      Inr (ie_key ie, PutUint64 off @ rest)" for off
    by (simp add: bytes_Reader_Read_def)
  ultimately show ?thesis
    using assms(1) by (simp add: parse_index_entry_def enc_index_entry_def Let_def)
qed

lemma parse_index_enc:
  assumes "\<forall>ie \<in> set idx. length (ie_key ie) < 2 ^ 16 \<and> 0 \<le> ie_Offset ie \<and> ie_Offset ie < 2 ^ 63"
  shows "parse_index (enc_index idx) = idx"
  using assms
proof (induction idx)
  case Nil
  then show ?case by (simp add: parse_index.simps)
next
  case (Cons ie idx)
  have "enc_index_entry ie \<noteq> []" using length_enc_index_entry [of ie] by auto
  with Cons show ?case
    by (simp add: parse_index.simps [of "enc_index_entry ie @ enc_index idx"] parse_index_entry_enc)
qed

lemma indexed_at_bounds:
  assumes "indexed_at es ie" and "\<forall>e \<in> set es. entry_ok e"
  shows "length (ie_key ie) < 2 ^ 16" "0 \<le> ie_Offset ie" "ie_Offset ie < int (length (enc_entries es))"
  using assms unfolding indexed_at_def by (auto simp: length_enc_entry)

lemma OpenSSTable_file:
  assumes built: "table_built sum64 es idx flt" and ok: "\<forall>e \<in> set es. entry_ok e"
    and size: "length (sst_file es idx flt) < 2 ^ 63"
  shows "OpenSSTable fn (sst_file es idx flt) = Inr \<lparr>r_file = sst_file es idx flt, r_index = idx,
    r_filter = flt, r_filename = fn\<rparr>"
proof -
  let ?f = "sst_file es idx flt" and ?a = "length (enc_entries es)" and ?b = "length (enc_index idx)"
  let ?footer = "PutUint64 (word_of_nat ?a) @ PutUint64 (word_of_nat (?a + ?b))"
  have f: "?f = enc_entries es @ enc_index idx @ bloom_Bytes flt @ ?footer"
    by (simp add: sst_file_def sst_meta_def)
  then have len: "length ?f = ?a + ?b + length (bloom_Bytes flt) + 16" by simp
  have footer: "drop (length ?f - 16) ?f = ?footer" unfolding len f by simp
  have sint: "sint (word_of_nat n :: 64 word) = int n" if "n < 2 ^ 63" for n
    using that by (simp add: signed_of_nat signed_take_bit_int_eq_self)
  from len size have ab: "sint (word_of_nat ?a :: 64 word) = int ?a"
    "sint (word_of_nat (?a + ?b) :: 64 word) = int (?a + ?b)"
    by (intro sint; simp)+
  have idx: "parse_index (enc_index idx) = idx"
    using built ok indexed_at_bounds len size
    by (intro parse_index_enc ballI) (fastforce simp: table_built_def)
  have r1: "stream_Read (drop ?a ?f) ?b = Inr (enc_index idx, bloom_Bytes flt @ ?footer)"
    unfolding f by simp
  have r2: "stream_Read (drop (?a + ?b) ?f) (length (bloom_Bytes flt)) = Inr (bloom_Bytes flt, ?footer)"
    unfolding f by simp
  have "bloom_Load (bloom_Bytes flt) = flt"
    using built by (simp add: bloom_Load_Bytes table_built_def)
  moreover have u: "Uint64 (drop (length ?f - 16) ?f) = word_of_nat ?a"
    "Uint64 (drop 8 (drop (length ?f - 16) ?f)) = word_of_nat (?a + ?b)"
    unfolding footer by simp_all
  moreover have "nat (int (?a + ?b) - int ?a) = ?b"
    "nat (int (length ?f) - int (?a + ?b) - 16) = length (bloom_Bytes flt)" using len by simp_all
  ultimately show ?thesis
    unfolding OpenSSTable_def Let_def u ab using len by (simp add: idx r1 r2 nat_add_distrib)
qed

section \<open>Looking a key up in a written table\<close>

lemma enc_entries_prefix_length:
  assumes "es = pre @ x" and "es = pre' @ y" and "length (enc_entries pre) < length (enc_entries pre')"
  shows "length pre < length pre'"
proof (rule ccontr)
  assume "\<not> length pre < length pre'"
  with assms(1,2) obtain z where "pre = pre' @ z" by (auto simp: append_eq_append_conv_if) (metis append_take_drop_id)
  with assms(3) show False by simp
qed

lemma indexed_at_order:
  assumes "indexed_at es ie" and "indexed_at es ie'" and "ie_Offset ie < ie_Offset ie'"
    and "sorted_wrt (<) (keys_of es)"
  shows "ie_key ie < ie_key ie'"
proof -
  from assms(1,2) obtain pre e post pre' e' post' where
    1: "es = pre @ e # post" "ie_key ie = fst e" "ie_Offset ie = int (length (enc_entries pre))" and
    2: "es = pre' @ e' # post'" "ie_key ie' = fst e'" "ie_Offset ie' = int (length (enc_entries pre'))"
    unfolding indexed_at_def by blast
  have "length pre < length pre'"
    using 1 2 assms(3) by (intro enc_entries_prefix_length [OF 1(1) 2(1)]) simp
  moreover have "keys_of es ! length pre = fst e" "keys_of es ! length pre' = fst e'"
    "length pre' < length (keys_of es)"
    using arg_cong [OF 1(1), of "\<lambda>l. keys_of l ! length pre"]
      arg_cong [OF 2(1), of "\<lambda>l. keys_of l ! length pre'"] arg_cong [OF 2(1), of length]
    by (simp_all add: nth_append)
  ultimately show ?thesis
    using assms(4) 1(2) 2(2) by (metis sorted_wrt_nth_less)
qed

lemma index_search:
  assumes built: "table_built sum64 es idx flt" and sorted: "sorted_wrt (<) (keys_of es)"
    and s: "s = sort_Search 0 (length idx) (\<lambda>i. ie_key (idx ! i) > target)"
  shows "s \<le> length idx" and "0 < s \<Longrightarrow> ie_key (idx ! (s - 1)) \<le> target"
    and "s = 0 \<Longrightarrow> idx \<noteq> [] \<Longrightarrow> target < ie_key (hd idx)"
proof -
  have "ie_key (idx ! a) \<le> ie_key (idx ! b)" if "a \<le> b" "b < length idx" for a b
  proof (cases "a = b")
    case False
    with that built have "ie_Offset (idx ! a) < ie_Offset (idx ! b)"
      by (auto simp: table_built_def sorted_wrt_iff_nth_less)
    with that built show ?thesis
      by (intro less_imp_le indexed_at_order [OF _ _ _ sorted]) (auto simp: table_built_def)
  qed simp
  then have spec: "s \<le> length idx \<and> (\<forall>a < s. \<not> ie_key (idx ! a) > target) \<and>
      (\<forall>a. s \<le> a \<longrightarrow> a < length idx \<longrightarrow> ie_key (idx ! a) > target)"
    unfolding s by (intro sort_Search_spec) (auto intro: less_le_trans)
  then show "s \<le> length idx" by simp
  show "ie_key (idx ! (s - 1)) \<le> target" if "0 < s" using spec that by (simp add: not_less)
  show "target < ie_key (hd idx)" if "s = 0" "idx \<noteq> []" using spec that by (auto simp: hd_conv_nth)
qed

text \<open>
  The whole lookup, once the filter lets the key through: the entry of the key; or nothing
  if the table has a larger key; otherwise the scan leaves the entries and reads on in the
  index section.
\<close>

lemma reader_Get_built:
  assumes built: "table_built sum64 es idx flt" and ok: "\<forall>e \<in> set es. entry_ok e"
    and sorted: "sorted_wrt (<) (keys_of es)"
    and bloom: "bloom_MaybeContains sum64 flt target = Inr True"
  shows "reader_Get sum64 \<lparr>r_file = sst_file es idx flt, r_index = idx, r_filter = flt,
      r_filename = fn\<rparr> target =
    (case map_of es target of
       Some (v, t) \<Rightarrow> Inr (if t then ([], True, True) else (v, False, True))
     | None \<Rightarrow> if es = [] \<or> (\<exists>k \<in> set (keys_of es). target < k) then Inr ([], False, False)
               else scan_block target (sst_meta es idx flt))"
proof -
  define s where "s = sort_Search 0 (length idx) (\<lambda>i. ie_key (idx ! i) > target)"
  note search = index_search [OF built sorted s_def]
  show ?thesis
  proof (cases "s = 0")
    case True
    have "es = [] \<or> (\<forall>k \<in> set (keys_of es). target < k)"
    proof (cases "es = []")
      case False
      with built have h: "idx \<noteq> []" "ie_Offset (hd idx) = 0" "indexed_at es (hd idx)"
        by (auto simp: table_built_def)
      then obtain pre e post where "es = pre @ e # post" "ie_key (hd idx) = fst e"
        "length (enc_entries pre) = 0"
        unfolding indexed_at_def by auto
      moreover from this have "pre = []" by (cases pre) simp_all
      ultimately have "es = e # post" "ie_key (hd idx) = fst e" by simp_all
      with search(3) [OF True h(1)] sorted show ?thesis by (auto intro: less_trans)
    qed simp
    moreover from this have "map_of es target = None"
      by (auto simp: map_of_eq_None_iff keys_of_def)
    ultimately show ?thesis
      using True bloom by (cases es) (auto simp: reader_Get_def Let_def simp flip: s_def)
  next
    case False
    let ?ie = "idx ! (s - 1)"
    have "?ie \<in> set idx" using search(1) False by simp
    then obtain pre e post where e: "es = pre @ e # post" "ie_key ?ie = fst e"
      "ie_Offset ?ie = int (length (enc_entries pre))"
      using built unfolding table_built_def indexed_at_def by blast
    have le: "fst e \<le> target" using search(2) False e(2) by simp
    have drop: "drop (nat (ie_Offset ?ie)) (sst_file es idx flt) =
        enc_entries (e # post) @ sst_meta es idx flt"
      unfolding sst_file_def e(1) e(3) [unfolded e(1)] by simp
    have pre: "\<forall>k \<in> set (keys_of pre). k < target"
      using sorted le e(1) by (auto simp: sorted_wrt_append intro: less_le_trans)
    then have "map_of pre target = None" by (auto simp: map_of_eq_None_iff keys_of_def)
    then have m: "map_of es target = map_of (e # post) target"
      unfolding e(1) map_of_append by (simp add: map_add_def del: map_of.simps)
    have ex: "(\<exists>k \<in> set (keys_of es). target < k) = (\<exists>k \<in> set (keys_of (e # post)). target < k)"
      using pre e(1) by (auto dest: less_trans)
    have scan: "scan_block target (enc_entries (e # post) @ sst_meta es idx flt) =
      (case map_of (e # post) target of
         Some (v, t) \<Rightarrow> Inr (if t then ([], True, True) else (v, False, True))
       | None \<Rightarrow> if \<exists>k \<in> set (keys_of (e # post)). target < k then Inr ([], False, False)
                 else scan_block target (sst_meta es idx flt))"
      using ok sorted e(1) by (intro scan_block_entries) (auto simp: sorted_wrt_append)
    have get: "reader_Get sum64 \<lparr>r_file = sst_file es idx flt, r_index = idx, r_filter = flt,
        r_filename = fn\<rparr> target = scan_block target (drop (nat (ie_Offset ?ie)) (sst_file es idx flt))"
      using False bloom e(3) by (simp add: reader_Get_def Let_def flip: s_def)
    have "es \<noteq> []" using e(1) by simp
    then show ?thesis unfolding get drop scan m ex by (simp only: simp_thms)
  qed
qed

end
