(* ===== verification/Sstable_Iterator.thy ===== *)
theory Sstable_Iterator
  imports Sstable_Reader
begin

text \<open>
  The sequential reader of \<^verbatim>\<open>sstable/iterator.go\<close> that compaction uses. Its file handle is
  modelled by the unread rest of the file. \<open>Next\<close> has no notion of where the entries end:
  the lemmas show that it returns the written entries in order and then goes on decoding the
  index, the filter and the footer as if they were entries, until a read fails.
\<close>

record sst_iter =
  it_file :: bytes
  it_fileSize :: nat
  it_Key :: bytes
  it_Value :: bytes
  it_IsTombstone :: bool
  it_Valid :: bool
  it_err :: "go_error option"

definition iter_Next :: "sst_iter \<Rightarrow> sst_iter" where
  "iter_Next it =
     (if \<not> it_Valid it then it
      else case stream_Read (it_file it) 1 of
        Inl err \<Rightarrow> it\<lparr>it_Valid := False, it_err := (if err \<noteq> ErrEOF then Some err else it_err it)\<rparr>
      | Inr (header, rest) \<Rightarrow>
        let it = it\<lparr>it_file := rest, it_IsTombstone := (hd header = 1)\<rparr> in
        case stream_Read rest 6 of
          Inl _ \<Rightarrow> it\<lparr>it_Valid := False\<rparr>
        | Inr (lenBuf, rest) \<Rightarrow>
          let it = it\<lparr>it_file := rest\<rparr>;
              kLen = unat (Uint16 (take 2 lenBuf));
              vLen = unat (Uint32 (take 4 (drop 2 lenBuf)))
          in case stream_Read rest kLen of
               Inl _ \<Rightarrow> it\<lparr>it_Valid := False\<rparr>
             | Inr (keyBytes, rest) \<Rightarrow>
               let it = it\<lparr>it_file := rest, it_Key := keyBytes\<rparr> in
               if it_IsTombstone it then it\<lparr>it_Value := []\<rparr>
               else case stream_Read rest vLen of
                      Inl _ \<Rightarrow> it\<lparr>it_Valid := False\<rparr>
                    | Inr (valBytes, rest) \<Rightarrow> it\<lparr>it_file := rest, it_Value := valBytes\<rparr>)"

definition NewIterator :: "bytes \<Rightarrow> sst_iter" where
  "NewIterator f = iter_Next \<lparr>it_file = f, it_fileSize = length f, it_Key = [], it_Value = [],
     it_IsTombstone = False, it_Valid = True, it_err = None\<rparr>"

definition it_entry :: "sst_iter \<Rightarrow> sst_entry" where
  "it_entry it = (it_Key it, it_Value it, it_IsTombstone it)"

section \<open>Iteration ends\<close>

definition iter_measure :: "sst_iter \<Rightarrow> nat" where
  "iter_measure it = (if it_Valid it then Suc (length (it_file it)) else 0)"

lemma iter_Next_decreases: "it_Valid it \<Longrightarrow> iter_measure (iter_Next it) < iter_measure it"
  by (auto simp: iter_Next_def iter_measure_def Let_def split: sum.splits prod.splits
      dest!: stream_Read_shrinks)

lemma iter_Next_invalid [simp]: "\<not> it_Valid it \<Longrightarrow> iter_Next it = it"
  by (simp add: iter_Next_def)

text \<open>Everything an iterator still yields, its current entry first.\<close>

function iter_stream :: "sst_iter \<Rightarrow> sst_entry list" where
  "iter_stream it = (if it_Valid it then it_entry it # iter_stream (iter_Next it) else [])"
  by pat_completeness auto
termination
  by (relation "measure iter_measure") (simp_all add: iter_Next_decreases)

declare iter_stream.simps [simp del]

lemma iter_stream_simps [simp]:
  "\<not> it_Valid it \<Longrightarrow> iter_stream it = []"
  "it_Valid it \<Longrightarrow> iter_stream it = it_entry it # iter_stream (iter_Next it)"
  by (simp_all add: iter_stream.simps)

lemma iter_stream_eq_Nil [simp]: "iter_stream it = [] \<longleftrightarrow> \<not> it_Valid it"
  by (cases "it_Valid it") simp_all

text \<open>What \<open>Next\<close> reads depends only on the unread rest of the file.\<close>

lemma iter_Next_same:
  assumes "it_Valid it" and "it_Valid jt" and "it_file it = it_file jt"
  shows "it_Valid (iter_Next it) = it_Valid (iter_Next jt)"
    and "it_file (iter_Next it) = it_file (iter_Next jt)"
    and "it_Valid (iter_Next it) \<Longrightarrow> it_entry (iter_Next it) = it_entry (iter_Next jt)"
  using assms
  by (auto simp: iter_Next_def it_entry_def Let_def split: sum.splits prod.splits)

lemma iter_stream_Next_same:
  assumes "it_Valid it" and "it_Valid jt" and "it_file it = it_file jt"
  shows "iter_stream (iter_Next it) = iter_stream (iter_Next jt)"
  using assms
proof (induction "iter_measure it" arbitrary: it jt rule: less_induct)
  case less
  note same = iter_Next_same [OF less.prems]
  show ?case
  proof (cases "it_Valid (iter_Next it)")
    case True
    with same less.prems(1) show ?thesis
      using less.hyps [of "iter_Next it" "iter_Next jt"] iter_Next_decreases [of it] by simp
  next
    case False
    with same(1) show ?thesis by simp
  qed
qed

lemma iter_stream_NewIterator:
  "it_Valid it \<Longrightarrow> iter_stream (iter_Next it) = iter_stream (NewIterator (it_file it))"
  unfolding NewIterator_def by (rule iter_stream_Next_same) simp_all

section \<open>Reading written entries\<close>

lemma iter_Next_enc:
  assumes "it_Valid it" and "it_file it = enc_entry e @ rest" and "entry_ok e"
  shows "it_Valid (iter_Next it)" "it_entry (iter_Next it) = e" "it_file (iter_Next it) = rest"
proof -
  obtain key val t where e: "e = (key, val, t)" by (cases e)
  from entry_reads(1) [of key val t rest] entry_lens_decode [of key val t] assms
  show "it_Valid (iter_Next it)" "it_entry (iter_Next it) = e" "it_file (iter_Next it) = rest"
    by (cases t; auto simp: e iter_Next_def Let_def entry_reads(2) it_entry_def)+
qed

text \<open>The first record of a byte string, as the iterator reads it.\<close>

definition iter_decode :: "bytes \<Rightarrow> (sst_entry \<times> bytes) option" where
  "iter_decode bs = (let it = NewIterator bs in
     if it_Valid it then Some (it_entry it, it_file it) else None)"

interpretation sst_codec: record_codec enc_entry iter_decode entry_ok
  by unfold_locales (simp add: iter_decode_def NewIterator_def Let_def iter_Next_enc)

lemma iter_stream_entries:
  assumes "\<forall>e \<in> set es. entry_ok e"
  shows "iter_stream (NewIterator (enc_entries es @ rest)) = es @ iter_stream (NewIterator rest)"
  using assms
proof (induction es)
  case (Cons e es)
  let ?it = "NewIterator (enc_entries (e # es) @ rest)"
  have "it_Valid ?it" "it_entry ?it = e" "it_file ?it = enc_entries es @ rest"
    using Cons.prems unfolding NewIterator_def
    by (simp_all add: iter_Next_enc [where e = e and rest = "enc_entries es @ rest"])
  with Cons show ?case by (simp add: iter_stream_NewIterator)
qed simp

section \<open>What follows the entries\<close>

text \<open>
  The bytes after the entries start with the first index entry: the length of the first
  key, the key, its offset. The iterator takes the low length byte for a header, the high one
  and the first five bytes of the key for the lengths of a key and a value.
\<close>

lemma sst_meta_first:
  assumes "table_built sum64 es idx flt" and "es \<noteq> []"
  shows "\<exists>more. sst_meta es idx flt =
    PutUint16 (word_of_nat (length (fst (hd es)))) @ fst (hd es) @ PutUint64 0 @ more \<and> 17 \<le> length more"
proof -
  from assms obtain ie "is" where idx: "idx = ie # is" and off: "ie_Offset ie = 0"
    and "indexed_at es ie" and len: "0 < length (bitset flt)"
    by (cases idx) (auto simp: table_built_def bloom_wf_def)
  then obtain pre e post where e: "es = pre @ e # post" "ie_key ie = fst e"
    "length (enc_entries pre) = 0"
    unfolding indexed_at_def by auto
  moreover from this have "pre = []" by (cases pre) simp_all
  ultimately have key: "ie_key ie = fst (hd es)" by simp
  have "1 \<le> length (bloom_Bytes flt)" using len by (simp add: bloom_Bytes_def Suc_le_eq)
  then show ?thesis by (auto simp: sst_meta_def idx enc_index_entry_def off key)
qed

text \<open>
  The iteration ends with the entries if the first key has between 5 and 255 bytes, its
  first byte is large enough for the bogus key length to reach the end of the file, and its
  next four bytes are not all zero.
\<close>

lemma iter_stops_after_entries:
  assumes built: "table_built sum64 es idx flt" and es: "es = (b # v1 # v2 # v3 # v4 # key, val, t) # es'"
    and len: "length key < 251" and long: "length (sst_meta es idx flt) \<le> 7 + 256 * unat b"
    and nz: "le_nat [v1, v2, v3, v4] \<noteq> 0"
  shows "iter_stream (NewIterator (sst_meta es idx flt)) = []"
proof -
  define n where "n = length key + 5"
  have n: "5 \<le> n" "n < 256" using len by (simp_all add: n_def)
  obtain more where meta: "sst_meta es idx flt =
      PutUint16 (word_of_nat n) @ (b # v1 # v2 # v3 # v4 # key) @ more" and m: "25 \<le> length more"
    using sst_meta_first [OF built] es by (auto simp: n_def add.commute)
  have p: "PutUint16 (word_of_nat n) = [word_of_nat n, 0]"
    using n by (intro PutUint16_small)
  have hd: "word_of_nat n \<noteq> (1 :: byte)"
    using n by (simp add: word_unat_eq_iff unat_of_nat)
  have lens: "unat (Uint16 [0, b]) = 256 * unat b"
    "unat (Uint32 [v1, v2, v3, v4]) = le_nat [v1, v2, v3, v4]"
    by (simp_all add: unat_Uint16 unat_Uint32)
  have r1: "stream_Read (sst_meta es idx flt) 1 =
      Inr ([word_of_nat n], 0 # b # v1 # v2 # v3 # v4 # key @ more)"
    unfolding meta p by (simp add: stream_Read_def)
  have r2: "stream_Read (0 # b # v1 # v2 # v3 # v4 # key @ more) 6 =
      Inr ([0, b, v1, v2, v3, v4], key @ more)"
    by (simp add: stream_Read_def)
  have "length (key @ more) \<le> 256 * unat b" "key @ more \<noteq> []"
    using long m unfolding meta p by auto
  then obtain kb where r3: "stream_Read (key @ more) (256 * unat b) = Inr (kb, [])"
    using stream_Read_to_end by blast
  have r4: "stream_Read [] (le_nat [v1, v2, v3, v4]) = Inl ErrEOF"
    using nz by (simp add: stream_Read_def)
  have "\<not> it_Valid (NewIterator (sst_meta es idx flt))"
    by (simp add: NewIterator_def iter_Next_def Let_def r1 [simplified] r2 r3 r4 lens hd del: le_nat.simps)
  then show ?thesis by simp
qed

text \<open>
  If the first key has exactly one byte, the iterator always yields a spurious tombstone
  after the entries.
\<close>

lemma iter_runs_past_entries:
  assumes "table_built sum64 es idx flt" and "es = ([b], val, t) # es'"
  shows "\<exists>key more. iter_stream (NewIterator (sst_meta es idx flt)) = (key, [], True) # more"
proof -
  obtain more where meta: "sst_meta es idx flt = PutUint16 1 @ [b] @ more" and m: "25 \<le> length more"
    using sst_meta_first [OF assms(1)] assms(2) by auto
  have p: "PutUint16 1 = [1, 0]" by (simp add: PutUint16_def numeral_2_eq_2)
  have r1: "stream_Read (sst_meta es idx flt) 1 = Inr ([1], 0 # b # more)"
    unfolding meta p by (simp add: stream_Read_def)
  have r2: "stream_Read (0 # b # more) 6 = Inr (0 # b # take 4 more, drop 4 more)"
    using m by (simp add: stream_Read_def)
  obtain kb r where r3: "stream_Read (drop 4 more) (unat (Uint16 [0, b])) = Inr (kb, r)"
    using m stream_Read_total [of "drop 4 more" "unat (Uint16 [0, b])"] by auto
  have "it_Valid (NewIterator (sst_meta es idx flt))"
    "it_entry (NewIterator (sst_meta es idx flt)) = (kb, [], True)"
    by (simp_all add: NewIterator_def iter_Next_def Let_def it_entry_def r1 [simplified] r2 r3)
  then show ?thesis by auto
qed

end
