(* ===== verification/Sstable_Table.thy ===== *)
theory Sstable_Table
  imports Sstable_Iterator
begin

text \<open>
  A table from building to reading: what the store relies on when it flushes a memtable with
  the builder (\<^verbatim>\<open>sstable/builder.go\<close>), opens the file again (\<^verbatim>\<open>sstable/reader.go\<close>) and
  looks keys up or iterates over it (\<^verbatim>\<open>sstable/iterator.go\<close>). The murmur3 hash is the
  parameter \<open>sum64\<close>; every result holds for any such function.
\<close>

section \<open>Space\<close>

text \<open>How many bytes a table with these entries needs at most.\<close>

definition index_bound :: "sst_entry list \<Rightarrow> nat" where
  "index_bound es = sum_list (map (\<lambda>e. 10 + length (fst e)) es)"

definition table_bound :: "int \<Rightarrow> sst_entry list \<Rightarrow> nat" where
  "table_bound n es = length (enc_entries es) + index_bound es + (nat (max 1 n) * 10 + 7) div 8 + 16"

lemma builder_Add_index_bound:
  assumes "bloom_Add sum64 (b_filter b) (fst e) = Inr filter'" and "builder_Add sum64 b e = (None, b')"
  shows "length (enc_index (b_index b')) \<le> length (enc_index (b_index b)) + (10 + length (fst e))"
  using builder_Add_None [OF assms(1) builder_Add_None_quota [OF assms]] assms(2)
  by (auto simp: index_step_def length_enc_index_entry)

lemma builder_Add_filter_length:
  assumes "bloom_wf (b_filter b)" and "bloom_Add sum64 (b_filter b) (fst e) = Inr filter'"
    and "builder_Add sum64 b e = (None, b')"
  shows "length (bitset (b_filter b')) = length (bitset (b_filter b))"
proof -
  have "b_filter b' = filter'"
    using builder_Add_None [OF assms(2) builder_Add_None_quota [OF assms(2,3)]] assms(3)
    by (auto simp: index_step_def)
  moreover have "length (bitset filter') = length (bitset (b_filter b))"
    by (rule bloom_Add_wf [OF assms(1), of sum64 "fst e"]) (use assms(2) in simp)
  ultimately show ?thesis by simp
qed

lemma builder_AddAll_bound:
  assumes "builder_inv es b" and "builder_AddAll sum64 b fs = (None, b')"
  shows "length (enc_index (b_index b')) \<le> length (enc_index (b_index b)) + index_bound fs \<and>
    length (bitset (b_filter b')) = length (bitset (b_filter b))"
  using assms
proof (induction fs arbitrary: es b)
  case (Cons f fs)
  from Cons.prems(1) have wf: "bloom_wf (b_filter b)" by (simp add: builder_inv_def)
  then obtain filter' where bl: "bloom_Add sum64 (b_filter b) (fst f) = Inr filter'"
    using bloom.add_total by blast
  from Cons.prems(2) obtain b1 where b1: "builder_Add sum64 b f = (None, b1)"
    and rest: "builder_AddAll sum64 b1 fs = (None, b')"
    by (auto split: prod.splits option.splits)
  have "builder_AddAll sum64 b [f] = (None, b1)" using b1 by simp
  from builder_AddAll_inv [OF Cons.prems(1) this] have "builder_inv (es @ [f]) b1" by simp
  from Cons.IH [OF this rest] builder_Add_index_bound [OF bl b1] builder_Add_filter_length [OF wf bl b1]
  show ?case by (simp add: index_bound_def)
qed (simp add: index_bound_def)

text \<open>The sizes after all entries have been added to a new builder.\<close>

lemma build_sizes:
  assumes "n < 2 ^ 59" and "builder_AddAll sum64 (NewBuilder q n) es = (None, b)"
  shows "length (sst_file es (b_index b) (b_filter b)) \<le> table_bound n es"
    and "length (sst_meta es (b_index b) (b_filter b)) \<le> table_bound n es - length (enc_entries es)"
proof -
  have "b_index (NewBuilder q n) = []" "b_filter (NewBuilder q n) = bloom_New n"
    by (simp_all add: NewBuilder_def)
  with builder_AddAll_bound [OF builder_inv_New [OF assms(1)] assms(2)] bloom_New_bytes [OF assms(1)]
  have "length (enc_index (b_index b)) \<le> index_bound es"
    "length (bitset (b_filter b)) = (nat (max 1 n) * 10 + 7) div 8"
    by simp_all
  then show "length (sst_file es (b_index b) (b_filter b)) \<le> table_bound n es"
    and "length (sst_meta es (b_index b) (b_filter b)) \<le> table_bound n es - length (enc_entries es)"
    by (simp_all add: sst_file_def sst_meta_def bloom_Bytes_def table_bound_def)
qed

lemma build_table_total:
  assumes "n < 2 ^ 59" and "table_bound n es \<le> q"
  shows "\<exists>b. build_table sum64 q n es = (None, b)"
proof -
  note inv0 = builder_inv_New [OF assms(1), of q]
  have q0: "quota (b_File (NewBuilder q n)) = q" by (simp add: NewBuilder_def)
  then obtain b where b: "builder_AddAll sum64 (NewBuilder q n) es = (None, b)"
    and q: "quota (b_File b) = q - length (enc_entries es)"
    using builder_AddAll_total [OF inv0, of es sum64] assms(2) by (auto simp: table_bound_def)
  from builder_AddAll_inv [OF inv0 b] have inv: "builder_inv es b" by simp
  have "length (sst_meta es (b_index b) (b_filter b)) \<le> quota (b_File b)"
    using build_sizes(2) [OF assms(1) b] diff_le_mono [OF assms(2), of "length (enc_entries es)"]
    unfolding q by (rule order_trans)
  from builder_Close_total [OF inv this] b show ?thesis by (auto simp: build_table_def)
qed

lemma build_table_small:
  assumes "build_table sum64 q n es = (None, b')" and "n < 2 ^ 59"
  shows "length (content (b_File b')) \<le> table_bound n es"
proof -
  from assms(1) obtain b where add: "builder_AddAll sum64 (NewBuilder q n) es = (None, b)"
    and close: "builder_Close b = (None, b')"
    by (auto simp: build_table_def split: prod.splits option.splits)
  from builder_AddAll_inv [OF builder_inv_New [OF assms(2)] add] have "builder_inv es b" by simp
  from builder_Close_content [OF this close] build_sizes(1) [OF assms(2) add] show ?thesis by simp
qed

section \<open>Lookups in an opened table\<close>

lemma reader_Get_filtered:
  assumes "bloom_MaybeContains sum64 (r_filter r) target = Inr False"
  shows "reader_Get sum64 r target = Inr ([], False, False)"
  using assms by (simp add: reader_Get_def)

lemma reader_Get_absent:
  assumes built: "table_built sum64 es idx flt" and "\<forall>e \<in> set es. entry_ok e"
    and "sorted_wrt (<) (keys_of es)"
    and "target \<notin> set (keys_of es)" and "\<exists>k \<in> set (keys_of es). target < k"
  shows "reader_Get sum64 \<lparr>r_file = sst_file es idx flt, r_index = idx, r_filter = flt,
      r_filename = fn\<rparr> target = Inr ([], False, False)"
proof -
  have "map_of es target = None" using assms(4) by (simp add: map_of_eq_None_iff keys_of_def)
  moreover have "\<exists>c. bloom_MaybeContains sum64 flt target = Inr c"
    using built by (intro bloom.query_total) (simp add: table_built_def)
  then obtain c where "bloom_MaybeContains sum64 flt target = Inr c" by blast
  ultimately show ?thesis
    using reader_Get_built [OF assms(1-3), of target fn] assms(5)
    by (cases c) (auto simp: reader_Get_filtered)
qed

lemma reader_Get_present:
  assumes built: "table_built sum64 es idx flt" and "\<forall>e \<in> set es. entry_ok e"
    and "sorted_wrt (<) (keys_of es)" and m: "map_of es target = Some (v, t)"
  shows "reader_Get sum64 \<lparr>r_file = sst_file es idx flt, r_index = idx, r_filter = flt,
      r_filename = fn\<rparr> target = Inr (if t then ([], True, True) else (v, False, True))"
proof -
  have "target \<in> set (keys_of es)" using m by (force simp: keys_of_def dest: map_of_SomeD)
  with built have "bloom_MaybeContains sum64 flt target = Inr True" by (simp add: table_built_def)
  from reader_Get_built [OF assms(1-3) this, of fn] m show ?thesis by simp
qed

section \<open>Properties\<close>

text \<open>
  C4: A table that was built without error from entries in strictly increasing key order opens
  again, and a lookup then returns exactly the entry of a key that was added (its value, or
  the tombstone), and "not found" for every other key below the table's last key. The bounds
  are the widths of the length fields and Go's signed 64-bit offsets.
\<close>

theorem table_roundtrip:
  assumes "build_table sum64 q n es = (None, b)" and "n < 2 ^ 59"
    and "\<forall>e \<in> set es. entry_ok e" and "sorted_wrt (<) (keys_of es)"
    and "table_bound n es < 2 ^ 63"
  shows "\<exists>r. OpenSSTable fn (content (b_File b)) = Inr r \<and>
    (\<forall>k v t. map_of es k = Some (v, t) \<longrightarrow>
       reader_Get sum64 r k = Inr (if t then ([], True, True) else (v, False, True))) \<and>
    (\<forall>k. k \<notin> set (keys_of es) \<and> (\<exists>j \<in> set (keys_of es). k < j) \<longrightarrow>
       reader_Get sum64 r k = Inr ([], False, False))"
proof -
  from build_table_built [OF assms(1,2)] obtain idx flt where
    c: "content (b_File b) = sst_file es idx flt" and built: "table_built sum64 es idx flt"
    by blast
  have "length (sst_file es idx flt) < 2 ^ 63"
    using build_table_small [OF assms(1,2)] assms(5) by (simp add: c)
  from OpenSSTable_file [OF built assms(3) this] show ?thesis
    using assms(3,4) reader_Get_present [OF built] reader_Get_absent [OF built]
    by (auto simp: c)
qed

definition demo_entries :: "sst_entry list" where
  "demo_entries = [([97], [1, 2], False), ([98], [], True)]"

lemma demo_entries_ok:
  "\<forall>e \<in> set demo_entries. entry_ok e" "sorted_wrt (<) (keys_of demo_entries)"
  by (simp_all add: demo_entries_def)

theorem table_roundtrip_witness:
  "\<exists>b r. build_table (\<lambda>k. word_of_nat (length k)) 1000 2 demo_entries = (None, b) \<and>
     OpenSSTable ''t'' (content (b_File b)) = Inr r \<and>
     reader_Get (\<lambda>k. word_of_nat (length k)) r [97] = Inr ([1, 2], False, True) \<and>
     reader_Get (\<lambda>k. word_of_nat (length k)) r [98] = Inr ([], True, True) \<and>
     reader_Get (\<lambda>k. word_of_nat (length k)) r [96] = Inr ([], False, False)"
proof -
  have b: "table_bound 2 demo_entries \<le> 1000" "table_bound 2 demo_entries < 2 ^ 63"
    by (simp_all add: table_bound_def index_bound_def demo_entries_def length_enc_entry)
  obtain b where "build_table (\<lambda>k. word_of_nat (length k)) 1000 2 demo_entries = (None, b)"
    using build_table_total [OF _ b(1)] by auto
  moreover from table_roundtrip [OF this _ demo_entries_ok b(2), of "''t''"] obtain r where
    "OpenSSTable ''t'' (content (b_File b)) = Inr r"
    and get: "map_of demo_entries k = Some (v, t) \<Longrightarrow> reader_Get (\<lambda>k. word_of_nat (length k)) r k =
      Inr (if t then ([], True, True) else (v, False, True))"
    and absent: "k \<notin> set (keys_of demo_entries) \<Longrightarrow> \<exists>j \<in> set (keys_of demo_entries). k < j \<Longrightarrow>
      reader_Get (\<lambda>k. word_of_nat (length k)) r k = Inr ([], False, False)" for k v t
    by auto
  moreover have "reader_Get (\<lambda>k. word_of_nat (length k)) r [97] = Inr ([1, 2], False, True)"
    "reader_Get (\<lambda>k. word_of_nat (length k)) r [98] = Inr ([], True, True)"
    "reader_Get (\<lambda>k. word_of_nat (length k)) r [96] = Inr ([], False, False)"
    by (simp_all add: get [of "[97]" "[1, 2]" False] get [of "[98]" "[]" True] absent demo_entries_def)
  ultimately show ?thesis by blast
qed

text \<open>
  Building succeeds whenever the device has room for the entries, an index entry for each
  of them, the filter and the footer.
\<close>

lemma table_build_succeeds:
  assumes "n < 2 ^ 59" and "table_bound n es \<le> q"
  shows "\<exists>b. build_table sum64 q n es = (None, b)"
  using assms by (rule build_table_total)

lemma table_build_succeeds_witness:
  "\<exists>b. build_table (\<lambda>k. word_of_nat (length k)) 100 2 demo_entries = (None, b)"
  by (rule table_build_succeeds)
    (simp_all add: table_bound_def index_bound_def demo_entries_def length_enc_entry)

text \<open>
  The iterator over a built table yields all entries in order, and then whatever it
  decodes from the index, filter and footer sections, which it does not know to be different.
\<close>

lemma table_iterates:
  assumes "build_table sum64 q n es = (None, b)" and "n < 2 ^ 59" and "\<forall>e \<in> set es. entry_ok e"
  shows "\<exists>tail. content (b_File b) = enc_entries es @ tail \<and>
    iter_stream (NewIterator (content (b_File b))) = es @ iter_stream (NewIterator tail)"
proof -
  from build_table_built [OF assms(1,2)] obtain idx flt where
    "content (b_File b) = sst_file es idx flt" by blast
  with iter_stream_entries [OF assms(3)] show ?thesis by (auto simp: sst_file_def)
qed

lemma table_iterates_witness:
  "\<exists>b tail. build_table (\<lambda>k. word_of_nat (length k)) 1000 2 demo_entries = (None, b) \<and>
     iter_stream (NewIterator (content (b_File b))) = demo_entries @ iter_stream (NewIterator tail)"
proof -
  have "table_bound 2 demo_entries \<le> 1000"
    by (simp_all add: table_bound_def index_bound_def demo_entries_def length_enc_entry)
  then obtain b where "build_table (\<lambda>k. word_of_nat (length k)) 1000 2 demo_entries = (None, b)"
    using build_table_total by fastforce
  with table_iterates [OF this _ demo_entries_ok(1)] show ?thesis by auto
qed

text \<open>
  A table whose first key has one byte is not iterated faithfully: after its entries the
  iterator yields at least one more, a tombstone made of the bytes of the index section.
\<close>

lemma iterator_overruns:
  assumes "build_table sum64 q n (([c], val, t) # es) = (None, b)" and "n < 2 ^ 59"
    and "\<forall>e \<in> set (([c], val, t) # es). entry_ok e"
  shows "\<exists>key more. iter_stream (NewIterator (content (b_File b))) =
    (([c], val, t) # es) @ (key, [], True) # more"
proof -
  from build_table_built [OF assms(1,2)] obtain idx flt where
    c: "content (b_File b) = sst_file (([c], val, t) # es) idx flt"
      "table_built sum64 (([c], val, t) # es) idx flt" by blast
  from iter_runs_past_entries [OF c(2) refl] iter_stream_entries [OF assms(3)] show ?thesis
    unfolding c(1) sst_file_def by (metis (no_types))
qed

lemma iterator_overruns_witness:
  "\<exists>b key more. build_table (\<lambda>k. word_of_nat (length k)) 1000 1 [([97], [1], False)] = (None, b) \<and>
     iter_stream (NewIterator (content (b_File b))) = [([97], [1], False)] @ (key, [], True) # more"
proof -
  have "table_bound 1 [([97], [1], False)] \<le> 1000"
    by (simp_all add: table_bound_def index_bound_def length_enc_entry)
  then obtain b where "build_table (\<lambda>k. word_of_nat (length k)) 1000 1 [([97], [1], False)] = (None, b)"
    using build_table_total by fastforce
  with iterator_overruns [OF this] show ?thesis by auto
qed

end
