(* ===== verification/Raft_Wal.thy ===== *)
theory Raft_Wal
  imports Go_Prelude
begin

text \<open>
  The Raft write-ahead log of \<^verbatim>\<open>raft/raft_wal.go\<close>: one append-only file with log-entry records
  and hard-state records, written through a 64 KB buffered writer that is flushed after each
  operation and synced in the background. The writer keeps its first error, as \<open>bufio.Writer\<close>
  does. The lemmas show the round trip of the record formats and of whole logs, exactly which
  entries \<open>AppendEntries\<close> writes, and when it writes nothing.
\<close>

definition RecordTypeLog :: byte where "RecordTypeLog = 0"
definition RecordTypeHardState :: byte where "RecordTypeHardState = 1"

record hard_state =
  hs_Term :: "32 word"
  hs_Vote :: "32 word"
  hs_Commit :: "32 word"

record wal_rec =
  wr_RecordType :: byte
  wr_Index :: "32 word"
  wr_Term :: "32 word"
  wr_Command :: bytes

record raft_wal =
  rw_file :: gofile
  rw_pending :: bytes \<comment> \<open>bytes in the buffered writer\<close>
  rw_werr :: "go_error option" \<comment> \<open>the sticky error of the buffered writer\<close>
  rw_trigger :: bool \<comment> \<open>a signal waits in \<open>triggerCh\<close>\<close>
  rw_lastPersisted :: "32 word"
  rw_synced :: nat \<comment> \<open>how much of the file the last \<open>Sync\<close> covered\<close>

definition createOrOpenRaftWAL :: "gofile \<Rightarrow> raft_wal" where
  "createOrOpenRaftWAL f = \<lparr>rw_file = f, rw_pending = [], rw_werr = None, rw_trigger = False,
     rw_lastPersisted = 0, rw_synced = length (content f)\<rparr>"

text \<open>The background syncer, once woken: it drains the channel and syncs the file.\<close>

definition backgroundSyncer :: "raft_wal \<Rightarrow> raft_wal" where
  "backgroundSyncer w =
     (if rw_trigger w then w\<lparr>rw_trigger := False, rw_synced := length (content (rw_file w))\<rparr> else w)"

section \<open>The buffered writer\<close>

text \<open>
  The buffer is empty when an operation starts, since every operation ends with a flush and
  a failed flush makes all later writes fail; a write larger than the empty buffer goes to the
  file directly.
\<close>

definition writer_Write :: "raft_wal \<Rightarrow> bytes \<Rightarrow> go_error option \<times> raft_wal" where
  "writer_Write w p =
     (case rw_werr w of
        Some e \<Rightarrow> (Some e, w)
      | None \<Rightarrow>
          if length p > 64 * 1024 \<and> rw_pending w = []
          then case file_Write (rw_file w) p of
                 (Some e, f) \<Rightarrow> (Some e, w\<lparr>rw_file := f, rw_werr := Some e\<rparr>)
               | (None, f) \<Rightarrow> (None, w\<lparr>rw_file := f\<rparr>)
          else (None, w\<lparr>rw_pending := rw_pending w @ p\<rparr>))"

definition writer_Flush :: "raft_wal \<Rightarrow> go_error option \<times> raft_wal" where
  "writer_Flush w =
     (case rw_werr w of
        Some e \<Rightarrow> (Some e, w)
      | None \<Rightarrow>
          if rw_pending w = [] then (None, w)
          else case file_Write (rw_file w) (rw_pending w) of
                 (Some e, f) \<Rightarrow> (Some e, w\<lparr>rw_file := f, rw_werr := Some e,
                                     rw_pending := drop (quota (rw_file w)) (rw_pending w)\<rparr>)
               | (None, f) \<Rightarrow> (None, w\<lparr>rw_file := f, rw_pending := []\<rparr>))"

section \<open>Writing\<close>

definition enc_log_rec :: "wal_rec \<Rightarrow> bytes" where
  "enc_log_rec e = [RecordTypeLog] @ PutUint32 (wr_Index e) @ PutUint32 (wr_Term e) @
     PutUint32 (word_of_nat (length (wr_Command e))) @ wr_Command e"

definition enc_hard_state :: "hard_state \<Rightarrow> bytes" where
  "enc_hard_state s = [RecordTypeHardState] @ PutUint32 (hs_Term s) @ PutUint32 (hs_Vote s) @
     PutUint32 (hs_Commit s)"

text \<open>The loop over the new entries: the bytes to write and the index of the last one written.\<close>

fun encode_new :: "32 word \<Rightarrow> wal_rec list \<Rightarrow> bytes \<times> 32 word \<Rightarrow> bytes \<times> 32 word" where
  "encode_new lastPersisted [] acc = acc"
| "encode_new lastPersisted (e # es) (buf, highestIndex) =
     (if wr_Index e \<le> lastPersisted then encode_new lastPersisted es (buf, highestIndex)
      else encode_new lastPersisted es (buf @ enc_log_rec e, wr_Index e))"

definition rwal_AppendEntries :: "raft_wal \<Rightarrow> wal_rec list \<Rightarrow> int \<Rightarrow> go_error option \<times> raft_wal" where
  "rwal_AppendEntries w entries startIndex =
     (let lastLogIdx = word_of_int (startIndex + int (length entries) - 1) :: 32 word
      in if lastLogIdx \<le> rw_lastPersisted w \<or> entries = [] then (None, w)
         else let startOffset = (if word_of_int startIndex \<le> rw_lastPersisted w
                                 then unat (rw_lastPersisted w - word_of_int startIndex + 1) else 0)
              in if startOffset > length entries then (Some Panic, w)
                 else let newEntries = drop startOffset entries;
                          (buf, highestIndex) =
                            encode_new (rw_lastPersisted w) newEntries ([], rw_lastPersisted w)
                      in if buf = [] then (None, w)
                         else case writer_Write w buf of
                                (Some e, w) \<Rightarrow> (Some e, w)
                              | (None, w) \<Rightarrow>
                                let w = w\<lparr>rw_lastPersisted := highestIndex\<rparr> in
                                case writer_Flush w of
                                  (Some e, w) \<Rightarrow> (Some e, w)
                                | (None, w) \<Rightarrow>
                                    (None, w\<lparr>rw_lastPersisted := highestIndex, rw_trigger := True\<rparr>))"

definition PersistHardState :: "raft_wal \<Rightarrow> hard_state \<Rightarrow> go_error option \<times> raft_wal" where
  "PersistHardState w s =
     (case writer_Write w (enc_hard_state s) of
        (Some e, w) \<Rightarrow> (Some e, w)
      | (None, w) \<Rightarrow>
        (case writer_Flush w of
           (Some e, w) \<Rightarrow> (Some e, w)
         | (None, w) \<Rightarrow> (None, w\<lparr>rw_trigger := True\<rparr>)))"

section \<open>Recovery\<close>

text \<open>A record as recovery sees it; a type byte that is neither is skipped alone.\<close>

datatype rrec = LogRec wal_rec | HardRec hard_state | UnknownByte

definition read_rrec :: "bytes \<Rightarrow> (rrec \<times> bytes) result" where
  "read_rrec rest =
     bindE (stream_ReadFull rest 1) (\<lambda>(tb, rest).
     let typeByte = hd tb in
     if typeByte = RecordTypeLog
     then bindE (stream_ReadFull rest 12) (\<lambda>(header, rest).
          let idx = Uint32 header; term = Uint32 (drop 4 header); cmdLen = Uint32 (drop 8 header)
          in bindE (stream_ReadFull rest (unat cmdLen)) (\<lambda>(cmd, rest).
             Inr (LogRec \<lparr>wr_RecordType = RecordTypeLog, wr_Index = idx, wr_Term = term,
                          wr_Command = cmd\<rparr>, rest)))
     else if typeByte = RecordTypeHardState
     then bindE (stream_ReadFull rest 12) (\<lambda>(header, rest).
          Inr (HardRec \<lparr>hs_Term = Uint32 header, hs_Vote = Uint32 (drop 4 header),
                        hs_Commit = Uint32 (drop 8 header)\<rparr>, rest))
     else Inr (UnknownByte, rest))"

lemma read_rrec_shrinks: "read_rrec rest = Inr (r, rest') \<Longrightarrow> length rest' < length rest"
  by (auto simp: read_rrec_def bindE_Inr_iff Let_def split: if_splits prod.splits
      dest!: stream_ReadFull_shrinks)

text \<open>
  The loop: only an end of file before a type byte is a clean end; an error, also an end of
  file inside a record, is returned together with what was read so far.
\<close>

function recover_rrecs :: "bytes \<Rightarrow> wal_rec list \<Rightarrow> hard_state \<Rightarrow>
    wal_rec list \<times> hard_state \<times> go_error option" where
  "recover_rrecs rest entries state =
     (if rest = [] then (entries, state, None)
      else case read_rrec rest of
             Inl err \<Rightarrow> (entries, state, Some err)
           | Inr (r, rest') \<Rightarrow>
             (case r of
                LogRec e \<Rightarrow> recover_rrecs rest' (entries @ [e]) state
              | HardRec s \<Rightarrow> recover_rrecs rest' entries s
              | UnknownByte \<Rightarrow> recover_rrecs rest' entries state))"
  by pat_completeness auto
termination
  by (relation "measure (\<lambda>(rest, es, s). length rest)") (auto dest: read_rrec_shrinks)

declare recover_rrecs.simps [simp del]

definition RecoverEntries :: "raft_wal \<Rightarrow> (wal_rec list \<times> hard_state \<times> go_error option) \<times> raft_wal" where
  "RecoverEntries w =
     (let (entries, state, err) =
        recover_rrecs (content (rw_file w)) [] \<lparr>hs_Term = 0, hs_Vote = 0, hs_Commit = 0\<rparr>
      in ((entries, state, err),
          if err = None \<and> entries \<noteq> [] then w\<lparr>rw_lastPersisted := wr_Index (last entries)\<rparr> else w))"

section \<open>The record format\<close>

fun enc_rrec :: "rrec \<Rightarrow> bytes" where
  "enc_rrec (LogRec e) = enc_log_rec e"
| "enc_rrec (HardRec s) = enc_hard_state s"
| "enc_rrec UnknownByte = []"

fun rrec_ok :: "rrec \<Rightarrow> bool" where
  "rrec_ok (LogRec e) \<longleftrightarrow> wr_RecordType e = RecordTypeLog \<and> length (wr_Command e) < 2 ^ 32"
| "rrec_ok (HardRec s) \<longleftrightarrow> True"
| "rrec_ok UnknownByte \<longleftrightarrow> False"

lemma read_rrec_enc: "rrec_ok r \<Longrightarrow> read_rrec (enc_rrec r @ rest) = Inr (r, rest)"
proof (cases r)
  case (LogRec e)
  assume "rrec_ok r"
  let ?h = "PutUint32 (wr_Index e) @ PutUint32 (wr_Term e) @ PutUint32 (word_of_nat (length (wr_Command e)))"
  have "stream_ReadFull ([RecordTypeLog] @ (?h @ wr_Command e @ rest)) 1 = Inr ([RecordTypeLog], ?h @ wr_Command e @ rest)"
    by (rule stream_ReadFull_append) simp
  moreover have "stream_ReadFull (?h @ wr_Command e @ rest) 12 = Inr (?h, wr_Command e @ rest)"
    by (rule stream_ReadFull_append) simp
  ultimately show ?thesis
    using \<open>rrec_ok r\<close> LogRec by (simp add: read_rrec_def enc_log_rec_def)
next
  case (HardRec s)
  let ?h = "PutUint32 (hs_Term s) @ PutUint32 (hs_Vote s) @ PutUint32 (hs_Commit s)"
  have "stream_ReadFull ([RecordTypeHardState] @ (?h @ rest)) 1 = Inr ([RecordTypeHardState], ?h @ rest)"
    by (rule stream_ReadFull_append) simp
  moreover have "stream_ReadFull (?h @ rest) 12 = Inr (?h, rest)"
    by (rule stream_ReadFull_append) simp
  ultimately show ?thesis
    using HardRec
    by (simp add: read_rrec_def enc_hard_state_def RecordTypeHardState_def RecordTypeLog_def)
qed simp

interpretation rrec_codec: record_codec enc_rrec
  "\<lambda>bs. case read_rrec bs of Inr x \<Rightarrow> Some x | Inl _ \<Rightarrow> None" rrec_ok
  by unfold_locales (simp add: read_rrec_enc)

fun log_recs :: "rrec list \<Rightarrow> wal_rec list" where
  "log_recs [] = []"
| "log_recs (LogRec e # rs) = e # log_recs rs"
| "log_recs (r # rs) = log_recs rs"

fun last_hard :: "hard_state \<Rightarrow> rrec list \<Rightarrow> hard_state" where
  "last_hard s [] = s"
| "last_hard s (HardRec t # rs) = last_hard t rs"
| "last_hard s (r # rs) = last_hard s rs"

lemma log_recs_append [simp]: "log_recs (rs @ ss) = log_recs rs @ log_recs ss"
  by (induction rs rule: log_recs.induct) simp_all

lemma last_hard_append [simp]: "last_hard s (rs @ ss) = last_hard (last_hard s rs) ss"
  by (induction s rs rule: last_hard.induct) simp_all

lemma log_recs_map_LogRec [simp]: "log_recs (map LogRec es) = es"
  by (induction es) simp_all

lemma last_hard_map_LogRec [simp]: "last_hard s (map LogRec es) = s"
  by (induction es) simp_all

lemma enc_rrec_nonempty: "rrec_ok r \<Longrightarrow> enc_rrec r \<noteq> []"
  by (cases r) (simp_all add: enc_log_rec_def enc_hard_state_def)

lemma recover_rrecs_enc:
  assumes "\<forall>r \<in> set rs. rrec_ok r"
  shows "recover_rrecs (concat (map enc_rrec rs)) entries state =
    (entries @ log_recs rs, last_hard state rs, None)"
  using assms
proof (induction rs arbitrary: entries state)
  case Nil
  then show ?case by (simp add: recover_rrecs.simps)
next
  case (Cons r rs)
  from Cons.prems have "recover_rrecs (enc_rrec r @ concat (map enc_rrec rs)) entries state =
    (case r of
       LogRec e \<Rightarrow> recover_rrecs (concat (map enc_rrec rs)) (entries @ [e]) state
     | HardRec s \<Rightarrow> recover_rrecs (concat (map enc_rrec rs)) entries s
     | UnknownByte \<Rightarrow> recover_rrecs (concat (map enc_rrec rs)) entries state)"
    by (subst recover_rrecs.simps) (simp add: read_rrec_enc enc_rrec_nonempty)
  with Cons show ?case by (cases r) (simp_all del: enc_rrec.simps)
qed

text \<open>
  What a log file holds, if it was written by the operations below: a list of records.
  \<open>rwal_holds w rs\<close> also says that nothing is pending and no error has occurred.
\<close>

definition rwal_holds :: "raft_wal \<Rightarrow> rrec list \<Rightarrow> bool" where
  "rwal_holds w rs \<longleftrightarrow> content (rw_file w) = concat (map enc_rrec rs) \<and> rw_pending w = [] \<and>
     rw_werr w = None \<and> (\<forall>r \<in> set rs. rrec_ok r)"

lemma RecoverEntries_holds:
  assumes "rwal_holds w rs"
  shows "RecoverEntries w =
    ((log_recs rs, last_hard \<lparr>hs_Term = 0, hs_Vote = 0, hs_Commit = 0\<rparr> rs, None),
     if log_recs rs \<noteq> [] then w\<lparr>rw_lastPersisted := wr_Index (last (log_recs rs))\<rparr> else w)"
  using assms by (simp add: RecoverEntries_def rwal_holds_def recover_rrecs_enc)

text \<open>A write and a flush together, when the device has room.\<close>

lemma write_flush:
  assumes "rw_pending w = []" and "rw_werr w = None" and "length p \<le> quota (rw_file w)"
  obtains w1 where "writer_Write w p = (None, w1)"
    "\<And>i. writer_Flush (w1\<lparr>rw_lastPersisted := i\<rparr>) = (None, w\<lparr>rw_file := \<lparr>content = content (rw_file w) @ p,
       quota = quota (rw_file w) - length p\<rparr>, rw_lastPersisted := i\<rparr>)"
    "writer_Flush w1 = (None, w\<lparr>rw_file := \<lparr>content = content (rw_file w) @ p,
       quota = quota (rw_file w) - length p\<rparr>\<rparr>)"
proof (cases "length p > 64 * 1024")
  case True
  show thesis
    using assms True
    by (intro that [of "w\<lparr>rw_file := \<lparr>content = content (rw_file w) @ p, quota = quota (rw_file w) - length p\<rparr>\<rparr>"])
      (simp_all add: writer_Write_def writer_Flush_def file_Write_def)
next
  case False
  show thesis
    using assms False
    by (intro that [of "w\<lparr>rw_pending := p\<rparr>"])
      (cases w; cases p; simp add: writer_Write_def writer_Flush_def file_Write_def)+
qed

lemma PersistHardState_holds:
  assumes "rwal_holds w rs" and "13 \<le> quota (rw_file w)"
  shows "\<exists>w'. PersistHardState w s = (None, w') \<and> rwal_holds w' (rs @ [HardRec s]) \<and>
    rw_lastPersisted w' = rw_lastPersisted w \<and> quota (rw_file w') = quota (rw_file w) - 13"
proof -
  have len: "length (enc_hard_state s) = 13" by (simp add: enc_hard_state_def)
  from assms have "rw_pending w = []" "rw_werr w = None" "length (enc_hard_state s) \<le> quota (rw_file w)"
    by (simp_all add: rwal_holds_def len)
  from write_flush [OF this] obtain w1 where "writer_Write w (enc_hard_state s) = (None, w1)"
    "writer_Flush w1 = (None, w\<lparr>rw_file := \<lparr>content = content (rw_file w) @ enc_hard_state s,
       quota = quota (rw_file w) - length (enc_hard_state s)\<rparr>\<rparr>)"
    by metis
  with assms show ?thesis by (simp add: PersistHardState_def rwal_holds_def len)
qed

section \<open>Which entries are written\<close>

lemma encode_new_all:
  assumes "\<forall>e \<in> set es. \<not> wr_Index e \<le> p"
  shows "encode_new p es (buf, h) =
    (buf @ concat (map enc_log_rec es), if es = [] then h else wr_Index (last es))"
  using assms by (induction es arbitrary: buf h) auto

text \<open>Entries in their places: position \<open>i\<close> holds index \<open>i\<close>, in 32 bits.\<close>

definition recs_indexed :: "wal_rec list \<Rightarrow> bool" where
  "recs_indexed es \<longleftrightarrow> length es < 2 ^ 32 \<and>
     (\<forall>i < length es. wr_Index (es ! i) = word_of_nat i \<and> rrec_ok (LogRec (es ! i)))"

lemma rwal_AppendEntries_nothing_new:
  assumes "recs_indexed es" and "length es \<le> Suc (unat (rw_lastPersisted w))"
  shows "rwal_AppendEntries w es 0 = (None, w)"
proof (cases "es = []")
  case False
  then have "word_of_int (int (length es) - 1) = (word_of_nat (length es - 1) :: 32 word)"
    by (simp add: of_nat_diff Suc_le_eq)
  moreover have "unat (word_of_nat (length es - 1) :: 32 word) = length es - 1"
    using assms(1) by (intro unat_len32) (auto simp: recs_indexed_def)
  ultimately have "word_of_int (int (length es) - 1) \<le> rw_lastPersisted w"
    using assms(2) by (simp add: word_le_nat_alt)
  then show ?thesis by (simp add: rwal_AppendEntries_def Let_def)
qed (simp add: rwal_AppendEntries_def Let_def)

lemma rwal_AppendEntries_new:
  assumes holds: "rwal_holds w rs" and idx: "recs_indexed es"
    and new: "Suc (unat (rw_lastPersisted w)) < length es"
    and room: "length (concat (map enc_log_rec (drop (Suc (unat (rw_lastPersisted w))) es))) \<le> quota (rw_file w)"
  shows "\<exists>w'. rwal_AppendEntries w es 0 = (None, w') \<and>
    rwal_holds w' (rs @ map LogRec (drop (Suc (unat (rw_lastPersisted w))) es)) \<and>
    rw_lastPersisted w' = word_of_nat (length es - 1)"
proof -
  let ?p = "rw_lastPersisted w" and ?es = "drop (Suc (unat (rw_lastPersisted w))) es"
  let ?buf = "concat (map enc_log_rec ?es)"
  have len: "length es < 2 ^ 32" using idx by (simp add: recs_indexed_def)
  have "word_of_int (int (length es) - 1) = (word_of_nat (length es - 1) :: 32 word)"
    using new by (simp add: of_nat_diff)
  moreover have "unat (word_of_nat (length es - 1) :: 32 word) = length es - 1"
    using len by (intro unat_len32) simp
  ultimately have gt: "\<not> word_of_int (int (length es) - 1) \<le> ?p"
    using new by (simp add: word_le_nat_alt)
  have "unat (?p + 1) = Suc (unat ?p)"
    using new len unat_add_lem [of ?p 1] by simp
  moreover have small: "wr_Index e = word_of_nat i \<and> i < 2 ^ 32 \<and> unat ?p < i"
    if "j < length ?es" "e = ?es ! j" "i = Suc (unat ?p) + j" for e i j
    using that idx len by (auto simp: recs_indexed_def)
  have gt_all: "\<forall>e \<in> set ?es. \<not> wr_Index e \<le> ?p"
  proof
    fix e assume "e \<in> set ?es"
    then obtain j where "j < length ?es" "e = ?es ! j" by (metis in_set_conv_nth)
    from small [OF this refl] show "\<not> wr_Index e \<le> ?p"
      by (simp add: word_le_nat_alt del: of_nat_Suc of_nat_add)
  qed
  have ne: "?es \<noteq> []" using new by simp
  have last: "wr_Index (last ?es) = word_of_nat (length es - 1)"
    using new idx by (simp add: recs_indexed_def last_conv_nth)
  have buf: "?buf \<noteq> []" using ne by (auto simp: enc_log_rec_def neq_Nil_conv)
  from holds have pe: "rw_pending w = []" "rw_werr w = None" by (simp_all add: rwal_holds_def)
  obtain w1 where "writer_Write w ?buf = (None, w1)"
    "writer_Flush (w1\<lparr>rw_lastPersisted := word_of_nat (length es - 1)\<rparr>) =
      (None, w\<lparr>rw_file := \<lparr>content = content (rw_file w) @ ?buf,
       quota = quota (rw_file w) - length ?buf\<rparr>, rw_lastPersisted := word_of_nat (length es - 1)\<rparr>)"
    using write_flush [OF pe room] by blast
  with gt ne last buf encode_new_all [OF gt_all, of "[]" ?p] \<open>unat (?p + 1) = Suc (unat ?p)\<close> new
  have "rwal_AppendEntries w es 0 = (None, w\<lparr>rw_file := \<lparr>content = content (rw_file w) @ ?buf,
       quota = quota (rw_file w) - length ?buf\<rparr>, rw_lastPersisted := word_of_nat (length es - 1),
       rw_trigger := True\<rparr>)"
    by (auto simp: rwal_AppendEntries_def Let_def)
  moreover have "\<forall>e \<in> set ?es. rrec_ok (LogRec e)"
    using idx by (auto simp: recs_indexed_def in_set_conv_nth simp del: rrec_ok.simps)
  ultimately show ?thesis
    using holds by (auto simp: rwal_holds_def comp_def)
qed

end
