(* ===== verification/Raft.thy ===== *)
theory Raft
  imports Raft_Wal
begin

text \<open>
  One Raft node: \<^verbatim>\<open>raft/raft.go\<close>, \<^verbatim>\<open>raft/requestVotes.go\<close>, \<^verbatim>\<open>raft/appendEntries.go\<close> and
  \<^verbatim>\<open>raft/persist.go\<close>. Each critical section under \<open>rf.mu\<close> is one definition on the record
  \<open>raft\<close>; a slice access out of range is \<open>Inl Panic\<close>. Go's 64-bit \<open>int\<close> is \<open>int\<close>. The
  channels \<open>triggerCh\<close> and \<open>commitCh\<close> have capacity 1 and carry no data: a boolean each. The
  clock is the argument \<open>now\<close>. An RPC is split where the code releases the lock: the request
  is built in one definition and its reply handled in another.
\<close>

datatype raft_state = Follower | Candidate | Leader

record log_entry =
  le_Index :: int
  le_Term :: int
  le_Command :: bytes

record raft =
  rf_peers :: "bool list" \<comment> \<open>for each peer whether its client is not nil\<close>
  rf_me :: int
  rf_leaderId :: int
  rf_triggerCh :: bool
  rf_commitCh :: bool
  rf_currentTerm :: int
  rf_votedFor :: int
  rf_log :: "log_entry list"
  rf_wal :: "raft_wal option"
  rf_commitIndex :: int
  rf_lastApplied :: int
  rf_nextIndex :: "int \<rightharpoonup> int"
  rf_matchIndex :: "int \<rightharpoonup> int"
  rf_state :: raft_state
  rf_lastResetTime :: int

text \<open>A Go map read: the zero value for a missing key. A slice read: \<open>None\<close> out of range.\<close>

definition mget :: "(int \<rightharpoonup> int) \<Rightarrow> int \<Rightarrow> int" where
  "mget m k = (case m k of Some v \<Rightarrow> v | None \<Rightarrow> 0)"

definition log_get :: "log_entry list \<Rightarrow> int \<Rightarrow> log_entry option" where
  "log_get l i = (if 0 \<le> i \<and> i < int (length l) then Some (l ! nat i) else None)"

section \<open>Persistence (\<open>persist.go\<close>)\<close>

definition to_wal_rec :: "log_entry \<Rightarrow> wal_rec" where
  "to_wal_rec e = \<lparr>wr_RecordType = RecordTypeLog, wr_Index = word_of_int (le_Index e),
     wr_Term = word_of_int (le_Term e), wr_Command = le_Command e\<rparr>"

definition persist :: "raft \<Rightarrow> raft" where
  "persist rf =
     (case rf_wal rf of
        None \<Rightarrow> rf
      | Some w \<Rightarrow>
          if rf_log rf \<noteq> []
          then rf\<lparr>rf_wal := Some (snd (rwal_AppendEntries w (map to_wal_rec (rf_log rf)) 0))\<rparr>
          else rf)"

definition persistState :: "raft \<Rightarrow> raft" where
  "persistState rf =
     (case rf_wal rf of
        None \<Rightarrow> rf
      | Some w \<Rightarrow> rf\<lparr>rf_wal := Some (snd (PersistHardState w
          \<lparr>hs_Term = word_of_int (rf_currentTerm rf), hs_Vote = word_of_int (rf_votedFor rf),
           hs_Commit = word_of_int (rf_commitIndex rf)\<rparr>))\<rparr>)"

definition from_wal_rec :: "wal_rec \<Rightarrow> log_entry" where
  "from_wal_rec e = \<lparr>le_Index = uint (wr_Index e), le_Term = uint (wr_Term e),
     le_Command = wr_Command e\<rparr>"

definition readPersist :: "raft \<Rightarrow> raft" where
  "readPersist rf =
     (case rf_wal rf of
        None \<Rightarrow> rf
      | Some w \<Rightarrow>
        let ((walEntries, hardState, err), w) = RecoverEntries w;
            rf = rf\<lparr>rf_wal := Some w\<rparr>
        in if err \<noteq> None then rf
           else let rf = (if walEntries \<noteq> []
                          then rf\<lparr>rf_log := map from_wal_rec
                                 (filter (\<lambda>e. wr_RecordType e = RecordTypeLog) walEntries)\<rparr>
                          else rf)
                in if hs_Term hardState > 0
                   then rf\<lparr>rf_currentTerm := uint (hs_Term hardState),
                           rf_votedFor := uint (hs_Vote hardState),
                           rf_commitIndex := uint (hs_Commit hardState)\<rparr>
                   else rf)"

section \<open>Life cycle and client interface (\<open>raft.go\<close>)\<close>

definition raft_Make :: "bool list \<Rightarrow> int \<Rightarrow> gofile \<Rightarrow> int \<Rightarrow> raft" where
  "raft_Make peers me walFile now =
     (readPersist \<lparr>rf_peers = peers, rf_me = me, rf_leaderId = -1, rf_triggerCh = False,
        rf_commitCh = False, rf_currentTerm = 0, rf_votedFor = -1,
        rf_log = [\<lparr>le_Index = 0, le_Term = 0, le_Command = []\<rparr>],
        rf_wal = Some (createOrOpenRaftWAL walFile), rf_commitIndex = 0, rf_lastApplied = 0,
        rf_nextIndex = Map.empty, rf_matchIndex = Map.empty, rf_state = Follower,
        rf_lastResetTime = 0\<rparr>)\<lparr>rf_lastResetTime := now\<rparr>"

definition raft_getState :: "raft \<Rightarrow> int \<times> bool" where
  "raft_getState rf = (rf_currentTerm rf, rf_state rf = Leader)"

definition GetLeader :: "raft \<Rightarrow> int" where
  "GetLeader rf = rf_leaderId rf"

text \<open>\<open>command\<close> is \<open>None\<close> if the value passed is not a byte slice.\<close>

definition raft_Start :: "raft \<Rightarrow> bytes option \<Rightarrow> (int \<times> int \<times> bool) \<times> raft" where
  "raft_Start rf command =
     (if rf_state rf \<noteq> Leader then ((-1, rf_currentTerm rf, False), rf)
      else let index = int (length (rf_log rf)); term = rf_currentTerm rf
           in case command of
                None \<Rightarrow> ((-1, rf_currentTerm rf, False), rf)
              | Some cmdBytes \<Rightarrow>
                  ((index, term, True),
                   rf\<lparr>rf_log := rf_log rf @ [\<lparr>le_Index = index, le_Term = term, le_Command = cmdBytes\<rparr>],
                      rf_triggerCh := True\<rparr>))"

text \<open>
  What the applier does after it has taken a signal from \<open>commitCh\<close>: the entries it hands to the store, in order.
  \<open>None\<close> of \<open>entries_between\<close> is a read past the end of the log.
\<close>

fun entries_between :: "log_entry list \<Rightarrow> int \<Rightarrow> nat \<Rightarrow> log_entry list option" where
  "entries_between l i 0 = Some []"
| "entries_between l i (Suc n) =
     (case log_get l (i + 1) of
        None \<Rightarrow> None
      | Some e \<Rightarrow> map_option ((#) e) (entries_between l (i + 1) n))"

definition applier_step :: "raft \<Rightarrow> (log_entry list \<times> raft) result" where
  "applier_step rf =
     (let rf = rf\<lparr>rf_commitCh := False\<rparr> in
      if rf_commitIndex rf \<le> rf_lastApplied rf then Inr ([], rf)
      else case entries_between (rf_log rf) (rf_lastApplied rf)
                  (nat (rf_commitIndex rf - rf_lastApplied rf)) of
             None \<Rightarrow> Inl Panic
           | Some es \<Rightarrow> Inr (es, rf\<lparr>rf_lastApplied := rf_commitIndex rf\<rparr>))"

text \<open>A round of the loop: the applier waits until there is a signal.\<close>

definition applier_round :: "raft \<Rightarrow> (log_entry list \<times> raft) result option" where
  "applier_round rf = (if rf_commitCh rf then Some (applier_step rf) else None)"

text \<open>One wake-up of the replicator, before it sends the heartbeats.\<close>

definition replicator_step :: "raft \<Rightarrow> raft" where
  "replicator_step rf = persist (rf\<lparr>rf_triggerCh := False\<rparr>)"

text \<open>A tick: the leader sends heartbeats, others start an election after the timeout.\<close>

datatype tick_action = TickHeartbeats | TickElection | TickNothing

definition ticker_step :: "raft \<Rightarrow> int \<Rightarrow> int \<Rightarrow> tick_action" where
  "ticker_step rf now electionTimeout =
     (if rf_state rf = Leader then TickHeartbeats
      else if now - rf_lastResetTime rf > electionTimeout then TickElection
      else TickNothing)"

end
