(* ===== verification/Store.thy ===== *)
theory Store
  imports Memtable Sstable_Table Raft
begin

text \<open>
  The store (\<^verbatim>\<open>kv/store.go\<close>, \<^verbatim>\<open>kv/lib.go\<close>): an active memtable, at most one frozen memtable that
  waits to be flushed, and a directory of table files. Each operation is one definition on the
  record \<open>store\<close>; the clock, the room on the device and the outcome of file creation are
  arguments. Reads check the active table, the frozen table and the files in descending order
  of their names. The lemmas show what a read returns after a write, a rotation and a flush.
\<close>

definition kv_CmdPut :: byte where "kv_CmdPut = 1"
definition kv_CmdDelete :: byte where "kv_CmdDelete = 2"

record raftCmd =
  rc_Op :: byte
  rc_Key :: bytes
  rc_Value :: bytes

record OpResult =
  or_Value :: bytes
  or_Err :: "go_error option"

record store =
  st_ActiveMap :: memtable
  st_frozenMap :: "memtable option"
  st_ssTables :: "reader list"
  st_WalDir :: directory
  st_SstDir :: directory
  st_walSeq :: nat
  st_FlushChan :: bool
  st_Raft :: raft
  st_notifyChans :: "int \<rightharpoonup> nat" \<comment> \<open>the channel a client waits on, by log index\<close>
  st_chans :: "nat \<rightharpoonup> OpResult" \<comment> \<open>the channels with a result in them\<close>

section \<open>Table files\<close>

definition sst_name :: "nat \<Rightarrow> nat \<Rightarrow> string" where
  "sst_name level now = ''L'' @ decimal level @ ''_'' @ decimal now @ ''.sst''"

definition is_sst_name :: "string \<Rightarrow> bool" where
  "is_sst_name f \<longleftrightarrow> HasSuffix f ''.sst''"

text \<open>The table files of a directory in the order in which \<open>Get\<close> and \<open>refreshSSTables\<close> go through them.\<close>

definition sst_files :: "directory \<Rightarrow> string list" where
  "sst_files dir = sort_reverse (filter is_sst_name (map fst dir))"

fun open_readers :: "directory \<Rightarrow> string list \<Rightarrow> reader list result" where
  "open_readers dir [] = Inr []"
| "open_readers dir (f # fs) =
     (case map_of dir f of
        None \<Rightarrow> open_readers dir fs
      | Some bytes \<Rightarrow>
        (case OpenSSTable f bytes of
           Inl err \<Rightarrow> if err = Panic then Inl Panic else open_readers dir fs
         | Inr r \<Rightarrow> bindE (open_readers dir fs) (\<lambda>rs. Inr (r # rs))))"

definition refreshSSTables :: "store \<Rightarrow> store result" where
  "refreshSSTables s =
     bindE (open_readers (st_SstDir s) (sst_files (st_SstDir s))) (\<lambda>readers.
     Inr (s\<lparr>st_ssTables := readers\<rparr>))"

section \<open>Writing\<close>

text \<open>
  \<open>RotateTable\<close>: \<open>None\<close> while it waits for a flush to finish; \<open>rotate_now\<close> is what it does once
  there is no frozen table. \<open>open_ok\<close> tells whether the new log file can be opened.
\<close>

definition rotate_now :: "bool \<Rightarrow> store \<Rightarrow> store result" where
  "rotate_now open_ok s =
     (let s = s\<lparr>st_frozenMap := Some (st_ActiveMap s), st_walSeq := st_walSeq s + 1\<rparr>
      in if \<not> open_ok then Inl Panic
         else let (newWal, walDir) = OpenWAL_id (st_WalDir s) (st_walSeq s)
              in Inr (s\<lparr>st_WalDir := walDir, st_ActiveMap := NewMemTable mapLimit (Some newWal),
                        st_FlushChan := True\<rparr>))"

definition RotateTable :: "bool \<Rightarrow> store \<Rightarrow> store result option" where
  "RotateTable open_ok s = (if st_frozenMap s \<noteq> None then None else Some (rotate_now open_ok s))"

definition applyInternal :: "bool \<Rightarrow> store \<Rightarrow> bytes \<Rightarrow> bytes \<Rightarrow> bool \<Rightarrow> (go_error option \<times> store) result" where
  "applyInternal open_ok s key val isDelete =
     (let entrySize = 1 + 2 + 4 + length key + length val;
          full = unat (mt_Size (st_ActiveMap s)) + entrySize > mapLimit
      in if full \<and> st_frozenMap s \<noteq> None
         then Inr (Some (Errorf ''write stall: memTable flushing''), s)
         else bindE (if full then rotate_now open_ok s else Inr s) (\<lambda>s.
              case mt_put (st_ActiveMap s) key val isDelete entrySize of
                (Some err, _) \<Rightarrow> Inr (Some (Errorf ''failed to put key''), s)
              | (None, t) \<Rightarrow> Inr (None, s\<lparr>st_ActiveMap := t\<rparr>)))"

text \<open>
  One round of \<open>readAppliedLogs\<close> after the command has been decoded: apply it and hand the
  result to the client that waits for this log index. A command with another code is not applied.
\<close>

definition apply_log_entry :: "bool \<Rightarrow> store \<Rightarrow> int \<Rightarrow> raftCmd \<Rightarrow> store result" where
  "apply_log_entry open_ok s index cmd =
     bindE (if rc_Op cmd = kv_CmdPut then applyInternal open_ok s (rc_Key cmd) (rc_Value cmd) False
            else if rc_Op cmd = kv_CmdDelete then applyInternal open_ok s (rc_Key cmd) [] True
            else Inr (None, s)) (\<lambda>(err, s).
     case st_notifyChans s index of
       None \<Rightarrow> Inr s
     | Some ch \<Rightarrow> Inr (s\<lparr>st_chans := (st_chans s)(ch \<mapsto> \<lparr>or_Value = rc_Value cmd, or_Err = err\<rparr>),
                        st_notifyChans := (st_notifyChans s)(index := None)\<rparr>))"

text \<open>
  \<open>Put\<close>, by critical section: propose the encoded command; register a channel from the pool
  under the log index; then either a result arrives or the time runs out.
\<close>

definition Put_propose :: "store \<Rightarrow> bytes \<Rightarrow> (go_error + int) \<times> store" where
  "Put_propose s cmdBytes =
     (let ((index, _, isLeader), rf) = raft_Start (st_Raft s) (Some cmdBytes);
          s = s\<lparr>st_Raft := rf\<rparr>
      in if \<not> isLeader then (Inl (Errorf ''not leader''), s) else (Inr index, s))"

definition Put_register :: "store \<Rightarrow> int \<Rightarrow> nat \<Rightarrow> store" where
  "Put_register s index ch = s\<lparr>st_notifyChans := (st_notifyChans s)(index \<mapsto> ch)\<rparr>"

definition Put_result :: "store \<Rightarrow> nat \<Rightarrow> (go_error option \<times> store) option" where
  "Put_result s ch = (case st_chans s ch of
     None \<Rightarrow> None
   | Some res \<Rightarrow> Some (or_Err res, s\<lparr>st_chans := (st_chans s)(ch := None)\<rparr>))"

definition Put_timeout :: "store \<Rightarrow> int \<Rightarrow> nat \<Rightarrow> go_error option \<times> store" where
  "Put_timeout s index ch = (Some (Errorf ''timeout waiting for consensus''),
     s\<lparr>st_notifyChans := (st_notifyChans s)(index := None), st_chans := (st_chans s)(ch := None)\<rparr>)"

section \<open>Reading\<close>

fun get_from_files :: "(bytes \<Rightarrow> 64 word) \<Rightarrow> directory \<Rightarrow> string list \<Rightarrow> bytes \<Rightarrow> (bytes \<times> bool) result" where
  "get_from_files sum64 dir [] key = Inr ([], False)"
| "get_from_files sum64 dir (f # fs) key =
     (case map_of dir f of
        None \<Rightarrow> get_from_files sum64 dir fs key
      | Some bytes \<Rightarrow>
        (case OpenSSTable f bytes of
           Inl err \<Rightarrow> if err = Panic then Inl Panic else get_from_files sum64 dir fs key
         | Inr r \<Rightarrow>
           (case reader_Get sum64 r key of
              Inl err \<Rightarrow> if err = Panic then Inl Panic else get_from_files sum64 dir fs key
            | Inr (val, isTomb, found) \<Rightarrow>
                if found then Inr (if isTomb then ([], False) else (val, True))
                else get_from_files sum64 dir fs key)))"

text \<open>
  \<open>Get\<close> looks into the memtables under the lock, releases it, lists the table files and then opens them one by
  one. \<open>get_from_files\<close> is the search with the directory and the list as arguments: a file that has been removed since it
  was listed is skipped. \<open>store_Get\<close> is a read during which nothing else happens.
\<close>

definition Get_memory :: "store \<Rightarrow> bytes \<Rightarrow> (bytes \<times> bool) option result" where
  "Get_memory s key =
     bindE (checkTable (Some (st_ActiveMap s)) key) (\<lambda>(val, isTomb, found).
     if found then Inr (Some (if isTomb then ([], False) else (val, True)))
     else bindE (checkTable (st_frozenMap s) key) (\<lambda>(val, isTomb, found).
          if found then Inr (Some (if isTomb then ([], False) else (val, True))) else Inr None))"

definition store_Get :: "(bytes \<Rightarrow> 64 word) \<Rightarrow> store \<Rightarrow> bytes \<Rightarrow> (bytes \<times> bool) result" where
  "store_Get sum64 s key =
     bindE (Get_memory s key) (\<lambda>found.
     case found of
       Some x \<Rightarrow> Inr x
     | None \<Rightarrow> get_from_files sum64 (st_SstDir s) (sst_files (st_SstDir s)) key)"

section \<open>Flushing\<close>

text \<open>The entries of a memtable for the given keys; an arena error counts as an empty value.\<close>

fun frozen_entries :: "memtable \<Rightarrow> bytes list \<Rightarrow> sst_entry list result" where
  "frozen_entries t [] = Inr []"
| "frozen_entries t (k # ks) =
     (case map_of (mt_Index t) k of
        None \<Rightarrow> frozen_entries t ks
      | Some offset \<Rightarrow>
        bindE (case arena_Get (mt_Arena t) offset of
                 Inl err \<Rightarrow> if err = Panic then Inl Panic else Inr ([], False)
               | Inr x \<Rightarrow> Inr x) (\<lambda>(val, isTombstone).
        bindE (frozen_entries t ks) (\<lambda>es. Inr ((k, val, isTombstone) # es))))"

definition sorted_keys :: "memtable \<Rightarrow> bytes list" where
  "sorted_keys t = sort (map fst (mt_Index t))"

definition CreateSSTable :: "(bytes \<Rightarrow> 64 word) \<Rightarrow> nat \<Rightarrow> bool \<Rightarrow> nat \<Rightarrow> memtable \<Rightarrow> nat \<Rightarrow>
    directory \<times> directory \<Rightarrow> (go_error option \<times> directory \<times> directory) result" where
  "CreateSSTable sum64 room create_ok now frozenMem level dirs =
     (case dirs of (sstDir, walDir) \<Rightarrow>
      let keys = sorted_keys frozenMem; filename = sst_name level now
      in if \<not> create_ok then Inr (Some (Errorf ''failed to create sstable file''), sstDir, walDir)
         else bindE (frozen_entries frozenMem keys) (\<lambda>es.
           case builder_AddAll sum64 (NewBuilder room (int (length keys))) es of
             (Some err, b) \<Rightarrow> if err = Panic then Inl Panic
                             else Inr (Some (Errorf ''failed to add key to sstable''),
                                       AList.delete filename sstDir, walDir)
           | (None, b) \<Rightarrow>
             (case builder_Close b of
                (Some err, b) \<Rightarrow> Inr (Some (Errorf ''failed to close sstable''),
                                     AList.update filename (content (b_File b)) sstDir, walDir)
              | (None, b) \<Rightarrow> Inr (None, AList.update filename (content (b_File b)) sstDir,
                  (case mt_Wal frozenMem of None \<Rightarrow> walDir | Some w \<Rightarrow> snd (wal_Remove walDir w))))))"

text \<open>
  \<open>FlushWorker\<close>: it wakes up when there is a signal. A round of its inner loop takes the frozen table under the lock,
  writes the table file without it (\<open>flush_create\<close>), clears the frozen table under the lock, whatever the outcome was, and opens
  the readers again (\<open>flush_finish\<close>). \<open>flush_step\<close> is a round during which nothing else happens; without a frozen table the
  worker goes back to sleep.
\<close>

definition flush_wake :: "store \<Rightarrow> store option" where
  "flush_wake s = (if st_FlushChan s then Some (s\<lparr>st_FlushChan := False\<rparr>) else None)"

definition flush_create :: "(bytes \<Rightarrow> 64 word) \<Rightarrow> nat \<Rightarrow> bool \<Rightarrow> nat \<Rightarrow> memtable \<Rightarrow> store \<Rightarrow> store result" where
  "flush_create sum64 room create_ok now frozenMem s =
     bindE (CreateSSTable sum64 room create_ok now frozenMem 0 (st_SstDir s, st_WalDir s)) (\<lambda>(err, sstDir, walDir).
     Inr (s\<lparr>st_SstDir := sstDir, st_WalDir := walDir\<rparr>))"

definition flush_finish :: "store \<Rightarrow> store result" where
  "flush_finish s = refreshSSTables (s\<lparr>st_frozenMap := None\<rparr>)"

definition flush_step :: "(bytes \<Rightarrow> 64 word) \<Rightarrow> nat \<Rightarrow> bool \<Rightarrow> nat \<Rightarrow> store \<Rightarrow> store result" where
  "flush_step sum64 room create_ok now s =
     (case st_frozenMap s of
        None \<Rightarrow> Inr s
      | Some frozenMem \<Rightarrow> bindE (flush_create sum64 room create_ok now frozenMem s) flush_finish)"

section \<open>Starting\<close>

fun recover_memtable :: "memtable \<Rightarrow> wal_entry list \<Rightarrow> memtable result" where
  "recover_memtable t [] = Inr t"
| "recover_memtable t (e # es) =
     (let k = we_Key e; v = we_Value e; n = length k + length v
      in if we_Cmd e = wal_CmdPut \<or> we_Cmd e = wal_CmdDelete
         then case mt_put t k v (we_Cmd e = wal_CmdDelete) n of
                (Some err, _) \<Rightarrow> Inl err
              | (None, t) \<Rightarrow> recover_memtable t es
         else recover_memtable (t\<lparr>mt_Index := AList.update k 0 (mt_Index t),
                                 mt_Size := mt_Size t + word_of_nat n\<rparr>) es)"

text \<open>
  \<open>mkdir_ok\<close> tells for which directories \<open>os.MkdirAll\<close> succeeds. A log that cannot be opened is a nil pointer, on
  which \<open>Recover\<close> panics; an error of \<open>Recover\<close> itself is ignored. \<open>raft_ok\<close> tells whether the log of the Raft node can be
  opened; if it cannot, \<open>Make\<close>, which is called last, panics. The goroutines that are started are the
  steps of the other operations.
\<close>

definition NewKVStore :: "(string \<Rightarrow> bool) \<Rightarrow> bool \<Rightarrow> bool \<Rightarrow> bool list \<Rightarrow> int \<Rightarrow> gofile \<Rightarrow> int \<Rightarrow> directory \<Rightarrow> directory \<Rightarrow>
    store result" where
  "NewKVStore mkdir_ok open_ok raft_ok peers me raftFile now walDir sstDir =
     (if \<not> mkdir_ok (''Storage/wal/wal_'' @ show_int me) then Inl (Errorf ''failed to create wal dir'')
      else if \<not> mkdir_ok (''Storage/data/data_'' @ show_int me) then Inl (Errorf ''failed to create sst dir'')
      else if \<not> open_ok then Inl Panic
      else let seqId = (case FindActiveFile (Some (map fst walDir)) of Inr (_, i) \<Rightarrow> nat i | Inl _ \<Rightarrow> 0);
               (wal, walDir) = OpenWAL_id walDir seqId;
               (recovered, wal) = wal_Recover wal;
               entries = (case recovered of Inr es \<Rightarrow> es | Inl _ \<Rightarrow> [])
           in bindE (recover_memtable (NewMemTable mapLimit (Some wal)) entries) (\<lambda>t.
              bindE (refreshSSTables \<lparr>st_ActiveMap = t, st_frozenMap = None, st_ssTables = [], st_WalDir = walDir,
                st_SstDir = sstDir, st_walSeq = 0, st_FlushChan = False,
                st_Raft = raft_Make peers me raftFile now, st_notifyChans = Map.empty, st_chans = Map.empty\<rparr>) (\<lambda>s.
              if raft_ok then Inr s else Inl Panic)))"

section \<open>The invariant\<close>

text \<open>A table whose size counter is the number of bytes in its arena.\<close>

definition mt_sized :: "memtable \<Rightarrow> bool" where
  "mt_sized t \<longleftrightarrow> unat (mt_Size t) = length (arena_data (mt_Arena t)) \<and> arena_cap (mt_Arena t) = mapLimit"

definition store_wf :: "store \<Rightarrow> bool" where
  "store_wf s \<longleftrightarrow> mt_wf (st_ActiveMap s) \<and> mt_sized (st_ActiveMap s) \<and>
     (\<forall>t. st_frozenMap s = Some t \<longrightarrow> mt_wf t)"

lemma mt_sized_New: "mt_sized (NewMemTable mapLimit w)"
  by (simp add: mt_sized_def NewMemTable_def NewArena_def)

lemma mapLimit_small: "n \<le> mapLimit \<Longrightarrow> n < 2 ^ 32"
  by (simp add: mapLimit_def)

lemma mt_put_sized:
  assumes "mt_wf t" and "mt_sized t" and "d \<Longrightarrow> v = []"
    and "mt_put t k v d (7 + length k + length v) = (r, t')"
  shows "(r = None \<longleftrightarrow> unat (mt_Size t) + (7 + length k + length v) \<le> mapLimit) \<and> mt_sized t'"
  using assms(4)
proof (cases rule: mt_put_cases)
  case (full err)
  have "arena_wf (mt_Arena t)" using assms(1) by (simp add: mt_wf_def)
  from arena_Put_fits [OF this, of k v d] full(1) assms(2,3) full(2,3) show ?thesis
    by (cases d) (auto simp: mt_sized_def)
next
  case (ok off a)
  have wf: "arena_wf (mt_Arena t)" using assms(1) by (simp add: mt_wf_def)
  from ok(1) have a: "length (arena_data a) = length (arena_data (mt_Arena t)) + (7 + length k + length v)"
    "arena_cap a = arena_cap (mt_Arena t)"
    using assms(3) by (auto simp: arena_Put_def length_arena_entry Let_def split: if_splits)
  have fits: "unat (mt_Size t) + (7 + length k + length v) \<le> mapLimit"
    using arena_Put_fits [OF wf, of k v d] ok(1) assms(2,3) by (cases d) (auto simp: mt_sized_def)
  then have lt: "unat (mt_Size t) + (7 + length k + length v) < 2 ^ 32" by (rule mapLimit_small)
  then have n: "unat (word_of_nat (7 + length k + length v) :: 32 word) = 7 + length k + length v"
    by (intro unat_len32) simp
  have "unat (mt_Size t + word_of_nat (7 + length k + length v)) = unat (mt_Size t) + (7 + length k + length v)"
    using unat_add_lem [of "mt_Size t" "word_of_nat (7 + length k + length v)"] lt unfolding n by simp
  with a fits assms(2) ok(2,3) show ?thesis by (simp add: mt_sized_def del: of_nat_add)
qed

section \<open>What a read sees\<close>

text \<open>The two tables in memory: the newest entry of a key.\<close>

definition mem_lookup :: "store \<Rightarrow> bytes \<Rightarrow> (bytes \<times> bool) option" where
  "mem_lookup s k = (case mt_lookup (st_ActiveMap s) k of
     Some x \<Rightarrow> Some x
   | None \<Rightarrow> (case st_frozenMap s of None \<Rightarrow> None | Some t \<Rightarrow> mt_lookup t k))"

text \<open>The answer for an entry: a tombstone hides the key.\<close>

definition answer :: "bytes \<times> bool \<Rightarrow> bytes \<times> bool" where
  "answer x = (if snd x then ([], False) else (fst x, True))"

lemma store_Get_tables:
  assumes a: "mt_wf (st_ActiveMap s)" and f: "\<And>t. st_frozenMap s = Some t \<Longrightarrow> mt_wf t"
  shows "store_Get sum64 s k = (case mem_lookup s k of
    Some x \<Rightarrow> Inr (answer x)
  | None \<Rightarrow> get_from_files sum64 (st_SstDir s) (sst_files (st_SstDir s)) k)"
proof (cases "st_frozenMap s")
  case None
  then show ?thesis
    by (auto simp: store_Get_def Get_memory_def checkTable_wf [OF a] mem_lookup_def answer_def checkTable_def [of None]
        split: option.splits)
next
  case (Some t)
  with f have "mt_wf t" by simp
  with Some show ?thesis
    by (auto simp: store_Get_def Get_memory_def checkTable_wf [OF a] checkTable_wf mem_lookup_def answer_def
        split: option.splits)
qed

lemma store_Get_wf:
  assumes "store_wf s"
  shows "store_Get sum64 s k = (case mem_lookup s k of
    Some x \<Rightarrow> Inr (answer x)
  | None \<Rightarrow> get_from_files sum64 (st_SstDir s) (sst_files (st_SstDir s)) k)"
  using assms by (intro store_Get_tables) (simp_all add: store_wf_def)

text \<open>The same, for tables in memory and table files that are not those of one store.\<close>

definition read_with :: "(bytes \<Rightarrow> 64 word) \<Rightarrow> (bytes \<Rightarrow> (bytes \<times> bool) option) \<Rightarrow> directory \<Rightarrow> bytes \<Rightarrow> (bytes \<times> bool) result" where
  "read_with sum64 mem dir k = (case mem k of Some x \<Rightarrow> Inr (answer x) | None \<Rightarrow> get_from_files sum64 dir (sst_files dir) k)"

lemma store_Get_read: "store_wf s \<Longrightarrow> store_Get sum64 s k = read_with sum64 (mem_lookup s) (st_SstDir s) k"
  by (simp add: store_Get_wf read_with_def)

lemma rotate_now_ok:
  assumes "st_frozenMap s = None" and "store_wf s"
  obtains s' where "rotate_now True s = Inr s'" "store_wf s'" "st_SstDir s' = st_SstDir s"
    "mem_lookup s' = mem_lookup s" "st_frozenMap s' = Some (st_ActiveMap s)" "mt_Size (st_ActiveMap s') = 0"
proof -
  let ?s = "\<lambda>w dir. s\<lparr>st_frozenMap := Some (st_ActiveMap s), st_walSeq := st_walSeq s + 1, st_WalDir := dir,
    st_ActiveMap := NewMemTable mapLimit (Some w), st_FlushChan := True\<rparr>"
  obtain w dir where "OpenWAL_id (st_WalDir s) (st_walSeq s + 1) = (w, dir)" by fastforce
  then have "rotate_now True s = Inr (?s w dir)" by (simp add: rotate_now_def Let_def)
  moreover have "store_wf (?s w dir)" using assms(2) by (simp add: store_wf_def mt_wf_New mt_sized_New)
  moreover have "mem_lookup (?s w dir) = mem_lookup s"
    using assms(1) by (auto simp: mem_lookup_def fun_eq_iff split: option.splits)
  moreover have "mt_Size (NewMemTable mapLimit (Some w)) = 0" by (simp add: NewMemTable_def)
  ultimately show thesis by (intro that [of "?s w dir"]) simp_all
qed

text \<open>The part of \<open>applyInternal\<close> after the rotation.\<close>

lemma put_active:
  assumes wf: "store_wf s" and k: "length k < 2 ^ 16" and d: "d \<Longrightarrow> v = []"
    and put: "mt_put (st_ActiveMap s) k v d (7 + length k + length v) = (None, t)"
  shows "store_wf (s\<lparr>st_ActiveMap := t\<rparr>)"
    and "mem_lookup (s\<lparr>st_ActiveMap := t\<rparr>) j = (if j = k then Some (v, d) else mem_lookup s j)"
proof -
  have a: "mt_wf (st_ActiveMap s)" "mt_sized (st_ActiveMap s)" using wf by (simp_all add: store_wf_def)
  have sz: "mt_sized t" "unat (mt_Size (st_ActiveMap s)) + (7 + length k + length v) \<le> mapLimit"
    using mt_put_sized [OF a d put] by simp_all
  then have v: "length v < 2 ^ 32" using mapLimit_small [of "length v"] by simp
  show "store_wf (s\<lparr>st_ActiveMap := t\<rparr>)"
    using mt_put_wf [OF a(1) put k v] sz(1) wf by (simp add: store_wf_def)
  show "mem_lookup (s\<lparr>st_ActiveMap := t\<rparr>) j = (if j = k then Some (v, d) else mem_lookup s j)"
    using mt_put_lookup [OF a(1) put k v, of j] d by (auto simp: mem_lookup_def split: option.splits)
qed

lemma applyInternal_outcome:
  assumes wf: "store_wf s" and k: "length k < 2 ^ 16" and d: "d \<Longrightarrow> v = []"
  obtains (ok) s' where "applyInternal True s k v d = Inr (None, s')" "store_wf s'" "st_SstDir s' = st_SstDir s"
      "mem_lookup s' = (mem_lookup s)(k \<mapsto> (v, d))"
      "7 + length k + length v \<le> mapLimit"
    | (error) err s' where "applyInternal True s k v d = Inr (Some err, s')" "store_wf s'"
      "st_SstDir s' = st_SstDir s" "mem_lookup s' = mem_lookup s"
      "mapLimit < unat (mt_Size (st_ActiveMap s)) + (7 + length k + length v)"
      "st_frozenMap s \<noteq> None \<or> mapLimit < 7 + length k + length v"
proof -
  define n where "n = 7 + length k + length v"
  have put: thesis if s1: "store_wf s1" "st_SstDir s1 = st_SstDir s" "mem_lookup s1 = mem_lookup s"
      and full: "mapLimit < unat (mt_Size (st_ActiveMap s1)) + n \<Longrightarrow> mapLimit < n \<and>
        mapLimit < unat (mt_Size (st_ActiveMap s)) + n"
      and app: "applyInternal True s k v d = (case mt_put (st_ActiveMap s1) k v d n of
        (Some err, _) \<Rightarrow> Inr (Some (Errorf ''failed to put key''), s1) | (None, t) \<Rightarrow> Inr (None, s1\<lparr>st_ActiveMap := t\<rparr>))"
    for s1
  proof -
    obtain r t where p: "mt_put (st_ActiveMap s1) k v d n = (r, t)" by fastforce
    have a: "mt_wf (st_ActiveMap s1)" "mt_sized (st_ActiveMap s1)" using s1(1) by (simp_all add: store_wf_def)
    note sz = mt_put_sized [OF a d p [unfolded n_def]]
    show thesis
    proof (cases r)
      case None
      note t = put_active [OF s1(1) k d p [unfolded n_def None]]
      from sz None have "n \<le> mapLimit" by (simp add: n_def)
      with t s1(2,3) app p None show thesis
        by (intro ok [of "s1\<lparr>st_ActiveMap := t\<rparr>"]) (auto simp: n_def fun_eq_iff)
    next
      case (Some err)
      with sz full have "mapLimit < n \<and> mapLimit < unat (mt_Size (st_ActiveMap s)) + n" by (simp add: n_def)
      with s1 app p Some show thesis by (intro error [of _ s1]) (auto simp: n_def)
    qed
  qed
  show thesis
  proof (cases "unat (mt_Size (st_ActiveMap s)) + n > mapLimit")
    case False
    then show thesis using wf by (intro put [of s]) (auto simp: applyInternal_def Let_def n_def)
  next
    case full: True
    show thesis
    proof (cases "st_frozenMap s")
      case None
      then show thesis
      proof (rule rotate_now_ok [OF _ wf])
        fix s1 assume s1: "rotate_now True s = Inr s1" "store_wf s1" "st_SstDir s1 = st_SstDir s"
          "mem_lookup s1 = mem_lookup s" "st_frozenMap s1 = Some (st_ActiveMap s)" "mt_Size (st_ActiveMap s1) = 0"
        with None full show thesis by (intro put [of s1]) (auto simp: applyInternal_def Let_def n_def)
      qed
    next
      case (Some t)
      with full wf show thesis
        by (intro error [of "Errorf ''write stall: memTable flushing''" s])
          (auto simp: applyInternal_def Let_def n_def)
    qed
  qed
qed

end
