(* ===== verification/Store_Flush.thy ===== *)
theory Store_Flush
  imports Store "HOL-Library.Multiset"
begin

text \<open>
  Writes, reads and flushes of the store together: what a read returns after a write, that a
  flush to a table file does not change what is read, what a failed flush loses, and in which
  order reads see the table files.
\<close>

section \<open>Directories\<close>

lemma update_new: "map_of dir f = None \<Longrightarrow> AList.update f c dir = dir @ [(f, c)]"
  by (induction dir) (auto split: if_splits)

lemma sort_snoc_greatest:
  assumes "\<forall>x \<in> set xs. x < m"
  shows "sort (xs @ [m]) = sort xs @ [m :: 'a :: linorder]"
proof (rule properties_for_sort)
  show "mset (sort xs @ [m]) = mset (xs @ [m])" by simp
  show "sorted (sort xs @ [m])" using assms by (auto simp: sorted_append intro: less_imp_le)
qed

lemma sst_files_new:
  assumes "map_of dir f = None" and "is_sst_name f" and "\<forall>g \<in> set (sst_files dir). g < f"
  shows "sst_files (AList.update f c dir) = f # sst_files dir"
proof -
  have "\<forall>g \<in> set (filter is_sst_name (map fst dir)). g < f" using assms(3) by (simp add: sst_files_def)
  from sort_snoc_greatest [OF this] assms(2) show ?thesis
    by (simp add: sst_files_def sort_reverse_def update_new [OF assms(1)])
qed

lemma get_from_files_cong:
  "(\<And>f. f \<in> set fs \<Longrightarrow> map_of dir f = map_of dir' f) \<Longrightarrow>
     get_from_files sum64 dir fs k = get_from_files sum64 dir' fs k"
proof (induction fs)
  case (Cons f fs)
  have "get_from_files sum64 dir fs k = get_from_files sum64 dir' fs k" using Cons by simp
  moreover have "map_of dir f = map_of dir' f" using Cons.prems by simp
  ultimately show ?case by (simp split: option.splits sum.splits)
qed simp

text \<open>A file that holds a table: what a lookup does with it.\<close>

definition holds_table :: "(bytes \<Rightarrow> 64 word) \<Rightarrow> directory \<Rightarrow> string \<Rightarrow> sst_entry list \<Rightarrow> bool" where
  "holds_table sum64 dir f es \<longleftrightarrow> (\<forall>e \<in> set es. entry_ok e) \<and> sorted_wrt (<) (keys_of es) \<and>
     (\<exists>idx flt. map_of dir f = Some (sst_file es idx flt) \<and> table_built sum64 es idx flt \<and>
        length (sst_file es idx flt) < 2 ^ 63)"

text \<open>The keys for which the lookup does not run past the entries of the table.\<close>

definition within :: "sst_entry list \<Rightarrow> bytes \<Rightarrow> bool" where
  "within es k \<longleftrightarrow> k \<in> set (keys_of es) \<or> (\<exists>j \<in> set (keys_of es). k < j)"

lemma get_from_files_table:
  assumes "holds_table sum64 dir f es" and "within es k"
  shows "get_from_files sum64 dir (f # fs) k =
    (case map_of es k of Some x \<Rightarrow> Inr (answer x) | None \<Rightarrow> get_from_files sum64 dir fs k)"
proof -
  from assms(1) obtain idx flt where t: "map_of dir f = Some (sst_file es idx flt)"
    "table_built sum64 es idx flt" "length (sst_file es idx flt) < 2 ^ 63"
    "\<forall>e \<in> set es. entry_ok e" "sorted_wrt (<) (keys_of es)"
    by (auto simp: holds_table_def)
  note open1 = OpenSSTable_file [OF t(2,4,3), of f]
  show ?thesis
  proof (cases "map_of es k")
    case None
    then have "k \<notin> set (keys_of es)" by (simp add: map_of_eq_None_iff keys_of_def)
    with assms(2) have "\<exists>j \<in> set (keys_of es). k < j" by (simp add: within_def)
    from reader_Get_absent [OF t(2,4,5) \<open>k \<notin> set (keys_of es)\<close> this, of f] None open1 t(1) show ?thesis by simp
  next
    case (Some x)
    then obtain v d where x: "x = (v, d)" by (cases x)
    from reader_Get_present [OF t(2,4,5), of k v d f] Some open1 t(1) show ?thesis
      by (simp add: x answer_def)
  qed
qed

section \<open>The entries of a frozen table\<close>

lemma frozen_entries_wf:
  assumes "mt_wf t" and "set ks \<subseteq> set (map fst (mt_Index t))" and "distinct ks"
  shows "\<exists>es. frozen_entries t ks = Inr es \<and> keys_of es = ks \<and> (\<forall>e \<in> set es. entry_ok e) \<and>
    (\<forall>k. map_of es k = (if k \<in> set ks then mt_lookup t k else None))"
  using assms(2,3)
proof (induction ks)
  case (Cons k ks)
  then obtain off where off: "map_of (mt_Index t) k = Some off"
    by (cases "map_of (mt_Index t) k") (auto simp: map_of_eq_None_iff)
  obtain x where x: "arena_Get (mt_Arena t) off = Inr x" "snd x \<Longrightarrow> fst x = []" "length (fst x) < 2 ^ 32"
    "length k < 2 ^ 16"
    using mt_wf_Get [OF assms(1) off] by blast
  obtain v d where vd: "x = (v, d)" by (cases x)
  from Cons obtain es where es: "frozen_entries t ks = Inr es" "keys_of es = ks" "\<forall>e \<in> set es. entry_ok e"
    "\<forall>k. map_of es k = (if k \<in> set ks then mt_lookup t k else None)" by auto
  have "frozen_entries t (k # ks) = Inr ((k, v, d) # es)" using off x(1) es(1) by (simp add: vd)
  moreover have "entry_ok (k, v, d)" using x(2-4) by (simp add: vd)
  moreover have "mt_lookup t k = Some (v, d)" using off x(1) by (simp add: mt_lookup_def vd)
  ultimately show ?case using es(2-4) by auto
qed simp

lemma sorted_keys_strict: "mt_wf t \<Longrightarrow> sorted_wrt (<) (sorted_keys t)"
  by (simp add: sorted_keys_def strict_sorted_iff mt_wf_def)

lemma frozen_table:
  assumes "mt_wf t"
  obtains es where "frozen_entries t (sorted_keys t) = Inr es" "keys_of es = sorted_keys t"
    "\<forall>e \<in> set es. entry_ok e" "map_of es = mt_lookup t" "length es = length (mt_Index t)"
proof -
  have "distinct (sorted_keys t)" "set (sorted_keys t) = set (map fst (mt_Index t))"
    using assms by (simp_all add: sorted_keys_def mt_wf_def)
  then obtain es where es: "frozen_entries t (sorted_keys t) = Inr es" "keys_of es = sorted_keys t"
    "\<forall>e \<in> set es. entry_ok e" "\<forall>k. map_of es k = (if k \<in> set (map fst (mt_Index t)) then mt_lookup t k else None)"
    using frozen_entries_wf [OF assms, of "sorted_keys t"] by auto
  have "mt_lookup t k = None" if "k \<notin> set (map fst (mt_Index t))" for k
  proof -
    have "map_of (mt_Index t) k = None" using that by (simp add: map_of_eq_None_iff)
    then show ?thesis by (simp add: mt_lookup_def)
  qed
  with es(4) have "map_of es = mt_lookup t" by (auto simp: fun_eq_iff)
  moreover have "length es = length (mt_Index t)"
    using arg_cong [OF es(2), of length] by (simp add: sorted_keys_def)
  ultimately show thesis using es(1-3) that by blast
qed

section \<open>Flushing\<close>

lemma CreateSSTable_builds:
  assumes "frozen_entries t (sorted_keys t) = Inr es" and "length es = length (mt_Index t)"
    and "build_table sum64 room (int (length (mt_Index t))) es = (None, b)"
  shows "CreateSSTable sum64 room True now t level (sstDir, walDir) =
    Inr (None, AList.update (sst_name level now) (content (b_File b)) sstDir,
      (case mt_Wal t of None \<Rightarrow> walDir | Some w \<Rightarrow> snd (wal_Remove walDir w)))"
proof -
  from assms(3) obtain b1 where "builder_AddAll sum64 (NewBuilder room (int (length (mt_Index t)))) es = (None, b1)"
    "builder_Close b1 = (None, b)"
    by (auto simp: build_table_def split: prod.splits option.splits)
  with assms(1) show ?thesis by (simp add: CreateSSTable_def Let_def sorted_keys_def)
qed

lemma is_sst_name_sst_name [simp]: "is_sst_name (sst_name level now)"
proof -
  have "HasSuffix ((''L'' @ decimal level @ ''_'' @ decimal now) @ ''.sst'') ''.sst''" by (rule HasSuffix_append)
  then show ?thesis by (simp only: is_sst_name_def sst_name_def append_assoc)
qed

lemma refreshSSTables_fields:
  "refreshSSTables s = Inr s' \<Longrightarrow> \<exists>rs. s' = s\<lparr>st_ssTables := rs\<rparr>"
  by (auto simp: refreshSSTables_def bindE_Inr_iff)

lemma build_holds_table:
  assumes "build_table sum64 q n es = (None, b)" and "n < 2 ^ 59" and "table_bound n es < 2 ^ 63"
    and "\<forall>e \<in> set es. entry_ok e" and "sorted_wrt (<) (keys_of es)" and "map_of dir f = Some (content (b_File b))"
  shows "holds_table sum64 dir f es"
proof -
  obtain idx flt where c: "content (b_File b) = sst_file es idx flt" "table_built sum64 es idx flt"
    by (rule build_table_built [OF assms(1,2)])
  have "length (sst_file es idx flt) < 2 ^ 63"
    using build_table_small [OF assms(1,2)] assms(3) by (simp add: c(1))
  with c assms(4-6) show ?thesis unfolding holds_table_def by auto
qed

text \<open>Opening files that hold tables does not panic.\<close>

lemma open_readers_total:
  "\<forall>f \<in> set fs. \<exists>es. holds_table sum64 dir f es \<Longrightarrow> \<exists>rs. open_readers dir fs = Inr rs"
proof (induction fs)
  case (Cons f fs)
  then obtain es idx flt where f: "map_of dir f = Some (sst_file es idx flt)" "table_built sum64 es idx flt"
    "\<forall>e \<in> set es. entry_ok e" "length (sst_file es idx flt) < 2 ^ 63"
    by (auto simp: holds_table_def)
  from Cons obtain rs where "open_readers dir fs = Inr rs" by auto
  with OpenSSTable_file [OF f(2-4), of f] f(1) show ?case by simp
qed simp

lemma refreshSSTables_total:
  assumes "\<forall>f \<in> set (sst_files (st_SstDir s)). \<exists>es. holds_table sum64 (st_SstDir s) f es"
  obtains rs where "refreshSSTables s = Inr (s\<lparr>st_ssTables := rs\<rparr>)"
  using open_readers_total [OF assms] by (auto simp: refreshSSTables_def)

text \<open>
  A flush with room on the device, into a file whose name is above those of the existing files: first the file is there and the
  frozen table as well, then the frozen table is gone.
\<close>

definition holds_tables :: "(bytes \<Rightarrow> 64 word) \<Rightarrow> directory \<Rightarrow> bool" where
  "holds_tables sum64 dir \<longleftrightarrow> (\<forall>g \<in> set (sst_files dir). \<exists>tab. holds_table sum64 dir g tab)"

lemma flush_create_ok:
  assumes wf: "store_wf s" and fr: "st_frozenMap s = Some t" and n: "length (mt_Index t) < 2 ^ 59"
    and es: "frozen_entries t (sorted_keys t) = Inr es"
    and room: "table_bound (int (length (mt_Index t))) es \<le> room" "table_bound (int (length (mt_Index t))) es < 2 ^ 63"
    and new: "map_of (st_SstDir s) (sst_name 0 now) = None" "\<forall>g \<in> set (sst_files (st_SstDir s)). g < sst_name 0 now"
    and tables: "holds_tables sum64 (st_SstDir s)"
  obtains s' where "flush_create sum64 room True now t s = Inr s'" "store_wf s'" "st_frozenMap s' = Some t"
    "st_ActiveMap s' = st_ActiveMap s" "holds_table sum64 (st_SstDir s') (sst_name 0 now) es" "holds_tables sum64 (st_SstDir s')"
    "sst_files (st_SstDir s') = sst_name 0 now # sst_files (st_SstDir s)"
    "\<forall>g \<in> set (sst_files (st_SstDir s)). map_of (st_SstDir s') g = map_of (st_SstDir s) g"
proof -
  let ?f = "sst_name 0 now" and ?n = "int (length (mt_Index t))"
  have "mt_wf t" using wf fr by (simp add: store_wf_def)
  then obtain es' where es': "frozen_entries t (sorted_keys t) = Inr es'" "keys_of es' = sorted_keys t"
    "\<forall>e \<in> set es'. entry_ok e" "map_of es' = mt_lookup t" "length es' = length (mt_Index t)"
    by (rule frozen_table)
  then have e: "es' = es" using es by simp
  have n59: "?n < 2 ^ 59" using n by simp
  obtain b where b: "build_table sum64 room ?n es = (None, b)" using build_table_total [OF n59 room(1)] by blast
  note cr = CreateSSTable_builds [OF es es'(5) [unfolded e] b, of now 0 "st_SstDir s" "st_WalDir s"]
  define s1 where "s1 = s\<lparr>st_SstDir := AList.update ?f (content (b_File b)) (st_SstDir s),
      st_WalDir := (case mt_Wal t of None \<Rightarrow> st_WalDir s | Some w \<Rightarrow> snd (wal_Remove (st_WalDir s) w))\<rparr>"
  have r: "flush_create sum64 room True now t s = Inr s1"
    unfolding flush_create_def cr bindE_simps prod.case s1_def ..
  have "sorted_wrt (<) (keys_of es)" using sorted_keys_strict [OF \<open>mt_wf t\<close>] es'(2) e by simp
  then have hold: "holds_table sum64 (st_SstDir s1) ?f es"
    by (intro build_holds_table [OF b n59 room(2) es'(3) [unfolded e]]) (simp_all add: s1_def update_conv')
  have files: "sst_files (st_SstDir s1) = ?f # sst_files (st_SstDir s)"
    unfolding s1_def using sst_files_new [OF new(1) _ new(2)] by simp
  have same: "map_of (st_SstDir s1) g = map_of (st_SstDir s) g" if "g \<in> set (sst_files (st_SstDir s))" for g
    using new(2) that by (auto simp: s1_def update_conv')
  have "\<exists>tab. holds_table sum64 (st_SstDir s1) g tab" if "g \<in> set (sst_files (st_SstDir s))" for g
    using tables same that by (simp add: holds_tables_def holds_table_def)
  with hold have "holds_tables sum64 (st_SstDir s1)" by (auto simp: files holds_tables_def)
  with r hold files same wf fr show thesis by (intro that [of s1]) (simp_all add: s1_def store_wf_def)
qed

lemma flush_finish_ok:
  assumes "store_wf s" and "holds_tables sum64 (st_SstDir s)"
  obtains s' where "flush_finish s = Inr s'" "store_wf s'" "st_frozenMap s' = None" "st_ActiveMap s' = st_ActiveMap s"
    "st_SstDir s' = st_SstDir s"
proof -
  obtain rs where "refreshSSTables (s\<lparr>st_frozenMap := None\<rparr>) = Inr (s\<lparr>st_frozenMap := None, st_ssTables := rs\<rparr>)"
    using refreshSSTables_total [of "s\<lparr>st_frozenMap := None\<rparr>" sum64] assms(2) by (auto simp: holds_tables_def)
  with assms(1) show thesis
    by (intro that [of "s\<lparr>st_frozenMap := None, st_ssTables := rs\<rparr>"]) (simp_all add: flush_finish_def store_wf_def)
qed

text \<open>What is read with the new file, while the frozen table is there and without it.\<close>

lemma flush_read_with:
  assumes "st_frozenMap s = Some t" and "holds_table sum64 dir f es" and "map_of es = mt_lookup t"
    and "sst_files dir = f # sst_files (st_SstDir s)"
    and "\<forall>g \<in> set (sst_files (st_SstDir s)). map_of dir g = map_of (st_SstDir s) g"
    and "mt_lookup (st_ActiveMap s) k \<noteq> None \<or> within es k"
  shows "read_with sum64 (mem_lookup s) dir k = read_with sum64 (mem_lookup s) (st_SstDir s) k \<and>
    read_with sum64 (mt_lookup (st_ActiveMap s)) dir k = read_with sum64 (mem_lookup s) (st_SstDir s) k"
proof (cases "mt_lookup (st_ActiveMap s) k")
  case (Some x)
  then show ?thesis by (simp add: read_with_def mem_lookup_def)
next
  case None
  with assms(6) have w: "within es k" by simp
  have "get_from_files sum64 dir (sst_files (st_SstDir s)) k = get_from_files sum64 (st_SstDir s) (sst_files (st_SstDir s)) k"
    using assms(5) by (intro get_from_files_cong) simp
  with None get_from_files_table [OF assms(2) w, of "sst_files (st_SstDir s)"] assms(1,3,4) show ?thesis
    by (simp add: read_with_def mem_lookup_def split: option.splits)
qed

lemma flush_reads:
  assumes "store_wf s" and "st_frozenMap s = Some t" and "length (mt_Index t) < 2 ^ 59"
    and "frozen_entries t (sorted_keys t) = Inr es"
    and "table_bound (int (length (mt_Index t))) es \<le> room" and "table_bound (int (length (mt_Index t))) es < 2 ^ 63"
    and "map_of (st_SstDir s) (sst_name 0 now) = None"
    and "\<forall>g \<in> set (sst_files (st_SstDir s)). g < sst_name 0 now"
    and "holds_tables sum64 (st_SstDir s)"
  shows "\<exists>s'. flush_create sum64 room True now t s = Inr s' \<and> store_wf s' \<and> st_frozenMap s' = Some t \<and>
    st_ActiveMap s' = st_ActiveMap s \<and> holds_tables sum64 (st_SstDir s') \<and>
    (\<forall>k. mem_lookup s k \<noteq> None \<or> (\<exists>j \<in> fst ` set (mt_Index t). k < j) \<longrightarrow>
       read_with sum64 (mem_lookup s) (st_SstDir s') k = read_with sum64 (mem_lookup s) (st_SstDir s) k \<and>
       read_with sum64 (mt_lookup (st_ActiveMap s)) (st_SstDir s') k = read_with sum64 (mem_lookup s) (st_SstDir s) k)"
proof (rule flush_create_ok [OF assms])
  fix s' assume s': "flush_create sum64 room True now t s = Inr s'" "store_wf s'" "st_frozenMap s' = Some t"
    "st_ActiveMap s' = st_ActiveMap s" "holds_table sum64 (st_SstDir s') (sst_name 0 now) es" "holds_tables sum64 (st_SstDir s')"
    "sst_files (st_SstDir s') = sst_name 0 now # sst_files (st_SstDir s)"
    "\<forall>g \<in> set (sst_files (st_SstDir s)). map_of (st_SstDir s') g = map_of (st_SstDir s) g"
  have "mt_wf t" using assms(1,2) by (simp add: store_wf_def)
  then obtain es' where "frozen_entries t (sorted_keys t) = Inr es'" "keys_of es' = sorted_keys t"
    "map_of es' = mt_lookup t"
    by (rule frozen_table)
  with assms(4) have es: "keys_of es = sorted_keys t" "map_of es = mt_lookup t" by simp_all
  have keys: "set (keys_of es) = fst ` set (mt_Index t)" by (simp add: es(1) sorted_keys_def)
  have "k \<in> set (keys_of es)" if "mt_lookup t k \<noteq> None" for k
    using that es(2) by (metis keys_of_def list.set_map map_of_eq_None_iff)
  then have "mt_lookup (st_ActiveMap s) k \<noteq> None \<or> within es k"
    if "mem_lookup s k \<noteq> None \<or> (\<exists>j \<in> fst ` set (mt_Index t). k < j)" for k
    using that assms(2) by (auto simp: within_def keys mem_lookup_def split: option.splits)
  with flush_read_with [OF assms(2) s'(5) es(2) s'(7,8)] s'(1-4,6) show ?thesis by blast
qed

section \<open>Properties\<close>

text \<open>
  C12: Writes and reads: applying a command returns and keeps the store well formed; if it succeeds, a read of
  the key returns the value (nothing after a delete) and reads of all other keys are as before; if
  it fails, all reads are as before. It succeeds if the entry fits the active table, or fits an
  empty table and no flush is pending.
\<close>

theorem apply_read_your_writes:
  assumes "store_wf s" and "length k < 2 ^ 16" and "d \<longrightarrow> v = []"
  shows "\<exists>err s'. applyInternal True s k v d = Inr (err, s') \<and> store_wf s' \<and>
    (\<forall>j. store_Get sum64 s' j = (if err = None \<and> j = k then Inr (if d then ([], False) else (v, True))
       else store_Get sum64 s j)) \<and>
    (unat (mt_Size (st_ActiveMap s)) + (7 + length k + length v) \<le> mapLimit \<or>
     st_frozenMap s = None \<and> 7 + length k + length v \<le> mapLimit \<longrightarrow> err = None)"
proof (rule applyInternal_outcome [OF assms(1,2), of d v])
  show "d \<Longrightarrow> v = []" using assms(3) by blast
next
  fix s1 assume "applyInternal True s k v d = Inr (None, s1)" "store_wf s1" "st_SstDir s1 = st_SstDir s"
    "mem_lookup s1 = (mem_lookup s)(k \<mapsto> (v, d))"
  with assms(1) show ?thesis
    by (intro exI [of _ None] exI [of _ s1]) (auto simp: store_Get_wf answer_def split: option.splits)
next
  fix e s1 assume "applyInternal True s k v d = Inr (Some e, s1)" "store_wf s1" "st_SstDir s1 = st_SstDir s"
    "mem_lookup s1 = mem_lookup s"
    "mapLimit < unat (mt_Size (st_ActiveMap s)) + (7 + length k + length v)"
    "st_frozenMap s \<noteq> None \<or> mapLimit < 7 + length k + length v"
  with assms(1) show ?thesis
    by (intro exI [of _ "Some e"] exI [of _ s1]) (auto simp: store_Get_wf split: option.splits)
qed

definition empty_store :: store where
  "empty_store = \<lparr>st_ActiveMap = NewMemTable mapLimit None, st_frozenMap = None, st_ssTables = [],
     st_WalDir = [], st_SstDir = [], st_walSeq = 0, st_FlushChan = False,
     st_Raft = raft_Make [] 0 \<lparr>content = [], quota = 0\<rparr> 0, st_notifyChans = Map.empty, st_chans = Map.empty\<rparr>"

lemma empty_store_wf: "store_wf empty_store"
  by (simp add: store_wf_def empty_store_def mt_wf_New mt_sized_New)

theorem apply_read_your_writes_witness:
  "\<exists>s'. applyInternal True empty_store [97] [1, 2] False = Inr (None, s') \<and>
     store_Get (\<lambda>k. 0) s' [97] = Inr ([1, 2], True)"
proof -
  have "unat (mt_Size (st_ActiveMap empty_store)) = 0" by (simp add: empty_store_def NewMemTable_def)
  with apply_read_your_writes [OF empty_store_wf, of "[97]" False "[1, 2]" "\<lambda>k. 0"] show ?thesis
    by (auto simp: mapLimit_def)
qed

text \<open>
  C14: A flush does not change what is read, under these conditions: the device has room; the name of the new file is above the names of all
  table files (so that there is none of a deeper level: \<open>stale_read_from_level1\<close> shows that this is needed); the existing table files hold
  tables; and the key is in memory or below some key of the flushed table. Then the file is written, and at this
  moment, with the frozen table still there, the key reads as before; the frozen table is removed, and the key reads as before again.
\<close>

theorem flush_preserves_reads:
  assumes "store_wf s" and "st_frozenMap s = Some t" and "length (mt_Index t) < 2 ^ 59"
    and "frozen_entries t (sorted_keys t) = Inr es"
    and "table_bound (int (length (mt_Index t))) es \<le> room" and "table_bound (int (length (mt_Index t))) es < 2 ^ 63"
    and "map_of (st_SstDir s) (sst_name 0 now) = None"
    and "\<forall>g \<in> set (sst_files (st_SstDir s)). g < sst_name 0 now"
    and "\<forall>g \<in> set (sst_files (st_SstDir s)). \<exists>tab. holds_table sum64 (st_SstDir s) g tab"
    and "mem_lookup s k \<noteq> None \<or> (\<exists>j \<in> fst ` set (mt_Index t). k < j)"
  shows "\<exists>s1 s2. flush_create sum64 room True now t s = Inr s1 \<and> st_frozenMap s1 = Some t \<and> store_Get sum64 s1 k = store_Get sum64 s k \<and>
    flush_finish s1 = Inr s2 \<and> flush_step sum64 room True now s = Inr s2 \<and> store_wf s2 \<and> st_frozenMap s2 = None \<and>
    store_Get sum64 s2 k = store_Get sum64 s k"
proof -
  have "holds_tables sum64 (st_SstDir s)" using assms(9) by (simp add: holds_tables_def)
  from flush_reads [OF assms(1-8) this] assms(10) obtain s1 where s1: "flush_create sum64 room True now t s = Inr s1" "store_wf s1"
    "st_frozenMap s1 = Some t" "st_ActiveMap s1 = st_ActiveMap s" "holds_tables sum64 (st_SstDir s1)"
    "read_with sum64 (mem_lookup s) (st_SstDir s1) k = read_with sum64 (mem_lookup s) (st_SstDir s) k"
    "read_with sum64 (mt_lookup (st_ActiveMap s)) (st_SstDir s1) k = read_with sum64 (mem_lookup s) (st_SstDir s) k" by blast
  obtain s2 where s2: "flush_finish s1 = Inr s2" "store_wf s2" "st_frozenMap s2 = None" "st_ActiveMap s2 = st_ActiveMap s1"
    "st_SstDir s2 = st_SstDir s1" by (rule flush_finish_ok [OF s1(2,5)])
  have "mem_lookup s1 = mem_lookup s" "mem_lookup s2 = mt_lookup (st_ActiveMap s)"
    using s1(3,4) s2(3,4) assms(2) by (auto simp: mem_lookup_def fun_eq_iff split: option.splits)
  with s1 s2 assms(1,2) show ?thesis
    by (intro exI [of _ s1] exI [of _ s2]) (simp add: store_Get_read flush_step_def)
qed

definition demo_frozen :: memtable where
  "demo_frozen = snd (mt_put (NewMemTable mapLimit None) [97] [1, 2] False 10)"

lemma demo_frozen_put: "mt_put (NewMemTable mapLimit None) [97] [1, 2] False 10 = (None, demo_frozen)"
  by (simp add: demo_frozen_def mt_put_def arena_Put_def NewMemTable_def NewArena_def mapLimit_def)

lemma demo_frozen_facts:
  "mt_wf demo_frozen" "mt_lookup demo_frozen [97] = Some ([1, 2], False)" "mt_Index demo_frozen = [([97], 0)]"
  "frozen_entries demo_frozen (sorted_keys demo_frozen) = Inr [([97], [1, 2], False)]"
proof -
  show "mt_wf demo_frozen" by (rule mt_put_wf [OF mt_wf_New demo_frozen_put]) simp_all
  show l: "mt_lookup demo_frozen [97] = Some ([1, 2], False)"
    by (simp add: mt_put_lookup [OF mt_wf_New demo_frozen_put])
  show i: "mt_Index demo_frozen = [([97], 0)]"
    by (simp add: demo_frozen_def mt_put_def arena_Put_def NewMemTable_def NewArena_def mapLimit_def)
  from l i show "frozen_entries demo_frozen (sorted_keys demo_frozen) = Inr [([97], [1, 2], False)]"
    by (simp add: mt_lookup_def sorted_keys_def split: sum.splits)
qed

definition demo_flush_store :: store where
  "demo_flush_store = empty_store\<lparr>st_frozenMap := Some demo_frozen\<rparr>"

lemma demo_flush_store_wf: "store_wf demo_flush_store"
  using empty_store_wf demo_frozen_facts(1) by (simp add: store_wf_def demo_flush_store_def)

lemma demo_bound: "table_bound 1 [([97], [1, 2], False)] \<le> 1000" "table_bound 1 [([97], [1, 2], False)] < 2 ^ 63"
  by (simp_all add: table_bound_def index_bound_def length_enc_entry)

theorem flush_preserves_reads_witness:
  "\<exists>s'. flush_step (\<lambda>k. 0) 1000 True 7 demo_flush_store = Inr s' \<and> st_frozenMap s' = None \<and>
     store_Get (\<lambda>k. 0) s' [97] = Inr ([1, 2], True)"
proof -
  let ?s = demo_flush_store and ?es = "[([97], [1, 2], False)]"
  have fr: "st_frozenMap ?s = Some demo_frozen" "st_SstDir ?s = []" "sst_files (st_SstDir ?s) = []"
    by (simp_all add: demo_flush_store_def empty_store_def sst_files_def sort_reverse_def)
  have "mem_lookup ?s [97] = Some ([1, 2], False)"
    by (simp add: mem_lookup_def demo_flush_store_def empty_store_def demo_frozen_facts(2))
  moreover have "\<exists>s1 s2. flush_create (\<lambda>k. 0) 1000 True 7 demo_frozen ?s = Inr s1 \<and> st_frozenMap s1 = Some demo_frozen \<and>
      store_Get (\<lambda>k. 0) s1 [97] = store_Get (\<lambda>k. 0) ?s [97] \<and> flush_finish s1 = Inr s2 \<and> flush_step (\<lambda>k. 0) 1000 True 7 ?s = Inr s2 \<and>
      store_wf s2 \<and> st_frozenMap s2 = None \<and> store_Get (\<lambda>k. 0) s2 [97] = store_Get (\<lambda>k. 0) ?s [97]"
    by (rule flush_preserves_reads [OF demo_flush_store_wf fr(1) _ demo_frozen_facts(4)])
      (use demo_bound calculation in \<open>simp_all add: demo_frozen_facts(3) fr sst_files_def\<close>)
  ultimately show ?thesis by (auto simp: store_Get_wf [OF demo_flush_store_wf] answer_def)
qed

text \<open>
  A failed flush loses the frozen table: if the table file cannot be created, the flush
  goes on (the existing table files hold tables and open again), the frozen table is dropped all the same, and a key that is not in the active table is read from the
  old files only, whatever the frozen table held.
\<close>

lemma flush_failure_discards:
  assumes "store_wf s" and "st_frozenMap s = Some t" and "mt_lookup (st_ActiveMap s) k = None"
    and "\<forall>g \<in> set (sst_files (st_SstDir s)). \<exists>tab. holds_table sum64 (st_SstDir s) g tab"
  shows "\<exists>s'. flush_step sum64 room False now s = Inr s' \<and> st_frozenMap s' = None \<and>
    store_Get sum64 s' k = get_from_files sum64 (st_SstDir s) (sst_files (st_SstDir s)) k"
proof -
  let ?s1 = "s\<lparr>st_frozenMap := None\<rparr>"
  have "flush_step sum64 room False now s = refreshSSTables ?s1"
    using assms(2) by (simp add: flush_step_def flush_create_def flush_finish_def CreateSSTable_def Let_def)
  moreover obtain rs where "refreshSSTables ?s1 = Inr (?s1\<lparr>st_ssTables := rs\<rparr>)"
    by (rule refreshSSTables_total [of ?s1 sum64]) (use assms(4) in simp)
  moreover have "store_wf (?s1\<lparr>st_ssTables := rs\<rparr>)" using assms(1) by (simp add: store_wf_def)
  ultimately show ?thesis using assms(3) by (simp add: store_Get_wf mem_lookup_def)
qed

lemma flush_failure_discards_witness:
  "\<exists>s'. flush_step (\<lambda>k. 0) 1000 False 7 demo_flush_store = Inr s' \<and>
     store_Get (\<lambda>k. 0) demo_flush_store [97] = Inr ([1, 2], True) \<and> store_Get (\<lambda>k. 0) s' [97] = Inr ([], False)"
proof -
  have fr: "st_frozenMap demo_flush_store = Some demo_frozen" "st_SstDir demo_flush_store = []"
    "mt_lookup (st_ActiveMap demo_flush_store) [97] = None"
    by (simp_all add: demo_flush_store_def empty_store_def)
  have "sst_files (st_SstDir demo_flush_store) = []" by (simp add: fr sst_files_def sort_reverse_def)
  with flush_failure_discards [OF demo_flush_store_wf fr(1) fr(3), of "\<lambda>k. 0" 1000 7] show ?thesis
    by (auto simp: fr store_Get_wf [OF demo_flush_store_wf] mem_lookup_def demo_frozen_facts(2) answer_def)
qed

lemma level_order: "sst_name 0 t0 < sst_name 1 t1"
  by (simp add: sst_name_def decimal.simps [of 0] decimal.simps [of "Suc 0"] digit_less)

text \<open>
  Reads prefer higher levels: if a key is both in a level-0 and in a level-1 file, a read
  returns the entry of the level-1 file, even though level 0 is the newer data.
\<close>

lemma stale_read_from_level1:
  assumes "store_wf s" and "mem_lookup s k = None"
    and "filter is_sst_name (map fst (st_SstDir s)) = [sst_name 0 t0, sst_name 1 t1]"
    and "holds_table sum64 (st_SstDir s) (sst_name 0 t0) es0" and "map_of es0 k = Some x0"
    and "holds_table sum64 (st_SstDir s) (sst_name 1 t1) es1" and "map_of es1 k = Some x1"
  shows "store_Get sum64 s k = Inr (answer x1)"
proof -
  have "sst_files (st_SstDir s) = [sst_name 1 t1, sst_name 0 t0]"
    using less_imp_le [OF level_order [of t0 t1]] by (simp add: sst_files_def assms(3) sort_reverse_def)
  moreover have "within es1 k" using assms(7) by (force simp: within_def keys_of_def dest: map_of_SomeD)
  ultimately show ?thesis
    using get_from_files_table [OF assms(6)] assms(2,7) by (simp add: store_Get_wf [OF assms(1)])
qed

lemma stale_read_from_level1_witness:
  "\<exists>dir. map_of dir (sst_name 0 7) \<noteq> None \<and>
     store_Get (\<lambda>k. 0) (empty_store\<lparr>st_SstDir := dir\<rparr>) [97] = Inr ([1], True)"
proof -
  let ?new = "[([97], [2], False)] :: sst_entry list" and ?old = "[([97], [1], False)] :: sst_entry list"
  have bd: "table_bound 1 ?new \<le> 1000" "table_bound 1 ?new < 2 ^ 63" "table_bound 1 ?old \<le> 1000" "table_bound 1 ?old < 2 ^ 63"
    by (simp_all add: table_bound_def index_bound_def length_enc_entry)
  obtain b0 where b0: "build_table (\<lambda>k. 0) 1000 1 ?new = (None, b0)" using build_table_total [OF _ bd(1)] by auto
  obtain b1 where b1: "build_table (\<lambda>k. 0) 1000 1 ?old = (None, b1)" using build_table_total [OF _ bd(3)] by auto
  let ?dir = "[(sst_name 0 7, content (b_File b0)), (sst_name 1 5, content (b_File b1))]"
  let ?s = "empty_store\<lparr>st_SstDir := ?dir\<rparr>"
  have ne: "sst_name 0 7 \<noteq> sst_name 1 5" using level_order [of 7 5] by auto
  have "holds_table (\<lambda>k. 0) (st_SstDir ?s) (sst_name 0 7) ?new"
    by (rule build_holds_table [OF b0 _ bd(2)]) simp_all
  moreover have "holds_table (\<lambda>k. 0) (st_SstDir ?s) (sst_name 1 5) ?old"
    by (rule build_holds_table [OF b1 _ bd(4)]) (use ne in simp_all)
  moreover have "store_wf ?s" "mem_lookup ?s [97] = None"
    using empty_store_wf by (simp_all add: store_wf_def mem_lookup_def empty_store_def)
  ultimately have "store_Get (\<lambda>k. 0) ?s [97] = Inr (answer ([1], False))"
    by (intro stale_read_from_level1 [where ?t0.0 = 7 and ?t1.0 = 5 and ?es0.0 = ?new and ?es1.0 = ?old]) simp_all
  then show ?thesis by (intro exI [of _ ?dir]) (simp add: answer_def)
qed

end
