(* ===== verification/Merge.thy ===== *)
theory Merge
  imports Sstable_Iterator
begin

text \<open>
  The k-way merge of \<^verbatim>\<open>kv/compact.go\<close> (the loop of \<open>CheckAndCompact\<close>): find the least
  current key of the valid iterators, take the value of the first iterator that has it (the
  files are ordered newest first), advance every iterator that has it, and add the entry to the
  output unless it is a tombstone that goes to the bottom level. The lemmas show that the loop
  ends and that, for iterators that yield strictly increasing keys, the output is strictly
  increasing and holds for each key its newest entry.
\<close>

text \<open>The scan for the least key: the key, whether none was seen yet, and the number of valid ones.\<close>

fun find_min :: "sst_iter list \<Rightarrow> bytes \<times> bool \<times> nat \<Rightarrow> bytes \<times> bool \<times> nat" where
  "find_min [] acc = acc"
| "find_min (it # its) (minKey, first, activeCount) =
     (if it_Valid it
      then if first \<or> it_Key it < minKey
           then find_min its (it_Key it, False, activeCount + 1)
           else find_min its (minKey, first, activeCount + 1)
      else find_min its (minKey, first, activeCount))"

text \<open>The second scan: the first value with the key wins, every iterator with the key advances.\<close>

fun resolve :: "bytes \<Rightarrow> sst_iter list \<Rightarrow> (bytes \<times> bool) option \<Rightarrow>
    (bytes \<times> bool) option \<times> sst_iter list" where
  "resolve minKey [] winner = (winner, [])"
| "resolve minKey (it # its) winner =
     (if it_Valid it \<and> it_Key it = minKey
      then let winner = (case winner of None \<Rightarrow> Some (it_Value it, it_IsTombstone it) | Some w \<Rightarrow> Some w);
               (w, its') = resolve minKey its winner
           in (w, iter_Next it # its')
      else let (w, its') = resolve minKey its winner in (w, it # its'))"

section \<open>The two scans\<close>

lemma find_min_count: "snd (snd (find_min its acc)) = snd (snd acc) + length (filter it_Valid its)"
  by (induction its acc rule: find_min.induct) auto

lemma find_min_least:
  assumes "find_min its (m, first, n) = (k, f, c)"
  shows "(f \<longleftrightarrow> first \<and> \<not> (\<exists>it \<in> set its. it_Valid it)) \<and>
    (\<not> f \<longrightarrow> (\<forall>it \<in> set its. it_Valid it \<longrightarrow> k \<le> it_Key it) \<and> (\<not> first \<longrightarrow> k \<le> m) \<and>
      ((\<not> first \<and> k = m) \<or> (\<exists>it \<in> set its. it_Valid it \<and> it_Key it = k)))"
  using assms
proof (induction its arbitrary: m first n)
  case (Cons it its)
  show ?case
  proof (cases "it_Valid it")
    case False
    with Cons show ?thesis by auto
  next
    case valid: True
    show ?thesis
    proof (cases "first \<or> it_Key it < m")
      case True
      with valid Cons.prems have "find_min its (it_Key it, False, n + 1) = (k, f, c)" by simp
      from Cons.IH [OF this] True valid show ?thesis by auto
    next
      case False
      with valid Cons.prems have "find_min its (m, first, n + 1) = (k, f, c)" by simp
      from Cons.IH [OF this] False valid show ?thesis by auto
    qed
  qed
qed simp

lemma find_min_spec:
  assumes "find_min its ([], True, 0) = (k, f, Suc c)"
  shows "\<forall>it \<in> set its. it_Valid it \<longrightarrow> k \<le> it_Key it" and "\<exists>it \<in> set its. it_Valid it \<and> it_Key it = k"
proof -
  have "filter it_Valid its \<noteq> []"
    using find_min_count [of its "([], True, 0)"] assms by auto
  then have "\<exists>it \<in> set its. it_Valid it" by (auto simp: filter_empty_conv)
  with find_min_least [OF assms]
  show "\<forall>it \<in> set its. it_Valid it \<longrightarrow> k \<le> it_Key it" and "\<exists>it \<in> set its. it_Valid it \<and> it_Key it = k"
    by auto
qed

definition advance :: "bytes \<Rightarrow> sst_iter \<Rightarrow> sst_iter" where
  "advance k it = (if it_Valid it \<and> it_Key it = k then iter_Next it else it)"

lemma resolve_iters: "snd (resolve k its w) = map (advance k) its"
  by (induction its arbitrary: w) (simp_all add: advance_def Let_def case_prod_unfold)

lemma resolve_winner:
  "fst (resolve k its w) = (case w of Some x \<Rightarrow> Some x | None \<Rightarrow>
     map_option (\<lambda>it. (it_Value it, it_IsTombstone it)) (find (\<lambda>it. it_Valid it \<and> it_Key it = k) its))"
  by (induction its arbitrary: w) (simp_all add: Let_def case_prod_unfold split: option.splits)

lemma advance_le: "iter_measure (advance k it) \<le> iter_measure it"
  using iter_Next_decreases [of it] by (auto simp: advance_def)

lemma advance_decreases:
  assumes "it \<in> set its" and "it_Valid it" and "it_Key it = k"
  shows "sum_list (map (\<lambda>it. iter_measure (advance k it)) its) < sum_list (map iter_measure its)"
  using assms
proof (induction its)
  case (Cons jt its)
  have le: "sum_list (map (\<lambda>it. iter_measure (advance k it)) its) \<le> sum_list (map iter_measure its)"
    by (rule sum_list_mono) (simp add: advance_le)
  show ?case
  proof (cases "it = jt")
    case True
    then have "iter_measure (advance k jt) < iter_measure jt"
      using Cons.prems iter_Next_decreases [of jt] by (simp add: advance_def)
    with le show ?thesis by simp
  next
    case False
    with Cons advance_le [of k jt] show ?thesis by (simp add: add_le_less_mono)
  qed
qed simp

lemma merge_round_decreases:
  assumes "find_min its ([], True, 0) = (k, f, c)" and "c \<noteq> 0" and "resolve k its None = (w, its')"
  shows "sum_list (map iter_measure its') < sum_list (map iter_measure its)"
proof -
  from assms(1,2) obtain it where "it \<in> set its" "it_Valid it" "it_Key it = k"
    using find_min_spec(2) by (cases c) blast+
  moreover have "its' = map (advance k) its" using resolve_iters [of k its None] assms(3) by simp
  ultimately show ?thesis using advance_decreases by (simp add: comp_def)
qed

section \<open>The merge loop\<close>

function merge_loop :: "(bytes \<Rightarrow> 64 word) \<Rightarrow> bool \<Rightarrow> sst_iter list \<Rightarrow> builder \<Rightarrow>
    go_error option \<times> builder" where
  "merge_loop sum64 isBottomLevel its b =
     (let (minKey, first, activeCount) = find_min its ([], True, 0) in
      if activeCount = 0 then (None, b)
      else let (winner, its') = resolve minKey its None in
        case winner of
          None \<Rightarrow> merge_loop sum64 isBottomLevel its' b
        | Some (winnerVal, winnerTomb) \<Rightarrow>
            if winnerTomb \<and> isBottomLevel then merge_loop sum64 isBottomLevel its' b
            else case builder_Add sum64 b (minKey, winnerVal, winnerTomb) of
                   (Some err, b') \<Rightarrow> (Some err, b')
                 | (None, b') \<Rightarrow> merge_loop sum64 isBottomLevel its' b')"
  by pat_completeness auto
termination
  by (relation "measure (\<lambda>(h, bl, its, b). sum_list (map iter_measure its))")
    (auto intro: merge_round_decreases [OF sym _ sym])

declare merge_loop.simps [simp del]

text \<open>The entries the loop adds, without the builder.\<close>

function merge_entries :: "bool \<Rightarrow> sst_iter list \<Rightarrow> sst_entry list" where
  "merge_entries isBottomLevel its =
     (let (minKey, first, activeCount) = find_min its ([], True, 0) in
      if activeCount = 0 then []
      else let (winner, its') = resolve minKey its None in
        (case winner of
           Some (v, t) \<Rightarrow> if t \<and> isBottomLevel then [] else [(minKey, v, t)]
         | None \<Rightarrow> []) @ merge_entries isBottomLevel its')"
  by pat_completeness auto
termination
  by (relation "measure (\<lambda>(bl, its). sum_list (map iter_measure its))")
    (auto intro: merge_round_decreases [OF sym _ sym])

declare merge_entries.simps [simp del]

lemma merge_entries_done:
  "find_min its ([], True, 0) = (k, f, 0) \<Longrightarrow> merge_entries bl its = []"
  by (subst merge_entries.simps) simp

lemma merge_entries_round:
  "find_min its ([], True, 0) = (k, f, Suc c) \<Longrightarrow> resolve k its None = (Some (v, t), its') \<Longrightarrow>
     merge_entries bl its = (if t \<and> bl then [] else [(k, v, t)]) @ merge_entries bl its'"
  by (subst merge_entries.simps) simp

text \<open>A round always finds a winner: the branch "should never happen" of the code never does.\<close>

lemma resolve_finds_winner:
  assumes "find_min its ([], True, 0) = (k, f, Suc c)"
  obtains it where "find (\<lambda>it. it_Valid it \<and> it_Key it = k) its = Some it" "it_Valid it" "it_Key it = k"
    "resolve k its None = (Some (it_Value it, it_IsTombstone it), map (advance k) its)"
proof -
  from find_min_spec(2) [OF assms] obtain it where it: "find (\<lambda>it. it_Valid it \<and> it_Key it = k) its = Some it"
    by (cases "find (\<lambda>it. it_Valid it \<and> it_Key it = k) its") (auto simp: find_None_iff)
  then have "it_Valid it" "it_Key it = k" by (auto simp: find_Some_iff)
  moreover have "resolve k its None = (Some (it_Value it, it_IsTombstone it), map (advance k) its)"
    using resolve_winner [of k its None] resolve_iters [of k its None] it by (simp add: prod_eq_iff)
  ultimately show thesis using it by (intro that)
qed

lemma merge_loop_entries: "merge_loop sum64 bl its b = builder_AddAll sum64 b (merge_entries bl its)"
proof (induction "sum_list (map iter_measure its)" arbitrary: its b rule: less_induct)
  case less
  obtain k f c where fm: "find_min its ([], True, 0) = (k, f, c)" by (cases "find_min its ([], True, 0)")
  show ?case
  proof (cases c)
    case 0
    with fm show ?thesis by (subst merge_loop.simps) (simp add: merge_entries_done)
  next
    case (Suc c')
    then obtain v t where rs: "resolve k its None = (Some (v, t), map (advance k) its)"
      using resolve_finds_winner [of its k f c'] fm by (metis surj_pair)
    have "sum_list (map iter_measure (map (advance k) its)) < sum_list (map iter_measure its)"
      using merge_round_decreases [OF fm _ rs] Suc by simp
    note IH = less.hyps [OF this]
    from fm rs Suc IH show ?thesis
      by (subst merge_loop.simps)
        (auto simp: merge_entries_round [OF _ rs] split: option.splits prod.splits)
  qed
qed

section \<open>What the merge computes\<close>

text \<open>The newest entry of a key in a list of tables, newest table first.\<close>

fun newest :: "sst_entry list list \<Rightarrow> bytes \<Rightarrow> (bytes \<times> bool) option" where
  "newest [] k = None"
| "newest (s # ss) k = (case map_of s k of Some x \<Rightarrow> Some x | None \<Rightarrow> newest ss k)"

lemma newest_cong: "(\<And>s. s \<in> set its \<Longrightarrow> map_of (f s) k = map_of (g s) k) \<Longrightarrow>
    newest (map f its) k = newest (map g its) k"
  by (induction its) (auto split: option.splits)

lemma newest_None: "(\<And>s. s \<in> set ss \<Longrightarrow> k \<notin> set (keys_of s)) \<Longrightarrow> newest ss k = None"
proof (induction ss)
  case (Cons s ss)
  have "map_of s k = None" using Cons.prems [of s] by (simp add: map_of_eq_None_iff keys_of_def)
  moreover have "newest ss k = None" using Cons by simp
  ultimately show ?case by simp
qed simp

abbreviation strict_keys :: "sst_entry list \<Rightarrow> bool" where
  "strict_keys es \<equiv> sorted_wrt (<) (keys_of es)"

lemma advance_stream:
  assumes "strict_keys (iter_stream it)" and "it_Valid it \<Longrightarrow> k \<le> it_Key it"
  shows "iter_stream it = (if it_Valid it \<and> it_Key it = k then [it_entry it] else []) @ iter_stream (advance k it)"
    and "\<forall>j \<in> set (keys_of (iter_stream (advance k it))). k < j"
    and "strict_keys (iter_stream (advance k it))"
proof -
  show "iter_stream it = (if it_Valid it \<and> it_Key it = k then [it_entry it] else []) @ iter_stream (advance k it)"
    by (simp add: advance_def)
  show "\<forall>j \<in> set (keys_of (iter_stream (advance k it))). k < j"
    and "strict_keys (iter_stream (advance k it))"
    using assms by (cases "it_Valid it"; auto simp: advance_def it_entry_def dest: le_less_trans)+
qed

lemma newest_min:
  assumes "find (\<lambda>it. it_Valid it \<and> it_Key it = k) its = Some it"
    and "\<And>it. it \<in> set its \<Longrightarrow> strict_keys (iter_stream it)"
    and "\<And>it. it \<in> set its \<Longrightarrow> it_Valid it \<Longrightarrow> k \<le> it_Key it"
  shows "newest (map iter_stream its) k = Some (it_Value it, it_IsTombstone it)"
  using assms
proof (induction its)
  case (Cons jt its)
  show ?case
  proof (cases "it_Valid jt \<and> it_Key jt = k")
    case True
    with Cons.prems(1) show ?thesis by (simp add: it_entry_def)
  next
    case False
    have "strict_keys (iter_stream jt)" "it_Valid jt \<Longrightarrow> k \<le> it_Key jt" using Cons.prems(2,3) by simp_all
    from advance_stream [OF this] False have "k \<notin> set (keys_of (iter_stream jt))"
      by (auto simp: advance_def)
    then have "map_of (iter_stream jt) k = None" by (simp add: map_of_eq_None_iff keys_of_def)
    moreover have "newest (map iter_stream its) k = Some (it_Value it, it_IsTombstone it)"
      using False Cons.prems by (intro Cons.IH) (auto split: if_splits)
    ultimately show ?thesis by simp
  qed
qed simp

lemma merge_entries_spec:
  assumes "\<And>it. it \<in> set its \<Longrightarrow> strict_keys (iter_stream it)"
  shows "strict_keys (merge_entries bl its) \<and>
    (\<forall>k. map_of (merge_entries bl its) k = (case newest (map iter_stream its) k of
       None \<Rightarrow> None | Some (v, t) \<Rightarrow> if t \<and> bl then None else Some (v, t)))"
  using assms
proof (induction "sum_list (map iter_measure its)" arbitrary: its rule: less_induct)
  case less
  obtain m f c where fm: "find_min its ([], True, 0) = (m, f, c)" by (cases "find_min its ([], True, 0)")
  show ?case
  proof (cases c)
    case 0
    with fm find_min_count [of its "([], True, 0)"] have "\<forall>it \<in> set its. \<not> it_Valid it"
      by (auto simp: filter_empty_conv)
    then have "newest (map iter_stream its) k = None" for k
      by (intro newest_None) auto
    with fm 0 show ?thesis by (simp add: merge_entries_done)
  next
    case (Suc c')
    note fm' = fm [unfolded Suc]
    obtain it where it: "find (\<lambda>it. it_Valid it \<and> it_Key it = m) its = Some it"
      and rs: "resolve m its None = (Some (it_Value it, it_IsTombstone it), map (advance m) its)"
      using resolve_finds_winner [OF fm'] by blast
    let ?its = "map (advance m) its"
    have adv: "jt \<in> set its \<Longrightarrow> iter_stream jt = (if it_Valid jt \<and> it_Key jt = m then [it_entry jt] else []) @
          iter_stream (advance m jt) \<and> (\<forall>j \<in> set (keys_of (iter_stream (advance m jt))). m < j) \<and>
          strict_keys (iter_stream (advance m jt))" for jt
      using advance_stream [of jt m] find_min_spec(1) [OF fm'] less.prems by blast
    have IH: "strict_keys (merge_entries bl ?its) \<and>
        (\<forall>k. map_of (merge_entries bl ?its) k = (case newest (map iter_stream ?its) k of
           None \<Rightarrow> None | Some (v, t) \<Rightarrow> if t \<and> bl then None else Some (v, t)))"
      using adv by (intro less.hyps merge_round_decreases [OF fm _ rs]) (auto simp: Suc)
    have new: "newest (map iter_stream its) m = Some (it_Value it, it_IsTombstone it)"
      using find_min_spec(1) [OF fm'] less.prems by (intro newest_min [OF it]) auto
    have gt: "newest (map iter_stream ?its) j = None" if "\<not> m < j" for j
      using that adv by (intro newest_None) fastforce
    have other: "newest (map iter_stream ?its) j = newest (map iter_stream its) j" if "j \<noteq> m" for j
      unfolding map_map comp_def
      by (rule newest_cong) (use that adv in \<open>force simp: it_entry_def\<close>)
    have keys: "\<forall>j \<in> set (keys_of (merge_entries bl ?its)). m < j"
    proof
      fix j assume "j \<in> set (keys_of (merge_entries bl ?its))"
      then have "map_of (merge_entries bl ?its) j \<noteq> None"
        by (auto simp: map_of_eq_None_iff keys_of_def)
      with IH gt [of j] show "m < j" by (cases "m < j") auto
    qed
    have "map_of (merge_entries bl its) k = (case newest (map iter_stream its) k of
       None \<Rightarrow> None | Some (v, t) \<Rightarrow> if t \<and> bl then None else Some (v, t))" for k
      using IH new other [of k] gt [of m] by (cases "k = m") (auto simp: merge_entries_round [OF fm' rs])
    moreover have "strict_keys (merge_entries bl its)"
      using IH keys by (auto simp: merge_entries_round [OF fm' rs])
    ultimately show ?thesis by blast
  qed
qed

section \<open>Properties\<close>

text \<open>
  C24: The k-way merge ends and hands to the builder, in strictly increasing key order, exactly
  one entry for each key of its inputs: the one of the first (newest) iterator that has the
  key; at the bottom level the keys whose newest entry is a tombstone are left out, at other levels tombstones are kept. The
  hypothesis is that each iterator yields its keys in strictly increasing order, which is so for the entries of a table, but
  not for what an iterator can read behind them (\<open>iterator_overruns\<close>).
\<close>

theorem merge_newest_wins:
  assumes "\<forall>it \<in> set its. strict_keys (iter_stream it)"
  shows "\<exists>out. merge_loop sum64 isBottomLevel its b = builder_AddAll sum64 b out \<and> strict_keys out \<and>
    (\<forall>k. map_of out k = (case newest (map iter_stream its) k of
       None \<Rightarrow> None | Some (v, t) \<Rightarrow> if t \<and> isBottomLevel then None else Some (v, t)))"
  using merge_loop_entries merge_entries_spec [of its isBottomLevel] assms by blast

definition demo_newer :: sst_iter where
  "demo_newer = NewIterator (enc_entries [([1], [5], False), ([2], [], True)])"

definition demo_older :: sst_iter where
  "demo_older = NewIterator (enc_entries [([2], [6], False), ([3], [7], False)])"

lemma demo_streams:
  "iter_stream demo_newer = [([1], [5], False), ([2], [], True)]"
  "iter_stream demo_older = [([2], [6], False), ([3], [7], False)]"
proof -
  have nil: "iter_stream (NewIterator []) = []" by (simp add: NewIterator_def iter_Next_def stream_Read_def)
  show "iter_stream demo_newer = [([1], [5], False), ([2], [], True)]"
    using iter_stream_entries [of "[([1], [5], False), ([2], [], True)]" "[]"] by (simp add: nil demo_newer_def)
  show "iter_stream demo_older = [([2], [6], False), ([3], [7], False)]"
    using iter_stream_entries [of "[([2], [6], False), ([3], [7], False)]" "[]"] by (simp add: nil demo_older_def)
qed

theorem merge_newest_wins_witness:
  "\<exists>out. merge_loop (\<lambda>k. 0) True [demo_newer, demo_older] (NewBuilder 1000 10000) =
     builder_AddAll (\<lambda>k. 0) (NewBuilder 1000 10000) out \<and>
     map_of out [1] = Some ([5], False) \<and> map_of out [2] = None \<and> map_of out [3] = Some ([7], False)"
proof -
  have "\<forall>it \<in> set [demo_newer, demo_older]. strict_keys (iter_stream it)" by (simp add: demo_streams)
  from merge_newest_wins [OF this, of "\<lambda>k. 0" True "NewBuilder 1000 10000", unfolded list.map demo_streams]
  show ?thesis by (elim ex_forward) simp
qed

end
