(* ===== verification/Compaction.thy ===== *)
theory Compaction
  imports Store_Flush Merge
begin

text \<open>
  Compaction (\<^verbatim>\<open>kv/compact.go\<close>): when a level has at least four table files, they are merged into one
  file of the next level and removed. The merge loop itself is in the theory of the k-way merge;
  here are the choice of the files, the iterators, the new file and the removal. Compactions are
  serialised by \<open>compactionMu\<close>. The lock of the store is held for the choice of the files (\<open>compact_select\<close>) and
  for their removal (\<open>compact_install\<close>), not for the merge in between (\<open>compact_merge\<close>); \<open>CheckAndCompact\<close> is a compaction
  during which nothing else happens. Metrics are left out.
\<close>

definition maxLevelFiles :: nat where "maxLevelFiles = 4"

definition getFilesForLevel :: "nat \<Rightarrow> directory \<Rightarrow> string list" where
  "getFilesForLevel level dir =
     sort_reverse (filter (\<lambda>f. HasPrefix f (''L'' @ decimal level @ ''_'') \<and> HasSuffix f ''.sst'') (map fst dir))"

text \<open>The iterators over the files that have an entry; \<open>None\<close> if a file cannot be opened.\<close>

fun open_iterators :: "directory \<Rightarrow> string list \<Rightarrow> sst_iter list option" where
  "open_iterators dir [] = Some []"
| "open_iterators dir (f # fs) =
     (case map_of dir f of
        None \<Rightarrow> None
      | Some bytes \<Rightarrow>
          let it = NewIterator bytes
          in map_option (\<lambda>its. if it_Valid it then it # its else its) (open_iterators dir fs))"

definition remove_files :: "string list \<Rightarrow> directory \<Rightarrow> directory" where
  "remove_files fs dir = fold AList.delete fs dir"

definition compact_select :: "nat \<Rightarrow> store \<Rightarrow> string list option" where
  "compact_select level s =
     (let levelFiles = getFilesForLevel level (st_SstDir s)
      in if length levelFiles < maxLevelFiles then None else Some levelFiles)"

definition compact_merge :: "(bytes \<Rightarrow> 64 word) \<Rightarrow> nat \<Rightarrow> bool \<Rightarrow> nat \<Rightarrow> nat \<Rightarrow> string list \<Rightarrow> store \<Rightarrow>
    (go_error option \<times> store) result" where
  "compact_merge sum64 room create_ok now level filesToCompact s =
     (let nextLevel = level + 1; isBottomLevel = (nextLevel \<ge> maxLevelFiles); newFilename = sst_name nextLevel now
      in case open_iterators (st_SstDir s) filesToCompact of
           None \<Rightarrow> Inr (Some ErrOS, s)
         | Some iterators \<Rightarrow>
           if \<not> create_ok then Inr (Some ErrOS, s)
           else case merge_loop sum64 isBottomLevel iterators (NewBuilder room 10000) of
                  (Some err, b) \<Rightarrow>
                    if err = Panic then Inl Panic
                    else Inr (Some err, s\<lparr>st_SstDir := AList.update newFilename (content (b_File b)) (st_SstDir s)\<rparr>)
                | (None, b) \<Rightarrow>
                    let (_, b) = builder_Close b
                    in Inr (None, s\<lparr>st_SstDir := AList.update newFilename (content (b_File b)) (st_SstDir s)\<rparr>))"

definition compact_install :: "string list \<Rightarrow> store \<Rightarrow> store result" where
  "compact_install filesToCompact s = refreshSSTables (s\<lparr>st_SstDir := remove_files filesToCompact (st_SstDir s)\<rparr>)"

definition CheckAndCompact :: "(bytes \<Rightarrow> 64 word) \<Rightarrow> nat \<Rightarrow> bool \<Rightarrow> nat \<Rightarrow> nat \<Rightarrow> store \<Rightarrow>
    (go_error option \<times> store) result" where
  "CheckAndCompact sum64 room create_ok now level s =
     (case compact_select level s of
        None \<Rightarrow> Inr (None, s)
      | Some filesToCompact \<Rightarrow>
        bindE (compact_merge sum64 room create_ok now level filesToCompact s) (\<lambda>(err, s).
        if err \<noteq> None then Inr (err, s)
        else bindE (compact_install filesToCompact s) (\<lambda>s. Inr (None, s))))"

section \<open>Directories\<close>

lemma remove_files_filter: "remove_files fs dir = filter (\<lambda>(f, _). f \<notin> set fs) dir"
proof (induction fs arbitrary: dir)
  case (Cons f fs)
  have "AList.delete f dir = filter (\<lambda>(g, _). f \<noteq> g) dir" by (simp add: AList.delete_eq)
  with Cons show ?case by (auto simp: remove_files_def intro!: filter_cong)
qed (simp add: remove_files_def)

lemma map_of_remove_files: "map_of (remove_files fs dir) g = (if g \<in> set fs then None else map_of dir g)"
  unfolding remove_files_filter by (induction dir) auto

lemma sst_files_compacted:
  assumes "map_of dir f = None" and "is_sst_name f" and "set (sst_files dir) \<subseteq> set fs" and "f \<notin> set fs"
  shows "sst_files (remove_files fs (AList.update f c dir)) = [f]"
proof -
  have "\<forall>g \<in> set (map fst dir). is_sst_name g \<longrightarrow> g \<in> set fs" using assms(3) by (auto simp: sst_files_def)
  then have "filter is_sst_name (map fst (filter (\<lambda>(g, _). g \<notin> set fs) dir)) = []"
    by (auto simp: filter_empty_conv)
  then show ?thesis
    using assms(2,4) by (simp add: sst_files_def remove_files_filter update_new [OF assms(1)] sort_reverse_def)
qed

lemma getFilesForLevel_names: "\<forall>f \<in> set (map fst dir). \<exists>now. f = sst_name level now \<Longrightarrow> getFilesForLevel level dir = sst_files dir"
proof -
  assume names: "\<forall>f \<in> set (map fst dir). \<exists>now. f = sst_name level now"
  have "HasPrefix f (''L'' @ decimal level @ ''_'') \<and> HasSuffix f ''.sst'' \<longleftrightarrow> is_sst_name f" if "f \<in> set (map fst dir)" for f
    using names that by (auto simp: is_sst_name_def sst_name_def HasPrefix_def)
  then have "filter (\<lambda>f. HasPrefix f (''L'' @ decimal level @ ''_'') \<and> HasSuffix f ''.sst'') (map fst dir) = filter is_sst_name (map fst dir)"
    by (rule filter_cong [OF refl])
  then show "getFilesForLevel level dir = sst_files dir" by (simp only: getFilesForLevel_def sst_files_def)
qed

section \<open>Reading a sequence of tables\<close>

lemma get_from_tables:
  assumes "\<forall>f \<in> set fs. holds_table sum64 dir f (T f) \<and> within (T f) k"
  shows "get_from_files sum64 dir fs k =
    (case newest (map T fs) k of Some x \<Rightarrow> Inr (answer x) | None \<Rightarrow> Inr ([], False))"
  using assms
proof (induction fs)
  case (Cons f fs)
  then show ?case by (simp add: get_from_files_table [of sum64 dir f "T f"] del: get_from_files.simps(2) split: option.splits)
qed simp

text \<open>The table of a file, and that iterating the file yields exactly the table.\<close>

definition iterates_to :: "directory \<Rightarrow> string \<Rightarrow> sst_entry list \<Rightarrow> bool" where
  "iterates_to dir f es \<longleftrightarrow> (\<exists>bytes. map_of dir f = Some bytes \<and> iter_stream (NewIterator bytes) = es)"

lemma open_iterators_streams:
  assumes "\<forall>f \<in> set fs. iterates_to dir f (T f)"
  shows "\<exists>its. open_iterators dir fs = Some its \<and> map iter_stream its = filter (\<lambda>es. es \<noteq> []) (map T fs)"
  using assms
proof (induction fs)
  case (Cons f fs)
  then obtain bytes where f: "map_of dir f = Some bytes" "iter_stream (NewIterator bytes) = T f"
    by (auto simp: iterates_to_def)
  from Cons obtain its where "open_iterators dir fs = Some its" "map iter_stream its = filter (\<lambda>es. es \<noteq> []) (map T fs)"
    by auto
  moreover have "it_Valid (NewIterator bytes) \<longleftrightarrow> T f \<noteq> []" using f(2) iter_stream_eq_Nil by metis
  ultimately show ?case using f by (simp add: Let_def del: iter_stream_simps)
qed simp

lemma newest_nonempty: "newest (filter (\<lambda>es. es \<noteq> []) ts) k = newest ts k"
  by (induction ts) (auto split: option.splits)

lemma newest_member: "newest ts k = Some x \<Longrightarrow> \<exists>es \<in> set ts. (k, x) \<in> set es"
  by (induction ts) (auto split: option.splits dest: map_of_SomeD)

lemma newest_has_key: "es \<in> set ts \<Longrightarrow> k \<in> set (keys_of es) \<Longrightarrow> newest ts k \<noteq> None"
  by (induction ts) (auto simp: keys_of_def map_of_eq_None_iff split: option.splits)

lemma within_merged:
  assumes "\<forall>f \<in> set fs. within (T f) k" and "fs \<noteq> []" and "map_of out = newest (map T fs)"
  shows "within out k"
proof -
  obtain g where g: "g \<in> set fs" using assms(2) by (cases fs) auto
  with assms(1) obtain j where j: "j \<in> set (keys_of (T g))" "k \<le> j" by (auto simp: within_def intro: less_imp_le)
  have "T g \<in> set (map T fs)" using g by simp
  from newest_has_key [OF this j(1)] have "map_of out j \<noteq> None" by (simp only: assms(3) not_False_eq_True)
  then have "j \<in> set (keys_of out)" by (simp add: map_of_eq_None_iff keys_of_def)
  with j(2) show ?thesis by (auto simp: within_def order_le_less)
qed

text \<open>The merged table of a level above the bottom.\<close>

lemma merged_table:
  assumes tables: "\<forall>f \<in> set fs. iterates_to dir f (T f) \<and> strict_keys (T f) \<and> (\<forall>e \<in> set (T f). entry_ok e)"
    and its: "open_iterators dir fs = Some its"
  shows "strict_keys (merge_entries False its)" and "map_of (merge_entries False its) = newest (map T fs)"
    and "\<forall>e \<in> set (merge_entries False its). entry_ok e"
proof -
  from tables its have streams: "map iter_stream its = filter (\<lambda>es. es \<noteq> []) (map T fs)"
    using open_iterators_streams [of fs dir T] by auto
  have "strict_keys (iter_stream it)" if "it \<in> set its" for it
  proof -
    have "iter_stream it \<in> set (filter (\<lambda>es. es \<noteq> []) (map T fs))" using that unfolding streams [symmetric] by simp
    with tables show ?thesis by (auto simp del: iter_stream_simps)
  qed
  note spec = merge_entries_spec [of its False, OF this]
  then show sorted: "strict_keys (merge_entries False its)" by simp
  show m: "map_of (merge_entries False its) = newest (map T fs)"
    using spec by (auto simp: streams newest_nonempty fun_eq_iff split: option.splits)
  show "\<forall>e \<in> set (merge_entries False its). entry_ok e"
  proof
    fix e assume e: "e \<in> set (merge_entries False its)"
    have "distinct (map fst (merge_entries False its))"
      using sorted strict_sorted_iff [of "keys_of (merge_entries False its)"] by (simp add: keys_of_def)
    with e have "map_of (merge_entries False its) (fst e) = Some (snd e)" by simp
    with m newest_member [of "map T fs" "fst e" "snd e"] tables show "entry_ok e" by auto
  qed
qed

section \<open>A compaction\<close>

text \<open>A compaction whose merge succeeds: only the close error and the refresh remain.\<close>

definition compacted :: "nat \<Rightarrow> nat \<Rightarrow> string list \<Rightarrow> bytes \<Rightarrow> store \<Rightarrow> store" where
  "compacted level now fs bytes s =
     s\<lparr>st_SstDir := remove_files fs (AList.update (sst_name (level + 1) now) bytes (st_SstDir s))\<rparr>"

lemma CheckAndCompact_merged:
  assumes "getFilesForLevel level (st_SstDir s) = fs" "maxLevelFiles \<le> length fs"
    and "open_iterators (st_SstDir s) fs = Some its"
    and "merge_loop sum64 (level + 1 \<ge> maxLevelFiles) its (NewBuilder room 10000) = (None, b)"
    and "builder_Close b = (cerr, b')"
  shows "CheckAndCompact sum64 room True now level s =
    bindE (refreshSSTables (compacted level now fs (content (b_File b')) s)) (\<lambda>s. Inr (None, s))"
  using assms by (simp add: CheckAndCompact_def compact_select_def compact_merge_def compact_install_def Let_def not_less compacted_def)

lemma build_table_merge:
  assumes "build_table sum64 room 10000 (merge_entries bot_level its) = (None, b)"
  obtains b1 where "merge_loop sum64 bot_level its (NewBuilder room 10000) = (None, b1)" "builder_Close b1 = (None, b)"
  using assms by (auto simp: merge_loop_entries build_table_def split: prod.splits option.splits)

text \<open>The files of a level come before those of the next one.\<close>

lemma level_below:
  assumes "g \<in> set (getFilesForLevel level dir)" and "level + 1 < maxLevelFiles"
  shows "g < sst_name (level + 1) now"
proof -
  have "HasPrefix g (''L'' @ decimal level @ ''_'')" using assms(1) by (simp add: getFilesForLevel_def)
  then obtain rest where g: "g = ''L'' @ decimal level @ ''_'' @ rest"
    unfolding HasPrefix_def by (metis append_assoc append_take_drop_id)
  have "level = 0 \<or> level = 1 \<or> level = 2" using assms(2) by (auto simp: maxLevelFiles_def)
  then show ?thesis by (auto simp: g sst_name_def decimal.simps [of 0] decimal.simps [of "Suc 0"] decimal.simps [of "Suc (Suc 0)"] decimal.simps [of 2] decimal.simps [of 3] digit_less)
qed

text \<open>
  The merge of all table files: its output is the first file, and both with the inputs and without them it answers as the
  inputs do.
\<close>

lemma compaction_reads:
  assumes files: "getFilesForLevel level (st_SstDir s) = sst_files (st_SstDir s)"
      "maxLevelFiles \<le> length (sst_files (st_SstDir s))" and low: "level + 1 < maxLevelFiles"
    and tables: "\<forall>f \<in> set (sst_files (st_SstDir s)). holds_table sum64 (st_SstDir s) f (T f) \<and> iterates_to (st_SstDir s) f (T f)"
    and its: "open_iterators (st_SstDir s) (sst_files (st_SstDir s)) = Some its"
    and room: "table_bound 10000 (merge_entries False its) \<le> room" "room < 2 ^ 63"
    and new: "map_of (st_SstDir s) (sst_name (level + 1) now) = None"
  obtains dir where "compact_merge sum64 room True now level (sst_files (st_SstDir s)) s = Inr (None, s\<lparr>st_SstDir := dir\<rparr>)"
    "sst_name (level + 1) now \<in> set (sst_files dir)" "holds_tables sum64 dir"
    "sst_files (remove_files (sst_files (st_SstDir s)) dir) = [sst_name (level + 1) now]"
    "holds_tables sum64 (remove_files (sst_files (st_SstDir s)) dir)"
    "\<And>mem k. mem k \<noteq> None \<or> (\<forall>f \<in> set (sst_files (st_SstDir s)). within (T f) k) \<Longrightarrow>
       read_with sum64 mem dir k = read_with sum64 mem (st_SstDir s) k \<and>
       read_with sum64 mem (remove_files (sst_files (st_SstDir s)) dir) k = read_with sum64 mem (st_SstDir s) k"
proof -
  let ?fs = "sst_files (st_SstDir s)" and ?f = "sst_name (level + 1) now" and ?out = "merge_entries False its"
  have tb: "\<forall>f \<in> set ?fs. iterates_to (st_SstDir s) f (T f) \<and> strict_keys (T f) \<and> (\<forall>e \<in> set (T f). entry_ok e)"
    using tables by (simp add: holds_table_def)
  note out = merged_table [OF tb its]
  obtain b where b: "build_table sum64 room 10000 ?out = (None, b)" using build_table_total [OF _ room(1)] by fastforce
  obtain b1 where b1: "merge_loop sum64 False its (NewBuilder room 10000) = (None, b1)" "builder_Close b1 = (None, b)"
    by (rule build_table_merge [OF b])
  define dir where "dir = AList.update ?f (content (b_File b)) (st_SstDir s)"
  let ?dir = "remove_files ?fs dir"
  have merge: "compact_merge sum64 room True now level ?fs s = Inr (None, s\<lparr>st_SstDir := dir\<rparr>)"
    using b1 low by (simp add: compact_merge_def its dir_def not_le [symmetric])
  have notin: "?f \<notin> set ?fs" using new tables by (auto simp: holds_table_def)
  have "\<forall>g \<in> set ?fs. g < ?f" using level_below [OF _ low] files(1) by metis
  then have sst: "sst_files dir = ?f # ?fs" unfolding dir_def using sst_files_new [OF new] by simp
  have sst': "sst_files ?dir = [?f]" unfolding dir_def using sst_files_compacted [OF new _ _ notin] by simp
  have f: "map_of dir ?f = Some (content (b_File b))" "map_of ?dir ?f = Some (content (b_File b))"
    using notin by (simp_all add: dir_def map_of_remove_files update_conv')
  have hold: "holds_table sum64 dir ?f ?out" "holds_table sum64 ?dir ?f ?out"
    by (rule build_holds_table [OF b _ _ out(3,1)]; use room f in simp)+
  have same: "map_of dir g = map_of (st_SstDir s) g" if "g \<in> set ?fs" for g using that notin by (auto simp: dir_def update_conv')
  have old: "holds_table sum64 dir g (T g)" if "g \<in> set ?fs" for g using same [OF that] tables that by (simp add: holds_table_def)
  have "read_with sum64 mem dir k = read_with sum64 mem (st_SstDir s) k \<and>
      read_with sum64 mem ?dir k = read_with sum64 mem (st_SstDir s) k"
    if key: "mem k \<noteq> None \<or> (\<forall>f \<in> set ?fs. within (T f) k)" for mem k
  proof (cases "mem k")
    case None
    with key have w: "\<forall>f \<in> set ?fs. within (T f) k" by simp
    moreover have "?fs \<noteq> []" using files(2) by (auto simp: maxLevelFiles_def)
    ultimately have "within ?out k" using within_merged [of ?fs T k ?out] out(2) by simp
    with get_from_files_table [OF hold(1), of k ?fs] get_from_files_table [OF hold(2), of k "[]"]
      get_from_tables [of ?fs sum64 dir T k] get_from_tables [of ?fs sum64 "st_SstDir s" T k] tables old w None
    show ?thesis by (simp add: read_with_def sst sst' out(2) del: get_from_files.simps(2) split: option.splits)
  qed (simp add: read_with_def)
  moreover have "holds_tables sum64 dir" "holds_tables sum64 ?dir" using hold old by (auto simp: holds_tables_def sst sst')
  ultimately show thesis using that [OF merge] sst sst' by simp
qed

lemma compact_install_ok:
  assumes "store_wf s" and "holds_tables sum64 (remove_files fs (st_SstDir s))"
  obtains s' where "compact_install fs s = Inr s'" "store_wf s'" "mem_lookup s' = mem_lookup s" "st_ActiveMap s' = st_ActiveMap s"
    "st_frozenMap s' = st_frozenMap s" "st_SstDir s' = remove_files fs (st_SstDir s)"
proof -
  let ?s = "s\<lparr>st_SstDir := remove_files fs (st_SstDir s)\<rparr>"
  obtain rs where "refreshSSTables ?s = Inr (?s\<lparr>st_ssTables := rs\<rparr>)"
    using refreshSSTables_total [of ?s sum64] assms(2) by (auto simp: holds_tables_def)
  with assms(1) show thesis
    by (intro that [of "?s\<lparr>st_ssTables := rs\<rparr>"]) (auto simp: compact_install_def store_wf_def mem_lookup_def fun_eq_iff split: option.splits)
qed

section \<open>Properties\<close>

text \<open>
  C15: A compaction does not change what is read, under these conditions: all table files of the store
  are on one of the levels 0 to 2; each of them holds a table and iterates to exactly this table (which an iterator does not do in
  general: \<open>iterator_overruns\<close>); the device has room; and the key is in memory or not above the last key of any of the tables. Then
  the files are chosen, and the merged file is written; at this moment, with the inputs still there, the key reads as before. The inputs are
  removed, one file of the next level is left, and the key reads as before again.
\<close>

theorem compaction_preserves_reads:
  assumes wf: "store_wf s" and files: "getFilesForLevel level (st_SstDir s) = sst_files (st_SstDir s)"
      "maxLevelFiles \<le> length (sst_files (st_SstDir s))" and low: "level + 1 < maxLevelFiles"
    and tables: "\<forall>f \<in> set (sst_files (st_SstDir s)). holds_table sum64 (st_SstDir s) f (T f) \<and> iterates_to (st_SstDir s) f (T f)"
    and its: "open_iterators (st_SstDir s) (sst_files (st_SstDir s)) = Some its"
    and room: "table_bound 10000 (merge_entries False its) \<le> room" "room < 2 ^ 63"
    and new: "map_of (st_SstDir s) (sst_name (level + 1) now) = None"
    and key: "mem_lookup s k \<noteq> None \<or> (\<forall>f \<in> set (sst_files (st_SstDir s)). within (T f) k)"
  shows "\<exists>s1 s2. compact_select level s = Some (sst_files (st_SstDir s)) \<and>
    compact_merge sum64 room True now level (sst_files (st_SstDir s)) s = Inr (None, s1) \<and> store_Get sum64 s1 k = store_Get sum64 s k \<and>
    compact_install (sst_files (st_SstDir s)) s1 = Inr s2 \<and> CheckAndCompact sum64 room True now level s = Inr (None, s2) \<and> store_wf s2 \<and>
    sst_files (st_SstDir s2) = [sst_name (level + 1) now] \<and> store_Get sum64 s2 k = store_Get sum64 s k"
proof (rule compaction_reads [OF assms(2-9)])
  fix dir
  assume dir: "compact_merge sum64 room True now level (sst_files (st_SstDir s)) s = Inr (None, s\<lparr>st_SstDir := dir\<rparr>)"
    "sst_files (remove_files (sst_files (st_SstDir s)) dir) = [sst_name (level + 1) now]"
    "holds_tables sum64 (remove_files (sst_files (st_SstDir s)) dir)"
    and rd: "\<And>mem k. mem k \<noteq> None \<or> (\<forall>f \<in> set (sst_files (st_SstDir s)). within (T f) k) \<Longrightarrow>
       read_with sum64 mem dir k = read_with sum64 mem (st_SstDir s) k \<and>
       read_with sum64 mem (remove_files (sst_files (st_SstDir s)) dir) k = read_with sum64 mem (st_SstDir s) k"
  let ?s1 = "s\<lparr>st_SstDir := dir\<rparr>"
  have s1: "store_wf ?s1" "mem_lookup ?s1 = mem_lookup s"
    using wf by (auto simp: store_wf_def mem_lookup_def fun_eq_iff split: option.splits)
  obtain s2 where s2: "compact_install (sst_files (st_SstDir s)) ?s1 = Inr s2" "store_wf s2" "mem_lookup s2 = mem_lookup ?s1"
    "st_SstDir s2 = remove_files (sst_files (st_SstDir s)) dir"
    by (rule compact_install_ok [of ?s1 sum64 "sst_files (st_SstDir s)"]) (use s1 dir(3) in simp_all)
  have sel: "compact_select level s = Some (sst_files (st_SstDir s))" using files by (simp add: compact_select_def)
  show ?thesis
    using dir s1 s2 sel rd [of "mem_lookup s" k] key by (intro exI [of _ ?s1] exI [of _ s2]) (simp add: CheckAndCompact_def store_Get_read wf)
qed

text \<open>Four level-0 files with the same key.\<close>

lemma map_of_single:
  assumes "distinct (map fst xs)" and "map_of xs = [k \<mapsto> v]"
  shows "xs = [(k, v)]"
proof -
  have "(x, y) \<in> set xs \<longleftrightarrow> x = k \<and> y = v" for x y
    using map_of_eq_Some_iff [OF assms(1), of x y] assms(2) by (auto split: if_splits)
  then have s: "set xs = {(k, v)}" by auto
  moreover have "distinct xs" using assms(1) by (simp add: distinct_map)
  ultimately have "length xs = 1" using distinct_card [of xs] by simp
  with s show ?thesis by (cases xs) auto
qed

definition demo_key :: bytes where "demo_key = [255, 1, 1, 1, 1]"

definition demo_table :: "byte \<Rightarrow> sst_entry list" where "demo_table v = [(demo_key, [v], False)]"

definition demo_bytes :: "byte \<Rightarrow> bytes" where
  "demo_bytes v = content (b_File (snd (build_table (\<lambda>k. 0) 1000 1 (demo_table v))))"

lemma demo_table_ok: "\<forall>e \<in> set (demo_table v). entry_ok e" "strict_keys (demo_table v)"
  "table_bound 1 (demo_table v) = 46" "table_bound 10000 (demo_table v) = 12544"
  by (simp_all add: demo_table_def demo_key_def table_bound_def index_bound_def length_enc_entry)

lemma demo_bytes_table:
  assumes "map_of dir f = Some (demo_bytes v)"
  shows "holds_table (\<lambda>k. 0) dir f (demo_table v)" and "iterates_to dir f (demo_table v)"
proof -
  obtain b where b: "build_table (\<lambda>k. 0) 1000 1 (demo_table v) = (None, b)"
    using build_table_total [of 1 "demo_table v" 1000] demo_table_ok(3) [of v] by auto
  then have d: "demo_bytes v = content (b_File b)" by (simp add: demo_bytes_def)
  show "holds_table (\<lambda>k. 0) dir f (demo_table v)"
    by (rule build_holds_table [OF b _ _ demo_table_ok(1,2)]) (use assms d demo_table_ok(3) [of v] in simp_all)
  obtain idx flt where c: "content (b_File b) = sst_file (demo_table v) idx flt"
    "table_built (\<lambda>k. 0) (demo_table v) idx flt"
    by (rule build_table_built [OF b]) simp
  have "length (sst_meta (demo_table v) idx flt) \<le> 46"
    using build_table_small [OF b] demo_table_ok(3) [of v] by (simp add: c(1) sst_file_def)
  then have "iter_stream (NewIterator (sst_meta (demo_table v) idx flt)) = []"
    by (intro iter_stops_after_entries [OF c(2), of 255 1 1 1 1 "[]" "[v]" False "[]"])
      (simp_all add: demo_table_def demo_key_def)
  with iter_stream_entries [OF demo_table_ok(1), of v "sst_meta (demo_table v) idx flt"]
  show "iterates_to dir f (demo_table v)" using assms by (simp add: iterates_to_def d c(1) sst_file_def del: iter_stream_simps)
qed

definition demo_values :: "(string \<times> byte) list" where
  "demo_values = [(sst_name 0 1, 1), (sst_name 0 2, 2), (sst_name 0 3, 3), (sst_name 0 4, 4)]"

definition demo_level0 :: store where
  "demo_level0 = empty_store\<lparr>st_SstDir := map (\<lambda>(f, v). (f, demo_bytes v)) demo_values\<rparr>"

lemma demo_level0_files:
  "sst_files (st_SstDir demo_level0) = [sst_name 0 4, sst_name 0 3, sst_name 0 2, sst_name 0 1]"
  "getFilesForLevel 0 (st_SstDir demo_level0) = sst_files (st_SstDir demo_level0)"
proof -
  have "sorted [sst_name 0 1, sst_name 0 2, sst_name 0 3, sst_name 0 4]"
    by (simp add: sst_name_def decimal.simps [of 0] decimal.simps [of "Suc 0"] decimal.simps [of 2]
        decimal.simps [of 3] decimal.simps [of 4] digit_less)
  from sort_key_id_if_sorted [of "\<lambda>x. x", simplified, OF this]
  show "sst_files (st_SstDir demo_level0) = [sst_name 0 4, sst_name 0 3, sst_name 0 2, sst_name 0 1]"
    by (simp add: sst_files_def demo_level0_def demo_values_def sort_reverse_def del: insort_key.simps)
  show "getFilesForLevel 0 (st_SstDir demo_level0) = sst_files (st_SstDir demo_level0)"
    by (rule getFilesForLevel_names) (auto simp: demo_level0_def demo_values_def)
qed

definition demo_T :: "string \<Rightarrow> sst_entry list" where
  "demo_T f = demo_table (the (map_of demo_values f))"

lemma demo_level0_tables:
  assumes "f \<in> set (sst_files (st_SstDir demo_level0))"
  shows "holds_table (\<lambda>k. 0) (st_SstDir demo_level0) f (demo_T f)" and "iterates_to (st_SstDir demo_level0) f (demo_T f)"
proof -
  have "f \<in> fst ` set demo_values" using assms by (force simp: sst_files_def demo_level0_def)
  then obtain v where v: "map_of demo_values f = Some v" by (auto simp: dom_map_of_conv_image_fst [symmetric])
  then have d: "map_of (st_SstDir demo_level0) f = Some (demo_bytes v)" by (simp add: demo_level0_def map_of_map)
  show "holds_table (\<lambda>k. 0) (st_SstDir demo_level0) f (demo_T f)" and "iterates_to (st_SstDir demo_level0) f (demo_T f)"
    using demo_bytes_table [OF d] v by (simp_all add: demo_T_def)
qed

lemma demo_merged:
  obtains its v where "open_iterators (st_SstDir demo_level0) (sst_files (st_SstDir demo_level0)) = Some its"
    "merge_entries False its = demo_table v"
proof -
  let ?fs = "sst_files (st_SstDir demo_level0)"
  have tb: "\<forall>f \<in> set ?fs. iterates_to (st_SstDir demo_level0) f (demo_T f) \<and> strict_keys (demo_T f) \<and> (\<forall>e \<in> set (demo_T f). entry_ok e)"
    using demo_level0_tables demo_table_ok by (simp add: demo_T_def)
  then obtain its where its: "open_iterators (st_SstDir demo_level0) ?fs = Some its"
    using open_iterators_streams [of ?fs "st_SstDir demo_level0" demo_T] by blast
  have "map_of (merge_entries False its) = newest (map demo_T ?fs)" by (rule merged_table(2) [OF tb its])
  then have m: "map_of (merge_entries False its) = [demo_key \<mapsto> ([the (map_of demo_values (sst_name 0 4))], False)]"
    by (auto simp: demo_level0_files(1) demo_T_def demo_table_def fun_eq_iff split: option.splits)
  have "strict_keys (merge_entries False its)" by (rule merged_table(1) [OF tb its])
  then have "distinct (map fst (merge_entries False its))"
    using strict_sorted_iff [of "keys_of (merge_entries False its)"] by (simp add: keys_of_def)
  then have "merge_entries False its = demo_table (the (map_of demo_values (sst_name 0 4)))"
    using map_of_single [OF _ m] by (simp add: demo_table_def)
  with its that show thesis by blast
qed

lemma demo_level0_facts: "store_wf demo_level0" "mem_lookup demo_level0 k = None"
  using empty_store_wf by (simp_all add: demo_level0_def store_wf_def mem_lookup_def empty_store_def)

lemma demo_level0_Get: "store_Get (\<lambda>k. 0) demo_level0 demo_key = Inr ([the (map_of demo_values (sst_name 0 4))], True)"
proof -
  have "\<forall>f \<in> set (sst_files (st_SstDir demo_level0)). within (demo_T f) demo_key"
    by (simp add: demo_T_def demo_table_def within_def)
  with get_from_tables [of "sst_files (st_SstDir demo_level0)" "\<lambda>k. 0" "st_SstDir demo_level0" demo_T demo_key]
    demo_level0_tables(1) show ?thesis
    by (simp add: store_Get_wf demo_level0_facts demo_level0_files(1) demo_T_def demo_table_def answer_def
        del: get_from_files.simps(2))
qed

lemma demo_level0_new:
  "map_of (st_SstDir demo_level0) (sst_name (0 + 1) 5) = None"
  "sst_name (0 + 1) 5 \<notin> set (sst_files (st_SstDir demo_level0))"
proof -
  have "sst_name (0 + 1) 5 \<noteq> sst_name 0 n" for n using level_order [of n 5] by auto
  then have ne: "sst_name (Suc 0) 5 \<noteq> sst_name 0 n" for n by simp
  show "map_of (st_SstDir demo_level0) (sst_name (0 + 1) 5) = None" by (simp add: demo_level0_def demo_values_def ne)
  show "sst_name (0 + 1) 5 \<notin> set (sst_files (st_SstDir demo_level0))" by (simp add: demo_level0_files(1) ne)
qed

theorem compaction_preserves_reads_witness:
  "\<exists>s' v. CheckAndCompact (\<lambda>k. 0) 20000 True 5 0 demo_level0 = Inr (None, s') \<and>
     sst_files (st_SstDir s') = [sst_name 1 5] \<and> store_Get (\<lambda>k. 0) s' demo_key = Inr ([v], True)"
proof -
  obtain its v where its: "open_iterators (st_SstDir demo_level0) (sst_files (st_SstDir demo_level0)) = Some its"
    "merge_entries False its = demo_table v" by (rule demo_merged)
  note new = demo_level0_new(1)
  have "\<exists>s1 s2. compact_select 0 demo_level0 = Some (sst_files (st_SstDir demo_level0)) \<and>
    compact_merge (\<lambda>k. 0) 20000 True 5 0 (sst_files (st_SstDir demo_level0)) demo_level0 = Inr (None, s1) \<and>
    store_Get (\<lambda>k. 0) s1 demo_key = store_Get (\<lambda>k. 0) demo_level0 demo_key \<and>
    compact_install (sst_files (st_SstDir demo_level0)) s1 = Inr s2 \<and> CheckAndCompact (\<lambda>k. 0) 20000 True 5 0 demo_level0 = Inr (None, s2) \<and>
    store_wf s2 \<and> sst_files (st_SstDir s2) = [sst_name (0 + 1) 5] \<and>
    store_Get (\<lambda>k. 0) s2 demo_key = store_Get (\<lambda>k. 0) demo_level0 demo_key"
    by (rule compaction_preserves_reads [where T = demo_T, OF demo_level0_facts(1) demo_level0_files(2) _ _ _ its(1) _ _ new])
      (use demo_level0_tables in \<open>simp_all add: demo_level0_files(1) its(2) demo_table_ok(4) maxLevelFiles_def demo_T_def
         demo_table_def within_def demo_table_ok(4) [unfolded demo_table_def]\<close>)
  then show ?thesis by (auto simp: demo_level0_Get)
qed

text \<open>
  A compaction whose output cannot be finished still removes its inputs and reports success:
  the error of closing the new table is ignored, and none of the merged files is left
  (provided that the remaining files are opened again without a panic).
\<close>

lemma compaction_ignores_close_error:
  assumes "getFilesForLevel level (st_SstDir s) = fs" and "maxLevelFiles \<le> length fs"
    and "open_iterators (st_SstDir s) fs = Some its"
    and "merge_loop sum64 (level + 1 \<ge> maxLevelFiles) its (NewBuilder room 10000) = (None, b)"
    and "builder_Close b = (Some cerr, b')"
    and "refreshSSTables (compacted level now fs (content (b_File b')) s) = Inr s'"
  shows "CheckAndCompact sum64 room True now level s = Inr (None, s') \<and>
    (\<forall>f \<in> set fs. map_of (st_SstDir s') f = None)"
proof -
  from CheckAndCompact_merged [OF assms(1-5)] assms(6)
  have "CheckAndCompact sum64 room True now level s = Inr (None, s')" by simp
  with refreshSSTables_fields [OF assms(6)] show ?thesis by (auto simp: compacted_def map_of_remove_files)
qed

lemma compaction_ignores_close_error_witness:
  "\<exists>s' v. store_Get (\<lambda>k. 0) demo_level0 demo_key = Inr ([v], True) \<and>
     CheckAndCompact (\<lambda>k. 0) 13 True 5 0 demo_level0 = Inr (None, s') \<and>
     (\<forall>f \<in> set (sst_files (st_SstDir demo_level0)). map_of (st_SstDir s') f = None)"
proof -
  let ?fs = "sst_files (st_SstDir demo_level0)"
  obtain its v where its: "open_iterators (st_SstDir demo_level0) ?fs = Some its"
    "merge_entries False its = demo_table v" by (rule demo_merged)
  have inv0: "builder_inv [] (NewBuilder 13 10000)" by (rule builder_inv_New) simp
  have l: "length (enc_entries (demo_table v)) = 13"
    by (simp add: demo_table_def demo_key_def length_enc_entry)
  moreover have "quota (b_File (NewBuilder 13 10000)) = 13" by (simp add: NewBuilder_def)
  ultimately obtain b where b: "builder_AddAll (\<lambda>k. 0) (NewBuilder 13 10000) (demo_table v) = (None, b)"
    "quota (b_File b) = 0"
    using builder_AddAll_total [OF inv0, of "demo_table v"] by auto
  have inv: "builder_inv (demo_table v) b" using builder_AddAll_inv [OF inv0 b(1)] by simp
  then have c: "content (b_File b) = enc_entries (demo_table v)" and "b_index b \<noteq> []"
    by (auto simp: builder_inv_def demo_table_def)
  then obtain b' where close: "builder_Close b = (Some ErrOS, b')" "content (b_File b') = content (b_File b)"
    using b(2) by (cases "b_index b") (auto simp: builder_Close_def file_Write_def Let_def)
  have m: "merge_loop (\<lambda>k. 0) (0 + 1 \<ge> maxLevelFiles) its (NewBuilder 13 10000) = (None, b)"
    using b(1) by (simp add: merge_loop_entries its(2) maxLevelFiles_def)
  let ?s1 = "compacted 0 5 ?fs (content (b_File b')) demo_level0"
  have "sst_files (st_SstDir ?s1) = [sst_name (0 + 1) 5]"
    unfolding compacted_def using sst_files_compacted [OF demo_level0_new(1) _ _ demo_level0_new(2)] by simp
  moreover have "map_of (st_SstDir ?s1) (sst_name (0 + 1) 5) = Some (content (b_File b'))"
    using demo_level0_new(2) by (simp add: compacted_def map_of_remove_files update_conv')
  ultimately have "open_readers (st_SstDir ?s1) (sst_files (st_SstDir ?s1)) = Inr []"
    using l by (simp add: OpenSSTable_def close(2) c)
  then have r: "refreshSSTables ?s1 = Inr (?s1\<lparr>st_ssTables := []\<rparr>)" by (simp add: refreshSSTables_def)
  from compaction_ignores_close_error [OF demo_level0_files(2) _ its(1) m close(1) r]
  show ?thesis by (auto simp: demo_level0_Get demo_level0_files(1) maxLevelFiles_def)
qed

text \<open>
  A read that is overtaken by a compaction: \<open>Get\<close> has listed the table files, and opens them after the compaction has removed them. Each of them
  is skipped, and the key is reported as missing, whatever they held.
\<close>

lemma read_overtaken_by_compaction:
  assumes "compact_install fs s = Inr s'" and "sst_files dir = fs"
  shows "get_from_files sum64 (st_SstDir s') (sst_files dir) k = Inr ([], False)"
proof -
  have "st_SstDir s' = remove_files fs (st_SstDir s)"
    using assms(1) refreshSSTables_fields by (fastforce simp: compact_install_def)
  then have "\<forall>f \<in> set fs. map_of (st_SstDir s') f = None" by (simp add: map_of_remove_files)
  then have "get_from_files sum64 (st_SstDir s') fs k = Inr ([], False)" by (induction fs) simp_all
  with assms(2) show ?thesis by simp
qed

end
