(* ===== verification/Store_System.thy ===== *)
theory Store_System
  imports Compaction
begin

text \<open>
  The store as a system: commands are applied while the frozen table is flushed and a level is compacted in the background, each of these
  in the parts in which it holds the lock, in any order. The abstract state is a map from keys to values, which only
  successful commands change. The lemmas show that every read of the store agrees with the map, in all reachable
  states, for the keys whose lookups stay within the table files. A read is taken at one moment; between the parts of a flush or a
  compaction there can be reads and commands.
\<close>

section \<open>Flushes and compactions in the background\<close>

text \<open>
  Where the flush worker and the compaction are: whether the table file has been written and the frozen table not been
  cleared yet; and which files of which level have been chosen, or merged and not been removed yet.
\<close>

datatype compaction = Idle | Chosen nat "string list" | Merged nat "string list"

record background =
  bg_flushed :: bool
  bg_compaction :: compaction

text \<open>The device has room, the new file's name is above the others, and no key looked for is above the last key of the table.\<close>

definition flush_ready :: "bytes set \<Rightarrow> nat \<Rightarrow> nat \<Rightarrow> store \<Rightarrow> bool" where
  "flush_ready K room now s \<longleftrightarrow> (\<exists>t es. st_frozenMap s = Some t \<and> length (mt_Index t) < 2 ^ 59 \<and>
     frozen_entries t (sorted_keys t) = Inr es \<and> table_bound (int (length (mt_Index t))) es \<le> room \<and>
     table_bound (int (length (mt_Index t))) es < 2 ^ 63 \<and>
     map_of (st_SstDir s) (sst_name 0 now) = None \<and> (\<forall>g \<in> set (sst_files (st_SstDir s)). g < sst_name 0 now) \<and>
     (\<forall>k \<in> K. mem_lookup s k \<noteq> None \<or> (\<exists>j \<in> fst ` set (mt_Index t). k < j)))"

text \<open>
  The tables in memory that count: a frozen table that has been written is about to go.
\<close>

definition lasting :: "store \<Rightarrow> background \<Rightarrow> bytes \<Rightarrow> (bytes \<times> bool) option" where
  "lasting s b = (if bg_flushed b then mt_lookup (st_ActiveMap s) else mem_lookup s)"

text \<open>The chosen files are all table files, on one level; they iterate to the tables they hold, and there is room for the output.\<close>

definition compact_ready :: "(bytes \<Rightarrow> 64 word) \<Rightarrow> bytes set \<Rightarrow> nat \<Rightarrow> nat \<Rightarrow> nat \<Rightarrow> string list \<Rightarrow> store \<Rightarrow> background \<Rightarrow> bool" where
  "compact_ready sum64 K room now level fs s b \<longleftrightarrow> (\<exists>T its.
     fs = sst_files (st_SstDir s) \<and> getFilesForLevel level (st_SstDir s) = sst_files (st_SstDir s) \<and>
     maxLevelFiles \<le> length (sst_files (st_SstDir s)) \<and> level + 1 < maxLevelFiles \<and>
     (\<forall>f \<in> set (sst_files (st_SstDir s)). holds_table sum64 (st_SstDir s) f (T f) \<and> iterates_to (st_SstDir s) f (T f)) \<and>
     open_iterators (st_SstDir s) (sst_files (st_SstDir s)) = Some its \<and>
     table_bound 10000 (merge_entries False its) \<le> room \<and> room < 2 ^ 63 \<and>
     map_of (st_SstDir s) (sst_name (level + 1) now) = None \<and>
     (\<forall>k \<in> K. lasting s b k \<noteq> None \<or> (\<forall>f \<in> set (sst_files (st_SstDir s)). within (T f) k)))"

text \<open>A compaction can also fail, because a file cannot be opened or its output cannot be created.\<close>

inductive background_step :: "(bytes \<Rightarrow> 64 word) \<Rightarrow> bytes set \<Rightarrow> store \<times> background \<Rightarrow> store \<times> background \<Rightarrow> bool" for sum64 K where
  bg_create: "\<not> bg_flushed b \<Longrightarrow> st_frozenMap s = Some t \<Longrightarrow> flush_ready K room now s \<Longrightarrow>
    flush_create sum64 room True now t s = Inr s' \<Longrightarrow> background_step sum64 K (s, b) (s', b\<lparr>bg_flushed := True\<rparr>)"
| bg_finish: "bg_flushed b \<Longrightarrow> flush_finish s = Inr s' \<Longrightarrow> background_step sum64 K (s, b) (s', b\<lparr>bg_flushed := False\<rparr>)"
| bg_select: "bg_compaction b = Idle \<Longrightarrow> compact_select level s = Some fs \<Longrightarrow>
    background_step sum64 K (s, b) (s, b\<lparr>bg_compaction := Chosen level fs\<rparr>)"
| bg_fail: "bg_compaction b = Chosen level fs \<Longrightarrow> compact_merge sum64 room False now level fs s = Inr (err, s') \<Longrightarrow>
    background_step sum64 K (s, b) (s', b\<lparr>bg_compaction := Idle\<rparr>)"
| bg_merge: "bg_compaction b = Chosen level fs \<Longrightarrow> compact_ready sum64 K room now level fs s b \<Longrightarrow>
    compact_merge sum64 room True now level fs s = Inr (err, s') \<Longrightarrow>
    background_step sum64 K (s, b) (s', b\<lparr>bg_compaction := Merged level fs\<rparr>)"
| bg_install: "bg_compaction b = Merged level fs \<Longrightarrow> compact_install fs s = Inr s' \<Longrightarrow>
    background_step sum64 K (s, b) (s', b\<lparr>bg_compaction := Idle\<rparr>)"

section \<open>The system\<close>

type_synonym system = "store \<times> background \<times> (bytes \<rightharpoonup> bytes)"

definition system_init :: "system \<Rightarrow> bool" where
  "system_init p \<longleftrightarrow> (case p of (s, b, m) \<Rightarrow> (\<exists>w. st_ActiveMap s = NewMemTable mapLimit w) \<and> st_frozenMap s = None \<and>
     sst_files (st_SstDir s) = [] \<and> b = \<lparr>bg_flushed = False, bg_compaction = Idle\<rparr> \<and> m = Map.empty)"

inductive system_step :: "(bytes \<Rightarrow> 64 word) \<Rightarrow> bytes set \<Rightarrow> system \<Rightarrow> system \<Rightarrow> bool" for sum64 K where
  sys_apply: "length k < 2 ^ 16 \<Longrightarrow> (d \<longrightarrow> v = []) \<Longrightarrow> applyInternal True s k v d = Inr (err, s') \<Longrightarrow>
    system_step sum64 K (s, b, m) (s', b, if err = None then m(k := if d then None else Some v) else m)"
| sys_background: "background_step sum64 K (s, b) (s', b') \<Longrightarrow> system_step sum64 K (s, b, m) (s', b', m)"

text \<open>
  The simulation relation: well-formed memory, files that hold tables, and reads that agree with the map, with the tables in
  memory and the files as they are, and as the end of a flush and of a compaction leave them.
\<close>

definition reads_as :: "bytes option \<Rightarrow> bytes \<times> bool" where
  "reads_as x = (case x of Some v \<Rightarrow> (v, True) | None \<Rightarrow> ([], False))"

definition coming :: "store \<Rightarrow> background \<Rightarrow> directory" where
  "coming s b = (case bg_compaction b of Merged level fs \<Rightarrow> remove_files fs (st_SstDir s) | _ \<Rightarrow> st_SstDir s)"

definition simulates :: "(bytes \<Rightarrow> 64 word) \<Rightarrow> bytes set \<Rightarrow> system \<Rightarrow> bool" where
  "simulates sum64 K p \<longleftrightarrow> (case p of (s, b, m) \<Rightarrow> store_wf s \<and> (bg_flushed b \<longrightarrow> st_frozenMap s \<noteq> None) \<and>
     (\<forall>level fs. bg_compaction b = Merged level fs \<longrightarrow> (\<exists>g \<in> set (sst_files (st_SstDir s)). \<forall>now. sst_name 0 now < g)) \<and>
     (\<forall>dir \<in> {st_SstDir s, coming s b}. holds_tables sum64 dir \<and>
       (\<forall>mem \<in> {mem_lookup s, lasting s b}. \<forall>k \<in> K. read_with sum64 mem dir k = Inr (reads_as (m k)))))"

lemma simulatesD:
  assumes "simulates sum64 K (s, b, m)"
  shows "store_wf s" and "bg_flushed b \<Longrightarrow> st_frozenMap s \<noteq> None"
    and "bg_compaction b = Merged level fs \<Longrightarrow> \<exists>g \<in> set (sst_files (st_SstDir s)). \<forall>now. sst_name 0 now < g"
    and "dir \<in> {st_SstDir s, coming s b} \<Longrightarrow> holds_tables sum64 dir"
    and "dir \<in> {st_SstDir s, coming s b} \<Longrightarrow> mem \<in> {mem_lookup s, lasting s b} \<Longrightarrow> k \<in> K \<Longrightarrow>
      read_with sum64 mem dir k = Inr (reads_as (m k))"
  using assms by (auto simp: simulates_def)

lemma simulatesI:
  assumes "store_wf s" and "bg_flushed b \<Longrightarrow> st_frozenMap s \<noteq> None"
    and "\<And>level fs. bg_compaction b = Merged level fs \<Longrightarrow> \<exists>g \<in> set (sst_files (st_SstDir s)). \<forall>now. sst_name 0 now < g"
    and "\<And>dir. dir \<in> {st_SstDir s, coming s b} \<Longrightarrow> holds_tables sum64 dir"
    and "\<And>dir mem k. dir \<in> {st_SstDir s, coming s b} \<Longrightarrow> mem \<in> {mem_lookup s, lasting s b} \<Longrightarrow> k \<in> K \<Longrightarrow>
      read_with sum64 mem dir k = Inr (reads_as (m k))"
  shows "simulates sum64 K (s, b, m)"
  using assms unfolding simulates_def by blast

lemma simulates_init: "system_init p \<Longrightarrow> simulates sum64 K p"
  by (auto simp: system_init_def simulates_def store_wf_def mt_wf_New mt_sized_New coming_def lasting_def holds_tables_def
      read_with_def mem_lookup_def reads_as_def)

text \<open>A command while the flushed table waits to be cleared: it goes to the active table, or fails.\<close>

lemma apply_with_frozen:
  assumes "store_wf s" and "length k < 2 ^ 16" and "d \<longrightarrow> v = []" and "st_frozenMap s \<noteq> None"
    and "applyInternal True s k v d = Inr (err, s')"
  shows "st_frozenMap s' = st_frozenMap s \<and>
    mt_lookup (st_ActiveMap s') = (if err = None then (mt_lookup (st_ActiveMap s))(k \<mapsto> (v, d)) else mt_lookup (st_ActiveMap s))"
proof -
  obtain r t where p: "mt_put (st_ActiveMap s) k v d (7 + length k + length v) = (r, t)" by fastforce
  consider "err \<noteq> None" "s' = s" | "err = None" "r = None" "s' = s\<lparr>st_ActiveMap := t\<rparr>"
    using assms(4,5) p by (auto simp: applyInternal_def Let_def split: if_splits option.splits)
  then show ?thesis
  proof cases
    case 2
    let ?s = "s\<lparr>st_frozenMap := None\<rparr>"
    have "store_wf ?s" using assms(1) by (simp add: store_wf_def)
    from put_active(2) [OF this assms(2), of d v t] assms(3) p 2 have
      "mem_lookup (?s\<lparr>st_ActiveMap := t\<rparr>) j = (if j = k then Some (v, d) else mem_lookup ?s j)" for j by simp
    moreover have "mem_lookup (x\<lparr>st_frozenMap := None, st_ActiveMap := u\<rparr>) = mt_lookup u"
      "mem_lookup (x\<lparr>st_frozenMap := None\<rparr>) = mt_lookup (st_ActiveMap x)" for x :: store and u
      by (simp_all add: mem_lookup_def fun_eq_iff split: option.splits cong: option.case_cong)
    ultimately have "mt_lookup t j = (if j = k then Some (v, d) else mt_lookup (st_ActiveMap s) j)" for j by simp
    with 2 show ?thesis by (simp add: fun_eq_iff)
  qed auto
qed

lemma read_with_update:
  "read_with sum64 (mem(k \<mapsto> (v, d))) dir j =
     (if j = k then Inr (if d then ([], False) else (v, True)) else read_with sum64 mem dir j)"
  by (simp add: read_with_def answer_def)

lemma simulates_apply:
  assumes sim: "simulates sum64 K (s, b, m)" and k: "length k < 2 ^ 16" and d: "d \<longrightarrow> v = []"
    and a: "applyInternal True s k v d = Inr (err, s')"
  shows "simulates sum64 K (s', b, if err = None then m(k := if d then None else Some v) else m)"
proof -
  note S = simulatesD [OF sim]
  obtain o: "store_wf s'" "st_SstDir s' = st_SstDir s"
    "mem_lookup s' = (if err = None then (mem_lookup s)(k \<mapsto> (v, d)) else mem_lookup s)"
    by (rule applyInternal_outcome [OF S(1) k, of d v]) (use a d in auto)
  have f: "bg_flushed b \<Longrightarrow> st_frozenMap s' = st_frozenMap s"
    and l: "lasting s' b = (if err = None then (lasting s b)(k \<mapsto> (v, d)) else lasting s b)"
    using apply_with_frozen [OF S(1) k d _ a] S(2) o(3) by (auto simp: lasting_def)
  have c: "coming s' b = coming s b" by (simp add: coming_def o(2) split: compaction.splits)
  show ?thesis
  proof (rule simulatesI [OF o(1)])
    fix dir mem j
    assume q: "dir \<in> {st_SstDir s', coming s' b}" "mem \<in> {mem_lookup s', lasting s' b}" "j \<in> K"
    have dir: "dir \<in> {st_SstDir s, coming s b}" using q(1) o(2) c by simp
    obtain mem0 where "mem0 \<in> {mem_lookup s, lasting s b}" "mem = (if err = None then mem0(k \<mapsto> (v, d)) else mem0)"
      using q(2) o(3) l by auto
    with S(5) [OF dir _ q(3)] show "read_with sum64 mem dir j =
        Inr (reads_as ((if err = None then m(k := if d then None else Some v) else m) j))"
      by (auto simp: read_with_update reads_as_def)
  next
  qed (use S(2,3,4) f o(2) c in auto)
qed

lemma level_above: "level + 1 < maxLevelFiles \<Longrightarrow> sst_name 0 t < sst_name (level + 1) now"
proof -
  assume "level + 1 < maxLevelFiles"
  then have "level = 0 \<or> level = 1 \<or> level = 2" by (auto simp: maxLevelFiles_def)
  then show ?thesis
    by (auto simp: sst_name_def decimal.simps [of 0] decimal.simps [of "Suc 0"] decimal.simps [of "Suc (Suc 0)"] decimal.simps [of 2]
        decimal.simps [of 3] digit_less)
qed

lemma simulates_create:
  assumes sim: "simulates sum64 K (s, b, m)" and b: "\<not> bg_flushed b" and fr: "st_frozenMap s = Some t"
    and ready: "flush_ready K room now s" and r: "flush_create sum64 room True now t s = Inr s'"
  shows "simulates sum64 K (s', b\<lparr>bg_flushed := True\<rparr>, m)"
proof -
  note S = simulatesD [OF sim]
  from ready fr obtain es where f: "length (mt_Index t) < 2 ^ 59"
    "frozen_entries t (sorted_keys t) = Inr es" "table_bound (int (length (mt_Index t))) es \<le> room"
    "table_bound (int (length (mt_Index t))) es < 2 ^ 63" "map_of (st_SstDir s) (sst_name 0 now) = None"
    "\<forall>g \<in> set (sst_files (st_SstDir s)). g < sst_name 0 now"
    and K: "\<forall>k \<in> K. mem_lookup s k \<noteq> None \<or> (\<exists>j \<in> fst ` set (mt_Index t). k < j)"
    unfolding flush_ready_def by auto
  have idle: "bg_compaction b \<noteq> Merged level fs" for level fs using S(3) [of level fs] f(6) by (meson order.asym)
  then have c: "coming x (b\<lparr>bg_flushed := True\<rparr>) = st_SstDir x" "coming x b = st_SstDir x" for x
    by (simp_all add: coming_def split: compaction.splits)
  have tabs: "holds_tables sum64 (st_SstDir s)" using S(4) by simp
  note F = flush_reads [OF S(1) fr f tabs]
  from F r have s': "store_wf s'" "st_frozenMap s' = Some t" "st_ActiveMap s' = st_ActiveMap s" "holds_tables sum64 (st_SstDir s')"
    by auto
  have rd: "read_with sum64 (mem_lookup s) (st_SstDir s') k = read_with sum64 (mem_lookup s) (st_SstDir s) k \<and>
       read_with sum64 (mt_lookup (st_ActiveMap s)) (st_SstDir s') k = read_with sum64 (mem_lookup s) (st_SstDir s) k"
    if "k \<in> K" for k
  proof -
    from K that have "mem_lookup s k \<noteq> None \<or> (\<exists>j \<in> fst ` set (mt_Index t). k < j)" by blast
    with F r show ?thesis by auto
  qed
  have "mem_lookup s' = mem_lookup s" using s'(2,3) fr by (simp add: mem_lookup_def fun_eq_iff cong: option.case_cong)
  with rd S(5) [of "st_SstDir s" "mem_lookup s"] s' idle c show ?thesis
    by (intro simulatesI) (auto simp: lasting_def)
qed

lemma simulates_finish:
  assumes sim: "simulates sum64 K (s, b, m)" and b: "bg_flushed b" and r: "flush_finish s = Inr s'"
  shows "simulates sum64 K (s', b\<lparr>bg_flushed := False\<rparr>, m)"
proof -
  note S = simulatesD [OF sim]
  have "holds_tables sum64 (st_SstDir s)" using S(4) by simp
  then obtain s1 where "flush_finish s = Inr s1" "store_wf s1" "st_frozenMap s1 = None" "st_ActiveMap s1 = st_ActiveMap s"
    "st_SstDir s1 = st_SstDir s" by (rule flush_finish_ok [OF S(1)])
  with r have s': "store_wf s'" "st_frozenMap s' = None" "st_ActiveMap s' = st_ActiveMap s" "st_SstDir s' = st_SstDir s" by simp_all
  have c: "coming s' (b\<lparr>bg_flushed := False\<rparr>) = coming s b" by (simp add: coming_def s'(4) split: compaction.splits)
  have l: "mem_lookup s' = lasting s b" using s'(2,3) b by (simp add: mem_lookup_def lasting_def fun_eq_iff split: option.splits)
  have "lasting s' (b\<lparr>bg_flushed := False\<rparr>) = lasting s b" using l by (simp add: lasting_def)
  with S c l s' show ?thesis by (intro simulatesI) auto
qed

lemma simulates_merge:
  assumes sim: "simulates sum64 K (s, b, m)" and b: "bg_compaction b = Chosen level fs"
    and ready: "compact_ready sum64 K room now level fs s b" and r: "compact_merge sum64 room True now level fs s = Inr (err, s')"
  shows "simulates sum64 K (s', b\<lparr>bg_compaction := Merged level fs\<rparr>, m)"
proof -
  note S = simulatesD [OF sim]
  from ready obtain T its where f: "getFilesForLevel level (st_SstDir s) = sst_files (st_SstDir s)"
     "maxLevelFiles \<le> length (sst_files (st_SstDir s))" "level + 1 < maxLevelFiles"
     "\<forall>f \<in> set (sst_files (st_SstDir s)). holds_table sum64 (st_SstDir s) f (T f) \<and> iterates_to (st_SstDir s) f (T f)"
     "open_iterators (st_SstDir s) (sst_files (st_SstDir s)) = Some its"
     "table_bound 10000 (merge_entries False its) \<le> room" "room < 2 ^ 63"
     "map_of (st_SstDir s) (sst_name (level + 1) now) = None"
    and fs: "fs = sst_files (st_SstDir s)"
    and K: "\<forall>k \<in> K. lasting s b k \<noteq> None \<or> (\<forall>f \<in> set (sst_files (st_SstDir s)). within (T f) k)"
    unfolding compact_ready_def by blast
  obtain dir where dir: "s' = s\<lparr>st_SstDir := dir\<rparr>" "sst_name (level + 1) now \<in> set (sst_files dir)" "holds_tables sum64 dir"
    "holds_tables sum64 (remove_files fs dir)"
    and rd: "\<And>mem k. mem k \<noteq> None \<or> (\<forall>f \<in> set (sst_files (st_SstDir s)). within (T f) k) \<Longrightarrow>
       read_with sum64 mem dir k = read_with sum64 mem (st_SstDir s) k \<and>
       read_with sum64 mem (remove_files fs dir) k = read_with sum64 mem (st_SstDir s) k"
    by (rule compaction_reads [OF f]) (use r fs in auto)
  have same: "mem_lookup s' = mem_lookup s" "lasting s' (b\<lparr>bg_compaction := Merged level fs\<rparr>) = lasting s b"
    by (auto simp: dir(1) mem_lookup_def lasting_def fun_eq_iff split: option.splits)
  have c: "coming s' (b\<lparr>bg_compaction := Merged level fs\<rparr>) = remove_files fs dir" by (simp add: coming_def dir(1))
  have "lasting s b k = Some x \<Longrightarrow> mem_lookup s k = Some x" for k x
    by (auto simp: lasting_def mem_lookup_def split: if_splits)
  then have K': "mem k \<noteq> None \<or> (\<forall>f \<in> set (sst_files (st_SstDir s)). within (T f) k)"
    if "mem \<in> {mem_lookup s, lasting s b}" "k \<in> K" for mem k using that K by fastforce
  show ?thesis
  proof (rule simulatesI)
    show "read_with sum64 mem d k = Inr (reads_as (m k))"
      if "d \<in> {st_SstDir s', coming s' (b\<lparr>bg_compaction := Merged level fs\<rparr>)}"
        "mem \<in> {mem_lookup s', lasting s' (b\<lparr>bg_compaction := Merged level fs\<rparr>)}" "k \<in> K" for d mem k
    proof -
      have mem: "mem \<in> {mem_lookup s, lasting s b}" using that(2) same by simp
      have "d \<in> {dir, remove_files fs dir}" using that(1) c by (simp add: dir(1))
      with rd [of mem k, OF K' [OF mem that(3)]] S(5) [OF _ mem that(3), of "st_SstDir s"] show ?thesis by auto
    qed
    show "\<exists>g \<in> set (sst_files (st_SstDir s')). \<forall>now. sst_name 0 now < g"
      using dir(2) level_above [OF f(3)] by (auto simp: dir(1))
  qed (use S(1,2) dir(3,4) c in \<open>auto simp: dir(1) store_wf_def\<close>)
qed

lemma simulates_install:
  assumes sim: "simulates sum64 K (s, b, m)" and b: "bg_compaction b = Merged level fs" and r: "compact_install fs s = Inr s'"
  shows "simulates sum64 K (s', b\<lparr>bg_compaction := Idle\<rparr>, m)"
proof -
  note S = simulatesD [OF sim]
  have c: "coming s b = remove_files fs (st_SstDir s)" by (simp add: coming_def b)
  then have "holds_tables sum64 (remove_files fs (st_SstDir s))" using S(4) by auto
  then obtain s1 where "compact_install fs s = Inr s1" "store_wf s1" "mem_lookup s1 = mem_lookup s" "st_ActiveMap s1 = st_ActiveMap s"
    "st_frozenMap s1 = st_frozenMap s" "st_SstDir s1 = remove_files fs (st_SstDir s)" by (rule compact_install_ok [OF S(1)])
  with r have s': "store_wf s'" "mem_lookup s' = mem_lookup s" "st_ActiveMap s' = st_ActiveMap s" "st_frozenMap s' = st_frozenMap s"
    "st_SstDir s' = coming s b" by (simp_all add: c)
  have "coming s' (b\<lparr>bg_compaction := Idle\<rparr>) = coming s b" "lasting s' (b\<lparr>bg_compaction := Idle\<rparr>) = lasting s b"
    by (simp_all add: coming_def s' lasting_def)
  with S s' show ?thesis by (intro simulatesI) auto
qed

text \<open>Choosing the files, and a merge that fails before it has an output, change nothing that is read.\<close>

lemma simulates_same:
  assumes "simulates sum64 K (s, b, m)" and "bg_flushed b' = bg_flushed b" and "\<And>level fs. bg_compaction b' \<noteq> Merged level fs"
  shows "simulates sum64 K (s, b', m)"
proof -
  have "coming s b' = st_SstDir s" "lasting s b' = lasting s b"
    using assms(2,3) by (simp_all add: coming_def lasting_def split: compaction.splits)
  with simulatesD [OF assms(1)] assms(2) show ?thesis by (intro simulatesI) (use assms(3) in \<open>blast | auto\<close>)+
qed

lemma simulates_background:
  assumes sim: "simulates sum64 K (s, b, m)" and "background_step sum64 K (s, b) (s', b')"
  shows "simulates sum64 K (s', b', m)"
  using assms(2)
proof cases
  case (bg_fail level fs room now err)
  then have "s' = s" by (auto simp: compact_merge_def Let_def split: option.splits)
  with bg_fail simulates_same [OF sim] show ?thesis by simp
next
  case (bg_merge level fs room now err)
  with simulates_merge [OF sim] show ?thesis by blast
qed (use simulates_create [OF sim] simulates_finish [OF sim] simulates_install [OF sim] simulates_same [OF sim] in \<open>auto\<close>)

lemma simulates_step:
  assumes "simulates sum64 K p" and "system_step sum64 K p q"
  shows "simulates sum64 K q"
  using assms(2)
proof cases
  case (sys_apply k d v s err s' b m)
  with simulates_apply [of sum64 K s b m k d v err s'] assms(1) show ?thesis by simp
next
  case (sys_background s b s' b' m)
  with simulates_background [of sum64 K s b m s' b'] assms(1) show ?thesis by simp
qed

interpretation sys: invariant_system system_init "system_step sum64 K" "simulates sum64 K" for sum64 K
  by unfold_locales (auto intro: simulates_init simulates_step)

section \<open>Properties\<close>

text \<open>
  C8: The store implements a map, as long as its flushes and compactions are in order: in every state reached from an empty store by
  applying commands (which may succeed or fail) and by the parts of flushes and compactions in the background,
  in any order, the store is well formed and a read at this moment returns what the map holds that only the successful commands
  have changed. In order means (\<open>flush_ready\<close>, \<open>compact_ready\<close>, which the code does not check): a flush finds room, and the
  name of its file is above those of all table files, so there is no flush while there is a file of a deeper level; a merge
  is over all table files, on one of the levels 0 to 2, which iterate to their tables, and finds room. The keys \<open>K\<close> are
  those that at each flush and merge are in memory or not above the last key of the tables involved. Where one of these fails, reads go
  wrong: \<open>stale_read_from_level1\<close>, \<open>iterator_overruns\<close>.
\<close>

theorem store_refines_map:
  assumes "reach system_init (system_step sum64 K) (s, b, m)" and "k \<in> K"
  shows "store_wf s \<and> store_Get sum64 s k = Inr (case m k of Some v \<Rightarrow> (v, True) | None \<Rightarrow> ([], False))"
proof -
  note S = simulatesD [OF sys.reach_inv [OF assms(1)]]
  from S(1) S(5) [of "st_SstDir s" "mem_lookup s" k] assms(2) show ?thesis by (simp add: store_Get_read reads_as_def)
qed

theorem store_refines_map_witness:
  "\<exists>s b m. reach system_init (system_step (\<lambda>k. 0) {[97], [98]}) (s, b, m) \<and>
     store_Get (\<lambda>k. 0) s [97] = Inr ([1, 2], True) \<and> store_Get (\<lambda>k. 0) s [98] = Inr ([], False)"
proof -
  let ?K = "{[97], [98]} :: bytes set" and ?r = "reach system_init (system_step (\<lambda>k. 0) {[97], [98]})"
  let ?b = "\<lparr>bg_flushed = False, bg_compaction = Idle\<rparr>"
  have r: "?r (empty_store, ?b, Map.empty)"
    by (rule reach_init) (auto simp: system_init_def empty_store_def sst_files_def sort_reverse_def)
  obtain s where s: "applyInternal True empty_store [97] [1, 2] False = Inr (None, s)"
    by (rule applyInternal_outcome [OF empty_store_wf, of "[97]" False "[1, 2]"])
      (auto simp: empty_store_def NewMemTable_def mapLimit_def)
  from reach_step [OF r sys_apply [OF _ _ s, of "\<lambda>k. 0" ?K ?b Map.empty]] have r': "?r (s, ?b, [[97] \<mapsto> [1, 2]])" by simp
  from store_refines_map [OF r', of "[97]"] store_refines_map [OF r', of "[98]"] r' show ?thesis by auto
qed

end
