(* ===== verification/Go_Url.thy ===== *)
theory Go_Url
  imports Go_Strings
begin

text \<open>
  What the program uses of \<open>net/url\<close>: escaping and unescaping of query components, the pairs of a
  query, and the query part of a URL. Go strings are strings of 8-bit characters here; \<open>go_bytes\<close>
  gives their bytes. The lemmas show that escaping is undone by unescaping for every string and
  that a query of escaped components is parsed into exactly these components.
\<close>

definition go_bytes :: "string \<Rightarrow> bytes" where
  "go_bytes s = map (\<lambda>c. word_of_nat (of_char c)) s"

definition go_string :: "bytes \<Rightarrow> string" where
  "go_string bs = map (\<lambda>b. char_of (unat b)) bs"

lemma go_string_bytes [simp]: "go_string (go_bytes s) = s"
proof -
  have "char_of (unat (word_of_nat (of_char c) :: byte)) = c" for c
  proof -
    have "of_char c < (256 :: nat)" by (rule nat_of_char_less_256)
    then have "unat (word_of_nat (of_char c) :: byte) = of_char c" by (simp add: unat_of_nat)
    then show ?thesis by (simp add: char_of_char)
  qed
  then show ?thesis by (simp add: go_string_def go_bytes_def comp_def)
qed

lemma go_bytes_string [simp]: "go_bytes (go_string bs) = bs"
proof -
  have "word_of_nat (of_char (char_of (unat b))) = b" for b :: byte
    using unsigned_less [of b, where ?'a = nat] by simp
  then show ?thesis by (simp add: go_string_def go_bytes_def comp_def)
qed

lemma go_bytes_inj: "go_bytes s = go_bytes t \<longleftrightarrow> s = t"
  by (metis go_string_bytes)

lemma length_go_bytes [simp]: "length (go_bytes s) = length s"
  by (simp add: go_bytes_def)

section \<open>Escaping\<close>

definition is_alnum :: "char \<Rightarrow> bool" where
  "is_alnum c \<longleftrightarrow> (let n = of_char c :: nat in 97 \<le> n \<and> n \<le> 122 \<or> 65 \<le> n \<and> n \<le> 90 \<or> 48 \<le> n \<and> n \<le> 57)"

text \<open>\<open>shouldEscape\<close> for a query component.\<close>

definition shouldEscape :: "char \<Rightarrow> bool" where
  "shouldEscape c \<longleftrightarrow> \<not> (is_alnum c \<or> c \<in> set ''-_.~'')"

definition upperhex :: "nat \<Rightarrow> char" where
  "upperhex n = char_of (if n < 10 then 48 + n else 55 + n)"

fun QueryEscape :: "string \<Rightarrow> string" where
  "QueryEscape [] = []"
| "QueryEscape (c # s) =
     (if c = CHR '' '' then CHR ''+'' # QueryEscape s
      else if shouldEscape c
      then CHR ''%'' # upperhex (of_char c div 16) # upperhex (of_char c mod 16) # QueryEscape s
      else c # QueryEscape s)"

definition unhex :: "char \<Rightarrow> nat option" where
  "unhex c = (let n = of_char c :: nat in
     if 48 \<le> n \<and> n \<le> 57 then Some (n - 48)
     else if 97 \<le> n \<and> n \<le> 102 then Some (n - 87)
     else if 65 \<le> n \<and> n \<le> 70 then Some (n - 55) else None)"

fun QueryUnescape :: "string \<Rightarrow> string option" where
  "QueryUnescape [] = Some []"
| "QueryUnescape (c # s) =
     (if c = CHR ''%''
      then (case s of
              a # b # rest \<Rightarrow>
                (case (unhex a, unhex b) of
                   (Some x, Some y) \<Rightarrow> map_option ((#) (char_of (16 * x + y))) (QueryUnescape rest)
                 | _ \<Rightarrow> None)
            | _ \<Rightarrow> None)
      else map_option ((#) (if c = CHR ''+'' then CHR '' '' else c)) (QueryUnescape s))"

lemma nibbles: "of_char c div 16 < (16 :: nat)" "of_char c mod 16 < (16 :: nat)"
  using nat_of_char_less_256 [of c] by (auto simp: div_less_iff_less_mult)

lemma unhex_upperhex: "n < 16 \<Longrightarrow> unhex (upperhex n) = Some n"
  by (simp add: unhex_def upperhex_def Let_def)

lemma shouldEscape_special: "shouldEscape CHR ''%''" "shouldEscape CHR ''+''" "shouldEscape CHR ''&''"
  "shouldEscape CHR '';''" "shouldEscape CHR ''=''" "shouldEscape CHR ''#''" "shouldEscape CHR ''?''"
  by (simp_all add: shouldEscape_def is_alnum_def)

text \<open>Escaping is undone by unescaping.\<close>

lemma QueryUnescape_Escape [simp]: "QueryUnescape (QueryEscape s) = Some s"
proof (induction s)
  case (Cons c s)
  show ?case
  proof (cases "shouldEscape c \<and> c \<noteq> CHR '' ''")
    case True
    have "unhex (upperhex (of_char c div 16)) = Some (of_char c div 16)"
      "unhex (upperhex (of_char c mod 16)) = Some (of_char c mod 16)"
      using nibbles [of c] by (auto intro: unhex_upperhex)
    moreover have "char_of (16 * (of_char c div 16) + of_char c mod 16 :: nat) = c" by (simp add: char_of_char)
    ultimately show ?thesis using True Cons by simp
  next
    case False
    then have "c = CHR '' '' \<or> c \<noteq> CHR ''%'' \<and> c \<noteq> CHR ''+''" using shouldEscape_special by auto
    with False Cons show ?thesis by auto
  qed
qed simp

text \<open>The characters of an escaped component.\<close>

definition query_safe :: "char \<Rightarrow> bool" where
  "query_safe c \<longleftrightarrow> of_char c \<notin> {35, 38, 59, 61 :: nat}"

lemma query_safe_neq: "query_safe c \<Longrightarrow> c \<noteq> CHR ''&'' \<and> c \<noteq> CHR '';'' \<and> c \<noteq> CHR ''='' \<and> c \<noteq> CHR ''#''"
  by (auto simp: query_safe_def)

lemma of_char_upperhex: "n < 16 \<Longrightarrow> of_char (upperhex n) = (if n < 10 then 48 + n else 55 + n :: nat)"
  by (simp add: upperhex_def)

lemma upperhex_safe: "n < 16 \<Longrightarrow> query_safe (upperhex n)"
  by (auto simp: query_safe_def of_char_upperhex)

lemma unescaped_safe: "\<not> shouldEscape c \<Longrightarrow> query_safe c"
  by (auto simp: shouldEscape_def is_alnum_def query_safe_def Let_def)

lemma QueryEscape_safe: "\<forall>c \<in> set (QueryEscape s). query_safe c"
proof (induction s)
  case (Cons c s)
  have "query_safe (upperhex (of_char c div 16))" "query_safe (upperhex (of_char c mod 16))"
    using nibbles [of c] by (auto intro: upperhex_safe)
  moreover have "query_safe CHR ''%''" "query_safe CHR ''+''" by (simp_all add: query_safe_def)
  ultimately show ?case using Cons unescaped_safe [of c] by auto
qed simp

lemma QueryEscape_notin: "CHR ''&'' \<notin> set (QueryEscape s) \<and> CHR '';'' \<notin> set (QueryEscape s)" "CHR ''#'' \<notin> set (QueryEscape s)"
  using QueryEscape_safe [of s] query_safe_neq by blast+

section \<open>Queries\<close>

text \<open>\<open>strings.Cut\<close> at a single character: before, after.\<close>

definition strings_Cut :: "char \<Rightarrow> string \<Rightarrow> string \<times> string" where
  "strings_Cut c s = (takeWhile (\<lambda>x. x \<noteq> c) s, tl (dropWhile (\<lambda>x. x \<noteq> c) s))"

lemma strings_Cut_absent: "c \<notin> set s \<Longrightarrow> strings_Cut c s = (s, [])"
  by (induction s) (auto simp: strings_Cut_def)

lemma strings_Cut_append: "c \<notin> set s \<Longrightarrow> strings_Cut c (s @ c # rest) = (s, rest)"
  by (induction s) (auto simp: strings_Cut_def)

lemma strings_Cut_shorter: "s \<noteq> [] \<Longrightarrow> length (snd (strings_Cut c s)) < length s"
proof -
  assume "s \<noteq> []"
  then have "length (dropWhile (\<lambda>x. x \<noteq> c) s) - 1 < length s"
    using length_dropWhile_le [of "\<lambda>x. x \<noteq> c" s] by (cases s) auto
  then show ?thesis by (simp add: strings_Cut_def)
qed

text \<open>
  The pairs of a query in their order; a segment with a semicolon or a bad escape is skipped.
\<close>

function ParseQuery :: "string \<Rightarrow> (string \<times> string) list" where
  "ParseQuery query =
     (if query = [] then []
      else let seg = fst (strings_Cut CHR ''&'' query); rest = snd (strings_Cut CHR ''&'' query) in
           if CHR '';'' \<in> set seg \<or> seg = [] then ParseQuery rest
           else let (key, val) = strings_Cut CHR ''='' seg
                in case (QueryUnescape key, QueryUnescape val) of
                     (Some k, Some v) \<Rightarrow> (k, v) # ParseQuery rest
                   | _ \<Rightarrow> ParseQuery rest)"
  by pat_completeness auto
termination
  by (relation "measure length") (auto intro: strings_Cut_shorter)

declare ParseQuery.simps [simp del]

lemma ParseQuery_Nil [simp]: "ParseQuery [] = []"
  by (simp add: ParseQuery.simps)

text \<open>\<open>r.URL.Query().Get\<close>: the first value, or the empty string.\<close>

definition Query_Get :: "string \<Rightarrow> string \<Rightarrow> string" where
  "Query_Get query name = (case map_of (ParseQuery query) name of Some v \<Rightarrow> v | None \<Rightarrow> [])"

text \<open>The query of a URL: what follows the first question mark, without the fragment.\<close>

definition url_query :: "string \<Rightarrow> string" where
  "url_query u = snd (strings_Cut CHR ''?'' (fst (strings_Cut CHR ''#'' u)))"

lemma ParseQuery_pair:
  assumes "\<forall>c \<in> set name. query_safe c" and "CHR ''&'' \<notin> set val" and "CHR '';'' \<notin> set val"
    and "QueryUnescape name = Some k" and "QueryUnescape val = Some v"
  shows "ParseQuery (name @ CHR ''='' # val @ CHR ''&'' # rest) = (k, v) # ParseQuery rest"
    and "ParseQuery (name @ CHR ''='' # val) = [(k, v)]"
proof -
  have name: "CHR ''&'' \<notin> set name" "CHR '';'' \<notin> set name" "CHR ''='' \<notin> set name"
    using assms(1) query_safe_neq by blast+
  have seg: "strings_Cut CHR ''='' (name @ CHR ''='' # val) = (name, val)" by (rule strings_Cut_append [OF name(3)])
  have "strings_Cut CHR ''&'' ((name @ CHR ''='' # val) @ CHR ''&'' # rest) = (name @ CHR ''='' # val, rest)"
    using name assms(2) by (intro strings_Cut_append) auto
  then show "ParseQuery (name @ CHR ''='' # val @ CHR ''&'' # rest) = (k, v) # ParseQuery rest"
    using name assms(3-5) seg by (subst ParseQuery.simps) simp
  have "strings_Cut CHR ''&'' (name @ CHR ''='' # val) = (name @ CHR ''='' # val, [])"
    using name assms(2) by (intro strings_Cut_absent) auto
  then show "ParseQuery (name @ CHR ''='' # val) = [(k, v)]"
    using name assms(3-5) seg by (subst ParseQuery.simps) simp
qed

end
