(* ===== verification/Go_Utf8.thy ===== *)
theory Go_Utf8
  imports Go_Url
begin

text \<open>
  What \<open>encoding/json\<close> uses of \<open>unicode/utf8\<close>: decoding and encoding of one rune. A rune is a natural
  number; an invalid byte decodes to the replacement rune U+FFFD of size 1. The lemmas show
  that a rune that decodes is encoded to the same bytes, and that decoding looks at these
  bytes only.
\<close>

definition RuneError :: nat where "RuneError = 65533"

abbreviation cont_byte :: "char \<Rightarrow> bool" where
  "cont_byte c \<equiv> 128 \<le> (of_char c :: nat) \<and> of_char c \<le> (191 :: nat)"

text \<open>The range of the second byte after a given first byte.\<close>

definition accept_range :: "nat \<Rightarrow> nat \<times> nat" where
  "accept_range b = (if b = 224 then (160, 191) else if b = 237 then (128, 159)
     else if b = 240 then (144, 191) else if b = 244 then (128, 143) else (128, 191))"

definition accepted :: "char \<Rightarrow> char \<Rightarrow> bool" where
  "accepted c0 c1 \<longleftrightarrow> fst (accept_range (of_char c0)) \<le> of_char c1 \<and> of_char c1 \<le> snd (accept_range (of_char c0))"

text \<open>The number of bytes of a rune, from its first byte: 0 if it cannot start a rune.\<close>

definition rune_len :: "nat \<Rightarrow> nat" where
  "rune_len b = (if b < 128 then 1 else if b < 194 then 0 else if b < 224 then 2
     else if b < 240 then 3 else if b < 245 then 4 else 0)"

definition DecodeRune :: "string \<Rightarrow> nat \<times> nat" where
  "DecodeRune s =
     (case s of
        [] \<Rightarrow> (RuneError, 0)
      | c0 # cs \<Rightarrow>
          let b0 = of_char c0 :: nat; n = rune_len b0; bad = (RuneError, 1) in
          if n = 1 then (b0, 1)
          else if n = 0 then bad
          else (case cs of
                  [] \<Rightarrow> bad
                | c1 # cs \<Rightarrow>
                    if \<not> accepted c0 c1 then bad
                    else let r = of_char c1 mod 64 in
                         if n = 2 then (b0 mod 32 * 64 + r, 2)
                         else (case cs of
                                 [] \<Rightarrow> bad
                               | c2 # cs \<Rightarrow>
                                   if \<not> cont_byte c2 then bad
                                   else let r = r * 64 + of_char c2 mod 64 in
                                        if n = 3 then (b0 mod 16 * 4096 + r, 3)
                                        else (case cs of
                                                [] \<Rightarrow> bad
                                              | c3 # cs \<Rightarrow>
                                                  if \<not> cont_byte c3 then bad
                                                  else (b0 mod 8 * 262144 + r * 64 + of_char c3 mod 64, 4)))))"

definition is_surrogate :: "nat \<Rightarrow> bool" where
  "is_surrogate r \<longleftrightarrow> 55296 \<le> r \<and> r < 57344"

definition EncodeRune :: "nat \<Rightarrow> string" where
  "EncodeRune r =
     (let r = (if is_surrogate r \<or> r > 1114111 then RuneError else r) in
      if r < 128 then [char_of r]
      else if r < 2048 then [char_of (192 + r div 64), char_of (128 + r mod 64)]
      else if r < 65536
      then [char_of (224 + r div 4096), char_of (128 + r div 64 mod 64), char_of (128 + r mod 64)]
      else [char_of (240 + r div 262144), char_of (128 + r div 4096 mod 64), char_of (128 + r div 64 mod 64),
            char_of (128 + r mod 64)])"

definition rune_ok :: "string \<Rightarrow> bool" where
  "rune_ok s \<longleftrightarrow> s \<noteq> [] \<and> DecodeRune s \<noteq> (RuneError, 1)"

function valid_utf8 :: "string \<Rightarrow> bool" where
  "valid_utf8 s = (if s = [] then True else if \<not> rune_ok s then False
     else valid_utf8 (drop (max 1 (snd (DecodeRune s))) s))"
  by pat_completeness auto
termination
  by (relation "measure length") auto

declare valid_utf8.simps [simp del]

text \<open>The shapes of a decodable string.\<close>

lemma rune_ok_cases:
  assumes "rune_ok s"
  obtains (ascii) c0 cs where "s = c0 # cs" "of_char c0 < (128 :: nat)" "\<And>rest. DecodeRune (c0 # rest) = (of_char c0, 1)"
  | (two) c0 c1 cs where "s = c0 # c1 # cs" "194 \<le> (of_char c0 :: nat)" "of_char c0 < (224 :: nat)" "cont_byte c1"
      "\<And>rest. DecodeRune (c0 # c1 # rest) = (of_char c0 mod 32 * 64 + of_char c1 mod 64, 2)"
  | (three) c0 c1 c2 cs where "s = c0 # c1 # c2 # cs" "224 \<le> (of_char c0 :: nat)" "of_char c0 < (240 :: nat)"
      "accepted c0 c1" "cont_byte c2"
      "\<And>rest. DecodeRune (c0 # c1 # c2 # rest) = (of_char c0 mod 16 * 4096 + (of_char c1 mod 64 * 64 + of_char c2 mod 64), 3)"
  | (four) c0 c1 c2 c3 cs where "s = c0 # c1 # c2 # c3 # cs" "240 \<le> (of_char c0 :: nat)" "of_char c0 < (245 :: nat)"
      "accepted c0 c1" "cont_byte c2" "cont_byte c3"
      "\<And>rest. DecodeRune (c0 # c1 # c2 # c3 # rest) = (of_char c0 mod 8 * 262144 + (of_char c1 mod 64 * 64 + of_char c2 mod 64) * 64 + of_char c3 mod 64, 4)"
proof -
  from assms obtain c0 cs where s: "s = c0 # cs" by (cases s) (auto simp: rune_ok_def)
  let ?b = "of_char c0 :: nat"
  consider "?b < 128" | "194 \<le> ?b" "?b < 224" | "224 \<le> ?b" "?b < 240" | "240 \<le> ?b" "?b < 245"
    | "rune_len ?b = 0" by (fastforce simp: rune_len_def)
  then show thesis
  proof cases
    case 1
    then have "rune_len ?b = 1" by (simp add: rune_len_def)
    with s 1 show thesis by (intro ascii [of c0 cs]) (simp_all add: DecodeRune_def)
  next
    case 2
    then have n: "rune_len ?b = 2" "accept_range ?b = (128, 191)" by (auto simp: rune_len_def accept_range_def)
    with s assms obtain c1 cs' where "cs = c1 # cs'" "accepted c0 c1"
      by (auto simp: rune_ok_def DecodeRune_def Let_def split: list.splits if_splits)
    with s n 2 show thesis by (intro two [of c0 c1 cs']) (simp_all add: DecodeRune_def Let_def accepted_def)
  next
    case 3
    then have n: "rune_len ?b = 3" by (simp add: rune_len_def)
    with s assms obtain c1 c2 cs' where "cs = c1 # c2 # cs'" "accepted c0 c1" "cont_byte c2"
      by (auto simp: rune_ok_def DecodeRune_def Let_def split: list.splits if_splits)
    with s n 3 show thesis by (intro three [of c0 c1 c2 cs']) (simp_all add: DecodeRune_def Let_def)
  next
    case 4
    then have n: "rune_len ?b = 4" by (simp add: rune_len_def)
    with s assms obtain c1 c2 c3 cs' where "cs = c1 # c2 # c3 # cs'" "accepted c0 c1" "cont_byte c2" "cont_byte c3"
      by (auto simp: rune_ok_def DecodeRune_def Let_def split: list.splits if_splits)
    with s n 4 show thesis by (intro four [of c0 c1 c2 c3 cs']) (simp_all add: DecodeRune_def Let_def)
  next
    case 5
    with s assms show thesis by (simp add: rune_ok_def DecodeRune_def Let_def)
  qed
qed

lemma rune_size: "rune_ok s \<Longrightarrow> 1 \<le> snd (DecodeRune s) \<and> snd (DecodeRune s) \<le> length s"
  by (erule rune_ok_cases) auto

lemma accepted_range: "accepted c0 c1 \<Longrightarrow> cont_byte c1"
  by (auto simp: accepted_def accept_range_def split: if_splits)

text \<open>The low bits of a byte in a range that starts at a multiple of their modulus.\<close>

lemma low_bits:
  fixes x m :: nat
  assumes "k * m \<le> x" and "x < k * m + m"
  shows "x mod m = x - k * m"
proof -
  have "x = (x - k * m) + k * m" "x - k * m < m" using assms by simp_all
  then show ?thesis by (metis mod_less mod_mult_self1)
qed

lemma cont_bits: "cont_byte c \<Longrightarrow> 128 + of_char c mod 64 = (of_char c :: nat)"
  using low_bits [of 2 64 "of_char c"] by simp

lemma char_of_cont: "cont_byte c \<Longrightarrow> char_of (128 + of_char c mod 64 :: nat) = c"
  by (simp only: cont_bits char_of_char)

text \<open>Digits of a number in base 64.\<close>

lemma base64_digit: "b < 64 \<Longrightarrow> (a * 64 + b) div 64 = a" "b < 64 \<Longrightarrow> (a * 64 + b) mod 64 = b" for a b :: nat
  by simp_all

lemma base64:
  fixes a b c d :: nat
  assumes "b < 64" "c < 64" "d < 64"
  shows "(a * 4096 + (b * 64 + c)) div 4096 = a" "(a * 4096 + (b * 64 + c)) div 64 mod 64 = b"
    "(a * 4096 + (b * 64 + c)) mod 64 = c"
    "(a * 262144 + (b * 64 + c) * 64 + d) div 262144 = a" "(a * 262144 + (b * 64 + c) * 64 + d) div 4096 mod 64 = b"
    "(a * 262144 + (b * 64 + c) * 64 + d) div 64 mod 64 = c" "(a * 262144 + (b * 64 + c) * 64 + d) mod 64 = d"
proof -
  have r: "a * 4096 + (b * 64 + c) = (a * 64 + b) * 64 + c"
    "a * 262144 + (b * 64 + c) * 64 + d = ((a * 64 + b) * 64 + c) * 64 + d" by simp_all
  have q: "x div 4096 = x div 64 div 64" "x div 262144 = x div 64 div 64 div 64" for x :: nat
    by (simp_all add: div_mult2_eq [symmetric])
  show "(a * 4096 + (b * 64 + c)) div 4096 = a" "(a * 4096 + (b * 64 + c)) div 64 mod 64 = b"
    "(a * 4096 + (b * 64 + c)) mod 64 = c"
    "(a * 262144 + (b * 64 + c) * 64 + d) div 262144 = a" "(a * 262144 + (b * 64 + c) * 64 + d) div 4096 mod 64 = b"
    "(a * 262144 + (b * 64 + c) * 64 + d) div 64 mod 64 = c" "(a * 262144 + (b * 64 + c) * 64 + d) mod 64 = d"
    by (simp_all only: r q base64_digit assms)
qed

lemma rune_encode:
  assumes "rune_ok s"
  shows "EncodeRune (fst (DecodeRune s)) = take (snd (DecodeRune s)) s"
  using assms
proof (cases rule: rune_ok_cases)
  case (ascii c0 cs)
  then show ?thesis by (simp add: EncodeRune_def is_surrogate_def Let_def)
next
  case (two c0 c1 cs)
  define a where "a = (of_char c0 mod 32 :: nat)"
  define b where "b = (of_char c1 mod 64 :: nat)"
  have a: "2 \<le> a" "a < 32" "char_of (192 + a) = c0"
    using two(2,3) low_bits [of 6 32 "of_char c0"] by (simp_all add: a_def)
  have b: "b < 64" "char_of (128 + b) = c1" using char_of_cont [OF two(4)] by (simp_all add: b_def)
  have "a * 64 + b < 2048" "128 \<le> a * 64 + b" using a(1,2) b(1) by linarith+
  then show ?thesis
    using base64_digit [OF b(1), of a] a(3) b(2)
    by (simp add: two(1,5) a_def [symmetric] b_def [symmetric] EncodeRune_def is_surrogate_def Let_def)
next
  case (three c0 c1 c2 cs)
  define a where "a = (of_char c0 mod 16 :: nat)"
  define b where "b = (of_char c1 mod 64 :: nat)"
  define c where "c = (of_char c2 mod 64 :: nat)"
  have "a = of_char c0 - 224" using three(2,3) low_bits [of 14 16 "of_char c0"] by (simp add: a_def)
  then have a: "a < 16" "of_char c0 = 224 + a" "char_of (224 + a) = c0" using three(2,3) by simp_all
  have c1: "cont_byte c1" using accepted_range [OF three(4)] .
  have b: "b < 64" "of_char c1 = 128 + b" "char_of (128 + b) = c1"
    using char_of_cont [OF c1] cont_bits [OF c1] by (simp_all add: b_def)
  have c: "c < 64" "char_of (128 + c) = c2" using char_of_cont [OF three(5)] by (simp_all add: c_def)
  have "a = 0 \<Longrightarrow> 32 \<le> b" "a = 13 \<Longrightarrow> b < 32"
    using three(4) a(2) b(2) by (auto simp: accepted_def accept_range_def)
  then have "2048 \<le> a * 4096 + (b * 64 + c)" "a * 4096 + (b * 64 + c) < 65536"
    "\<not> is_surrogate (a * 4096 + (b * 64 + c))"
    using a(1) b(1) c(1) by (cases "a = 0"; cases "a = 13"; auto simp: is_surrogate_def)+
  then show ?thesis
    using base64(1-3) [OF b(1) c(1), of 0 a] a(3) b(3) c(2)
    by (simp add: three(1,6) a_def [symmetric] b_def [symmetric] c_def [symmetric] EncodeRune_def Let_def)
next
  case (four c0 c1 c2 c3 cs)
  define a where "a = (of_char c0 mod 8 :: nat)"
  define b where "b = (of_char c1 mod 64 :: nat)"
  define c where "c = (of_char c2 mod 64 :: nat)"
  define d where "d = (of_char c3 mod 64 :: nat)"
  have "a = of_char c0 - 240" using four(2,3) low_bits [of 30 8 "of_char c0"] by (simp add: a_def)
  then have a: "a < 5" "of_char c0 = 240 + a" "char_of (240 + a) = c0" using four(2,3) by simp_all
  have c1: "cont_byte c1" using accepted_range [OF four(4)] .
  have b: "b < 64" "of_char c1 = 128 + b" "char_of (128 + b) = c1"
    using char_of_cont [OF c1] cont_bits [OF c1] by (simp_all add: b_def)
  have cd: "c < 64" "char_of (128 + c) = c2" "d < 64" "char_of (128 + d) = c3"
    using char_of_cont [OF four(5)] char_of_cont [OF four(6)] by (simp_all add: c_def d_def)
  have "a = 0 \<Longrightarrow> 16 \<le> b" "a = 4 \<Longrightarrow> b < 16"
    using four(4) a(2) b(2) by (auto simp: accepted_def accept_range_def)
  then have "65536 \<le> a * 262144 + (b * 64 + c) * 64 + d" "a * 262144 + (b * 64 + c) * 64 + d \<le> 1114111"
    using a(1) b(1) cd(1,3) by (cases "a = 0"; cases "a = 4"; auto)+
  then show ?thesis
    using base64(4-7) [OF b(1) cd(1,3), of a] a(3) b(3) cd(2,4)
    by (simp add: four(1,7) a_def [symmetric] b_def [symmetric] c_def [symmetric] d_def [symmetric] EncodeRune_def
        is_surrogate_def Let_def)
qed

text \<open>Decoding looks at the bytes of the rune only.\<close>

lemma rune_prefix:
  assumes "rune_ok s"
  shows "DecodeRune (take (snd (DecodeRune s)) s @ rest) = DecodeRune s"
  using assms by (cases rule: rune_ok_cases) simp_all

end
