(* ===== verification/Go_Json.thy ===== *)
theory Go_Json
  imports Go_Utf8
begin

text \<open>
  What the program uses of \<open>encoding/json\<close>: encoding of strings and numbers as \<open>Marshal\<close> writes them
  (with HTML escaping), a parser for JSON texts, and decoding into the fields of a struct. The
  parser has fuel; each call of it consumes a character or descends from a list to its first
  element, so that twice the length of the text and one is enough. The lemmas show that the parser
  reads an encoded string or number back and leaves the rest of the text.
\<close>

abbreviation dquote :: char where "dquote \<equiv> CHR 0x22"
abbreviation backslash :: char where "backslash \<equiv> CHR 0x5C"

section \<open>Encoding\<close>

text \<open>The ASCII characters that are written as they are.\<close>

definition htmlSafe :: "char \<Rightarrow> bool" where
  "htmlSafe c \<longleftrightarrow> 32 \<le> (of_char c :: nat) \<and> of_char c < (128 :: nat) \<and>
     of_char c \<notin> {34, 38, 60, 62, 92 :: nat}"

definition lowerhex :: "nat \<Rightarrow> char" where
  "lowerhex n = char_of (if n < 10 then 48 + n else 87 + n)"

definition escape_char :: "char \<Rightarrow> string" where
  "escape_char c =
     (let n = of_char c :: nat in
      if n = 34 \<or> n = 92 then [backslash, c]
      else if n = 8 then backslash # ''b''
      else if n = 12 then backslash # ''f''
      else if n = 10 then backslash # ''n''
      else if n = 13 then backslash # ''r''
      else if n = 9 then backslash # ''t''
      else backslash # ''u00'' @ [lowerhex (n div 16), lowerhex (n mod 16)])"

text \<open>\<open>appendString\<close> without the quotes around it.\<close>

function quote_body :: "string \<Rightarrow> string" where
  "quote_body s =
     (case s of
        [] \<Rightarrow> []
      | c # cs \<Rightarrow>
          if of_char c < (128 :: nat) then (if htmlSafe c then [c] else escape_char c) @ quote_body cs
          else let (r, n) = DecodeRune s in
               if r = RuneError \<and> n = 1 then backslash # ''ufffd'' @ quote_body cs
               else if r = 8232 \<or> r = 8233
               then backslash # ''u202'' @ lowerhex (r mod 16) # quote_body (drop (max 1 n) s)
               else take n s @ quote_body (drop (max 1 n) s))"
  by pat_completeness auto
termination
  by (relation "measure length") auto

declare quote_body.simps [simp del]

definition json_string :: "string \<Rightarrow> string" where
  "json_string s = dquote # quote_body s @ [dquote]"

section \<open>Parsing\<close>

datatype json = JNull | JBool bool | JNum string | JStr string | JArr "json list" | JObj "(string \<times> json) list"

definition skip_ws :: "string \<Rightarrow> string" where
  "skip_ws s = dropWhile (\<lambda>c. of_char c \<in> {9, 10, 13, 32 :: nat}) s"

text \<open>The value of four hexadecimal digits, and what follows them.\<close>

fun hex4 :: "string \<Rightarrow> (nat \<times> string) option" where
  "hex4 (a # b # c # d # s) =
     (case (unhex a, unhex b, unhex c, unhex d) of
        (Some w, Some x, Some y, Some z) \<Rightarrow> Some (((w * 16 + x) * 16 + y) * 16 + z, s)
      | _ \<Rightarrow> None)"
| "hex4 _ = None"

text \<open>A \<open>\u\<close> escape after its \<open>u\<close>: a surrogate needs its partner, or becomes the replacement rune.\<close>

definition unescape_u :: "string \<Rightarrow> (nat \<times> string) option" where
  "unescape_u s =
     (case hex4 s of
        None \<Rightarrow> None
      | Some (r, s) \<Rightarrow>
          if \<not> is_surrogate r then Some (r, s)
          else case s of
                 a # b # s' \<Rightarrow>
                   if a = backslash \<and> b = CHR ''u''
                   then (case hex4 s' of
                           Some (r', s'') \<Rightarrow>
                             if r < 56320 \<and> 56320 \<le> r' \<and> r' < 57344
                             then Some ((r - 55296) * 1024 + (r' - 56320) + 65536, s'')
                             else Some (RuneError, s)
                         | None \<Rightarrow> Some (RuneError, s))
                   else Some (RuneError, s)
               | _ \<Rightarrow> Some (RuneError, s))"

definition simple_escape :: "char \<Rightarrow> char option" where
  "simple_escape c =
     (if c = dquote \<or> c = backslash \<or> c = CHR ''/'' then Some c
      else if c = CHR ''b'' then Some (CHR 0x08)
      else if c = CHR ''f'' then Some (CHR 0x0C)
      else if c = CHR ''n'' then Some (CHR 0x0A)
      else if c = CHR ''r'' then Some (CHR 0x0D)
      else if c = CHR ''t'' then Some (CHR 0x09)
      else None)"

text \<open>A string after its opening quote: the decoded string and what follows the closing quote.\<close>

lemma hex4_shorter: "hex4 s = Some (r, t) \<Longrightarrow> length t < length s"
  by (induction s rule: hex4.induct) (auto split: option.splits)

lemma unescape_u_shorter: "unescape_u s = Some (r, t) \<Longrightarrow> length t < length s"
  by (auto simp: unescape_u_def split: option.splits if_splits list.splits dest!: hex4_shorter)

function parse_string :: "string \<Rightarrow> (string \<times> string) option" where
  "parse_string s =
     (case s of
        [] \<Rightarrow> None
      | c # cs \<Rightarrow>
          if c = dquote then Some ([], cs)
          else if c = backslash
          then (case cs of
                  [] \<Rightarrow> None
                | e # cs \<Rightarrow>
                    if e = CHR ''u''
                    then (case unescape_u cs of
                            None \<Rightarrow> None
                          | Some (r, t) \<Rightarrow> map_option (map_prod ((@) (EncodeRune r)) id) (parse_string t))
                    else case simple_escape e of
                           None \<Rightarrow> None
                         | Some x \<Rightarrow> map_option (map_prod ((#) x) id) (parse_string cs))
          else if of_char c < (32 :: nat) then None
          else if of_char c < (128 :: nat) then map_option (map_prod ((#) c) id) (parse_string cs)
          else map_option (map_prod ((@) (EncodeRune (fst (DecodeRune s)))) id)
                 (parse_string (drop (max 1 (snd (DecodeRune s))) s)))"
  by pat_completeness auto
termination
  by (relation "measure length") (auto dest: unescape_u_shorter)

declare parse_string.simps [simp del]

text \<open>A number literal.\<close>

definition digits_of :: "string \<Rightarrow> string \<times> string" where
  "digits_of s = (takeWhile is_digit s, dropWhile is_digit s)"

definition parse_frac :: "string \<Rightarrow> (string \<times> string) option" where
  "parse_frac s =
     (case s of
        c # cs \<Rightarrow> if c = CHR ''.'' then (let (ds, t) = digits_of cs in if ds = [] then None else Some (c # ds, t))
                  else Some ([], s)
      | [] \<Rightarrow> Some ([], []))"

definition parse_exp :: "string \<Rightarrow> (string \<times> string) option" where
  "parse_exp s =
     (case s of
        c # cs \<Rightarrow>
          if c = CHR ''e'' \<or> c = CHR ''E''
          then let (sg, cs) = (case cs of x # t \<Rightarrow> if x = CHR ''+'' \<or> x = CHR ''-'' then ([x], t) else ([], cs) | [] \<Rightarrow> ([], []));
                   (ds, t) = digits_of cs
               in if ds = [] then None else Some (c # sg @ ds, t)
          else Some ([], s)
      | [] \<Rightarrow> Some ([], []))"

definition parse_number :: "string \<Rightarrow> (string \<times> string) option" where
  "parse_number s =
     (let (sg, s) = (case s of x # t \<Rightarrow> if x = CHR ''-'' then ([x], t) else ([], s) | [] \<Rightarrow> ([], []));
          (ds, s) = (case s of x # t \<Rightarrow> if x = CHR ''0'' then ([x], t) else digits_of s | [] \<Rightarrow> ([], []))
      in if ds = [] then None
         else case parse_frac s of
                None \<Rightarrow> None
              | Some (f, s) \<Rightarrow> map_option (\<lambda>(e, s). (sg @ ds @ f @ e, s)) (parse_exp s))"

fun parse_value :: "nat \<Rightarrow> string \<Rightarrow> (json \<times> string) option"
  and parse_elems :: "nat \<Rightarrow> string \<Rightarrow> (json list \<times> string) option"
  and parse_members :: "nat \<Rightarrow> string \<Rightarrow> ((string \<times> json) list \<times> string) option" where
  "parse_value 0 s = None"
| "parse_value (Suc n) s =
     (case skip_ws s of
        [] \<Rightarrow> None
      | c # cs \<Rightarrow>
          if c = dquote then map_option (map_prod JStr id) (parse_string cs)
          else if c = CHR ''{''
          then (case skip_ws cs of
                  [] \<Rightarrow> None
                | d # ds \<Rightarrow> if d = CHR ''}'' then Some (JObj [], ds)
                            else map_option (map_prod JObj id) (parse_members n cs))
          else if c = CHR ''[''
          then (case skip_ws cs of
                  [] \<Rightarrow> None
                | d # ds \<Rightarrow> if d = CHR '']'' then Some (JArr [], ds)
                            else map_option (map_prod JArr id) (parse_elems n cs))
          else if HasPrefix (c # cs) ''null'' then Some (JNull, drop 4 (c # cs))
          else if HasPrefix (c # cs) ''true'' then Some (JBool True, drop 4 (c # cs))
          else if HasPrefix (c # cs) ''false'' then Some (JBool False, drop 5 (c # cs))
          else map_option (map_prod JNum id) (parse_number (c # cs)))"
| "parse_elems 0 s = None"
| "parse_elems (Suc n) s =
     (case parse_value n s of
        None \<Rightarrow> None
      | Some (v, s) \<Rightarrow>
        (case skip_ws s of
           [] \<Rightarrow> None
         | c # cs \<Rightarrow>
             if c = CHR '','' then map_option (map_prod ((#) v) id) (parse_elems n cs)
             else if c = CHR '']'' then Some ([v], cs) else None))"
| "parse_members 0 s = None"
| "parse_members (Suc n) s =
     (case skip_ws s of
        [] \<Rightarrow> None
      | q # s \<Rightarrow>
        if q \<noteq> dquote then None
        else case parse_string s of
               None \<Rightarrow> None
             | Some (k, s) \<Rightarrow>
               (case skip_ws s of
                  [] \<Rightarrow> None
                | c # s \<Rightarrow>
                  if c \<noteq> CHR '':'' then None
                  else case parse_value n s of
                         None \<Rightarrow> None
                       | Some (v, s) \<Rightarrow>
                         (case skip_ws s of
                            [] \<Rightarrow> None
                          | c # cs \<Rightarrow>
                              if c = CHR '','' then map_option (map_prod ((#) (k, v)) id) (parse_members n cs)
                              else if c = CHR ''}'' then Some ([(k, v)], cs) else None)))"

text \<open>A whole text: one value with blanks around it.\<close>

definition parse_json :: "string \<Rightarrow> json option" where
  "parse_json s = (case parse_value (2 * length s + 1) s of
     Some (v, t) \<Rightarrow> if skip_ws t = [] then Some v else None
   | None \<Rightarrow> None)"

section \<open>Structs\<close>

text \<open>
  The field that a name in the text denotes: the one with exactly this name, or the first that
  agrees up to case. Of the runes beyond ASCII only the Kelvin sign and the long s fold to
  ASCII letters.
\<close>

function fold_name :: "string \<Rightarrow> string" where
  "fold_name s =
     (case s of
        [] \<Rightarrow> []
      | c # cs \<Rightarrow>
          if 97 \<le> (of_char c :: nat) \<and> of_char c \<le> (122 :: nat) then char_of (of_char c - 32 :: nat) # fold_name cs
          else if HasPrefix s [CHR 0xE2, CHR 0x84, CHR 0xAA] then CHR ''K'' # fold_name (drop 3 s)
          else if HasPrefix s [CHR 0xC5, CHR 0xBF] then CHR ''S'' # fold_name (drop 2 s)
          else c # fold_name cs)"
  by pat_completeness auto
termination
  by (relation "measure length") auto

declare fold_name.simps [simp del]

definition struct_field :: "string list \<Rightarrow> string \<Rightarrow> string option" where
  "struct_field names k = (if k \<in> set names then Some k else find (\<lambda>f. fold_name f = fold_name k) names)"

text \<open>
  Decoding into a struct: \<open>set_field\<close> stores a value into a field, or refuses its type. An unknown
  name and the value \<open>null\<close> change nothing; a refused value is an error at the end.
\<close>

definition unmarshal_struct :: "string list \<Rightarrow> (string \<Rightarrow> json \<Rightarrow> 'a \<Rightarrow> 'a option) \<Rightarrow> 'a \<Rightarrow> string \<Rightarrow> 'a option" where
  "unmarshal_struct names set_field x text =
     (case parse_json text of
        Some (JObj ms) \<Rightarrow>
          fold (\<lambda>(k, v) acc. case acc of
              None \<Rightarrow> None
            | Some y \<Rightarrow> (case struct_field names k of
                None \<Rightarrow> Some y
              | Some f \<Rightarrow> if v = JNull then Some y else set_field f v y)) ms (Some x)
      | Some JNull \<Rightarrow> Some x
      | _ \<Rightarrow> None)"

text \<open>An integer literal in a range, as \<open>ParseInt\<close> and \<open>ParseUint\<close> read it.\<close>

definition int_literal :: "string \<Rightarrow> int option" where
  "int_literal s =
     (case s of
        [] \<Rightarrow> None
      | c # cs \<Rightarrow>
          if c = CHR ''-'' then (if cs \<noteq> [] \<and> (\<forall>d \<in> set cs. is_digit d) then Some (- int (nat_of_digits cs 0)) else None)
          else if \<forall>d \<in> set s. is_digit d then Some (int (nat_of_digits s 0)) else None)"

section \<open>The fuel of the parser is enough\<close>

lemma skip_ws_le: "length (skip_ws s) \<le> length s"
  by (simp add: skip_ws_def length_dropWhile_le)

lemma skip_ws_Cons: "skip_ws s = c # cs \<Longrightarrow> length cs < length s"
  using skip_ws_le [of s] by simp

lemma parse_string_shorter: "parse_string s = Some (v, t) \<Longrightarrow> length t < length s"
proof (induction "length s" arbitrary: s v t rule: less_induct)
  case less
  have IH: "length t < length s" if "parse_string u = Some (w, t)" "length u < length s" for u w
    using less.hyps [OF that(2) that(1)] that(2) by simp
  have d: "drop (max 1 n) (c # cs) = drop (max 1 n - 1) cs" for n and c :: char and cs by (cases n) simp_all
  show ?case
    using less.prems
    by (subst (asm) parse_string.simps)
      (fastforce split: if_splits list.splits option.splits prod.splits dest: IH dest!: unescape_u_shorter simp: d)
qed

lemma parse_frac_le: "parse_frac s = Some (f, t) \<Longrightarrow> length t \<le> length s"
  using length_dropWhile_le [of is_digit "tl s"]
  by (auto simp: parse_frac_def digits_of_def Let_def split: list.splits if_splits)

lemma parse_exp_le: "parse_exp s = Some (f, t) \<Longrightarrow> length t \<le> length s"
  using length_dropWhile_le [of is_digit "tl s"] length_dropWhile_le [of is_digit "tl (tl s)"]
  by (auto simp: parse_exp_def digits_of_def Let_def split: list.splits if_splits prod.splits)

lemma dropWhile_shorter: "takeWhile P s \<noteq> [] \<Longrightarrow> length (dropWhile P s) < length s"
  using takeWhile_dropWhile_id [of P s] by (metis length_append length_greater_0_conv less_add_same_cancel2)

lemma parse_number_shorter:
  assumes "parse_number s = Some (v, t)"
  shows "length t < length s"
proof -
  obtain sg s1 where 1: "(case s of x # t \<Rightarrow> if x = CHR ''-'' then ([x], t) else ([], s) | [] \<Rightarrow> ([], [])) = (sg, s1)" by fastforce
  obtain ds s2 where 2: "(case s1 of x # t \<Rightarrow> if x = CHR ''0'' then ([x], t) else digits_of s1 | [] \<Rightarrow> ([], [])) = (ds, s2)" by fastforce
  from assms 1 2 have ne: "ds \<noteq> []" by (simp add: parse_number_def split: if_splits)
  have l1: "length s1 \<le> length s" using 1 by (auto split: list.splits if_splits)
  have l2: "length s2 < length s1" using 2 ne dropWhile_shorter [of is_digit s1]
    by (auto simp: digits_of_def split: list.splits if_splits)
  from assms 1 2 ne obtain f s3 where f: "parse_frac s2 = Some (f, s3)" "\<exists>e. parse_exp s3 = Some (e, t)"
    by (auto simp: parse_number_def split: option.splits)
  then show ?thesis using l1 l2 parse_frac_le parse_exp_le by (metis le_less_trans less_le_trans)
qed

lemma parse_shorter_all:
  "(\<forall>s v t. parse_value n s = Some (v, t) \<longrightarrow> length t < length s) \<and>
   (\<forall>s vs t. parse_elems n s = Some (vs, t) \<longrightarrow> length t < length s) \<and>
   (\<forall>s ms t. parse_members n s = Some (ms, t) \<longrightarrow> length t < length s)"
proof (induction n)
  case (Suc n)
  then have V: "\<And>s v t. parse_value n s = Some (v, t) \<Longrightarrow> length t < length s"
    and E: "\<And>s vs t. parse_elems n s = Some (vs, t) \<Longrightarrow> length t < length s"
    and M: "\<And>s ms t. parse_members n s = Some (ms, t) \<Longrightarrow> length t < length s" by blast+
  have "length t < length s" if "parse_value (Suc n) s = Some (v, t)" for s v t
    using that
    by (auto split: list.splits if_splits option.splits
        dest!: skip_ws_Cons parse_string_shorter parse_number_shorter E M)
  moreover have "length t < length s" if "parse_elems (Suc n) s = Some (vs, t)" for s vs t
    using that by (auto split: list.splits if_splits option.splits prod.splits dest!: skip_ws_Cons V E)
  moreover have "length t < length s" if "parse_members (Suc n) s = Some (ms, t)" for s ms t
    using that by (auto split: list.splits if_splits option.splits prod.splits
        dest!: skip_ws_Cons parse_string_shorter V M)
  ultimately show ?case by blast
qed simp

lemmas parse_shorter =
  conjunct1 [OF parse_shorter_all, rule_format]
  conjunct1 [OF conjunct2 [OF parse_shorter_all], rule_format]
  conjunct2 [OF conjunct2 [OF parse_shorter_all], rule_format]

text \<open>Two amounts of fuel that agree on the shorter texts agree on the lists in a text.\<close>

lemma parse_elems_cong:
  assumes v: "parse_value m s = parse_value n s" and e: "\<And>cs. length cs < length s \<Longrightarrow> parse_elems m cs = parse_elems n cs"
  shows "parse_elems (Suc m) s = parse_elems (Suc n) s"
proof (cases "parse_value n s")
  case (Some p)
  then obtain x s1 where p: "parse_value n s = Some (x, s1)" by (cases p) simp
  show ?thesis
  proof (cases "skip_ws s1")
    case (Cons c cs)
    then have "length cs < length s" using skip_ws_Cons [OF Cons] parse_shorter(1) [OF p] by simp
    with Cons p v e show ?thesis by simp
  qed (simp add: v p)
qed (simp add: v)

lemma parse_members_cong:
  assumes v: "\<And>u. length u < length s \<Longrightarrow> parse_value m u = parse_value n u"
    and e: "\<And>cs. length cs < length s \<Longrightarrow> parse_members m cs = parse_members n cs"
  shows "parse_members (Suc m) s = parse_members (Suc n) s"
proof (cases "skip_ws s")
  case s: (Cons q s1)
  show ?thesis
  proof (cases "q = dquote \<and> (\<exists>k s2 s3. parse_string s1 = Some (k, s2) \<and> skip_ws s2 = CHR '':'' # s3)")
    case True
    then obtain k s2 s3 where k: "q = dquote" "parse_string s1 = Some (k, s2)" "skip_ws s2 = CHR '':'' # s3" by blast
    have l: "length s3 < length s" using skip_ws_Cons [OF s] skip_ws_Cons [OF k(3)] parse_string_shorter [OF k(2)] by simp
    show ?thesis
    proof (cases "parse_value n s3")
      case (Some p)
      then obtain x s4 where p: "parse_value n s3 = Some (x, s4)" by (cases p) simp
      show ?thesis
      proof (cases "skip_ws s4")
        case (Cons d cs)
        then have "length cs < length s" using skip_ws_Cons [OF Cons] parse_shorter(1) [OF p] l by simp
        with Cons p e k v [OF l] s show ?thesis by simp
      qed (use p k v [OF l] s in simp)
    qed (use k v [OF l] s in simp)
  next
    case False
    then show ?thesis using s by (auto split: option.splits list.splits)
  qed
qed simp

text \<open>More fuel than twice the length of the text makes no difference.\<close>

lemma parse_fuel_all:
  "(\<forall>m n. 2 * length s < m \<longrightarrow> 2 * length s < n \<longrightarrow> parse_value m s = parse_value n s) \<and>
   (\<forall>m n. 2 * length s + 1 < m \<longrightarrow> 2 * length s + 1 < n \<longrightarrow>
      parse_elems m s = parse_elems n s \<and> parse_members m s = parse_members n s)"
proof (induction "length s" arbitrary: s rule: less_induct)
  case less
  have V: "parse_value m u = parse_value n u" if "length u < length s" "2 * length u < m" "2 * length u < n" for m n u
    using less.hyps [OF that(1)] that(2,3) by blast
  have L: "parse_elems m u = parse_elems n u" "parse_members m u = parse_members n u"
    if "length u < length s" "2 * length u + 1 < m" "2 * length u + 1 < n" for m n u
    using less.hyps [OF that(1)] that(2,3) by blast+
  have val: "parse_value (Suc m) s = parse_value (Suc n) s" if "2 * length s \<le> m" "2 * length s \<le> n" for m n
  proof (cases "skip_ws s")
    case (Cons c cs)
    then have "length cs < length s" by (rule skip_ws_Cons)
    with that L [of cs m n] Cons show ?thesis by (simp split: list.splits)
  qed simp
  have lists: "parse_elems (Suc m) s = parse_elems (Suc n) s" "parse_members (Suc m) s = parse_members (Suc n) s"
    if l: "2 * length s < m" "2 * length s < n" for m n
  proof -
    obtain m' n' where mn: "m = Suc m'" "n = Suc n'" using l by (cases m; cases n) simp_all
    have "parse_value m s = parse_value n s" unfolding mn by (rule val) (use l in \<open>simp_all add: mn\<close>)
    then show "parse_elems (Suc m) s = parse_elems (Suc n) s"
      by (rule parse_elems_cong) (use l L(1) in auto)
    show "parse_members (Suc m) s = parse_members (Suc n) s"
      by (rule parse_members_cong) (use l V L(2) in auto)
  qed
  have "parse_value m s = parse_value n s" if "2 * length s < m" "2 * length s < n" for m n
    using val [of "m - 1" "n - 1"] that by simp
  moreover have "parse_elems m s = parse_elems n s \<and> parse_members m s = parse_members n s"
    if "2 * length s + 1 < m" "2 * length s + 1 < n" for m n
    using lists [of "m - 1" "n - 1"] that by simp
  ultimately show ?case by blast
qed

lemma parse_json_fuel:
  assumes "2 * length s < n"
  shows "parse_json s = (case parse_value n s of Some (v, t) \<Rightarrow> if skip_ws t = [] then Some v else None | None \<Rightarrow> None)"
proof -
  have "parse_value (2 * length s + 1) s = parse_value n s"
    by (rule conjunct1 [OF parse_fuel_all, rule_format]) (use assms in simp_all)
  then show ?thesis unfolding parse_json_def by (simp only:)
qed

section \<open>Strings read back\<close>

text \<open>What a string becomes on its way through JSON: each invalid byte is replaced by U+FFFD.\<close>

function sanitize :: "string \<Rightarrow> string" where
  "sanitize s =
     (if s = [] then []
      else if rune_ok s then take (snd (DecodeRune s)) s @ sanitize (drop (max 1 (snd (DecodeRune s))) s)
      else EncodeRune RuneError @ sanitize (tl s))"
  by pat_completeness auto
termination
  by (relation "measure length") auto

declare sanitize.simps [simp del]

lemma sanitize_valid: "valid_utf8 s \<Longrightarrow> sanitize s = s"
proof (induction s rule: valid_utf8.induct)
  case (1 s)
  then show ?case
    using rune_size [of s] by (subst sanitize.simps) (auto simp: valid_utf8.simps [of s] max_def)
qed

lemma unhex_lowerhex: "n < 16 \<Longrightarrow> unhex (lowerhex n) = Some n"
  by (simp add: unhex_def lowerhex_def Let_def)

lemma hex_digits: "unhex CHR ''0'' = Some 0" "unhex CHR ''2'' = Some 2" "unhex CHR ''f'' = Some 15" "unhex CHR ''d'' = Some 13"
  by (simp_all add: unhex_def)

lemma parse_quote_end [simp]: "parse_string (dquote # rest) = Some ([], rest)"
  by (simp add: parse_string.simps)

lemma parse_plain:
  "32 \<le> (of_char c :: nat) \<Longrightarrow> of_char c < (128 :: nat) \<Longrightarrow> c \<noteq> dquote \<Longrightarrow> c \<noteq> backslash \<Longrightarrow>
     parse_string (c # s) = map_option (map_prod ((#) c) id) (parse_string s)"
  by (subst parse_string.simps) simp

lemma parse_u:
  "unescape_u s = Some (r, t) \<Longrightarrow>
     parse_string (backslash # CHR ''u'' # s) = map_option (map_prod ((@) (EncodeRune r)) id) (parse_string t)"
  by (subst parse_string.simps) simp

lemma parse_simple:
  "simple_escape e = Some x \<Longrightarrow> e \<noteq> CHR ''u'' \<Longrightarrow>
     parse_string (backslash # e # s) = map_option (map_prod ((#) x) id) (parse_string s)"
  by (subst parse_string.simps) simp

lemma append_single: "(@) [c] = (#) c"
  by (simp add: fun_eq_iff)

lemma special_codes:
  "of_char c = (34 :: nat) \<longleftrightarrow> c = dquote" "of_char c = (92 :: nat) \<longleftrightarrow> c = backslash"
  "of_char c = (8 :: nat) \<longleftrightarrow> c = CHR 0x08" "of_char c = (12 :: nat) \<longleftrightarrow> c = CHR 0x0C"
  "of_char c = (10 :: nat) \<longleftrightarrow> c = CHR 0x0A" "of_char c = (13 :: nat) \<longleftrightarrow> c = CHR 0x0D"
  "of_char c = (9 :: nat) \<longleftrightarrow> c = CHR 0x09"
  by (rule char_code, simp)+

lemma parse_escape:
  assumes "of_char c < (128 :: nat)"
  shows "parse_string (escape_char c @ s) = map_option (map_prod ((#) c) id) (parse_string s)"
proof -
  let ?n = "of_char c :: nat"
  have c: "char_of ?n = c" by (simp add: char_of_char)
  consider "c = dquote" | "c = backslash" | "c = CHR 0x08" | "c = CHR 0x0C" | "c = CHR 0x0A" | "c = CHR 0x0D" | "c = CHR 0x09"
    | (other) "c \<noteq> dquote" "c \<noteq> backslash" "c \<noteq> CHR 0x08" "c \<noteq> CHR 0x0C" "c \<noteq> CHR 0x0A" "c \<noteq> CHR 0x0D" "c \<noteq> CHR 0x09"
    by blast
  then show ?thesis
  proof cases
    case other
    then have hex: "?n \<noteq> 34" "?n \<noteq> 92" "?n \<noteq> 8" "?n \<noteq> 12" "?n \<noteq> 10" "?n \<noteq> 13" "?n \<noteq> 9"
      by (simp_all only: special_codes not_False_eq_True)
    have "?n div 16 < 16" "?n mod 16 < 16" using assms by auto
    then have "hex4 (''00'' @ [lowerhex (?n div 16), lowerhex (?n mod 16)] @ s) = Some (?n, s)"
      by (simp add: hex_digits unhex_lowerhex)
    then have "unescape_u (''00'' @ [lowerhex (?n div 16), lowerhex (?n mod 16)] @ s) = Some (?n, s)"
      using assms by (simp add: unescape_u_def is_surrogate_def del: hex4.simps)
    from parse_u [OF this] hex c show ?thesis
      using assms by (simp add: escape_char_def Let_def EncodeRune_def is_surrogate_def append_single)
  qed (simp_all add: escape_char_def Let_def parse_simple simple_escape_def)
qed

lemma parse_rune:
  assumes "rune_ok s" and "128 \<le> (of_char (hd s) :: nat)"
  shows "parse_string (take (snd (DecodeRune s)) s @ t) =
    map_option (map_prod ((@) (take (snd (DecodeRune s)) s)) id) (parse_string t)"
proof -
  let ?n = "snd (DecodeRune s)" and ?u = "take (snd (DecodeRune s)) s @ t"
  have n: "1 \<le> ?n" "?n \<le> length s" using rune_size [OF assms(1)] by auto
  then have hd: "?u \<noteq> []" "hd ?u = hd s" by (cases s; auto)+
  have d: "DecodeRune ?u = DecodeRune s" by (rule rune_prefix [OF assms(1)])
  obtain c cs where u: "?u = c # cs" "128 \<le> (of_char c :: nat)" using hd assms(2) by (cases ?u) auto
  then have "c \<noteq> dquote" "c \<noteq> backslash" by auto
  with u have "parse_string ?u = map_option (map_prod ((@) (EncodeRune (fst (DecodeRune ?u)))) id)
      (parse_string (drop (max 1 (snd (DecodeRune ?u))) ?u))"
    by (subst parse_string.simps) simp
  moreover have "drop (max 1 ?n) ?u = t" using n by (simp add: max_def)
  ultimately show ?thesis by (simp add: d rune_encode [OF assms(1)])
qed

text \<open>A quoted string is read back, up to invalid bytes, and the rest of the text is left.\<close>

lemma parse_quote: "parse_string (quote_body s @ dquote # rest) = Some (sanitize s, rest)"
proof (induction s rule: sanitize.induct)
  case (1 s)
  show ?case
  proof (cases s)
    case Nil
    then show ?thesis by (simp add: quote_body.simps sanitize.simps)
  next
    case (Cons c cs)
    show ?thesis
    proof (cases "of_char c < (128 :: nat)")
      case True
      then have d: "DecodeRune s = (of_char c, 1)" "rune_ok s"
        by (auto simp: Cons DecodeRune_def rune_len_def rune_ok_def RuneError_def)
      then have IH: "parse_string (quote_body cs @ dquote # rest) = Some (sanitize cs, rest)"
        using 1(1) Cons by simp
      have q: "quote_body s = (if htmlSafe c then [c] else escape_char c) @ quote_body cs"
        using True by (subst quote_body.simps) (simp add: Cons)
      have san: "sanitize s = c # sanitize cs" using d by (subst sanitize.simps) (simp add: Cons)
      show ?thesis
      proof (cases "htmlSafe c")
        case True
        then have "c \<noteq> dquote" "c \<noteq> backslash" by (auto simp: htmlSafe_def)
        with True IH show ?thesis by (simp add: q san parse_plain htmlSafe_def)
      next
        case False
        with IH show ?thesis by (simp add: q san parse_escape [OF True])
      qed
    next
      case high: False
      show ?thesis
      proof (cases "rune_ok s")
        case True
        let ?r = "fst (DecodeRune s)" and ?n = "snd (DecodeRune s)"
        have IH: "parse_string (quote_body (drop (max 1 ?n) s) @ dquote # rest) = Some (sanitize (drop (max 1 ?n) s), rest)"
          using 1(1) Cons True by simp
        have san: "sanitize s = take ?n s @ sanitize (drop (max 1 ?n) s)"
          using True by (subst sanitize.simps) (simp add: Cons)
        have bad: "\<not> (?r = RuneError \<and> ?n = 1)" using True by (auto simp: rune_ok_def prod_eq_iff)
        show ?thesis
        proof (cases "?r = 8232 \<or> ?r = 8233")
          case r: True
          then have q: "quote_body s = backslash # ''u202'' @ lowerhex (?r mod 16) # quote_body (drop (max 1 ?n) s)"
            using high bad by (subst quote_body.simps) (auto simp: Cons Let_def split: prod.splits)
          have "hex4 (''202'' @ lowerhex (?r mod 16) # t) = Some (?r, t)" for t
            using r by (auto simp: hex_digits unhex_lowerhex)
          then have "unescape_u (''202'' @ lowerhex (?r mod 16) # t) = Some (?r, t)" for t
            using r by (auto simp: unescape_u_def is_surrogate_def simp del: hex4.simps)
          from parse_u [OF this] IH show ?thesis by (simp add: q san rune_encode [OF True])
        next
          case False
          then have "quote_body s = take ?n s @ quote_body (drop (max 1 ?n) s)"
            using high bad by (subst quote_body.simps) (auto simp: Cons Let_def split: prod.splits)
          moreover have "128 \<le> (of_char (hd s) :: nat)" using high Cons by simp
          ultimately show ?thesis using parse_rune [OF True] IH san by simp
        qed
      next
        case False
        then have d: "DecodeRune s = (RuneError, 1)" by (simp add: rune_ok_def Cons)
        have q: "quote_body s = backslash # ''ufffd'' @ quote_body cs"
          using high d by (subst quote_body.simps) (simp add: Cons)
        have san: "sanitize s = EncodeRune RuneError @ sanitize cs" using False by (subst sanitize.simps) (simp add: Cons)
        have "unescape_u (''fffd'' @ t) = Some (RuneError, t)" for t
          by (simp add: unescape_u_def hex_digits is_surrogate_def RuneError_def)
        moreover have "parse_string (quote_body cs @ dquote # rest) = Some (sanitize cs, rest)"
          using 1(2) Cons False by simp
        ultimately show ?thesis using parse_u [of "''fffd'' @ _"] by (simp add: q san)
      qed
    qed
  qed
qed

lemma parse_json_string: "parse_string (quote_body s @ dquote # rest) = Some (s, rest)" if "valid_utf8 s"
  using parse_quote sanitize_valid [OF that] by simp

section \<open>Numbers read back\<close>

lemma decimal_first: "0 < n \<Longrightarrow> hd (decimal n) \<noteq> CHR ''0''"
proof (induction n rule: decimal.induct)
  case (1 n)
  have z: "CHR ''0'' = digit 0" using of_char_eq_iff [where ?'a = nat, of "CHR ''0''" "digit 0"] by (simp add: of_char_digit)
  show ?case
  proof (cases "n < 10")
    case True
    then show ?thesis using 1(2) digit_inj [of n 0] by (subst decimal.simps) (simp add: z)
  next
    case False
    then show ?thesis using 1(1) decimal_digits(2) [of "n div 10"] by (subst decimal.simps) simp
  qed
qed

text \<open>What may follow a number that ends there.\<close>

definition ends_number :: "string \<Rightarrow> bool" where
  "ends_number t \<longleftrightarrow> (case t of [] \<Rightarrow> True | c # _ \<Rightarrow> \<not> is_digit c \<and> c \<noteq> CHR ''.'' \<and> c \<noteq> CHR ''e'' \<and> c \<noteq> CHR ''E'')"

lemma digits_of_append:
  "\<forall>c \<in> set ds. is_digit c \<Longrightarrow> ends_number t \<Longrightarrow> digits_of (ds @ t) = (ds, t)"
  by (induction ds) (auto simp: digits_of_def ends_number_def split: list.splits)

lemma no_frac_exp: "ends_number t \<Longrightarrow> parse_frac t = Some ([], t) \<and> parse_exp t = Some ([], t)"
  by (auto simp: parse_frac_def parse_exp_def ends_number_def split: list.splits)

lemma parse_number_decimal:
  assumes "ends_number t"
  shows "parse_number (decimal n @ t) = Some (decimal n, t)"
proof -
  obtain d ds where d: "decimal n = d # ds" using decimal_digits(2) by (cases "decimal n") auto
  then have dig: "is_digit d" using decimal_digits(1) [of n] by simp
  then have "d \<noteq> CHR ''-''" using not_digit(3) by auto
  moreover have "digits_of (d # ds @ t) = (d # ds, t)"
    using digits_of_append [OF decimal_digits(1) assms, of n] by (simp add: d)
  moreover have "ds = []" if "d = CHR ''0''"
  proof -
    have "n = 0" using decimal_first [of n] that by (cases "n = 0") (simp_all add: d)
    then show ?thesis using d by (simp add: decimal.simps)
  qed
  ultimately show ?thesis using no_frac_exp [OF assms] by (auto simp: parse_number_def d Let_def)
qed

definition json_int :: "int \<Rightarrow> string" where
  "json_int i = show_int i"

lemma parse_number_int:
  assumes "ends_number t"
  shows "parse_number (json_int i @ t) = Some (json_int i, t)"
proof (cases "i < 0")
  case True
  let ?n = "nat (- i)"
  obtain d ds where d: "decimal ?n = d # ds" using decimal_digits(2) [of ?n] by (cases "decimal ?n") auto
  have "hd (decimal ?n) \<noteq> CHR ''0''" using True by (intro decimal_first) simp
  moreover have "digits_of (d # ds @ t) = (d # ds, t)"
    using digits_of_append [OF decimal_digits(1) assms, of ?n] by (simp add: d)
  ultimately show ?thesis using True no_frac_exp [OF assms] by (simp add: parse_number_def json_int_def show_int_def d Let_def)
qed (simp add: json_int_def show_int_def parse_number_decimal [OF assms])

lemma int_literal_json: "int_literal (json_int i) = Some i"
proof (cases "i < 0")
  case True
  then show ?thesis using decimal_digits [of "nat (- i)"] by (simp add: json_int_def show_int_def int_literal_def)
next
  case False
  obtain d ds where d: "decimal (nat i) = d # ds" using decimal_digits(2) by (cases "decimal (nat i)") auto
  then have "d \<noteq> CHR ''-''" using decimal_digits(1) [of "nat i"] not_digit(3) by auto
  with False d show ?thesis
    using decimal_digits(1) [of "nat i"] nat_of_digits_decimal [of "nat i"] by (simp add: json_int_def show_int_def int_literal_def)
qed

section \<open>Objects read back\<close>

definition is_ws :: "string \<Rightarrow> bool" where
  "is_ws w \<longleftrightarrow> (\<forall>c \<in> set w. of_char c \<in> {9, 10, 13, 32 :: nat})"

lemma skip_ws_append: "is_ws w \<Longrightarrow> skip_ws (w @ s) = skip_ws s"
  by (induction w) (auto simp: is_ws_def skip_ws_def)

lemma skip_ws_char [simp]: "of_char c \<notin> {9, 10, 13, 32 :: nat} \<Longrightarrow> skip_ws (c # s) = c # s"
  by (simp add: skip_ws_def)

lemma parse_value_string:
  "is_ws w \<Longrightarrow> parse_value (Suc n) (w @ json_string s @ rest) = Some (JStr (sanitize s), rest)"
  by (simp add: skip_ws_append json_string_def parse_quote)

lemma parse_value_int:
  assumes "is_ws w" and "ends_number rest"
  shows "parse_value (Suc n) (w @ json_int i @ rest) = Some (JNum (json_int i), rest)"
proof -
  obtain c cs where c: "json_int i = c # cs" "is_digit c \<or> c = CHR ''-''"
  proof (cases "i < 0")
    case True
    then show thesis by (intro that [of "CHR ''-''" "decimal (nat (- i))"]) (simp_all add: json_int_def show_int_def)
  next
    case False
    then show thesis using decimal_digits [of "nat i"] that by (cases "decimal (nat i)") (auto simp: json_int_def show_int_def)
  qed
  then have "48 \<le> (of_char c :: nat) \<and> of_char c \<le> (57 :: nat) \<or> of_char c = (45 :: nat)" by (auto simp: is_digit_def)
  then have "of_char c \<notin> {9, 10, 13, 32 :: nat}" "c \<noteq> dquote" "c \<noteq> CHR ''{''" "c \<noteq> CHR ''[''"
    "c \<noteq> CHR ''n''" "c \<noteq> CHR ''t''" "c \<noteq> CHR ''f''" by auto
  then show ?thesis
    using parse_number_int [OF assms(2), of i] by (simp add: skip_ws_append [OF assms(1)] c(1) HasPrefix_def)
qed

lemma parse_member:
  assumes "is_ws w" and "is_ws w'" and "parse_value n (t @ w' @ c # rest) = Some (v, w' @ c # rest)"
  shows "c = CHR '','' \<Longrightarrow> parse_members (Suc n) (w @ json_string k @ CHR '':'' # t @ w' @ c # rest) =
      map_option (map_prod ((#) (sanitize k, v)) id) (parse_members n rest)"
    and "c = CHR ''}'' \<Longrightarrow> parse_members (Suc n) (w @ json_string k @ CHR '':'' # t @ w' @ c # rest) =
      Some ([(sanitize k, v)], rest)"
  using assms(3) by (simp_all add: skip_ws_append [OF assms(1)] skip_ws_append [OF assms(2)] json_string_def parse_quote)

lemma sanitize_ascii: "\<forall>c \<in> set s. of_char c < (128 :: nat) \<Longrightarrow> sanitize s = s"
proof (induction s)
  case (Cons c s)
  then have "DecodeRune (c # s) = (of_char c, 1)" "rune_ok (c # s)"
    by (auto simp: DecodeRune_def rune_len_def rune_ok_def RuneError_def)
  with Cons show ?case by (subst sanitize.simps) simp
qed (simp add: sanitize.simps)

end
