(* ===== verification/Store_Client.thy ===== *)
theory Store_Client
  imports Store_Flush
begin

text \<open>
  A client write from its registration to its answer: \<open>Put\<close> waits on a channel that is registered
  under the log index, \<open>readAppliedLogs\<close> applies the entry and sends the outcome to the
  channel. The channels have capacity 1 and come from a pool; a channel in use is registered under
  one index only.
\<close>

text \<open>Applying the entries of the log, in order.\<close>

fun apply_log :: "store \<Rightarrow> (int \<times> raftCmd) list \<Rightarrow> store result" where
  "apply_log s [] = Inr s"
| "apply_log s ((index, cmd) # es) = bindE (apply_log_entry True s index cmd) (\<lambda>s. apply_log s es)"

lemma applyInternal_chans:
  assumes "applyInternal open_ok s k v d = Inr (err, s')"
  shows "st_notifyChans s' = st_notifyChans s" and "st_chans s' = st_chans s"
  using assms
  by (auto simp: applyInternal_def rotate_now_def Let_def bindE_Inr_iff split: if_splits prod.splits option.splits)

lemma apply_log_entry_chans:
  assumes "apply_log_entry open_ok s index cmd = Inr s'"
  shows "st_notifyChans s' = (st_notifyChans s)(index := None)"
    and "\<forall>ch. st_notifyChans s index \<noteq> Some ch \<longrightarrow> st_chans s' ch = st_chans s ch"
proof -
  obtain err s1 where s1: "st_notifyChans s1 = st_notifyChans s" "st_chans s1 = st_chans s"
    and s': "s' = (case st_notifyChans s1 index of None \<Rightarrow> s1
      | Some ch \<Rightarrow> s1\<lparr>st_chans := (st_chans s1)(ch \<mapsto> \<lparr>or_Value = rc_Value cmd, or_Err = err\<rparr>),
          st_notifyChans := (st_notifyChans s1)(index := None)\<rparr>)"
  proof -
    from assms obtain err s1 where r: "(if rc_Op cmd = kv_CmdPut then applyInternal open_ok s (rc_Key cmd) (rc_Value cmd) False
        else if rc_Op cmd = kv_CmdDelete then applyInternal open_ok s (rc_Key cmd) [] True else Inr (None, s)) = Inr (err, s1)"
      "(case st_notifyChans s1 index of None \<Rightarrow> Inr s1
      | Some ch \<Rightarrow> Inr (s1\<lparr>st_chans := (st_chans s1)(ch \<mapsto> \<lparr>or_Value = rc_Value cmd, or_Err = err\<rparr>),
          st_notifyChans := (st_notifyChans s1)(index := None)\<rparr>)) = (Inr s' :: store result)"
      by (auto simp: apply_log_entry_def bindE_Inr_iff)
    from r(1) have "st_notifyChans s1 = st_notifyChans s" "st_chans s1 = st_chans s"
      using applyInternal_chans by (auto split: if_splits)
    with r(2) show thesis by (intro that [of s1 err]) (auto split: option.splits)
  qed
  then show "st_notifyChans s' = (st_notifyChans s)(index := None)"
    and "\<forall>ch. st_notifyChans s index \<noteq> Some ch \<longrightarrow> st_chans s' ch = st_chans s ch"
    by (auto simp: fun_eq_iff split: option.splits)
qed

text \<open>
  What applying entries to a well-formed store does: it never panics, keeps what other keys have in memory, clears the
  registrations of the indices, and sends nothing to a channel that is registered for none of them.
\<close>

lemma apply_log_entry_ok:
  assumes "store_wf s" and "length (rc_Key cmd) < 2 ^ 16"
  shows "\<exists>s'. apply_log_entry True s index cmd = Inr s' \<and> store_wf s' \<and> (\<forall>k. k \<noteq> rc_Key cmd \<longrightarrow> mem_lookup s' k = mem_lookup s k)"
proof -
  let ?r = "if rc_Op cmd = kv_CmdPut then applyInternal True s (rc_Key cmd) (rc_Value cmd) False
      else if rc_Op cmd = kv_CmdDelete then applyInternal True s (rc_Key cmd) [] True else Inr (None, s)"
  have app: "\<exists>err s1. applyInternal True s (rc_Key cmd) v d = Inr (err, s1) \<and> store_wf s1 \<and>
      (\<forall>k. k \<noteq> rc_Key cmd \<longrightarrow> mem_lookup s1 k = mem_lookup s k)" if "d \<Longrightarrow> v = []" for v d
    by (rule applyInternal_outcome [OF assms that]) auto
  have "\<exists>err s1. ?r = Inr (err, s1) \<and> store_wf s1 \<and> (\<forall>k. k \<noteq> rc_Key cmd \<longrightarrow> mem_lookup s1 k = mem_lookup s k)"
    using app [of False "rc_Value cmd"] app [of True "[]"] assms(1) by auto
  then obtain err s1 where s1: "?r = Inr (err, s1)" "store_wf s1" "\<forall>k. k \<noteq> rc_Key cmd \<longrightarrow> mem_lookup s1 k = mem_lookup s k" by blast
  have "mem_lookup (s1\<lparr>st_chans := c, st_notifyChans := n\<rparr>) = mem_lookup s1" for c n
    by (simp add: mem_lookup_def fun_eq_iff cong: option.case_cong)
  with s1 show ?thesis
    unfolding apply_log_entry_def s1(1) by (auto simp: store_wf_def split: option.split)
qed

lemma apply_log_ok:
  assumes "store_wf s" and "\<forall>(i, cmd) \<in> set es. length (rc_Key cmd) < 2 ^ 16"
  shows "\<exists>s'. apply_log s es = Inr s' \<and> store_wf s' \<and>
    (\<forall>k. (\<forall>(i, cmd) \<in> set es. rc_Key cmd \<noteq> k) \<longrightarrow> mem_lookup s' k = mem_lookup s k)"
  using assms
proof (induction es arbitrary: s)
  case (Cons e es)
  obtain i cmd where e: "e = (i, cmd)" by force
  from Cons.prems e obtain s1 where s1: "apply_log_entry True s i cmd = Inr s1" "store_wf s1"
    "\<forall>k. k \<noteq> rc_Key cmd \<longrightarrow> mem_lookup s1 k = mem_lookup s k"
    using apply_log_entry_ok [of s cmd i] by auto
  from Cons.IH [OF s1(2)] Cons.prems(2) obtain s' where "apply_log s1 es = Inr s'" "store_wf s'"
    "\<forall>k. (\<forall>(i, cmd) \<in> set es. rc_Key cmd \<noteq> k) \<longrightarrow> mem_lookup s' k = mem_lookup s1 k" by auto
  with s1 e show ?case by auto
qed simp

lemma apply_log_notify:
  assumes "apply_log s es = Inr s'"
  shows "st_notifyChans s' i = (if i \<in> fst ` set es then None else st_notifyChans s i)"
    and "\<forall>i \<in> fst ` set es. st_notifyChans s i \<noteq> Some ch \<Longrightarrow> st_chans s' ch = st_chans s ch"
proof -
  show "st_notifyChans s' i = (if i \<in> fst ` set es then None else st_notifyChans s i)"
    using assms by (induction s es rule: apply_log.induct) (fastforce simp: bindE_Inr_iff apply_log_entry_chans(1) image_iff)+
  show "st_chans s' ch = st_chans s ch" if "\<forall>i \<in> fst ` set es. st_notifyChans s i \<noteq> Some ch"
    using assms that
  proof (induction s es rule: apply_log.induct)
    case (2 s index cmd es)
    then obtain s1 where s1: "apply_log_entry True s index cmd = Inr s1" "apply_log s1 es = Inr s'" by (auto simp: bindE_Inr_iff)
    note c = apply_log_entry_chans [OF s1(1)]
    have "st_chans s' ch = st_chans s1 ch" by (rule "2.IH" [OF s1(2)]) (use 2(3) c(1) in auto)
    with c(2) 2(3) show ?case by simp
  qed simp
qed

lemma apply_log_append: "apply_log s (es @ es') = bindE (apply_log s es) (\<lambda>s. apply_log s es')"
  by (induction s es rule: apply_log.induct) (auto simp: bindE_def split: sum.splits)

section \<open>Properties\<close>

text \<open>
  C20: A client gets the outcome of its own write, and an acknowledged write can be read. Let the channel \<open>ch\<close> be registered
  under the index of a put command, and under no other, and let \<open>es\<close> and \<open>es'\<close> be applied before and after the command, all with keys
  shorter than 64 KiB, the entries before it under other indices, those after it to other keys. Then all are applied without a panic, the channel has a result,
  which clears the registration, and if the result is no error then the key reads as the value.
\<close>

theorem acknowledged_put_readable:
  assumes "store_wf s" and "\<forall>i. st_notifyChans s i = Some ch \<longleftrightarrow> i = index"
    and "rc_Op cmd = kv_CmdPut" and "\<forall>(i, c) \<in> set (es @ (index, cmd) # es'). length (rc_Key c) < 2 ^ 16"
    and "\<forall>(i, c) \<in> set es. i \<noteq> index" and "\<forall>(i, c) \<in> set es'. rc_Key c \<noteq> rc_Key cmd"
  shows "\<exists>s1 err s2. apply_log s (es @ (index, cmd) # es') = Inr s1 \<and> Put_result s1 ch = Some (err, s2) \<and> store_wf s2 \<and>
    st_notifyChans s2 index = None \<and>
    (err = None \<longrightarrow> store_Get sum64 s2 (rc_Key cmd) = Inr (rc_Value cmd, True))"
proof -
  obtain s0 where s0: "apply_log s es = Inr s0" "store_wf s0" using apply_log_ok [OF assms(1), of es] assms(4) by auto
  have n0: "st_notifyChans s0 i = Some ch \<longleftrightarrow> i = index" for i
    using apply_log_notify(1) [OF s0(1), of i] assms(2,5) by auto
  have k: "length (rc_Key cmd) < 2 ^ 16" using assms(4) by simp
  have "\<exists>err a. applyInternal True s0 (rc_Key cmd) (rc_Value cmd) False = Inr (err, a) \<and> store_wf a \<and>
      (err = None \<longrightarrow> mem_lookup a (rc_Key cmd) = Some (rc_Value cmd, False))"
    by (rule applyInternal_outcome [OF s0(2) k, of False "rc_Value cmd"]) auto
  then obtain err a where a: "applyInternal True s0 (rc_Key cmd) (rc_Value cmd) False = Inr (err, a)" "store_wf a"
    "err = None \<Longrightarrow> mem_lookup a (rc_Key cmd) = Some (rc_Value cmd, False)" by blast
  define a' where "a' = a\<lparr>st_chans := (st_chans a)(ch \<mapsto> \<lparr>or_Value = rc_Value cmd, or_Err = err\<rparr>),
      st_notifyChans := (st_notifyChans a)(index := None)\<rparr>"
  have e: "apply_log_entry True s0 index cmd = Inr a'"
    using applyInternal_chans [OF a(1)] n0 [of index] assms(3) a(1) by (simp add: apply_log_entry_def a'_def)
  have mem: "mem_lookup (x\<lparr>st_chans := c, st_notifyChans := n\<rparr>) = mem_lookup x" "mem_lookup (x\<lparr>st_chans := c\<rparr>) = mem_lookup x"
    for x :: store and c n by (simp_all add: mem_lookup_def fun_eq_iff cong: option.case_cong)
  have wf': "store_wf a'" using a(2) by (simp add: store_wf_def a'_def)
  from apply_log_ok [OF this, of es'] assms(4) obtain s1 where s1: "apply_log a' es' = Inr s1" "store_wf s1"
    "\<forall>k. (\<forall>(i, c) \<in> set es'. rc_Key c \<noteq> k) \<longrightarrow> mem_lookup s1 k = mem_lookup a' k" by auto
  have run: "apply_log s (es @ (index, cmd) # es') = Inr s1" by (simp add: apply_log_append s0(1) e s1(1))
  have n': "st_notifyChans a' i \<noteq> Some ch" for i
    using apply_log_entry_chans(1) [OF e] n0 [of i] by simp
  have "st_chans s1 ch = st_chans a' ch" by (rule apply_log_notify(2) [OF s1(1)]) (simp add: n')
  then have c: "st_chans s1 ch = Some \<lparr>or_Value = rc_Value cmd, or_Err = err\<rparr>" by (simp add: a'_def)
  define s2 where "s2 = s1\<lparr>st_chans := (st_chans s1)(ch := None)\<rparr>"
  have wf2: "store_wf s2" using s1(2) by (simp add: store_wf_def s2_def)
  have "Put_result s1 ch = Some (err, s2)" by (simp add: Put_result_def c s2_def)
  moreover have "mem_lookup s2 (rc_Key cmd) = mem_lookup a (rc_Key cmd)" using s1(3) assms(6) by (simp add: s2_def a'_def mem)
  then have "err = None \<longrightarrow> store_Get sum64 s2 (rc_Key cmd) = Inr (rc_Value cmd, True)"
    using a(3) by (auto simp: store_Get_wf [OF wf2] answer_def)
  moreover have "st_notifyChans s2 index = None"
    using apply_log_notify(1) [OF s1(1), of index] by (simp add: s2_def a'_def)
  ultimately show ?thesis using run wf2 by blast
qed

theorem acknowledged_put_readable_witness:
  "\<exists>s1 s2 err. apply_log (Put_register empty_store 2 5)
       ([(1, \<lparr>rc_Op = 1, rc_Key = [97], rc_Value = [6]\<rparr>)] @ (2, \<lparr>rc_Op = 1, rc_Key = [97], rc_Value = [7]\<rparr>) #
        [(3, \<lparr>rc_Op = 2, rc_Key = [98], rc_Value = []\<rparr>)]) = Inr s1 \<and>
     Put_result s1 5 = Some (err, s2) \<and> (err = None \<longrightarrow> store_Get (\<lambda>k. 0) s2 [97] = Inr ([7], True))"
proof -
  have "store_wf (Put_register empty_store 2 5)" using empty_store_wf by (simp add: store_wf_def Put_register_def)
  moreover have "\<forall>i. st_notifyChans (Put_register empty_store 2 5) i = Some 5 \<longleftrightarrow> i = 2" by (simp add: Put_register_def empty_store_def)
  ultimately show ?thesis
    using acknowledged_put_readable [of "Put_register empty_store 2 5" 5 2 "\<lparr>rc_Op = 1, rc_Key = [97], rc_Value = [7]\<rparr>"
      "[(1, \<lparr>rc_Op = 1, rc_Key = [97], rc_Value = [6]\<rparr>)]" "[(3, \<lparr>rc_Op = 2, rc_Key = [98], rc_Value = []\<rparr>)]" "\<lambda>k. 0"]
    by (auto simp: kv_CmdPut_def simp del: apply_log.simps)
qed

text \<open>
  A client that registers too late waits in vain: \<open>Put\<close> registers its channel after \<open>Start\<close> has
  released the lock; if the entry is applied in between, then no later entry (log indices
  grow) sends anything to the channel, and the client can only run into the timeout.
\<close>

lemma late_registration_times_out:
  assumes "apply_log_entry True s index cmd = Inr s1"
    and "\<forall>i. st_notifyChans s i \<noteq> Some ch" and "st_chans s ch = None"
    and "\<forall>(i, c) \<in> set es. index < i" and "apply_log (Put_register s1 index ch) es = Inr s'"
  shows "Put_result s' ch = None \<and> fst (Put_timeout s' index ch) \<noteq> None"
proof -
  note c = apply_log_entry_chans [OF assms(1)]
  have "st_chans s' ch = None"
  proof -
    have "st_chans s' ch = st_chans (Put_register s1 index ch) ch"
      by (rule apply_log_notify(2) [OF assms(5)]) (use assms(2,4) in \<open>auto simp: Put_register_def c(1)\<close>)
    then show ?thesis using assms(2,3) c(2) by (simp add: Put_register_def)
  qed
  then show ?thesis by (simp add: Put_result_def Put_timeout_def)
qed

lemma late_registration_times_out_witness:
  "\<exists>s1 s'. apply_log_entry True empty_store 1 \<lparr>rc_Op = 1, rc_Key = [97], rc_Value = [7]\<rparr> = Inr s1 \<and>
     apply_log (Put_register s1 1 5) [(2, \<lparr>rc_Op = 3, rc_Key = [97], rc_Value = [8]\<rparr>)] = Inr s' \<and> Put_result s' 5 = None"
proof -
  have "\<exists>err s0. applyInternal True empty_store [97] [7] False = Inr (err, s0)"
    by (rule applyInternal_outcome [OF empty_store_wf, of "[97]" False "[7]"]) auto
  then obtain err s0 where a: "applyInternal True empty_store [97] [7] False = Inr (err, s0)" by blast
  have e: "st_notifyChans empty_store = Map.empty" "st_chans empty_store = Map.empty" by (simp_all add: empty_store_def)
  have s1: "apply_log_entry True empty_store 1 \<lparr>rc_Op = 1, rc_Key = [97], rc_Value = [7]\<rparr> = Inr s0"
    using applyInternal_chans [OF a] a e by (simp add: apply_log_entry_def kv_CmdPut_def)
  obtain s' where s': "apply_log (Put_register s0 1 5) [(2, \<lparr>rc_Op = 3, rc_Key = [97], rc_Value = [8]\<rparr>)] = Inr s'"
    using applyInternal_chans [OF a] e by (simp add: apply_log_entry_def kv_CmdPut_def kv_CmdDelete_def Put_register_def)
  from late_registration_times_out [OF s1 _ _ _ s'] s1 s' e show ?thesis by auto
qed

end
