(* ===== verification/Store_Json.thy ===== *)
theory Store_Json
  imports Go_Json Store_Client
begin

text \<open>
  The commands in the Raft log (\<^verbatim>\<open>kv/store.go\<close>): \<open>Put\<close> proposes the JSON text of a \<open>raftCmd\<close>,
  \<open>readAppliedLogs\<close> decodes it. A command that does not decode is skipped. The lemmas show that
  commands with valid UTF-8 strings are decoded as they were, and what happens to others.
\<close>

definition marshal_cmd :: "raftCmd \<Rightarrow> bytes" where
  "marshal_cmd cmd = go_bytes (''{'' @ json_string ''Op'' @ '':'' @ json_int (int (unat (rc_Op cmd))) @ '','' @
     json_string ''Key'' @ '':'' @ json_string (go_string (rc_Key cmd)) @ '','' @
     json_string ''Value'' @ '':'' @ json_string (go_string (rc_Value cmd)) @ ''}'')"

definition set_cmd_field :: "string \<Rightarrow> json \<Rightarrow> raftCmd \<Rightarrow> raftCmd option" where
  "set_cmd_field f v cmd =
     (if f = ''Op''
      then (case v of
              JNum l \<Rightarrow> (case int_literal l of
                           Some i \<Rightarrow> if 0 \<le> i \<and> i < 256 \<and> l \<noteq> [] \<and> hd l \<noteq> CHR ''-'' then Some (cmd\<lparr>rc_Op := word_of_int i\<rparr>) else None
                         | None \<Rightarrow> None)
            | _ \<Rightarrow> None)
      else (case v of
              JStr s \<Rightarrow> Some (if f = ''Key'' then cmd\<lparr>rc_Key := go_bytes s\<rparr> else cmd\<lparr>rc_Value := go_bytes s\<rparr>)
            | _ \<Rightarrow> None))"

definition unmarshal_cmd :: "bytes \<Rightarrow> raftCmd option" where
  "unmarshal_cmd bs = unmarshal_struct [''Op'', ''Key'', ''Value''] set_cmd_field
     \<lparr>rc_Op = 0, rc_Key = [], rc_Value = []\<rparr> (go_string bs)"

text \<open>\<open>Put\<close> up to the proposal.\<close>

definition Put_command :: "bytes \<Rightarrow> bytes \<Rightarrow> bool \<Rightarrow> raftCmd" where
  "Put_command key val isDelete = \<lparr>rc_Op = (if isDelete then kv_CmdDelete else kv_CmdPut), rc_Key = key, rc_Value = val\<rparr>"

definition Put_start :: "store \<Rightarrow> bytes \<Rightarrow> bytes \<Rightarrow> bool \<Rightarrow> (go_error + int) \<times> store" where
  "Put_start s key val isDelete = Put_propose s (marshal_cmd (Put_command key val isDelete))"

text \<open>One round of \<open>readAppliedLogs\<close>.\<close>

definition readAppliedLogs_step :: "bool \<Rightarrow> store \<Rightarrow> log_entry \<Rightarrow> store result" where
  "readAppliedLogs_step open_ok s msg =
     (case unmarshal_cmd (le_Command msg) of
        None \<Rightarrow> Inr s
      | Some cmd \<Rightarrow> apply_log_entry open_ok s (le_Index msg) cmd)"

section \<open>Decoding what was encoded\<close>

definition cmd_sanitize :: "bytes \<Rightarrow> bytes" where
  "cmd_sanitize bs = go_bytes (sanitize (go_string bs))"

lemma fields_ascii: "sanitize ''Op'' = ''Op''" "sanitize ''Key'' = ''Key''" "sanitize ''Value'' = ''Value''"
  by (simp_all add: sanitize_ascii)

lemma is_ws_Nil: "is_ws []"
  by (simp add: is_ws_def)

lemma parse_cmd:
  "parse_json (go_string (marshal_cmd cmd)) = Some (JObj [(''Op'', JNum (json_int (int (unat (rc_Op cmd))))),
     (''Key'', JStr (sanitize (go_string (rc_Key cmd)))), (''Value'', JStr (sanitize (go_string (rc_Value cmd))))])"
proof -
  let ?op = "json_int (int (unat (rc_Op cmd)))"
  let ?k = "json_string (go_string (rc_Key cmd))" and ?v = "json_string (go_string (rc_Value cmd))"
  let ?t3 = "json_string ''Value'' @ CHR '':'' # ?v @ ''}''"
  let ?t2 = "json_string ''Key'' @ CHR '':'' # ?k @ CHR '','' # ?t3"
  let ?t1 = "json_string ''Op'' @ CHR '':'' # ?op @ CHR '','' # ?t2"
  have tx: "go_string (marshal_cmd cmd) = CHR ''{'' # ?t1" by (simp add: marshal_cmd_def)
  have "5 \<le> 2 * length (CHR ''{'' # ?t1) + 1" by (simp add: json_string_def)
  then obtain n where n: "2 * length (CHR ''{'' # ?t1) + 1 = 5 + n" using le_Suc_ex by blast
  have ends: "ends_number (CHR '','' # t)" for t by (simp add: ends_number_def is_digit_def)
  have "parse_value (Suc n) (?v @ [] @ CHR ''}'' # []) = Some (JStr (sanitize (go_string (rc_Value cmd))), [] @ CHR ''}'' # [])"
    using parse_value_string [OF is_ws_Nil] by simp
  note m3 = parse_member(2) [OF is_ws_Nil is_ws_Nil this refl, of "''Value''"]
  have "parse_value (Suc (Suc n)) (?k @ [] @ CHR '','' # ?t3) = Some (JStr (sanitize (go_string (rc_Key cmd))), [] @ CHR '','' # ?t3)"
    using parse_value_string [OF is_ws_Nil] by simp
  note m2 = parse_member(1) [OF is_ws_Nil is_ws_Nil this refl, of "''Key''"]
  have "parse_value (Suc (Suc (Suc n))) (?op @ [] @ CHR '','' # ?t2) = Some (JNum ?op, [] @ CHR '','' # ?t2)"
    using parse_value_int [OF is_ws_Nil ends] by simp
  note m1 = parse_member(1) [OF is_ws_Nil is_ws_Nil this refl, of "''Op''"]
  have "parse_members (Suc (Suc (Suc (Suc n)))) ?t1 = Some ([(''Op'', JNum ?op), (''Key'', JStr (sanitize (go_string (rc_Key cmd)))),
      (''Value'', JStr (sanitize (go_string (rc_Value cmd))))], [])"
    using m1 m2 m3 by (simp add: fields_ascii del: parse_members.simps)
  moreover have "skip_ws ?t1 = ?t1" by (simp add: json_string_def)
  moreover have "?t1 = dquote # quote_body ''Op'' @ dquote # CHR '':'' # ?op @ CHR '','' # ?t2" by (simp add: json_string_def)
  ultimately have "parse_value (5 + n) (CHR ''{'' # ?t1) = Some (JObj [(''Op'', JNum ?op), (''Key'', JStr (sanitize (go_string (rc_Key cmd)))),
      (''Value'', JStr (sanitize (go_string (rc_Value cmd))))], [])"
    by (simp add: numeral_eq_Suc del: parse_members.simps)
  then show ?thesis unfolding parse_json_def tx n by (simp add: skip_ws_def)
qed

lemma unmarshal_marshal:
  "unmarshal_cmd (marshal_cmd cmd) = Some (cmd\<lparr>rc_Key := cmd_sanitize (rc_Key cmd), rc_Value := cmd_sanitize (rc_Value cmd)\<rparr>)"
proof -
  let ?i = "int (unat (rc_Op cmd))"
  have op: "int_literal (json_int ?i) = Some ?i" "0 \<le> ?i" "?i < 256"
    using int_literal_json [of ?i] unsigned_less [of "rc_Op cmd", where ?'a = int] by simp_all
  have j: "json_int ?i = decimal (unat (rc_Op cmd))" by (simp add: json_int_def show_int_def)
  have "is_digit (hd (decimal (unat (rc_Op cmd))))"
    using decimal_digits [of "unat (rc_Op cmd)"] hd_in_set by blast
  then have "json_int ?i \<noteq> []" "hd (json_int ?i) \<noteq> CHR ''-''"
    using decimal_digits(2) not_digit(3) unfolding j by fastforce+
  with op show ?thesis
    unfolding unmarshal_cmd_def unmarshal_struct_def parse_cmd
    by (simp add: struct_field_def set_cmd_field_def cmd_sanitize_def)
qed

lemma command_roundtrip:
  "valid_utf8 (go_string (rc_Key cmd)) \<Longrightarrow> valid_utf8 (go_string (rc_Value cmd)) \<Longrightarrow>
     unmarshal_cmd (marshal_cmd cmd) = Some cmd"
  by (simp add: unmarshal_marshal cmd_sanitize_def sanitize_valid)

section \<open>Properties\<close>

text \<open>
  C18: A proposed write is the write that is applied: if \<open>Put\<close> of a key and a value in valid UTF-8 is
  accepted by the leader under an index, then the log of the leader holds an entry with this index,
  and any store that takes this entry from its log applies exactly the command of \<open>Put\<close>.
\<close>

theorem proposed_command_applied:
  assumes "valid_utf8 (go_string key)" and "valid_utf8 (go_string val)"
    and "Put_start s key val isDelete = (Inr index, s')"
  shows "\<exists>e. rf_log (st_Raft s') = rf_log (st_Raft s) @ [e] \<and> le_Index e = index \<and> index = int (length (rf_log (st_Raft s))) \<and>
    readAppliedLogs_step open_ok t e = apply_log_entry open_ok t index (Put_command key val isDelete)"
proof -
  have "unmarshal_cmd (marshal_cmd (Put_command key val isDelete)) = Some (Put_command key val isDelete)"
    by (rule command_roundtrip) (use assms(1,2) in \<open>simp_all add: Put_command_def\<close>)
  with assms(3) show ?thesis
    by (auto simp: Put_start_def Put_propose_def raft_Start_def Let_def readAppliedLogs_step_def split: if_splits)
qed

definition demo_leader :: store where
  "demo_leader = empty_store\<lparr>st_Raft := (st_Raft empty_store)\<lparr>rf_state := Leader\<rparr>\<rparr>"

theorem proposed_command_applied_witness:
  "\<exists>index s' e. Put_start demo_leader [107] [118, 34] False = (Inr index, s') \<and>
     rf_log (st_Raft s') = rf_log (st_Raft demo_leader) @ [e] \<and>
     readAppliedLogs_step True empty_store e = apply_log_entry True empty_store index (Put_command [107] [118, 34] False)"
proof -
  obtain index s' where p: "Put_start demo_leader [107] [118, 34] False = (Inr index, s')"
    by (simp add: Put_start_def Put_propose_def raft_Start_def demo_leader_def Let_def)
  have "valid_utf8 (go_string [107])" "valid_utf8 (go_string [118, 34])"
    by (simp_all add: go_string_def valid_utf8.simps rune_ok_def DecodeRune_def rune_len_def RuneError_def)
  from proposed_command_applied [OF this p, of True empty_store] p show ?thesis by blast
qed

text \<open>
  A key that is not valid UTF-8 is replaced: a put of a one-byte key with a byte that cannot start
  a rune is decoded as a put of the three bytes of U+FFFD, the same for all such keys.
\<close>

lemma invalid_key_replaced:
  assumes "128 \<le> unat b" and "unat b < 194 \<or> 245 \<le> unat b" and "valid_utf8 (go_string val)"
  shows "unmarshal_cmd (marshal_cmd (Put_command [b] val isDelete)) = Some (Put_command [0xEF, 0xBF, 0xBD] val isDelete)"
proof -
  have "unat b < 256" using unsigned_less [of b, where ?'a = nat] by simp
  then have "rune_len (unat b) = 0" using assms(1,2) by (auto simp: rune_len_def)
  moreover have "go_string [b] = [char_of (unat b)]" "of_char (char_of (unat b)) = unat b"
    using \<open>unat b < 256\<close> by (simp_all add: go_string_def)
  ultimately have "\<not> rune_ok (go_string [b])" by (simp add: rune_ok_def DecodeRune_def)
  then have "sanitize (go_string [b]) = EncodeRune RuneError"
    by (subst sanitize.simps) (simp add: sanitize.simps [of "[]"] go_string_def)
  moreover have "go_bytes (EncodeRune RuneError) = [0xEF, 0xBF, 0xBD]"
    by (simp add: EncodeRune_def RuneError_def is_surrogate_def go_bytes_def)
  ultimately show ?thesis using assms(3) by (simp add: unmarshal_marshal cmd_sanitize_def sanitize_valid Put_command_def)
qed

lemma invalid_key_replaced_witness:
  "unmarshal_cmd (marshal_cmd (Put_command [0xFF] [] False)) = Some (Put_command [0xEF, 0xBF, 0xBD] [] False)"
  by (rule invalid_key_replaced) (simp_all add: go_string_def valid_utf8.simps)

end
