(* ===== verification/Raft_Election.thy ===== *)
theory Raft_Election
  imports Raft
begin

text \<open>
  Elections: \<open>startElection\<close> and the handling of a vote reply (\<^verbatim>\<open>raft/raft.go\<close>), and the
  \<open>RequestVote\<close> handler (\<^verbatim>\<open>raft/requestVotes.go\<close>). The lemmas show the vote rule of the
  handler, that a node votes for at most one candidate as long as it only handles vote requests
  of one term, when a candidate becomes leader and with which state.
\<close>

record RequestVoteArgs =
  rva_Term :: int
  rva_CandidateId :: int
  rva_LastLogIndex :: int
  rva_LastLogTerm :: int

record RequestVoteReply =
  rvr_Term :: int
  rvr_VoteGranted :: bool

section \<open>The candidate\<close>

text \<open>The first critical section of \<open>startElection\<close>: the request every peer gets.\<close>

definition startElection :: "raft \<Rightarrow> int \<Rightarrow> (RequestVoteArgs \<times> raft) result" where
  "startElection rf now =
     (let rf = persistState (rf\<lparr>rf_state := Candidate, rf_currentTerm := rf_currentTerm rf + 1,
                 rf_votedFor := rf_me rf, rf_lastResetTime := now\<rparr>);
          lastLogIndex = int (length (rf_log rf)) - 1
      in case log_get (rf_log rf) lastLogIndex of
           None \<Rightarrow> Inl Panic
         | Some e \<Rightarrow> Inr (\<lparr>rva_Term = rf_currentTerm rf, rva_CandidateId = rf_me rf,
             rva_LastLogIndex = lastLogIndex, rva_LastLogTerm = le_Term e\<rparr>, rf))"

definition votesRequired :: "raft \<Rightarrow> int" where
  "votesRequired rf = int (length (rf_peers rf)) div 2 + 1"

text \<open>The loop that sets up the leader's bookkeeping for every peer.\<close>

definition init_leader :: "raft \<Rightarrow> raft" where
  "init_leader rf = fold (\<lambda>p rf. rf\<lparr>rf_nextIndex := (rf_nextIndex rf)(int p \<mapsto> int (length (rf_log rf))),
       rf_matchIndex := (rf_matchIndex rf)(int p \<mapsto> 0)\<rparr>) [0..<length (rf_peers rf)]
     (rf\<lparr>rf_state := Leader, rf_leaderId := rf_me rf\<rparr>)"

text \<open>
  The second critical section, once per reply: \<open>term\<close> and \<open>votesReceived\<close> are the variables
  of the election the goroutine shares; the result has the new count and whether the node just
  became leader (and sends heartbeats).
\<close>

definition handleVoteReply :: "raft \<Rightarrow> int \<Rightarrow> int \<Rightarrow> RequestVoteReply \<Rightarrow> int \<times> bool \<times> raft" where
  "handleVoteReply rf term votesReceived reply =
     (if rf_state rf \<noteq> Candidate \<or> rf_currentTerm rf \<noteq> term then (votesReceived, False, rf)
      else if rvr_Term reply > rf_currentTerm rf
      then (votesReceived, False, persistState (rf\<lparr>rf_currentTerm := rvr_Term reply,
              rf_state := Follower, rf_votedFor := -1, rf_leaderId := -1\<rparr>))
      else if rvr_VoteGranted reply
      then let votesReceived = votesReceived + 1
           in if votesReceived = votesRequired rf then (votesReceived, True, init_leader rf)
              else (votesReceived, False, rf)
      else (votesReceived, False, rf))"

section \<open>The voter\<close>

definition logOk :: "int \<Rightarrow> int \<Rightarrow> RequestVoteArgs \<Rightarrow> bool" where
  "logOk lastLogTerm lastLogIndex args \<longleftrightarrow> rva_LastLogTerm args > lastLogTerm \<or>
     rva_LastLogTerm args = lastLogTerm \<and> rva_LastLogIndex args \<ge> lastLogIndex"

definition raft_RequestVote :: "raft \<Rightarrow> RequestVoteArgs \<Rightarrow> int \<Rightarrow> (RequestVoteReply \<times> raft) result" where
  "raft_RequestVote rf args now =
     (if rva_Term args < rf_currentTerm rf
      then Inr (\<lparr>rvr_Term = rf_currentTerm rf, rvr_VoteGranted = False\<rparr>, rf)
      else
        let rf = (if rva_Term args > rf_currentTerm rf
                  then persistState (rf\<lparr>rf_currentTerm := rva_Term args, rf_state := Follower,
                         rf_votedFor := -1, rf_leaderId := -1\<rparr>)
                  else rf);
            lastLogIndex = int (length (rf_log rf)) - 1
        in case log_get (rf_log rf) lastLogIndex of
             None \<Rightarrow> Inl Panic
           | Some e \<Rightarrow>
             if (rf_votedFor rf = -1 \<or> rf_votedFor rf = rva_CandidateId args) \<and>
                logOk (le_Term e) lastLogIndex args
             then Inr (\<lparr>rvr_Term = rf_currentTerm rf, rvr_VoteGranted = True\<rparr>,
                       (persistState (rf\<lparr>rf_votedFor := rva_CandidateId args,
                          rf_state := Follower\<rparr>))\<lparr>rf_lastResetTime := now\<rparr>)
             else Inr (\<lparr>rvr_Term = rf_currentTerm rf, rvr_VoteGranted = False\<rparr>, rf))"

section \<open>What the operations leave alone\<close>

lemma persistState_fields [simp]:
  "rf_peers (persistState rf) = rf_peers rf" "rf_me (persistState rf) = rf_me rf"
  "rf_leaderId (persistState rf) = rf_leaderId rf"
  "rf_triggerCh (persistState rf) = rf_triggerCh rf" "rf_commitCh (persistState rf) = rf_commitCh rf"
  "rf_currentTerm (persistState rf) = rf_currentTerm rf"
  "rf_votedFor (persistState rf) = rf_votedFor rf" "rf_log (persistState rf) = rf_log rf"
  "rf_commitIndex (persistState rf) = rf_commitIndex rf"
  "rf_lastApplied (persistState rf) = rf_lastApplied rf"
  "rf_nextIndex (persistState rf) = rf_nextIndex rf"
  "rf_matchIndex (persistState rf) = rf_matchIndex rf" "rf_state (persistState rf) = rf_state rf"
  "rf_lastResetTime (persistState rf) = rf_lastResetTime rf"
  by (simp_all add: persistState_def split: option.splits)

lemma persist_fields [simp]:
  "rf_peers (persist rf) = rf_peers rf" "rf_me (persist rf) = rf_me rf"
  "rf_leaderId (persist rf) = rf_leaderId rf"
  "rf_triggerCh (persist rf) = rf_triggerCh rf" "rf_commitCh (persist rf) = rf_commitCh rf"
  "rf_currentTerm (persist rf) = rf_currentTerm rf"
  "rf_votedFor (persist rf) = rf_votedFor rf" "rf_log (persist rf) = rf_log rf"
  "rf_commitIndex (persist rf) = rf_commitIndex rf"
  "rf_lastApplied (persist rf) = rf_lastApplied rf"
  "rf_nextIndex (persist rf) = rf_nextIndex rf"
  "rf_matchIndex (persist rf) = rf_matchIndex rf" "rf_state (persist rf) = rf_state rf"
  "rf_lastResetTime (persist rf) = rf_lastResetTime rf"
  by (simp_all add: persist_def split: option.splits)

lemma log_get_last [simp]: "l \<noteq> [] \<Longrightarrow> log_get l (int (length l) - 1) = Some (last l)"
  by (cases l rule: rev_cases) (simp_all add: log_get_def nth_append)

lemma init_leader_eq:
  "init_leader rf = rf\<lparr>rf_state := Leader, rf_leaderId := rf_me rf,
     rf_nextIndex := (\<lambda>p. if 0 \<le> p \<and> p < int (length (rf_peers rf)) then Some (int (length (rf_log rf)))
                          else rf_nextIndex rf p),
     rf_matchIndex := (\<lambda>p. if 0 \<le> p \<and> p < int (length (rf_peers rf)) then Some 0
                          else rf_matchIndex rf p)\<rparr>"
proof -
  have "fold (\<lambda>p rf. rf\<lparr>rf_nextIndex := (rf_nextIndex rf)(int p \<mapsto> int (length (rf_log rf))),
       rf_matchIndex := (rf_matchIndex rf)(int p \<mapsto> 0)\<rparr>) [0..<n] rf =
     rf\<lparr>rf_nextIndex := (\<lambda>p. if 0 \<le> p \<and> p < int n then Some (int (length (rf_log rf)))
                          else rf_nextIndex rf p),
        rf_matchIndex := (\<lambda>p. if 0 \<le> p \<and> p < int n then Some 0 else rf_matchIndex rf p)\<rparr>" for n rf
  proof (induction n)
    case (Suc n)
    then show ?case by (cases rf) (auto simp: fun_eq_iff)
  qed (cases rf, auto simp: fun_eq_iff)
  note fold = this
  show ?thesis unfolding init_leader_def fold by (simp cong: if_cong)
qed


section \<open>The vote rule\<close>

text \<open>When the handler grants a vote, from the state it finds.\<close>

definition grants :: "raft \<Rightarrow> RequestVoteArgs \<Rightarrow> bool" where
  "grants rf args \<longleftrightarrow> rf_currentTerm rf \<le> rva_Term args \<and>
     (rf_currentTerm rf < rva_Term args \<or> rf_votedFor rf = -1 \<or> rf_votedFor rf = rva_CandidateId args) \<and>
     logOk (le_Term (last (rf_log rf))) (int (length (rf_log rf)) - 1) args"

definition vote_outcome :: "raft \<Rightarrow> RequestVoteArgs \<Rightarrow> RequestVoteReply \<Rightarrow> raft \<Rightarrow> bool" where
  "vote_outcome rf args reply rf' \<longleftrightarrow>
     rvr_VoteGranted reply = grants rf args \<and>
     rvr_Term reply = max (rf_currentTerm rf) (rva_Term args) \<and>
     rf_currentTerm rf' = max (rf_currentTerm rf) (rva_Term args) \<and>
     rf_votedFor rf' = (if grants rf args then rva_CandidateId args
       else if rf_currentTerm rf < rva_Term args then -1 else rf_votedFor rf) \<and>
     rf_state rf' = (if grants rf args \<or> rf_currentTerm rf < rva_Term args then Follower else rf_state rf) \<and>
     rf_log rf' = rf_log rf \<and> rf_commitIndex rf' = rf_commitIndex rf \<and>
     rf_lastApplied rf' = rf_lastApplied rf \<and> rf_me rf' = rf_me rf \<and> rf_peers rf' = rf_peers rf \<and>
     rf_nextIndex rf' = rf_nextIndex rf \<and> rf_matchIndex rf' = rf_matchIndex rf"

lemma raft_RequestVote_outcome:
  assumes "rf_log rf \<noteq> []"
  obtains reply rf' where "raft_RequestVote rf args now = Inr (reply, rf')" "vote_outcome rf args reply rf'"
proof -
  have "case raft_RequestVote rf args now of Inl _ \<Rightarrow> False | Inr (reply, rf') \<Rightarrow> vote_outcome rf args reply rf'"
    using assms by (simp add: raft_RequestVote_def grants_def Let_def vote_outcome_def)
  then show thesis using that by (auto split: sum.splits)
qed

text \<open>A sequence of vote requests handled without any other event in between.\<close>

fun vote_run :: "raft \<Rightarrow> (RequestVoteArgs \<times> int) list \<Rightarrow> (RequestVoteReply list \<times> raft) result" where
  "vote_run rf [] = Inr ([], rf)"
| "vote_run rf ((args, now) # reqs) =
     bindE (raft_RequestVote rf args now) (\<lambda>(reply, rf).
     bindE (vote_run rf reqs) (\<lambda>(replies, rf). Inr (reply # replies, rf)))"

lemma vote_run_total:
  assumes "rf_log rf \<noteq> []"
  shows "\<exists>replies rf'. vote_run rf reqs = Inr (replies, rf') \<and> length replies = length reqs"
  using assms
proof (induction reqs arbitrary: rf)
  case (Cons req reqs)
  obtain args now where req: "req = (args, now)" by (cases req)
  obtain reply rf1 where "raft_RequestVote rf args now = Inr (reply, rf1)" "rf_log rf1 = rf_log rf"
    using raft_RequestVote_outcome [OF Cons.prems, of args now] unfolding vote_outcome_def by metis
  with Cons.IH [of rf1] Cons.prems show ?case by (auto simp: req)
qed simp

text \<open>Once a term has been voted in, only requests of the same candidate are granted in it.\<close>

lemma vote_run_bound:
  assumes "rf_log rf \<noteq> []" and "vote_run rf reqs = Inr (replies, rf')"
    and "j < length reqs" and "rvr_VoteGranted (replies ! j)"
  shows "rf_currentTerm rf \<le> rva_Term (fst (reqs ! j)) \<and>
    (rva_Term (fst (reqs ! j)) = rf_currentTerm rf \<longrightarrow> rf_votedFor rf \<noteq> -1 \<longrightarrow>
     rva_CandidateId (fst (reqs ! j)) = rf_votedFor rf)"
  using assms
proof (induction reqs arbitrary: rf replies j)
  case (Cons req reqs)
  obtain args now where req: "req = (args, now)" by (cases req)
  obtain reply rf1 where 1: "raft_RequestVote rf args now = Inr (reply, rf1)"
    "rvr_VoteGranted reply = grants rf args"
    "rf_currentTerm rf1 = max (rf_currentTerm rf) (rva_Term args)"
    "rf_votedFor rf1 = (if grants rf args then rva_CandidateId args
       else if rf_currentTerm rf < rva_Term args then -1 else rf_votedFor rf)"
    "rf_log rf1 = rf_log rf"
    using raft_RequestVote_outcome [OF Cons.prems(1), of args now] unfolding vote_outcome_def by metis
  from Cons.prems(2) 1(1) obtain rs where rs: "vote_run rf1 reqs = Inr (rs, rf')" "replies = reply # rs"
    by (auto simp: req bindE_Inr_iff)
  show ?case
  proof (cases j)
    case 0
    with Cons.prems(4) 1(2) rs(2) show ?thesis by (auto simp: req grants_def)
  next
    case (Suc i)
    with Cons.prems rs 1(5) Cons.IH [of rf1 rs i]
    have "rf_currentTerm rf1 \<le> rva_Term (fst (reqs ! i)) \<and>
      (rva_Term (fst (reqs ! i)) = rf_currentTerm rf1 \<longrightarrow> rf_votedFor rf1 \<noteq> -1 \<longrightarrow>
       rva_CandidateId (fst (reqs ! i)) = rf_votedFor rf1)" by simp
    with 1(3,4) Suc show ?thesis by (auto simp: max_def grants_def split: if_splits)
  qed
qed simp

lemma vote_run_unique:
  assumes "rf_log rf \<noteq> []" and "vote_run rf reqs = Inr (replies, rf')"
    and "\<forall>req \<in> set reqs. rva_CandidateId (fst req) \<noteq> -1"
    and "i < j" and "j < length reqs"
    and "rvr_VoteGranted (replies ! i)" and "rvr_VoteGranted (replies ! j)"
    and "rva_Term (fst (reqs ! i)) = rva_Term (fst (reqs ! j))"
  shows "rva_CandidateId (fst (reqs ! i)) = rva_CandidateId (fst (reqs ! j))"
  using assms
proof (induction reqs arbitrary: rf replies i j)
  case (Cons req reqs)
  obtain args now where req: "req = (args, now)" by (cases req)
  obtain reply rf1 where 1: "raft_RequestVote rf args now = Inr (reply, rf1)"
    "rvr_VoteGranted reply = grants rf args"
    "rf_currentTerm rf1 = max (rf_currentTerm rf) (rva_Term args)"
    "rf_votedFor rf1 = (if grants rf args then rva_CandidateId args
       else if rf_currentTerm rf < rva_Term args then -1 else rf_votedFor rf)"
    "rf_log rf1 = rf_log rf"
    using raft_RequestVote_outcome [OF Cons.prems(1), of args now] unfolding vote_outcome_def by metis
  from Cons.prems(2) 1(1) obtain rs where rs: "vote_run rf1 reqs = Inr (rs, rf')" "replies = reply # rs"
    by (auto simp: req bindE_Inr_iff)
  from Cons.prems(4) obtain j' where j: "j = Suc j'" by (cases j) simp_all
  have log: "rf_log rf1 \<noteq> []" using 1(5) Cons.prems(1) by simp
  show ?case
  proof (cases i)
    case 0
    with Cons.prems 1 rs(2) vote_run_bound [OF log rs(1), of j'] show ?thesis
      by (auto simp: req j grants_def split: if_splits)
  next
    case (Suc i')
    with Cons.prems rs j show ?thesis using Cons.IH [OF log rs(1), of i' j'] by simp
  qed
qed simp

section \<open>Winning an election\<close>

text \<open>The replies of one election, handled one after the other without any other event.\<close>

fun election_run :: "raft \<Rightarrow> int \<Rightarrow> int \<Rightarrow> RequestVoteReply list \<Rightarrow> int \<times> raft" where
  "election_run rf term votes [] = (votes, rf)"
| "election_run rf term votes (r # rs) =
     (let (votes, _, rf) = handleVoteReply rf term votes r in election_run rf term votes rs)"

lemma election_run_leader [simp]:
  "rf_state rf = Leader \<Longrightarrow> election_run rf term votes rs = (votes, rf)"
  by (induction rs) (simp_all add: handleVoteReply_def)

lemma election_run_candidate:
  assumes "rf_state rf = Candidate" and "\<forall>r \<in> set rs. rvr_Term r \<le> rf_currentTerm rf"
    and "votes < votesRequired rf"
  shows "snd (election_run rf (rf_currentTerm rf) votes rs) =
    (if votesRequired rf \<le> votes + int (length (filter rvr_VoteGranted rs)) then init_leader rf else rf)"
  using assms
proof (induction rs arbitrary: votes)
  case (Cons r rs)
  have "rf_state (init_leader rf) = Leader" by (simp add: init_leader_eq)
  with Cons show ?case by (auto simp: handleVoteReply_def Let_def not_less)
qed simp

lemma election_run_too_many:
  assumes "rf_state rf = Candidate" and "votesRequired rf \<le> votes"
  shows "rf_state (snd (election_run rf term votes rs)) \<noteq> Leader"
proof -
  have "rf_state rf \<noteq> Leader \<Longrightarrow> votesRequired rf \<le> votes \<Longrightarrow>
    rf_state (snd (election_run rf term votes rs)) \<noteq> Leader" for rf
  proof (induction rs arbitrary: rf votes)
    case (Cons r rs)
    have "rf_state (snd (snd (handleVoteReply rf term votes r))) \<noteq> Leader"
      "votesRequired (snd (snd (handleVoteReply rf term votes r))) \<le> fst (handleVoteReply rf term votes r)"
      using Cons.prems by (simp_all add: handleVoteReply_def Let_def votesRequired_def)
    with Cons.IH show ?case by (simp add: case_prod_unfold Let_def)
  qed simp
  with assms show ?thesis by simp
qed

section \<open>Properties\<close>

definition demo_voter :: raft where
  "demo_voter = \<lparr>rf_peers = [True, False, True], rf_me = 1, rf_leaderId = -1, rf_triggerCh = False,
     rf_commitCh = False, rf_currentTerm = 3, rf_votedFor = -1,
     rf_log = [\<lparr>le_Index = 0, le_Term = 0, le_Command = []\<rparr>, \<lparr>le_Index = 1, le_Term = 2, le_Command = [7]\<rparr>],
     rf_wal = None, rf_commitIndex = 1, rf_lastApplied = 1, rf_nextIndex = Map.empty,
     rf_matchIndex = Map.empty, rf_state = Follower, rf_lastResetTime = 0\<rparr>"

definition demo_request :: "int \<Rightarrow> int \<Rightarrow> RequestVoteArgs" where
  "demo_request tm cand = \<lparr>rva_Term = tm, rva_CandidateId = cand, rva_LastLogIndex = 1, rva_LastLogTerm = 2\<rparr>"

text \<open>
  C21: The vote rule. A vote request is granted exactly if its term is not old, the node has not
  voted for another candidate in that term, and the candidate's log is at least as up to
  date as the node's; the reply and the new state are as follows, and the log, the commit
  index and the leader's indices are unchanged.
\<close>

theorem vote_rule:
  assumes "rf_log rf \<noteq> []"
  shows "\<exists>reply rf'. raft_RequestVote rf args now = Inr (reply, rf') \<and>
    (rvr_VoteGranted reply \<longleftrightarrow> rf_currentTerm rf \<le> rva_Term args \<and>
       (rf_currentTerm rf < rva_Term args \<or> rf_votedFor rf \<in> {-1, rva_CandidateId args}) \<and>
       (rva_LastLogTerm args > le_Term (last (rf_log rf)) \<or>
        rva_LastLogTerm args = le_Term (last (rf_log rf)) \<and>
        rva_LastLogIndex args \<ge> int (length (rf_log rf)) - 1)) \<and>
    rvr_Term reply = max (rf_currentTerm rf) (rva_Term args) \<and> rf_currentTerm rf' = rvr_Term reply \<and>
    (rvr_VoteGranted reply \<longrightarrow> rf_votedFor rf' = rva_CandidateId args \<and> rf_state rf' = Follower) \<and>
    rf_log rf' = rf_log rf \<and> rf_commitIndex rf' = rf_commitIndex rf \<and> rf_nextIndex rf' = rf_nextIndex rf"
  by (rule raft_RequestVote_outcome [OF assms, of args now])
    (auto simp: vote_outcome_def grants_def logOk_def)

theorem vote_rule_witness:
  "\<exists>reply rf'. raft_RequestVote demo_voter (demo_request 3 2) 9 = Inr (reply, rf') \<and> rvr_VoteGranted reply"
proof -
  have "rf_log demo_voter \<noteq> []" by (simp add: demo_voter_def)
  from vote_rule [OF this, of "demo_request 3 2" 9] show ?thesis
    by (force simp: demo_voter_def demo_request_def)
qed

text \<open>
  One vote per term: among vote requests handled one after the other, two that are granted
  in the same term come from the same candidate.
\<close>

lemma vote_once_per_term:
  assumes "rf_log rf \<noteq> []" and "vote_run rf reqs = Inr (replies, rf')"
    and "\<forall>req \<in> set reqs. rva_CandidateId (fst req) \<noteq> -1" and "i < j" and "j < length reqs"
    and "rvr_VoteGranted (replies ! i)" and "rvr_VoteGranted (replies ! j)"
    and "rva_Term (fst (reqs ! i)) = rva_Term (fst (reqs ! j))"
  shows "rva_CandidateId (fst (reqs ! i)) = rva_CandidateId (fst (reqs ! j))"
  using assms by (rule vote_run_unique)

definition demo_votes :: "(RequestVoteArgs \<times> int) list" where
  "demo_votes = [(demo_request 3 2, 9), (demo_request 3 0, 10), (demo_request 3 2, 11)]"

lemma vote_once_per_term_witness:
  "\<exists>replies rf'. vote_run demo_voter demo_votes = Inr (replies, rf') \<and>
     rvr_VoteGranted (replies ! 0) \<and> rvr_VoteGranted (replies ! 2) \<and> \<not> rvr_VoteGranted (replies ! 1) \<and>
     rva_CandidateId (fst (demo_votes ! 0)) = rva_CandidateId (fst (demo_votes ! 2))"
proof -
  obtain replies rf' where r: "vote_run demo_voter demo_votes = Inr (replies, rf')"
    "rvr_VoteGranted (replies ! 0)" "rvr_VoteGranted (replies ! 2)" "\<not> rvr_VoteGranted (replies ! 1)"
    by (simp add: demo_votes_def demo_voter_def demo_request_def raft_RequestVote_def log_get_def logOk_def
        Let_def persistState_def)
  moreover from vote_once_per_term [OF _ r(1), of 0 2] r(2,3)
  have "rva_CandidateId (fst (demo_votes ! 0)) = rva_CandidateId (fst (demo_votes ! 2))"
    by (simp add: demo_votes_def demo_voter_def demo_request_def)
  ultimately show ?thesis by blast
qed

text \<open>
  Winning an election: with at least two peers, a candidate that handles the replies of its
  election (and nothing else) becomes leader exactly if half of the peers, rounded down, grant
  their votes; with its own vote this is a majority.
\<close>

lemma election_majority:
  assumes "rf_state rf = Candidate" and "\<forall>r \<in> set rs. rvr_Term r \<le> rf_currentTerm rf"
    and "2 \<le> length (rf_peers rf)"
  shows "rf_state (snd (election_run rf (rf_currentTerm rf) 1 rs)) = Leader \<longleftrightarrow>
    length (rf_peers rf) < 2 * (1 + length (filter rvr_VoteGranted rs))"
proof -
  have "1 < votesRequired rf" using assms(3) by (simp add: votesRequired_def)
  moreover have "votesRequired rf \<le> 1 + int g \<longleftrightarrow> length (rf_peers rf) < 2 * (1 + g)" for g
    unfolding votesRequired_def by presburger
  ultimately show ?thesis
    using assms(1) election_run_candidate [OF assms(1,2), of 1] by (simp add: init_leader_eq)
qed

lemma election_majority_witness:
  "rf_state (snd (election_run (demo_voter\<lparr>rf_state := Candidate\<rparr>) 3 1
     [\<lparr>rvr_Term = 3, rvr_VoteGranted = False\<rparr>, \<lparr>rvr_Term = 3, rvr_VoteGranted = True\<rparr>])) = Leader"
  using election_majority [of "demo_voter\<lparr>rf_state := Candidate\<rparr>"
      "[\<lparr>rvr_Term = 3, rvr_VoteGranted = False\<rparr>, \<lparr>rvr_Term = 3, rvr_VoteGranted = True\<rparr>]"]
  by (simp add: demo_voter_def)

text \<open>
  A cluster of one node never has a leader: whatever replies its election gets, the
  candidate's vote count has already passed the required one when it is first compared.
\<close>

lemma single_node_never_leads:
  assumes "length (rf_peers rf) \<le> 1" and "rf_state rf = Candidate"
  shows "rf_state (snd (election_run rf tm 1 rs)) \<noteq> Leader"
  using election_run_too_many [OF assms(2), of 1] assms(1) by (simp add: votesRequired_def)

lemma single_node_never_leads_witness:
  "rf_state (snd (election_run (demo_voter\<lparr>rf_state := Candidate, rf_peers := [False]\<rparr>) 3 1
     [\<lparr>rvr_Term = 3, rvr_VoteGranted = True\<rparr>])) \<noteq> Leader"
  by (rule single_node_never_leads) simp_all

end
