(* ===== verification/Raft_Replication.thy ===== *)
theory Raft_Replication
  imports Raft_Election
begin

text \<open>
  Log replication (\<^verbatim>\<open>raft/appendEntries.go\<close>): the follower's \<open>AppendEntries\<close> handler, and
  the two critical sections of the goroutine that \<open>sendHeartBeats\<close> starts for each peer:
  building the request and handling the reply. The lemmas give closed forms of the loops (the
  conflict scan, the log merge, the commit scan, the search for a term), and from them what
  the handlers do to the log, the commit index and the leader's indices.
\<close>

record AppendEntriesArgs =
  aea_Term :: int
  aea_LeaderId :: int
  aea_PrevLogIndex :: int
  aea_PrevLogTerm :: int
  aea_Entries :: "log_entry list"
  aea_LeaderCommit :: int

record AppendEntriesReply =
  aer_Term :: int
  aer_Success :: bool
  aer_ConflictIndex :: int
  aer_ConflictTerm :: int

section \<open>The follower\<close>

text \<open>
  The scan for the first index of the conflicting term: \<open>conflict_scan l t n c\<close> looks at the
  indices \<open>n - 1\<close> down to 0, \<open>c\<close> is the \<open>ConflictIndex\<close> found so far.
\<close>

fun conflict_scan :: "log_entry list \<Rightarrow> int \<Rightarrow> nat \<Rightarrow> int \<Rightarrow> int" where
  "conflict_scan l t 0 c = c"
| "conflict_scan l t (Suc i) c = (if le_Term (l ! i) = t then conflict_scan l t i (int i) else c)"

text \<open>The merge loop: the entries go to the indices from \<open>index\<close> on.\<close>

fun log_merge :: "log_entry list \<Rightarrow> int \<Rightarrow> log_entry list \<Rightarrow> log_entry list result" where
  "log_merge l index [] = Inr l"
| "log_merge l index (entry # es) =
     (if index < int (length l)
      then case log_get l index of
             None \<Rightarrow> Inl Panic
           | Some x \<Rightarrow> if le_Term x \<noteq> le_Term entry
                       then log_merge (take (nat index) l @ [entry]) (index + 1) es
                       else log_merge l (index + 1) es
      else log_merge (l @ [entry]) (index + 1) es)"

text \<open>The last part of the handler: the commit index and the signal to the applier.\<close>

definition update_commit :: "raft \<Rightarrow> AppendEntriesArgs \<Rightarrow> raft" where
  "update_commit rf args =
     (if aea_LeaderCommit args > rf_commitIndex rf
      then let lastNewIndex = aea_PrevLogIndex args + int (length (aea_Entries args))
           in rf\<lparr>rf_commitIndex := (if aea_LeaderCommit args < lastNewIndex then aea_LeaderCommit args
                                   else lastNewIndex),
                 rf_commitCh := True\<rparr>
      else rf)"

definition raft_AppendEntries :: "raft \<Rightarrow> AppendEntriesArgs \<Rightarrow> int \<Rightarrow> (AppendEntriesReply \<times> raft) result" where
  "raft_AppendEntries rf args now =
     (let reply = \<lparr>aer_Term = 0, aer_Success = False, aer_ConflictIndex = 0, aer_ConflictTerm = 0\<rparr> in
      if aea_Term args < rf_currentTerm rf then Inr (reply\<lparr>aer_Term := rf_currentTerm rf\<rparr>, rf)
      else
        let rf = persistState (rf\<lparr>rf_currentTerm := aea_Term args, rf_state := Follower,
                   rf_votedFor := -1, rf_leaderId := aea_LeaderId args, rf_lastResetTime := now\<rparr>);
            reply = reply\<lparr>aer_Term := rf_currentTerm rf\<rparr>;
            lastLogIndex = int (length (rf_log rf)) - 1
        in if aea_PrevLogIndex args > lastLogIndex
           then Inr (reply\<lparr>aer_ConflictTerm := -1, aer_ConflictIndex := int (length (rf_log rf))\<rparr>, rf)
           else case log_get (rf_log rf) (aea_PrevLogIndex args) of
                  None \<Rightarrow> Inl Panic
                | Some e \<Rightarrow>
                  if le_Term e \<noteq> aea_PrevLogTerm args
                  then Inr (reply\<lparr>aer_ConflictTerm := le_Term e,
                              aer_ConflictIndex := conflict_scan (rf_log rf) (le_Term e)
                                (nat (aea_PrevLogIndex args + 1)) 0\<rparr>, rf)
                  else bindE (log_merge (rf_log rf) (aea_PrevLogIndex args + 1) (aea_Entries args)) (\<lambda>log.
                       let rf = rf\<lparr>rf_log := log\<rparr>;
                           rf = (if length (aea_Entries args) > 0 then persist rf else rf)
                       in Inr (reply\<lparr>aer_Success := True\<rparr>, update_commit rf args)))"

section \<open>The leader\<close>

text \<open>The first critical section of \<open>sendHeartBeats\<close>: the term, or nothing if not leader.\<close>

definition sendHeartBeats_term :: "raft \<Rightarrow> int option" where
  "sendHeartBeats_term rf = (if rf_state rf \<noteq> Leader then None else Some (rf_currentTerm rf))"

text \<open>The peers it starts a goroutine for.\<close>

definition heartbeat_peers :: "raft \<Rightarrow> int list" where
  "heartbeat_peers rf = filter (\<lambda>i. i \<noteq> rf_me rf) (map int [0..<length (rf_peers rf)])"

text \<open>The request for one peer; \<open>None\<close> if the node is no longer leader.\<close>

definition heartbeat_args :: "raft \<Rightarrow> int \<Rightarrow> int \<Rightarrow> AppendEntriesArgs option result" where
  "heartbeat_args rf term server =
     (if rf_state rf \<noteq> Leader then Inr None
      else
        let prevLogIndex = mget (rf_nextIndex rf) server - 1;
            prevLogIndex = (if prevLogIndex < 0 then 0 else prevLogIndex);
            lastIdx = int (length (rf_log rf));
            nextIdx = mget (rf_nextIndex rf) server;
            endIdx = (if nextIdx + 100 > lastIdx then lastIdx else nextIdx + 100)
        in if lastIdx > nextIdx \<and> nextIdx < 0 then Inl Panic
           else let entries = (if lastIdx > nextIdx
                               then take (nat (endIdx - nextIdx)) (drop (nat nextIdx) (rf_log rf)) else [])
                in Inr (Some \<lparr>aea_Term = term, aea_LeaderId = rf_me rf, aea_PrevLogIndex = prevLogIndex,
                     aea_PrevLogTerm = (case log_get (rf_log rf) prevLogIndex of
                                          Some e \<Rightarrow> le_Term e | None \<Rightarrow> 0),
                     aea_Entries = entries, aea_LeaderCommit = rf_commitIndex rf\<rparr>))"

definition match_count :: "raft \<Rightarrow> int \<Rightarrow> nat" where
  "match_count rf N = 1 + length (filter (\<lambda>peer. int peer \<noteq> rf_me rf \<and> mget (rf_matchIndex rf) (int peer) \<ge> N)
     [0..<length (rf_peers rf)])"

function commit_scan :: "raft \<Rightarrow> int \<Rightarrow> raft result" where
  "commit_scan rf N =
     (if N > rf_commitIndex rf
      then if match_count rf N > length (rf_peers rf) div 2
           then case log_get (rf_log rf) N of
                  None \<Rightarrow> Inl Panic
                | Some e \<Rightarrow> if le_Term e = rf_currentTerm rf
                            then Inr (rf\<lparr>rf_commitIndex := N, rf_commitCh := True\<rparr>)
                            else commit_scan rf (N - 1)
           else commit_scan rf (N - 1)
      else Inr rf)"
  by pat_completeness auto
termination
  by (relation "measure (\<lambda>(rf, N). nat (N - rf_commitIndex rf))") auto

declare commit_scan.simps [simp del]

text \<open>The search for the last index of a term: indices \<open>n - 1\<close> down to 0.\<close>

fun last_index_of_term :: "log_entry list \<Rightarrow> int \<Rightarrow> nat \<Rightarrow> int" where
  "last_index_of_term l t 0 = -1"
| "last_index_of_term l t (Suc i) = (if le_Term (l ! i) = t then int i else last_index_of_term l t i)"

definition backtrack :: "raft \<Rightarrow> AppendEntriesReply \<Rightarrow> int" where
  "backtrack rf reply =
     (let next = (if aer_ConflictTerm reply = -1 then aer_ConflictIndex reply
                  else let lastIndexOfTerm =
                         last_index_of_term (rf_log rf) (aer_ConflictTerm reply) (length (rf_log rf))
                       in if lastIndexOfTerm \<noteq> -1 then lastIndexOfTerm + 1 else aer_ConflictIndex reply)
      in if next < 1 then 1 else next)"

definition advance_indices :: "raft \<Rightarrow> int \<Rightarrow> int \<Rightarrow> raft" where
  "advance_indices rf server newMatchIndex =
     (if newMatchIndex > mget (rf_matchIndex rf) server
      then rf\<lparr>rf_matchIndex := (rf_matchIndex rf)(server \<mapsto> newMatchIndex),
              rf_nextIndex := (rf_nextIndex rf)(server \<mapsto> newMatchIndex + 1)\<rparr>
      else rf)"

definition handleAppendReply :: "raft \<Rightarrow> int \<Rightarrow> AppendEntriesArgs \<Rightarrow> AppendEntriesReply \<Rightarrow> raft result" where
  "handleAppendReply rf server args reply =
     (if aer_Term reply > rf_currentTerm rf
      then Inr (rf\<lparr>rf_currentTerm := aer_Term reply, rf_state := Follower, rf_votedFor := -1,
                  rf_leaderId := -1\<rparr>)
      else if aer_Success reply
      then let rf = advance_indices rf server (aea_PrevLogIndex args + int (length (aea_Entries args)))
           in commit_scan rf (int (length (rf_log rf)) - 1)
      else Inr (rf\<lparr>rf_nextIndex := (rf_nextIndex rf)(server \<mapsto> backtrack rf reply)\<rparr>))"

section \<open>Closed forms of the loops\<close>

text \<open>The conflict index is the first index of the run of equal terms that ends at \<open>n - 1\<close>.\<close>

lemma conflict_scan_first:
  assumes "0 < n" and "le_Term (l ! (n - 1)) = t"
  shows "\<exists>j < n. conflict_scan l t n c = int j \<and> (\<forall>i. j \<le> i \<longrightarrow> i < n \<longrightarrow> le_Term (l ! i) = t) \<and>
    (j = 0 \<or> le_Term (l ! (j - 1)) \<noteq> t)"
  using assms
proof (induction n arbitrary: c)
  case (Suc i)
  show ?case
  proof (cases "0 < i \<and> le_Term (l ! (i - 1)) = t")
    case True
    with Suc.IH [of "int i"] obtain j where "j < i" "conflict_scan l t i (int i) = int j"
      "\<forall>k. j \<le> k \<longrightarrow> k < i \<longrightarrow> le_Term (l ! k) = t" "j = 0 \<or> le_Term (l ! (j - 1)) \<noteq> t" by auto
    with Suc.prems show ?thesis by (intro exI [of _ j]) (auto simp: less_Suc_eq)
  next
    case False
    with Suc.prems show ?thesis
      by (intro exI [of _ i]) (cases i; auto simp: less_Suc_eq)
  qed
qed simp

lemma log_merge_append: "index = int (length l) \<Longrightarrow> log_merge l index es = Inr (l @ es)"
proof (induction es arbitrary: l index)
  case (Cons e es)
  have "log_merge (l @ [e]) (index + 1) es = Inr ((l @ [e]) @ es)"
    using Cons.prems by (intro Cons.IH) simp
  with Cons.prems show ?case by simp
qed simp

text \<open>How many of the entries are already in the log, with the same terms, from index \<open>i\<close> on.\<close>

fun agree :: "log_entry list \<Rightarrow> nat \<Rightarrow> log_entry list \<Rightarrow> nat" where
  "agree l i [] = 0"
| "agree l i (e # es) = (if i < length l \<and> le_Term (l ! i) = le_Term e then Suc (agree l (Suc i) es) else 0)"

definition merged :: "log_entry list \<Rightarrow> nat \<Rightarrow> log_entry list \<Rightarrow> log_entry list" where
  "merged l i es = (if agree l i es = length es then l else take (i + agree l i es) l @ drop (agree l i es) es)"

lemma log_merge_merged:
  assumes "i \<le> length l"
  shows "log_merge l (int i) es = Inr (merged l i es)"
  using assms
proof (induction es arbitrary: i)
  case (Cons e es)
  show ?case
  proof (cases "i < length l \<and> le_Term (l ! i) = le_Term e")
    case True
    then have "log_merge l (int i) (e # es) = log_merge l (int (Suc i)) es"
      by (simp add: log_get_def add.commute)
    with True Cons.IH [of "Suc i"] show ?thesis by (simp add: merged_def)
  next
    case False
    have "int i + 1 = int (length (take i l @ [e]))" using Cons.prems by simp
    note app = log_merge_append [OF this, of es]
    show ?thesis
    proof (cases "i < length l")
      case True
      with False app show ?thesis by (simp add: log_get_def merged_def)
    next
      case False
      with Cons.prems app show ?thesis by (simp add: merged_def)
    qed
  qed
qed (simp add: merged_def)

lemma agree_le: "agree l i es \<le> length es"
  by (induction l i es rule: agree.induct) auto

lemma agree_in_range: "i \<le> length l \<Longrightarrow> i + agree l i es \<le> length l"
  by (induction l i es rule: agree.induct) auto

lemma agree_terms: "k < agree l i es \<Longrightarrow> le_Term (l ! (i + k)) = le_Term (es ! k)"
proof (induction l i es arbitrary: k rule: agree.induct)
  case (2 l i e es)
  then show ?case by (cases k) (auto split: if_splits)
qed simp

lemma agree_stop:
  "agree l i es < length es \<Longrightarrow> i + agree l i es < length l \<Longrightarrow>
     le_Term (l ! (i + agree l i es)) \<noteq> le_Term (es ! agree l i es)"
  by (induction l i es rule: agree.induct) (auto split: if_splits)

lemma agree_full: "agree l i es = length es" if "i + length es \<le> length l"
    "\<And>k. k < length es \<Longrightarrow> le_Term (l ! (i + k)) = le_Term (es ! k)"
  using that
proof (induction l i es rule: agree.induct)
  case (2 l i e es)
  from 2(2,3) 2(3) [of 0] have c: "i < length l \<and> le_Term (l ! i) = le_Term e" by simp
  have "agree l (Suc i) es = length es"
  proof (rule 2(1) [OF c])
    show "Suc i + length es \<le> length l" using 2(2) by simp
    show "le_Term (l ! (Suc i + k)) = le_Term (es ! k)" if "k < length es" for k
      using 2(3) [of "Suc k"] that by simp
  qed
  with c show ?case by simp
qed simp

lemma merged_prefix: "i \<le> length l \<Longrightarrow> take i (merged l i es) = take i l"
  using agree_in_range [of i l es] by (simp add: merged_def min_def)

lemma merged_length: "i \<le> length l \<Longrightarrow> i + length es \<le> length (merged l i es)"
  using agree_in_range [of i l es] agree_le [of l i es] by (auto simp: merged_def)

lemma merged_terms:
  assumes "i \<le> length l" and "k < length es"
  shows "le_Term (merged l i es ! (i + k)) = le_Term (es ! k)"
proof (cases "k < agree l i es")
  case True
  with agree_terms [OF True] agree_in_range [OF assms(1), of es] show ?thesis
    by (simp add: merged_def nth_append)
next
  case False
  with agree_in_range [OF assms(1), of es] agree_le [of l i es] assms(2) show ?thesis
    by (auto simp: merged_def nth_append)
qed

lemma merged_again: "i \<le> length l \<Longrightarrow> merged (merged l i es) i es = merged l i es"
  using agree_full [of i es "merged l i es"] merged_length [of i l es] merged_terms [of i l]
  by (simp add: merged_def [of "merged l i es"])

text \<open>The commit scan: the largest index that a majority stores and that has the current term.\<close>

definition committable :: "raft \<Rightarrow> int \<Rightarrow> bool" where
  "committable rf N \<longleftrightarrow> match_count rf N > length (rf_peers rf) div 2 \<and>
     (case log_get (rf_log rf) N of Some e \<Rightarrow> le_Term e = rf_currentTerm rf | None \<Rightarrow> False)"

lemma commit_scan_spec:
  assumes "-1 \<le> rf_commitIndex rf" and "N < int (length (rf_log rf))"
  shows "(\<exists>M. rf_commitIndex rf < M \<and> M \<le> N \<and> committable rf M \<and>
      (\<forall>K. M < K \<longrightarrow> K \<le> N \<longrightarrow> \<not> committable rf K) \<and>
      commit_scan rf N = Inr (rf\<lparr>rf_commitIndex := M, rf_commitCh := True\<rparr>)) \<or>
    ((\<forall>K. rf_commitIndex rf < K \<longrightarrow> K \<le> N \<longrightarrow> \<not> committable rf K) \<and> commit_scan rf N = Inr rf)"
  using assms
proof (induction rf N rule: commit_scan.induct)
  case (1 rf N)
  show ?case
  proof (cases "rf_commitIndex rf < N")
    case True
    with 1(3,4) obtain e where e: "log_get (rf_log rf) N = Some e" by (simp add: log_get_def)
    show ?thesis
    proof (cases "committable rf N")
      case c: True
      with True e have "commit_scan rf N = Inr (rf\<lparr>rf_commitIndex := N, rf_commitCh := True\<rparr>)"
        by (subst commit_scan.simps) (simp add: committable_def)
      with True c show ?thesis by force
    next
      case False
      with True e have s: "commit_scan rf N = commit_scan rf (N - 1)"
        by (subst commit_scan.simps) (simp add: committable_def)
      have step: "(\<exists>M. rf_commitIndex rf < M \<and> M \<le> N - 1 \<and> committable rf M \<and>
          (\<forall>K. M < K \<longrightarrow> K \<le> N - 1 \<longrightarrow> \<not> committable rf K) \<and>
          commit_scan rf (N - 1) = Inr (rf\<lparr>rf_commitIndex := M, rf_commitCh := True\<rparr>)) \<or>
        ((\<forall>K. rf_commitIndex rf < K \<longrightarrow> K \<le> N - 1 \<longrightarrow> \<not> committable rf K) \<and>
          commit_scan rf (N - 1) = Inr rf)"
        using 1(1) [OF True _ e] 1(2) [OF True] 1(3,4) False e
        by (cases "match_count rf N > length (rf_peers rf) div 2") (auto simp: committable_def)
      have "K \<le> N \<and> committable rf K \<longleftrightarrow> K \<le> N - 1 \<and> committable rf K" for K
        using False by (cases "K = N") auto
      with step show ?thesis unfolding s by (metis (no_types, lifting))
    qed
  next
    case False
    then have "commit_scan rf N = Inr rf" by (subst commit_scan.simps) simp
    with False show ?thesis by auto
  qed
qed

lemma last_index_of_term_spec:
  "(last_index_of_term l t n = -1 \<and> (\<forall>i < n. le_Term (l ! i) \<noteq> t)) \<or>
   (\<exists>j < n. last_index_of_term l t n = int j \<and> le_Term (l ! j) = t \<and>
      (\<forall>i. j < i \<longrightarrow> i < n \<longrightarrow> le_Term (l ! i) \<noteq> t))"
  by (induction n) (auto simp: less_Suc_eq)

section \<open>The handlers\<close>

lemma update_commit_fields [simp]:
  "rf_peers (update_commit rf args) = rf_peers rf" "rf_me (update_commit rf args) = rf_me rf"
  "rf_leaderId (update_commit rf args) = rf_leaderId rf"
  "rf_currentTerm (update_commit rf args) = rf_currentTerm rf"
  "rf_votedFor (update_commit rf args) = rf_votedFor rf" "rf_log (update_commit rf args) = rf_log rf"
  "rf_commitIndex (update_commit rf args) = (if aea_LeaderCommit args > rf_commitIndex rf
     then min (aea_LeaderCommit args) (aea_PrevLogIndex args + int (length (aea_Entries args)))
     else rf_commitIndex rf)"
  "rf_lastApplied (update_commit rf args) = rf_lastApplied rf"
  "rf_nextIndex (update_commit rf args) = rf_nextIndex rf"
  "rf_matchIndex (update_commit rf args) = rf_matchIndex rf" "rf_state (update_commit rf args) = rf_state rf"
  by (auto simp: update_commit_def Let_def)

text \<open>When the handler accepts: the term is not old and the log matches at \<open>PrevLogIndex\<close>.\<close>

definition accepts :: "raft \<Rightarrow> AppendEntriesArgs \<Rightarrow> bool" where
  "accepts rf args \<longleftrightarrow> rf_currentTerm rf \<le> aea_Term args \<and> aea_PrevLogIndex args < int (length (rf_log rf)) \<and>
     le_Term (rf_log rf ! nat (aea_PrevLogIndex args)) = aea_PrevLogTerm args"

definition append_outcome :: "raft \<Rightarrow> AppendEntriesArgs \<Rightarrow> AppendEntriesReply \<Rightarrow> raft \<Rightarrow> bool" where
  "append_outcome rf args reply rf' \<longleftrightarrow>
     aer_Success reply = accepts rf args \<and>
     aer_Term reply = max (rf_currentTerm rf) (aea_Term args) \<and>
     rf_currentTerm rf' = max (rf_currentTerm rf) (aea_Term args) \<and>
     rf_log rf' = (if accepts rf args
       then merged (rf_log rf) (Suc (nat (aea_PrevLogIndex args))) (aea_Entries args) else rf_log rf) \<and>
     rf_commitIndex rf' = (if accepts rf args \<and> aea_LeaderCommit args > rf_commitIndex rf
       then min (aea_LeaderCommit args) (aea_PrevLogIndex args + int (length (aea_Entries args)))
       else rf_commitIndex rf) \<and>
     rf_lastApplied rf' = rf_lastApplied rf \<and> rf_me rf' = rf_me rf \<and> rf_peers rf' = rf_peers rf \<and>
     rf_nextIndex rf' = rf_nextIndex rf \<and> rf_matchIndex rf' = rf_matchIndex rf \<and>
     (if rf_currentTerm rf \<le> aea_Term args
      then rf_state rf' = Follower \<and> rf_votedFor rf' = -1 \<and> rf_leaderId rf' = aea_LeaderId args
      else rf' = rf)"

lemma raft_AppendEntries_outcome:
  assumes "0 \<le> aea_PrevLogIndex args"
  obtains reply rf' where "raft_AppendEntries rf args now = Inr (reply, rf')" "append_outcome rf args reply rf'"
proof -
  define i where "i = nat (aea_PrevLogIndex args)"
  have i: "aea_PrevLogIndex args = int i" "nat (aea_PrevLogIndex args) = i"
    using assms by (simp_all add: i_def)
  have m: "log_merge l (int i + 1) es = Inr (merged l (Suc i) es)" if "i < length l" for l es
    using log_merge_merged [of "Suc i" l es] that by (simp add: add.commute)
  have "case raft_AppendEntries rf args now of Inl _ \<Rightarrow> False | Inr (reply, rf') \<Rightarrow> append_outcome rf args reply rf'"
  proof (cases "rf_currentTerm rf \<le> aea_Term args \<and> i < length (rf_log rf)")
    case True
    then show ?thesis
      by (auto simp: raft_AppendEntries_def append_outcome_def accepts_def i log_get_def m Let_def max_def)
  next
    case False
    then show ?thesis
      by (auto simp: raft_AppendEntries_def append_outcome_def accepts_def i Let_def max_def)
  qed
  then show thesis using that by (auto split: sum.splits)
qed

lemma raft_AppendEntries_mismatch:
  assumes "rf_currentTerm rf \<le> aea_Term args" and i: "aea_PrevLogIndex args = int i"
    and "i < length (rf_log rf)" and "le_Term (rf_log rf ! i) \<noteq> aea_PrevLogTerm args"
  shows "\<exists>rf'. raft_AppendEntries rf args now = Inr (\<lparr>aer_Term = aea_Term args, aer_Success = False,
    aer_ConflictIndex = conflict_scan (rf_log rf) (le_Term (rf_log rf ! i)) (Suc i) 0,
    aer_ConflictTerm = le_Term (rf_log rf ! i)\<rparr>, rf')"
  using assms(1,3,4)
  by (simp add: raft_AppendEntries_def i log_get_def Let_def nat_add_distrib del: conflict_scan.simps)

text \<open>A rejection names the place to go back to.\<close>

lemma raft_AppendEntries_conflict:
  assumes "rf_currentTerm rf \<le> aea_Term args" and "0 \<le> aea_PrevLogIndex args"
    and "raft_AppendEntries rf args now = Inr (reply, rf')" and "\<not> aer_Success reply"
  shows "(int (length (rf_log rf)) \<le> aea_PrevLogIndex args \<and> aer_ConflictTerm reply = -1 \<and>
      aer_ConflictIndex reply = int (length (rf_log rf))) \<or>
    (\<exists>j. aer_ConflictIndex reply = int j \<and> int j \<le> aea_PrevLogIndex args \<and>
      aea_PrevLogIndex args < int (length (rf_log rf)) \<and>
      aer_ConflictTerm reply = le_Term (rf_log rf ! nat (aea_PrevLogIndex args)) \<and>
      aer_ConflictTerm reply \<noteq> aea_PrevLogTerm args \<and>
      (\<forall>i. j \<le> i \<longrightarrow> int i \<le> aea_PrevLogIndex args \<longrightarrow> le_Term (rf_log rf ! i) = aer_ConflictTerm reply) \<and>
      (j = 0 \<or> le_Term (rf_log rf ! (j - 1)) \<noteq> aer_ConflictTerm reply))"
proof -
  define i where "i = nat (aea_PrevLogIndex args)"
  have i: "aea_PrevLogIndex args = int i" "nat (aea_PrevLogIndex args) = i"
    using assms(2) by (simp_all add: i_def)
  define t where "t = le_Term (rf_log rf ! i)"
  have "\<exists>j < Suc i. conflict_scan (rf_log rf) t (Suc i) 0 = int j \<and>
      (\<forall>k. j \<le> k \<longrightarrow> k < Suc i \<longrightarrow> le_Term (rf_log rf ! k) = t) \<and>
      (j = 0 \<or> le_Term (rf_log rf ! (j - 1)) \<noteq> t)"
    by (rule conflict_scan_first) (simp_all add: t_def)
  then obtain j where j: "j < Suc i" "conflict_scan (rf_log rf) t (Suc i) 0 = int j"
    "\<forall>k. j \<le> k \<longrightarrow> k < Suc i \<longrightarrow> le_Term (rf_log rf ! k) = t"
    "j = 0 \<or> le_Term (rf_log rf ! (j - 1)) \<noteq> t"
    by (elim exE conjE) (rule that)
  show ?thesis
  proof (cases "i < length (rf_log rf)")
    case True
    have neq: "t \<noteq> aea_PrevLogTerm args"
    proof (rule raft_AppendEntries_outcome [OF assms(2), of rf now])
      fix r rf'' assume "raft_AppendEntries rf args now = Inr (r, rf'')" "append_outcome rf args r rf''"
      with assms(1,3,4) True show ?thesis by (simp add: append_outcome_def accepts_def i t_def)
    qed
    from raft_AppendEntries_mismatch [OF assms(1) i(1) True neq [unfolded t_def], of now, folded t_def] assms(3) j(2)
    have "aer_ConflictTerm reply = t" "aer_ConflictIndex reply = int j"
      by (auto simp del: conflict_scan.simps)
    with neq j(1,3,4) True show ?thesis by (intro disjI2 exI [of _ j]) (auto simp: i t_def [symmetric])
  next
    case False
    with assms(1,3) show ?thesis by (auto simp: raft_AppendEntries_def i Let_def)
  qed
qed

text \<open>The request a leader builds.\<close>

definition next_ok :: "raft \<Rightarrow> bool" where
  "next_ok rf \<longleftrightarrow> (\<forall>p v. rf_nextIndex rf p = Some v \<longrightarrow> 1 \<le> v) \<and> (\<forall>p v. rf_matchIndex rf p = Some v \<longrightarrow> 0 \<le> v)"

lemma heartbeat_args_leader:
  assumes "rf_state rf = Leader" and "rf_nextIndex rf server = Some (int k)" and "1 \<le> k"
  shows "heartbeat_args rf term server = Inr (Some \<lparr>aea_Term = term, aea_LeaderId = rf_me rf,
    aea_PrevLogIndex = int (k - 1),
    aea_PrevLogTerm = (if k \<le> length (rf_log rf) then le_Term (rf_log rf ! (k - 1)) else 0),
    aea_Entries = take 100 (drop k (rf_log rf)), aea_LeaderCommit = rf_commitIndex rf\<rparr>)"
proof -
  have n: "mget (rf_nextIndex rf) server = int k" using assms(2) by (simp add: mget_def)
  have p: "int k - 1 = int (k - 1)" "\<not> int (k - 1) < 0" using assms(3) by simp_all
  have "take (nat (int (length (rf_log rf)) - int k)) (drop k (rf_log rf)) = take 100 (drop k (rf_log rf))"
    if "length (rf_log rf) < k + 100" "k < length (rf_log rf)"
    using that by simp
  moreover have "log_get (rf_log rf) (int (k - 1)) = (if k \<le> length (rf_log rf) then Some (rf_log rf ! (k - 1)) else None)"
    unfolding log_get_def nat_int using assms(3) by auto
  ultimately show ?thesis
    using assms(1) unfolding heartbeat_args_def n p Let_def by auto
qed

lemma mget_nonneg: "next_ok rf \<Longrightarrow> 0 \<le> mget (rf_nextIndex rf) p" "next_ok rf \<Longrightarrow> 0 \<le> mget (rf_matchIndex rf) p"
  by (auto simp: next_ok_def mget_def split: option.splits) (metis order_trans zero_le_one)

lemma heartbeat_args_total: "next_ok rf \<Longrightarrow> \<exists>r. heartbeat_args rf term server = Inr r"
  using mget_nonneg(1) [of rf server] by (auto simp: heartbeat_args_def Let_def)

lemma heartbeat_args_prev:
  "heartbeat_args rf term server = Inr (Some args) \<Longrightarrow> 0 \<le> aea_PrevLogIndex args"
  by (auto simp: heartbeat_args_def Let_def split: if_splits)

end
