(* ===== verification/Raft_Node.thy ===== *)
theory Raft_Node
  imports Raft_Replication
begin

text \<open>
  The Raft node as a state machine: its critical sections in any order, with any messages
  (also stale, duplicated or invented ones). The section on the WAL gives the state after a
  restart. The invariants hold for all reachable states; from them no handler panics. The
  last section relates the logs of a leader and a follower.
\<close>

section \<open>Steps\<close>

inductive raft_step :: "raft \<Rightarrow> raft \<Rightarrow> bool" where
  step_Start: "raft_Start rf cmd = (r, rf') \<Longrightarrow> raft_step rf rf'"
| step_startElection: "startElection rf now = Inr (args, rf') \<Longrightarrow> raft_step rf rf'"
| step_VoteReply: "handleVoteReply rf term votes reply = (n, b, rf') \<Longrightarrow> raft_step rf rf'"
| step_RequestVote: "raft_RequestVote rf args now = Inr (reply, rf') \<Longrightarrow> raft_step rf rf'"
| step_AppendEntries: "raft_AppendEntries rf aargs now = Inr (areply, rf') \<Longrightarrow> raft_step rf rf'"
| step_AppendReply: "handleAppendReply rf server aargs areply = Inr rf' \<Longrightarrow> raft_step rf rf'"
| step_applier: "applier_round rf = Some (Inr (es, rf')) \<Longrightarrow> raft_step rf rf'"
| step_replicator: "raft_step rf (replicator_step rf)"
| step_syncer: "rf_wal rf = Some w \<Longrightarrow> raft_step rf (rf\<lparr>rf_wal := Some (backgroundSyncer w)\<rparr>)"

definition raft_init :: "raft \<Rightarrow> bool" where
  "raft_init rf \<longleftrightarrow> (\<exists>peers me walFile now. rf = raft_Make peers me walFile now)"

section \<open>The state after a start or a restart\<close>

lemma recover_rrecs_types:
  "recover_rrecs rest es st = (es', st', err) \<Longrightarrow> \<forall>e \<in> set es. wr_RecordType e = RecordTypeLog \<Longrightarrow>
     \<forall>e \<in> set es'. wr_RecordType e = RecordTypeLog"
proof (induction rest es st rule: recover_rrecs.induct)
  case (1 rest es st)
  show ?case
  proof (cases "rest = []")
    case True
    with 1(4,5) show ?thesis by (simp add: recover_rrecs.simps)
  next
    case ne: False
    show ?thesis
    proof (cases "read_rrec rest")
      case (Inl e)
      with ne 1(4,5) show ?thesis by (simp add: recover_rrecs.simps)
    next
      case (Inr p)
      then obtain r rest' where r: "read_rrec rest = Inr (r, rest')" by (cases p) auto
      have log: "wr_RecordType e = RecordTypeLog" if "r = LogRec e" for e
        using r that by (auto simp: read_rrec_def bindE_Inr_iff Let_def split: if_splits)
      have eq: "recover_rrecs rest es st = (case r of LogRec e \<Rightarrow> recover_rrecs rest' (es @ [e]) st
          | HardRec s \<Rightarrow> recover_rrecs rest' es s | UnknownByte \<Rightarrow> recover_rrecs rest' es st)"
        using ne r by (subst recover_rrecs.simps) simp
      show ?thesis
      proof (cases r)
        case (LogRec e)
        show ?thesis
          by (rule 1(1) [OF ne r refl LogRec]) (use eq LogRec log [OF LogRec] 1(4,5) in auto)
      next
        case (HardRec s)
        show ?thesis by (rule 1(2) [OF ne r refl HardRec]) (use eq HardRec 1(4,5) in auto)
      next
        case UnknownByte
        show ?thesis by (rule 1(3) [OF ne r refl UnknownByte]) (use eq UnknownByte 1(4,5) in auto)
      qed
    qed
  qed
qed

lemma raft_Make_fields:
  "rf_peers (raft_Make peers me f now) = peers" "rf_me (raft_Make peers me f now) = me"
  "rf_leaderId (raft_Make peers me f now) = -1" "rf_state (raft_Make peers me f now) = Follower"
  "rf_nextIndex (raft_Make peers me f now) = Map.empty"
  "rf_matchIndex (raft_Make peers me f now) = Map.empty"
  "rf_lastApplied (raft_Make peers me f now) = 0"
  "0 \<le> rf_commitIndex (raft_Make peers me f now)" "0 \<le> rf_currentTerm (raft_Make peers me f now)"
  by (simp_all add: raft_Make_def readPersist_def Let_def split: prod.splits)

lemma raft_Make_log: "rf_log (raft_Make peers me f now) \<noteq> []"
proof -
  obtain es st err where r: "recover_rrecs (content f) [] \<lparr>hs_Term = 0, hs_Vote = 0, hs_Commit = 0\<rparr> = (es, st, err)"
    by (metis prod_cases3)
  with recover_rrecs_types [OF r] show ?thesis
    by (simp add: raft_Make_def readPersist_def RecoverEntries_def createOrOpenRaftWAL_def Let_def
        filter_empty_conv)
qed

section \<open>What each step does\<close>

definition node_inv :: "raft \<Rightarrow> bool" where
  "node_inv rf \<longleftrightarrow> rf_log rf \<noteq> [] \<and> 0 \<le> rf_commitIndex rf \<and> next_ok rf \<and>
     (rf_state rf = Leader \<longrightarrow> rf_leaderId rf = rf_me rf) \<and>
     (rf_state rf \<noteq> Follower \<longrightarrow> rf_votedFor rf = rf_me rf)"

text \<open>
  The relation every step satisfies: the identity and the peers are fixed, the term does not
  decrease, a node that is and stays leader only appends to its log, and a new leader was a
  candidate of the same term.
\<close>

definition node_evolves :: "raft \<Rightarrow> raft \<Rightarrow> bool" where
  "node_evolves rf rf' \<longleftrightarrow> rf_me rf' = rf_me rf \<and> rf_peers rf' = rf_peers rf \<and>
     rf_currentTerm rf \<le> rf_currentTerm rf' \<and>
     (rf_state rf = Leader \<longrightarrow> rf_state rf' = Leader \<longrightarrow> (\<exists>es. rf_log rf' = rf_log rf @ es)) \<and>
     (rf_state rf' = Leader \<longrightarrow> rf_state rf \<noteq> Leader \<longrightarrow>
        rf_state rf = Candidate \<and> rf_currentTerm rf' = rf_currentTerm rf \<and> rf_log rf' = rf_log rf)"

lemma raft_AppendEntries_success:
  assumes "raft_AppendEntries rf args now = Inr (reply, rf')"
  shows "append_outcome rf args reply rf' \<and> (accepts rf args \<longrightarrow> 0 \<le> aea_PrevLogIndex args)"
proof (cases "0 \<le> aea_PrevLogIndex args")
  case True
  obtain r rf1 where "raft_AppendEntries rf args now = Inr (r, rf1)" "append_outcome rf args r rf1"
    by (rule raft_AppendEntries_outcome [OF True])
  with assms True show ?thesis by simp
next
  case False
  with assms have "aea_Term args < rf_currentTerm rf"
    by (simp add: raft_AppendEntries_def Let_def log_get_def split: if_splits)
  with assms show ?thesis
    by (auto simp: raft_AppendEntries_def Let_def append_outcome_def accepts_def)
qed

lemma merged_nonempty: "l \<noteq> [] \<Longrightarrow> merged l (Suc i) es \<noteq> []"
  by (auto simp: merged_def)

lemma AppendEntries_step:
  assumes "node_inv rf" and "raft_AppendEntries rf args now = Inr (reply, rf')"
  shows "node_inv rf' \<and> node_evolves rf rf'"
proof (cases "rf_currentTerm rf \<le> aea_Term args")
  case True
  have out: "append_outcome rf args reply rf'" and prev: "accepts rf args \<Longrightarrow> 0 \<le> aea_PrevLogIndex args"
    using raft_AppendEntries_success [OF assms(2)] by auto
  from out True have "rf_state rf' = Follower" "rf_nextIndex rf' = rf_nextIndex rf"
    "rf_matchIndex rf' = rf_matchIndex rf" "rf_me rf' = rf_me rf" "rf_peers rf' = rf_peers rf"
    "rf_currentTerm rf' = aea_Term args"
    by (simp_all add: append_outcome_def)
  moreover have "rf_log rf' \<noteq> []" "0 \<le> rf_commitIndex rf'"
    using out assms(1) prev by (auto simp: append_outcome_def node_inv_def merged_nonempty)
  ultimately show ?thesis
    using True assms(1) by (simp add: node_inv_def node_evolves_def next_ok_def)
next
  case False
  with assms show ?thesis by (auto simp: raft_AppendEntries_def Let_def node_evolves_def)
qed

lemma RequestVote_step:
  assumes "node_inv rf" and "raft_RequestVote rf args now = Inr (reply, rf')"
  shows "node_inv rf' \<and> node_evolves rf rf'"
proof -
  have "rf_log rf \<noteq> []" using assms(1) by (simp add: node_inv_def)
  then show ?thesis
  proof (rule raft_RequestVote_outcome [of rf args now])
    fix r rf1 assume "raft_RequestVote rf args now = Inr (r, rf1)" "vote_outcome rf args r rf1"
    with assms(2) have o: "vote_outcome rf args reply rf'" by simp
    have "rf_leaderId rf' = rf_leaderId rf" if "rf_state rf' = Leader"
      using assms(2) that \<open>rf_log rf \<noteq> []\<close>
      by (auto simp: raft_RequestVote_def Let_def split: if_splits)
    with o assms(1) show ?thesis
      by (auto simp: vote_outcome_def node_inv_def node_evolves_def next_ok_def split: if_splits)
  qed
qed

lemma commit_scan_result:
  assumes "commit_scan rf N = Inr rf'"
  shows "\<exists>M c. rf' = rf\<lparr>rf_commitIndex := M, rf_commitCh := c\<rparr> \<and> rf_commitIndex rf \<le> M"
  using assms
proof (induction rf N rule: commit_scan.induct)
  case (1 rf N)
  show ?case
  proof (cases "rf_commitIndex rf < N")
    case True
    show ?thesis
    proof (cases "match_count rf N > length (rf_peers rf) div 2")
      case c: True
      with True 1(3) obtain e where e: "log_get (rf_log rf) N = Some e"
        by (cases "log_get (rf_log rf) N") (simp_all add: commit_scan.simps [of rf N])
      show ?thesis
      proof (cases "le_Term e = rf_currentTerm rf")
        case t: True
        with True c e 1(3) have "rf' = rf\<lparr>rf_commitIndex := N, rf_commitCh := True\<rparr>"
          by (simp add: commit_scan.simps [of rf N])
        with True show ?thesis by (intro exI [of _ N] exI [of _ True]) simp
      next
        case False
        with 1 True c e show ?thesis by (simp add: commit_scan.simps [of rf N])
      qed
    next
      case False
      with 1 True show ?thesis by (simp add: commit_scan.simps [of rf N])
    qed
  next
    case False
    with 1(3) have "rf' = rf\<lparr>rf_commitIndex := rf_commitIndex rf, rf_commitCh := rf_commitCh rf\<rparr>"
      by (simp add: commit_scan.simps [of rf N])
    then show ?thesis by blast
  qed
qed

lemma backtrack_ge: "1 \<le> backtrack rf reply"
  by (simp add: backtrack_def Let_def)

lemma next_ok_upd:
  "next_ok rf \<Longrightarrow> 1 \<le> v \<Longrightarrow> next_ok (rf\<lparr>rf_nextIndex := (rf_nextIndex rf)(p \<mapsto> v)\<rparr>)"
  "next_ok rf \<Longrightarrow> 0 \<le> m \<Longrightarrow> 1 \<le> v \<Longrightarrow>
     next_ok (rf\<lparr>rf_matchIndex := (rf_matchIndex rf)(q \<mapsto> m), rf_nextIndex := (rf_nextIndex rf)(p \<mapsto> v)\<rparr>)"
  by (auto simp: next_ok_def)

lemma AppendReply_step:
  assumes "node_inv rf" and "handleAppendReply rf server args reply = Inr rf'"
  shows "node_inv rf' \<and> node_evolves rf rf' \<and> rf_commitIndex rf \<le> rf_commitIndex rf'"
proof -
  define rf1 where "rf1 = advance_indices rf server (aea_PrevLogIndex args + int (length (aea_Entries args)))"
  have ok: "next_ok rf" using assms(1) by (simp add: node_inv_def)
  consider "aer_Term reply > rf_currentTerm rf"
    | "\<not> aer_Term reply > rf_currentTerm rf" "aer_Success reply"
    | "\<not> aer_Term reply > rf_currentTerm rf" "\<not> aer_Success reply" by blast
  then show ?thesis
  proof cases
    case 1
    with assms show ?thesis
      by (auto simp: handleAppendReply_def node_inv_def node_evolves_def next_ok_def)
  next
    case 2
    with assms(2) have "commit_scan rf1 (int (length (rf_log rf1)) - 1) = Inr rf'"
      by (simp add: handleAppendReply_def Let_def rf1_def)
    from commit_scan_result [OF this] obtain M c where
      rf': "rf' = rf1\<lparr>rf_commitIndex := M, rf_commitCh := c\<rparr>" "rf_commitIndex rf1 \<le> M" by blast
    have "next_ok rf1"
      using ok mget_nonneg(2) [OF ok, of server] 
      unfolding rf1_def advance_indices_def by (auto intro!: next_ok_upd(2))
    moreover have "rf_commitIndex rf1 = rf_commitIndex rf" "rf_log rf1 = rf_log rf"
      "rf_state rf1 = rf_state rf" "rf_leaderId rf1 = rf_leaderId rf" "rf_me rf1 = rf_me rf"
      "rf_votedFor rf1 = rf_votedFor rf" "rf_peers rf1 = rf_peers rf" "rf_currentTerm rf1 = rf_currentTerm rf"
      by (simp_all add: rf1_def advance_indices_def)
    ultimately show ?thesis
      using assms(1) rf' by (auto simp: node_inv_def node_evolves_def next_ok_def)
  next
    case 3
    with assms(2) have "rf' = rf\<lparr>rf_nextIndex := (rf_nextIndex rf)(server \<mapsto> backtrack rf reply)\<rparr>"
      by (simp add: handleAppendReply_def)
    with next_ok_upd(1) [OF ok backtrack_ge] assms(1) show ?thesis
      by (simp add: node_inv_def node_evolves_def)
  qed
qed

lemma VoteReply_step:
  assumes "node_inv rf" and "handleVoteReply rf term votes reply = (n, b, rf')"
  shows "node_inv rf' \<and> node_evolves rf rf'"
proof -
  have len: "1 \<le> int (length (rf_log rf))" using assms(1) by (cases "rf_log rf") (simp_all add: node_inv_def)
  have lead: "node_inv (init_leader rf) \<and> node_evolves rf (init_leader rf)" if "rf_state rf = Candidate"
    using that assms(1) len
    by (auto simp: init_leader_eq node_inv_def node_evolves_def next_ok_def)
  show ?thesis
    using assms lead
    by (auto simp: handleVoteReply_def Let_def node_inv_def node_evolves_def next_ok_def split: if_splits)
qed

lemma applier_roundD: "applier_round rf = Some r \<Longrightarrow> rf_commitCh rf" "applier_round rf = Some r \<Longrightarrow> applier_step rf = r"
  by (simp_all add: applier_round_def split: if_splits)

lemma applier_roundI: "rf_commitCh rf \<Longrightarrow> applier_step rf = r \<Longrightarrow> applier_round rf = Some r"
  by (simp add: applier_round_def)

lemma raft_step_keeps:
  assumes "raft_step rf rf'" and "node_inv rf"
  shows "node_inv rf' \<and> node_evolves rf rf'"
  using assms
proof cases
  case (step_Start cmd r)
  with assms(2) show ?thesis
    by (auto simp: raft_Start_def Let_def node_inv_def node_evolves_def next_ok_def
        split: if_splits option.splits)
next
  case (step_startElection now args)
  with assms(2) show ?thesis
    by (auto simp: startElection_def Let_def node_inv_def node_evolves_def next_ok_def)
next
  case (step_applier es)
  with assms(2) show ?thesis
    by (auto dest!: applier_roundD(2) simp: applier_step_def Let_def node_inv_def node_evolves_def next_ok_def
        split: if_splits option.splits)
next
  case (step_VoteReply tm votes reply n b)
  with VoteReply_step [OF assms(2)] show ?thesis by blast
next
  case (step_RequestVote args now reply)
  with RequestVote_step [OF assms(2)] show ?thesis by blast
next
  case (step_AppendEntries args now reply)
  with AppendEntries_step [OF assms(2)] show ?thesis by blast
next
  case (step_AppendReply server args reply)
  with AppendReply_step [OF assms(2)] show ?thesis by blast
next
  case step_replicator
  with assms(2) show ?thesis
    by (simp add: replicator_step_def node_inv_def node_evolves_def next_ok_def)
next
  case (step_syncer w)
  with assms(2) show ?thesis by (simp add: node_inv_def node_evolves_def next_ok_def)
qed

lemma raft_init_inv: "raft_init rf \<Longrightarrow> node_inv rf"
  by (auto simp: raft_init_def node_inv_def next_ok_def raft_Make_fields raft_Make_log)

interpretation node: monotone_system raft_init raft_step node_inv rf_currentTerm
  by unfold_locales (auto simp: raft_init_inv node_evolves_def dest: raft_step_keeps)

lemma commit_scan_total:
  assumes "-1 \<le> rf_commitIndex rf" and "N < int (length (rf_log rf))"
  shows "\<exists>rf'. commit_scan rf N = Inr rf'"
  using commit_scan_spec [OF assms] by blast

lemma handleAppendReply_total:
  assumes "0 \<le> rf_commitIndex rf"
  shows "\<exists>rf'. handleAppendReply rf server args reply = Inr rf'"
proof -
  let ?rf = "advance_indices rf server (aea_PrevLogIndex args + int (length (aea_Entries args)))"
  have "\<exists>rf'. commit_scan ?rf (int (length (rf_log ?rf)) - 1) = Inr rf'"
    by (rule commit_scan_total) (use assms in \<open>auto simp: advance_indices_def\<close>)
  then show ?thesis by (simp add: handleAppendReply_def Let_def)
qed

text \<open>What the applier hands out.\<close>

lemma entries_between_slice:
  assumes "entries_between l (int i) n = Some es"
  shows "es = take n (drop (Suc i) l) \<and> length es = n"
  using assms
proof (induction n arbitrary: i es)
  case (Suc n)
  then obtain e es' where e: "log_get l (int (Suc i)) = Some e" "entries_between l (int (Suc i)) n = Some es'" "es = e # es'"
    by (auto simp: add.commute split: option.splits)
  from e(1) have "e = l ! Suc i" "Suc i < length l" unfolding log_get_def nat_int of_nat_less_iff by (auto split: if_splits)
  with Suc.IH [OF e(2)] e(3) show ?case by (auto simp: Cons_nth_drop_Suc [symmetric])
qed simp

lemma entries_between_some: "i + n < length l \<Longrightarrow> \<exists>es. entries_between l (int i) n = Some es"
proof (induction n arbitrary: i)
  case (Suc n)
  then obtain es where "entries_between l (int (Suc i)) n = Some es" using Suc.IH [of "Suc i"] by auto
  moreover have "log_get l (int i + 1) = Some (l ! nat (int i + 1))" using Suc.prems by (simp add: log_get_def)
  ultimately show ?case by (simp add: add.commute)
qed simp

lemma applier_slice:
  assumes "0 \<le> rf_lastApplied rf" and "rf_commitIndex rf < int (length (rf_log rf))"
  shows "\<exists>rf'. applier_step rf = Inr (take (nat (rf_commitIndex rf - rf_lastApplied rf))
    (drop (Suc (nat (rf_lastApplied rf))) (rf_log rf)), rf')"
proof (cases "rf_commitIndex rf \<le> rf_lastApplied rf")
  case False
  define a n where "a = nat (rf_lastApplied rf)" and "n = nat (rf_commitIndex rf - rf_lastApplied rf)"
  have a: "rf_lastApplied rf = int a" "a + n < length (rf_log rf)" using assms False by (auto simp: a_def n_def)
  obtain es where es: "entries_between (rf_log rf) (int a) n = Some es" using entries_between_some [OF a(2)] by blast
  then have "es = take n (drop (Suc a) (rf_log rf))" using entries_between_slice by blast
  with es False show ?thesis
    by (simp add: applier_step_def Let_def n_def [symmetric]) (simp add: a(1))
qed (simp add: applier_step_def)

section \<open>The logs of a leader and a follower\<close>

text \<open>Raft's log matching between two logs: equal terms at an index mean equal prefixes.\<close>

definition log_matching :: "log_entry list \<Rightarrow> log_entry list \<Rightarrow> bool" where
  "log_matching l L \<longleftrightarrow> (\<forall>i. i < length l \<longrightarrow> i < length L \<longrightarrow> le_Term (l ! i) = le_Term (L ! i) \<longrightarrow>
     take (Suc i) l = take (Suc i) L)"

lemma log_matching_prefix: "log_matching (take n L) L"
  by (auto simp: log_matching_def min_def)

lemma merged_slice:
  assumes m: "log_matching l L" and k: "1 \<le> k" "k \<le> length L" "k \<le> length l"
    and t: "le_Term (l ! (k - 1)) = le_Term (L ! (k - 1))" and es: "es = take c (drop k L)"
  shows "merged l k es = l \<and> take (k + length es) l = take (k + length es) L \<or> merged l k es = take (k + length es) L"
proof -
  define a where "a = agree l k es"
  have pre: "take (k + j) l = take (k + j) L" if "j \<le> a" for j
  proof (cases j)
    case 0
    with m t k show ?thesis by (auto simp: log_matching_def dest!: spec [of _ "k - 1"])
  next
    case (Suc i)
    then have "i < a" using that by simp
    then have "i < length es" "k + i < length l" "le_Term (l ! (k + i)) = le_Term (es ! i)"
      using agree_le [of l k es] agree_in_range [OF k(3), of es] agree_terms [of i l k es]
      by (auto simp: a_def)
    moreover from this have "k + i < length L" "es ! i = L ! (k + i)" by (auto simp: es)
    ultimately show ?thesis using m Suc by (simp add: log_matching_def)
  qed
  show ?thesis
  proof (cases "a = length es")
    case True
    with pre [of a] show ?thesis by (simp add: merged_def a_def)
  next
    case False
    then have "a < length es" using agree_le [of l k es] by (simp add: a_def)
    have "take (k + length es) L = take k L @ es" by (auto simp: es take_add min_def)
    also have "\<dots> = (take k L @ take a es) @ drop a es" by simp
    also have "take k L @ take a es = take (k + a) L"
      using \<open>a < length es\<close> by (auto simp: es take_add min_def split: if_splits)
    finally show ?thesis using False pre [of a] by (simp add: merged_def a_def [symmetric])
  qed
qed

lemma merged_matching:
  assumes m: "log_matching l L" and k: "1 \<le> k" "k \<le> length L" "k \<le> length l"
    and t: "le_Term (l ! (k - 1)) = le_Term (L ! (k - 1))" and es: "es = take c (drop k L)"
  shows "take (k + length es) (merged l k es) = take (k + length es) L \<and> log_matching (merged l k es) L"
  using merged_slice [OF assms] m by (auto simp: log_matching_prefix)

section \<open>Properties\<close>

definition demo_node :: raft where
  "demo_node = raft_Make [True, True, True] 0 \<lparr>content = [], quota = 1000\<rparr> 0"

lemma demo_node_reach: "reach raft_init raft_step demo_node"
  by (rule reach_init) (auto simp: raft_init_def demo_node_def)

lemma demo_node_eq:
  "demo_node = \<lparr>rf_peers = [True, True, True], rf_me = 0, rf_leaderId = -1, rf_triggerCh = False,
     rf_commitCh = False, rf_currentTerm = 0, rf_votedFor = -1,
     rf_log = [\<lparr>le_Index = 0, le_Term = 0, le_Command = []\<rparr>],
     rf_wal = Some (createOrOpenRaftWAL \<lparr>content = [], quota = 1000\<rparr>), rf_commitIndex = 0,
     rf_lastApplied = 0, rf_nextIndex = Map.empty, rf_matchIndex = Map.empty, rf_state = Follower,
     rf_lastResetTime = 0\<rparr>"
  by (simp add: demo_node_def raft_Make_def readPersist_def RecoverEntries_def createOrOpenRaftWAL_def
      recover_rrecs.simps)

text \<open>
  C22: In every state a node can reach, after any start or restart and whatever messages arrive in
  whatever order, none of these critical sections panics: starting an election, handling a
  vote request, handling an AppendEntries request with a non-negative previous index (those that the nodes of a cluster send
  have one: \<open>cluster_type_safety\<close>), building a request, and handling its reply. The applier is not among them: it hands
  over the entries up to the commit index, which is within the log under the conditions of \<open>applier_never_panics\<close>.
\<close>

theorem node_no_panic:
  assumes "reach raft_init raft_step rf" and "0 \<le> aea_PrevLogIndex args"
  shows "(\<exists>r. startElection rf now = Inr r) \<and> (\<exists>r. raft_RequestVote rf vargs now = Inr r) \<and>
    (\<exists>r. raft_AppendEntries rf args now = Inr r) \<and> (\<exists>r. heartbeat_args rf term server = Inr r) \<and>
    (\<exists>r. handleAppendReply rf server args reply = Inr r)"
proof (intro conjI)
  have inv: "rf_log rf \<noteq> []" "0 \<le> rf_commitIndex rf" "next_ok rf"
    using node.reach_inv [OF assms(1)] by (simp_all add: node_inv_def)
  show "\<exists>r. startElection rf now = Inr r" using inv(1) by (simp add: startElection_def Let_def)
  show "\<exists>r. raft_RequestVote rf vargs now = Inr r"
    by (rule raft_RequestVote_outcome [OF inv(1), of vargs now]) blast
  show "\<exists>r. raft_AppendEntries rf args now = Inr r"
    by (rule raft_AppendEntries_outcome [OF assms(2), of rf now]) blast
  show "\<exists>r. heartbeat_args rf term server = Inr r" using inv(3) by (rule heartbeat_args_total)
  show "\<exists>r. handleAppendReply rf server args reply = Inr r" using inv(2) by (rule handleAppendReply_total)
qed

definition demo_append :: AppendEntriesArgs where
  "demo_append = \<lparr>aea_Term = 1, aea_LeaderId = 1, aea_PrevLogIndex = 0, aea_PrevLogTerm = 0,
     aea_Entries = [\<lparr>le_Index = 1, le_Term = 1, le_Command = [7]\<rparr>], aea_LeaderCommit = 0\<rparr>"

theorem node_no_panic_witness:
  "(\<exists>r. startElection demo_node 5 = Inr r) \<and> (\<exists>r. raft_AppendEntries demo_node demo_append 5 = Inr r)"
  using node_no_panic [OF demo_node_reach, of demo_append 5] by (simp add: demo_append_def)

text \<open>
  The term of a node never decreases, over any number of steps from a reachable state.
\<close>

lemma term_monotone:
  assumes "reach raft_init raft_step rf" and "raft_step\<^sup>*\<^sup>* rf rf'"
  shows "rf_currentTerm rf \<le> rf_currentTerm rf'"
  using assms(2) node.reach_inv [OF assms(1)] by (rule node.steps_rank)

lemma term_monotone_witness:
  "\<exists>args rf'. startElection demo_node 5 = Inr (args, rf') \<and> rf_currentTerm rf' = 1 \<and>
     rf_currentTerm demo_node \<le> rf_currentTerm rf'"
proof -
  obtain args rf' where s: "startElection demo_node 5 = Inr (args, rf')" "rf_currentTerm rf' = 1"
    by (simp add: startElection_def demo_node_eq Let_def log_get_def)
  then have "raft_step\<^sup>*\<^sup>* demo_node rf'" by (intro r_into_rtranclp step_startElection)
  from term_monotone [OF demo_node_reach this] s show ?thesis by blast
qed

text \<open>
  C23: Leader append-only: as long as a node stays leader, a step only appends to its log; and
  a step that makes a node leader starts from a candidate, in the same term and with the same log.
  A leader names itself as leader and has voted for itself.
\<close>

theorem leader_append_only:
  assumes "reach raft_init raft_step rf" and "raft_step rf rf'" and "rf_state rf' = Leader"
  shows "(rf_state rf = Leader \<and> (\<exists>es. rf_log rf' = rf_log rf @ es) \<or>
      rf_state rf = Candidate \<and> rf_currentTerm rf' = rf_currentTerm rf \<and> rf_log rf' = rf_log rf) \<and>
    rf_leaderId rf' = rf_me rf \<and> rf_votedFor rf' = rf_me rf"
  using raft_step_keeps [OF assms(2) node.reach_inv [OF assms(1)]] assms(3)
  by (auto simp: node_inv_def node_evolves_def)

definition demo_candidate :: raft where
  "demo_candidate = (case startElection demo_node 5 of Inr (_, rf) \<Rightarrow> rf | Inl _ \<Rightarrow> demo_node)"

lemma demo_candidate_reach: "reach raft_init raft_step demo_candidate"
  by (rule reach_step [OF demo_node_reach step_startElection [of _ 5]])
    (simp add: demo_candidate_def startElection_def demo_node_eq Let_def log_get_def)

lemma demo_candidate_fields: "rf_state demo_candidate = Candidate" "rf_currentTerm demo_candidate = 1"
  "rf_peers demo_candidate = [True, True, True]" "rf_me demo_candidate = 0"
  "rf_log demo_candidate = [\<lparr>le_Index = 0, le_Term = 0, le_Command = []\<rparr>]"
  by (simp_all add: demo_candidate_def startElection_def demo_node_eq Let_def log_get_def)

theorem leader_append_only_witness:
  "rf_leaderId (snd (snd (handleVoteReply demo_candidate 1 1 \<lparr>rvr_Term = 1, rvr_VoteGranted = True\<rparr>))) = 0"
proof -
  obtain n b rf where r: "handleVoteReply demo_candidate 1 1 \<lparr>rvr_Term = 1, rvr_VoteGranted = True\<rparr> = (n, b, rf)"
    by (rule prod_cases3)
  then have "rf_state rf = Leader"
    by (auto simp: handleVoteReply_def demo_candidate_fields votesRequired_def init_leader_eq)
  from leader_append_only [OF demo_candidate_reach step_VoteReply [OF r] this] r show ?thesis
    by (simp add: demo_candidate_fields)
qed

text \<open>
  Log matching between a leader and a follower is established and kept: if the request was
  built from the leader's log and the follower accepts it, then afterwards the follower's log
  agrees with the leader's up to the last entry sent, and the two logs still match.
\<close>

lemma append_log_matching:
  assumes "rf_state ld = Leader" and "rf_nextIndex ld server = Some (int k)" and "1 \<le> k"
    and "k \<le> length (rf_log ld)" and "log_matching (rf_log rf) (rf_log ld)"
    and "heartbeat_args ld tm server = Inr (Some args)"
    and "raft_AppendEntries rf args now = Inr (reply, rf')" and "aer_Success reply"
  shows "take (k + length (aea_Entries args)) (rf_log rf') = take (k + length (aea_Entries args)) (rf_log ld) \<and>
    log_matching (rf_log rf') (rf_log ld)"
proof -
  have args: "aea_PrevLogIndex args = int (k - 1)" "aea_PrevLogTerm args = le_Term (rf_log ld ! (k - 1))"
    "aea_Entries args = take 100 (drop k (rf_log ld))"
    using heartbeat_args_leader [OF assms(1-3), of tm] assms(4,6) by auto
  from raft_AppendEntries_success [OF assms(7)] assms(8)
  have acc: "accepts rf args" and "append_outcome rf args reply rf'" by (auto simp: append_outcome_def)
  moreover have k: "nat (aea_PrevLogIndex args) = k - 1" "Suc (k - 1) = k"
    using assms(3) by (simp_all only: args(1) nat_int le_add_diff_inverse plus_1_eq_Suc [symmetric])
  ultimately have log: "rf_log rf' = merged (rf_log rf) k (aea_Entries args)"
    by (simp add: append_outcome_def k del: One_nat_def)
  from acc assms(3) have "k \<le> length (rf_log rf)" "le_Term (rf_log rf ! (k - 1)) = le_Term (rf_log ld ! (k - 1))"
    by (simp_all add: accepts_def k args(2) del: One_nat_def) (simp add: args(1))
  from merged_matching [OF assms(5,3,4) this args(3)] show ?thesis by (simp add: log)
qed

definition demo_leader :: raft where
  "demo_leader = demo_node\<lparr>rf_state := Leader, rf_currentTerm := 1,
     rf_log := [\<lparr>le_Index = 0, le_Term = 0, le_Command = []\<rparr>, \<lparr>le_Index = 1, le_Term = 1, le_Command = [7]\<rparr>],
     rf_nextIndex := [1 \<mapsto> 1]\<rparr>"

lemma append_log_matching_witness:
  "\<exists>args reply rf'. heartbeat_args demo_leader 1 1 = Inr (Some args) \<and>
     raft_AppendEntries demo_node args 5 = Inr (reply, rf') \<and> aer_Success reply \<and>
     take 2 (rf_log rf') = rf_log demo_leader"
proof -
  have ld: "rf_state demo_leader = Leader" "rf_nextIndex demo_leader 1 = Some (int 1)" "1 \<le> length (rf_log demo_leader)"
    "log_matching (rf_log demo_node) (rf_log demo_leader)"
    by (simp_all add: demo_leader_def demo_node_eq log_matching_def)
  note h = heartbeat_args_leader [OF ld(1,2) le_refl, of 1]
  obtain args where a: "heartbeat_args demo_leader 1 1 = Inr (Some args)" "aea_PrevLogIndex args = 0"
    "aea_PrevLogTerm args = 0" "length (aea_Entries args) = 1" "aea_Term args = 1"
    using h by (simp add: demo_leader_def)
  obtain reply rf' where r: "raft_AppendEntries demo_node args 5 = Inr (reply, rf')" "append_outcome demo_node args reply rf'"
    by (rule raft_AppendEntries_outcome [of args demo_node 5]) (simp_all add: a)
  then have "aer_Success reply" by (simp add: append_outcome_def accepts_def a demo_node_eq)
  with append_log_matching [OF ld(1,2) le_refl ld(3,4) a(1) r(1)] a r(1) show ?thesis
    by (auto simp: demo_leader_def numeral_2_eq_2)
qed

text \<open>
  C16: What an accepted AppendEntries request does to the log. Up to and including the previous index it is untouched. Behind it,
  let \<open>a\<close> be the number of sent entries before the first one that is missing in the log or has another term there. If
  there is no such entry, the log is unchanged; otherwise it is cut off there and continues with exactly the rest of the
  sent entries, commands included, and nothing behind them. Handling the same request again changes nothing.
\<close>

theorem append_safe_merge:
  assumes "raft_AppendEntries rf args now = Inr (reply, rf')" and "aer_Success reply"
    and "i = nat (aea_PrevLogIndex args)"
  shows "take (Suc i) (rf_log rf') = take (Suc i) (rf_log rf) \<and>
    (\<exists>a \<le> length (aea_Entries args).
       (\<forall>k < a. Suc i + k < length (rf_log rf) \<and> le_Term (rf_log rf ! (Suc i + k)) = le_Term (aea_Entries args ! k)) \<and>
       (a < length (aea_Entries args) \<longrightarrow> length (rf_log rf) \<le> Suc i + a \<or>
          le_Term (rf_log rf ! (Suc i + a)) \<noteq> le_Term (aea_Entries args ! a)) \<and>
       rf_log rf' = (if a = length (aea_Entries args) then rf_log rf
                     else take (Suc i + a) (rf_log rf) @ drop a (aea_Entries args))) \<and>
    (\<exists>reply2 rf2. raft_AppendEntries rf' args now2 = Inr (reply2, rf2) \<and> aer_Success reply2 \<and>
       rf_log rf2 = rf_log rf')"
proof -
  let ?es = "aea_Entries args" and ?l = "rf_log rf"
  let ?a = "agree ?l (Suc i) ?es"
  from raft_AppendEntries_success [OF assms(1)] assms(2)
  have acc: "accepts rf args" and out: "append_outcome rf args reply rf'" and prev: "0 \<le> aea_PrevLogIndex args"
    by (auto simp: append_outcome_def)
  have log: "rf_log rf' = merged ?l (Suc i) ?es"
    and tm: "rf_currentTerm rf' = aea_Term args" and le: "Suc i \<le> length ?l"
    using acc out prev assms(3) by (auto simp: append_outcome_def accepts_def)
  have pre: "take (Suc i) (rf_log rf') = take (Suc i) ?l" using merged_prefix [OF le] log by simp
  then have "rf_log rf' ! i = ?l ! i" using nth_take [of i "Suc i"] by (metis lessI)
  moreover have "Suc i + length ?es \<le> length (rf_log rf')" using merged_length [OF le] log by simp
  ultimately have acc2: "accepts rf' args"
    using acc prev tm assms(3) by (auto simp: accepts_def)
  obtain reply2 rf2 where 2: "raft_AppendEntries rf' args now2 = Inr (reply2, rf2)" "append_outcome rf' args reply2 rf2"
    by (rule raft_AppendEntries_outcome [OF prev])
  have "rf_log rf2 = rf_log rf'" "aer_Success reply2"
    using 2(2) acc2 assms(3) merged_again [OF le] log by (simp_all add: append_outcome_def)
  moreover have "?a \<le> length ?es" by (rule agree_le)
  moreover have "\<forall>k < ?a. Suc i + k < length ?l \<and> le_Term (?l ! (Suc i + k)) = le_Term (?es ! k)"
    using agree_in_range [OF le, of ?es] agree_terms [of _ ?l "Suc i" ?es] by auto
  moreover have "?a < length ?es \<longrightarrow> length ?l \<le> Suc i + ?a \<or> le_Term (?l ! (Suc i + ?a)) \<noteq> le_Term (?es ! ?a)"
    using agree_stop [of ?l "Suc i" ?es] not_le by blast
  moreover note log [unfolded merged_def]
  ultimately show ?thesis using pre 2(1) by blast
qed

lemma demo_append_run: "\<exists>reply rf'. raft_AppendEntries demo_node demo_append 5 = Inr (reply, rf') \<and> aer_Success reply"
  by (rule raft_AppendEntries_outcome [of demo_append demo_node 5])
    (auto simp: demo_append_def append_outcome_def accepts_def demo_node_eq)

theorem append_safe_merge_witness:
  "\<exists>reply rf'. raft_AppendEntries demo_node demo_append 5 = Inr (reply, rf') \<and>
     rf_log rf' = rf_log demo_node @ [\<lparr>le_Index = 1, le_Term = 1, le_Command = [7]\<rparr>]"
proof -
  obtain reply rf' where r: "raft_AppendEntries demo_node demo_append 5 = Inr (reply, rf')" "aer_Success reply"
    using demo_append_run by blast
  have n: "length (aea_Entries demo_append) = 1" "nat (aea_PrevLogIndex demo_append) = 0" "length (rf_log demo_node) = 1"
    by (simp_all add: demo_append_def demo_node_eq)
  obtain a where "\<forall>k < a. Suc 0 + k < length (rf_log demo_node)"
    "rf_log rf' = (if a = length (aea_Entries demo_append) then rf_log demo_node
       else take (Suc 0 + a) (rf_log demo_node) @ drop a (aea_Entries demo_append))"
    using append_safe_merge [OF r refl, of 5] unfolding n(2) by blast
  then have "rf_log rf' = rf_log demo_node @ aea_Entries demo_append" using n by (cases a) auto
  then have "rf_log rf' = rf_log demo_node @ [\<lparr>le_Index = 1, le_Term = 1, le_Command = [7]\<rparr>]" by (simp add: demo_append_def)
  with r(1) show ?thesis by blast
qed

text \<open>
  A rejected AppendEntries request tells the leader where to go back to: to the end of a
  log that is too short, or else to the first index of the run of entries with the
  conflicting term that ends at the previous index.
\<close>

lemma reject_conflict_index:
  assumes "rf_currentTerm rf \<le> aea_Term args" and "0 \<le> aea_PrevLogIndex args"
    and "raft_AppendEntries rf args now = Inr (reply, rf')" and "\<not> aer_Success reply"
  shows "(int (length (rf_log rf)) \<le> aea_PrevLogIndex args \<and> aer_ConflictTerm reply = -1 \<and>
      aer_ConflictIndex reply = int (length (rf_log rf))) \<or>
    (\<exists>j. aer_ConflictIndex reply = int j \<and> int j \<le> aea_PrevLogIndex args \<and>
      aea_PrevLogIndex args < int (length (rf_log rf)) \<and>
      aer_ConflictTerm reply = le_Term (rf_log rf ! nat (aea_PrevLogIndex args)) \<and>
      aer_ConflictTerm reply \<noteq> aea_PrevLogTerm args \<and>
      (\<forall>i. j \<le> i \<longrightarrow> int i \<le> aea_PrevLogIndex args \<longrightarrow> le_Term (rf_log rf ! i) = aer_ConflictTerm reply) \<and>
      (j = 0 \<or> le_Term (rf_log rf ! (j - 1)) \<noteq> aer_ConflictTerm reply))"
  using assms by (rule raft_AppendEntries_conflict)

lemma reject_conflict_index_witness:
  "\<exists>reply rf'. raft_AppendEntries demo_node (demo_append\<lparr>aea_PrevLogIndex := 4\<rparr>) 5 = Inr (reply, rf') \<and>
     aer_ConflictIndex reply = 1"
proof -
  let ?a = "demo_append\<lparr>aea_PrevLogIndex := 4\<rparr>"
  obtain reply rf' where r: "raft_AppendEntries demo_node ?a 5 = Inr (reply, rf')" "append_outcome demo_node ?a reply rf'"
    by (rule raft_AppendEntries_outcome [of ?a demo_node 5]) simp_all
  then have "\<not> aer_Success reply" by (simp add: append_outcome_def accepts_def demo_node_eq)
  from reject_conflict_index [OF _ _ r(1) this] r(1) show ?thesis
    by (auto simp: demo_append_def demo_node_eq)
qed

text \<open>
  C17: The commit rule: handling a successful reply moves the commit index only forward, and only
  to an index whose entry has the current term and is stored by a majority of the peers
  (counting the leader); it moves to the largest such index.
\<close>

theorem commit_majority:
  assumes "0 \<le> rf_commitIndex rf" and "aer_Term reply \<le> rf_currentTerm rf" and "aer_Success reply"
    and "handleAppendReply rf server args reply = Inr rf'"
  shows "rf_commitIndex rf \<le> rf_commitIndex rf' \<and>
    (rf_commitIndex rf < rf_commitIndex rf' \<longrightarrow>
       rf_commitIndex rf' < int (length (rf_log rf)) \<and>
       le_Term (rf_log rf ! nat (rf_commitIndex rf')) = rf_currentTerm rf \<and>
       length (rf_peers rf) < 2 * match_count rf' (rf_commitIndex rf')) \<and>
    (\<forall>N. rf_commitIndex rf' < N \<and> N < int (length (rf_log rf)) \<and>
       length (rf_peers rf) < 2 * match_count rf' N \<longrightarrow> le_Term (rf_log rf ! nat N) \<noteq> rf_currentTerm rf)"
proof -
  define rf1 where "rf1 = advance_indices rf server (aea_PrevLogIndex args + int (length (aea_Entries args)))"
  have same: "rf_commitIndex rf1 = rf_commitIndex rf" "rf_log rf1 = rf_log rf"
    "rf_currentTerm rf1 = rf_currentTerm rf" "rf_peers rf1 = rf_peers rf"
    by (simp_all add: rf1_def advance_indices_def)
  have scan: "commit_scan rf1 (int (length (rf_log rf1)) - 1) = Inr rf'"
    using assms(2-4) by (simp add: handleAppendReply_def Let_def rf1_def)
  from commit_scan_result [OF this] obtain M c where
    rf': "rf' = rf1\<lparr>rf_commitIndex := M, rf_commitCh := c\<rparr>" by blast
  then have count: "match_count rf' N = match_count rf1 N" for N by (simp add: match_count_def)
  have half: "(n div 2 < m) = (n < 2 * m)" for n m :: nat by presburger
  have com: "committable rf1 N \<longleftrightarrow> length (rf_peers rf) < 2 * match_count rf' N \<and>
      le_Term (rf_log rf ! nat N) = rf_currentTerm rf" if "0 \<le> N" "N < int (length (rf_log rf))" for N
    using that by (simp add: committable_def count same log_get_def half)
  have "-1 \<le> rf_commitIndex rf1" using assms(1) same(1) by simp
  from commit_scan_spec [OF this, of "int (length (rf_log rf1)) - 1"] scan
  consider (up) M where "rf_commitIndex rf < M" "M < int (length (rf_log rf))" "committable rf1 M"
      "\<And>K. M < K \<Longrightarrow> K < int (length (rf_log rf)) \<Longrightarrow> \<not> committable rf1 K" "rf_commitIndex rf' = M"
    | (stay) "\<And>K. rf_commitIndex rf < K \<Longrightarrow> K < int (length (rf_log rf)) \<Longrightarrow> \<not> committable rf1 K"
      "rf_commitIndex rf' = rf_commitIndex rf"
    by (auto simp: same)
  then show ?thesis
  proof cases
    case up
    then have "0 \<le> M" using assms(1) by simp
    with up com [of M] have "length (rf_peers rf) < 2 * match_count rf' M"
      "le_Term (rf_log rf ! nat M) = rf_currentTerm rf" by simp_all
    moreover have "le_Term (rf_log rf ! nat N) \<noteq> rf_currentTerm rf"
      if "M < N" "N < int (length (rf_log rf))" "length (rf_peers rf) < 2 * match_count rf' N" for N
      using up(4) [OF that(1,2)] com [of N] that \<open>0 \<le> M\<close> by simp
    ultimately show ?thesis using up(1,2,5) by simp
  next
    case stay
    have "le_Term (rf_log rf ! nat N) \<noteq> rf_currentTerm rf"
      if "rf_commitIndex rf < N" "N < int (length (rf_log rf))" "length (rf_peers rf) < 2 * match_count rf' N" for N
      using stay(1) [OF that(1,2)] com [of N] that assms(1) by simp
    with stay(2) show ?thesis by simp
  qed
qed

definition demo_reply :: AppendEntriesReply where
  "demo_reply = \<lparr>aer_Term = 1, aer_Success = True, aer_ConflictIndex = 0, aer_ConflictTerm = 0\<rparr>"

theorem commit_majority_witness:
  "\<exists>rf'. handleAppendReply demo_leader 1 demo_append demo_reply = Inr rf' \<and> rf_commitIndex rf' = 1 \<and>
     length (rf_peers demo_leader) < 2 * match_count rf' 1"
proof -
  have "handleAppendReply demo_leader 1 demo_append demo_reply =
    Inr ((advance_indices demo_leader 1 1)\<lparr>rf_commitIndex := 1, rf_commitCh := True\<rparr>)"
    by (simp add: handleAppendReply_def demo_reply_def demo_append_def demo_leader_def demo_node_eq
        advance_indices_def mget_def commit_scan.simps match_count_def log_get_def Let_def upt_rec)
  from commit_majority [OF _ _ _ this] this show ?thesis
    by (simp add: demo_leader_def demo_node_eq demo_reply_def)
qed

text \<open>
  The vote is forgotten within a term: every accepted or rejected AppendEntries request of
  the current term clears \<open>votedFor\<close>, so a node that has voted for one candidate in a term
  votes for any other candidate of the same term whose log is up to date.
\<close>

lemma vote_forgotten:
  assumes "rf_votedFor rf = a" and "b \<noteq> a"
    and "raft_AppendEntries rf args now = Inr (reply, rf')" and "aea_Term args = rf_currentTerm rf"
    and "rf_log rf \<noteq> []" and "rva_Term vargs = rf_currentTerm rf" and "rva_CandidateId vargs = b"
    and "logOk (le_Term (last (rf_log rf'))) (int (length (rf_log rf')) - 1) vargs"
  shows "\<exists>vreply rf''. raft_RequestVote rf' vargs now2 = Inr (vreply, rf'') \<and> rvr_VoteGranted vreply \<and>
    rf_currentTerm rf'' = rf_currentTerm rf \<and> rf_votedFor rf'' = b"
proof -
  have out: "append_outcome rf args reply rf'" using raft_AppendEntries_success [OF assms(3)] by simp
  then have log: "rf_log rf' \<noteq> []" and st: "rf_votedFor rf' = -1" "rf_currentTerm rf' = rf_currentTerm rf"
    using assms(4,5) by (auto simp: append_outcome_def merged_nonempty)
  then show ?thesis
    by (rule_tac raft_RequestVote_outcome [OF log, of vargs now2])
      (use assms(6-8) in \<open>auto simp: vote_outcome_def grants_def\<close>)
qed

lemma vote_forgotten_witness:
  "\<exists>reply rf'. raft_AppendEntries (demo_node\<lparr>rf_currentTerm := 1, rf_votedFor := 1\<rparr>) demo_append 5 = Inr (reply, rf') \<and>
    (\<exists>vreply rf''. raft_RequestVote rf' \<lparr>rva_Term = 1, rva_CandidateId = 2, rva_LastLogIndex = 5,
       rva_LastLogTerm = 3\<rparr> 6 = Inr (vreply, rf'') \<and> rvr_VoteGranted vreply \<and> rf_votedFor rf'' = 2)"
proof -
  let ?n = "demo_node\<lparr>rf_currentTerm := 1, rf_votedFor := 1\<rparr>"
  obtain reply rf' where r: "raft_AppendEntries ?n demo_append 5 = Inr (reply, rf')" "append_outcome ?n demo_append reply rf'"
    by (rule raft_AppendEntries_outcome [of demo_append ?n 5]) (simp_all add: demo_append_def)
  then have "le_Term (last (rf_log rf')) < 3"
    by (simp add: append_outcome_def accepts_def demo_append_def demo_node_eq merged_def)
  with vote_forgotten [of ?n 1 2, OF _ _ r(1), of "\<lparr>rva_Term = 1, rva_CandidateId = 2, rva_LastLogIndex = 5,
       rva_LastLogTerm = 3\<rparr>" 6] r(1) show ?thesis
    by (auto simp: demo_append_def demo_node_eq logOk_def)
qed

text \<open>
  The follower's commit index is not monotone: when the leader's commit index is ahead, an
  accepted request sets the follower's to the smaller of the leader's and the index of the last
  entry sent, which is below the follower's own commit index if that last entry is.
\<close>

lemma commit_index_regresses:
  assumes "raft_AppendEntries rf args now = Inr (reply, rf')" and "aer_Success reply"
    and "rf_commitIndex rf < aea_LeaderCommit args"
    and "aea_PrevLogIndex args + int (length (aea_Entries args)) < rf_commitIndex rf"
  shows "rf_commitIndex rf' < rf_commitIndex rf"
  using raft_AppendEntries_success [OF assms(1)] assms(2-4) by (auto simp: append_outcome_def)

lemma commit_index_regresses_witness:
  "\<exists>reply rf'. raft_AppendEntries (demo_leader\<lparr>rf_commitIndex := 1\<rparr>)
     (demo_append\<lparr>aea_Entries := [], aea_LeaderCommit := 2\<rparr>) 5 = Inr (reply, rf') \<and> rf_commitIndex rf' < 1"
proof -
  let ?n = "demo_leader\<lparr>rf_commitIndex := 1\<rparr>" and ?a = "demo_append\<lparr>aea_Entries := [], aea_LeaderCommit := 2\<rparr>"
  obtain reply rf' where r: "raft_AppendEntries ?n ?a 5 = Inr (reply, rf')" "append_outcome ?n ?a reply rf'"
    by (rule raft_AppendEntries_outcome [of ?a ?n 5]) (simp_all add: demo_append_def)
  then have "aer_Success reply"
    by (simp add: append_outcome_def accepts_def demo_append_def demo_leader_def)
  from commit_index_regresses [OF r(1) this] r(1) show ?thesis by (simp add: demo_append_def)
qed

end
