(* ===== verification/Raft_Cluster.thy ===== *)
theory Raft_Cluster
  imports Raft_Node
begin

text \<open>
  A cluster of Raft nodes: the nodes, the RPCs in flight and the vote counters of the elections
  (\<open>votesReceived\<close> of \<open>startElection\<close>, one per node and term). Each step is one critical section of
  one node, with the message it consumes and the ones it causes. A vote request and its reply are
  delivered at most once, as the goroutine of the caller waits for one reply; AppendEntries requests
  and replies may be delivered any number of times, which covers what the code can do. Any message
  may be lost. Two history variables record who voted for whom and whose votes were counted.

  An AppendEntries request erases the vote of the current term. The lemmas show that there is at
  most one leader per term as long as no node votes a second time in a term after that, and that
  there can be two leaders otherwise.
\<close>

datatype rpc =
    VoteReq nat nat RequestVoteArgs
  | VoteRep nat nat int RequestVoteReply
  | Heartbeat nat nat int \<comment> \<open>a goroutine of \<open>sendHeartBeats\<close> that has not yet built its request\<close>
  | AppReq nat nat AppendEntriesArgs
  | AppRep nat nat AppendEntriesArgs AppendEntriesReply

record cluster =
  cl_size :: nat
  cl_node :: "nat \<Rightarrow> raft"
  cl_msgs :: "rpc set"
  cl_votes :: "nat \<Rightarrow> int \<Rightarrow> int"
  cl_granted :: "(nat \<times> int \<times> nat) set" \<comment> \<open>history: voter, term, candidate\<close>
  cl_counted :: "nat \<Rightarrow> int \<Rightarrow> nat set" \<comment> \<open>history: candidate, term, voters\<close>

abbreviation set_node :: "nat \<Rightarrow> raft \<Rightarrow> cluster \<Rightarrow> cluster" where
  "set_node i rf c \<equiv> c\<lparr>cl_node := (cl_node c)(i := rf)\<rparr>"

definition upd2 :: "('a \<Rightarrow> 'b \<Rightarrow> 'c) \<Rightarrow> 'a \<Rightarrow> 'b \<Rightarrow> 'c \<Rightarrow> 'a \<Rightarrow> 'b \<Rightarrow> 'c" where
  "upd2 f a b x = f(a := (f a)(b := x))"

lemma upd2_apply [simp]: "upd2 f a b x a' b' = (if a' = a \<and> b' = b then x else f a' b')"
  by (simp add: upd2_def)

text \<open>
  The voter has voted in its current term, an AppendEntries request of that term has erased the vote,
  and another vote request of the term arrives. With \<open>strict\<close>, this does not happen. With \<open>timely\<close>,
  a goroutine of \<open>sendHeartBeats\<close> builds its request and handles the reply in the term in which it was
  started; the code does not check that, so a goroutine can be overtaken by the node losing an election and
  winning a later one.
\<close>

definition vote_erased :: "cluster \<Rightarrow> nat \<Rightarrow> RequestVoteArgs \<Rightarrow> bool" where
  "vote_erased c j args \<longleftrightarrow> rva_Term args = rf_currentTerm (cl_node c j) \<and> rf_votedFor (cl_node c j) = -1 \<and>
     (\<exists>k. (j, rva_Term args, k) \<in> cl_granted c)"

inductive cluster_step :: "bool \<Rightarrow> bool \<Rightarrow> cluster \<Rightarrow> cluster \<Rightarrow> bool" for strict timely where
  elect: "i < cl_size c \<Longrightarrow> startElection (cl_node c i) now = Inr (args, rf') \<Longrightarrow>
    cluster_step strict timely c ((set_node i rf' c)\<lparr>
      cl_msgs := cl_msgs c \<union> {VoteReq i j args | j. j < cl_size c \<and> j \<noteq> i},
      cl_votes := upd2 (cl_votes c) i (rf_currentTerm rf') 1,
      cl_granted := insert (i, rf_currentTerm rf', i) (cl_granted c),
      cl_counted := upd2 (cl_counted c) i (rf_currentTerm rf') {i}\<rparr>)"
| vote: "VoteReq i j args \<in> cl_msgs c \<Longrightarrow> raft_RequestVote (cl_node c j) args now = Inr (reply, rf') \<Longrightarrow>
    (strict \<longrightarrow> \<not> vote_erased c j args) \<Longrightarrow>
    cluster_step strict timely c ((set_node j rf' c)\<lparr>
      cl_msgs := insert (VoteRep i j (rva_Term args) reply) (cl_msgs c - {VoteReq i j args}),
      cl_granted := (if rvr_VoteGranted reply then insert (j, rva_Term args, i) (cl_granted c) else cl_granted c)\<rparr>)"
| count: "VoteRep i j t reply \<in> cl_msgs c \<Longrightarrow>
    handleVoteReply (cl_node c i) t (cl_votes c i t) reply = (n, won, rf') \<Longrightarrow>
    cluster_step strict timely c ((set_node i rf' c)\<lparr>
      cl_msgs := cl_msgs c - {VoteRep i j t reply},
      cl_votes := upd2 (cl_votes c) i t n,
      cl_counted := (if n \<noteq> cl_votes c i t then upd2 (cl_counted c) i t (insert j (cl_counted c i t)) else cl_counted c)\<rparr>)"
| beat: "i < cl_size c \<Longrightarrow> sendHeartBeats_term (cl_node c i) = Some t \<Longrightarrow>
    cluster_step strict timely c (c\<lparr>cl_msgs := cl_msgs c \<union> {Heartbeat i j t | j. int j \<in> set (heartbeat_peers (cl_node c i))}\<rparr>)"
| send: "Heartbeat i j t \<in> cl_msgs c \<Longrightarrow> heartbeat_args (cl_node c i) t (int j) = Inr (Some args) \<Longrightarrow>
    (timely \<longrightarrow> t = rf_currentTerm (cl_node c i)) \<Longrightarrow>
    cluster_step strict timely c (c\<lparr>cl_msgs := insert (AppReq i j args) (cl_msgs c)\<rparr>)"
| append: "AppReq i j args \<in> cl_msgs c \<Longrightarrow> raft_AppendEntries (cl_node c j) args now = Inr (reply, rf') \<Longrightarrow>
    cluster_step strict timely c ((set_node j rf' c)\<lparr>cl_msgs := insert (AppRep i j args reply) (cl_msgs c)\<rparr>)"
| ack: "AppRep i j args reply \<in> cl_msgs c \<Longrightarrow> handleAppendReply (cl_node c i) (int j) args reply = Inr rf' \<Longrightarrow>
    (timely \<longrightarrow> aea_Term args = rf_currentTerm (cl_node c i)) \<Longrightarrow>
    cluster_step strict timely c (set_node i rf' c)"
| client: "raft_Start (cl_node c i) cmd = (r, rf') \<Longrightarrow> cluster_step strict timely c (set_node i rf' c)"
| applier: "applier_round (cl_node c i) = Some (Inr (es, rf')) \<Longrightarrow> cluster_step strict timely c (set_node i rf' c)"
| replicator: "cluster_step strict timely c (set_node i (replicator_step (cl_node c i)) c)"
| lose: "cluster_step strict timely c (c\<lparr>cl_msgs := cl_msgs c - {m}\<rparr>)"

text \<open>The start: every node comes from \<open>Make\<close>, with the same number of peers, and nothing is in flight.\<close>

definition cluster_init :: "cluster \<Rightarrow> bool" where
  "cluster_init c \<longleftrightarrow> cl_msgs c = {} \<and> cl_votes c = (\<lambda>_ _. 0) \<and> cl_granted c = {} \<and> cl_counted c = (\<lambda>_ _. {}) \<and>
     (\<forall>i. \<exists>peers file now. cl_node c i = raft_Make peers (int i) file now \<and> length peers = cl_size c)"

section \<open>The invariant\<close>

definition inv_nodes :: "cluster \<Rightarrow> bool" where
  "inv_nodes c \<longleftrightarrow> (\<forall>i. rf_me (cl_node c i) = int i \<and> length (rf_peers (cl_node c i)) = cl_size c)"

text \<open>A vote is for a term the voter has reached, and the one of its current term is remembered or erased.\<close>

definition inv_granted :: "cluster \<Rightarrow> bool" where
  "inv_granted c \<longleftrightarrow> (\<forall>v t k. (v, t, k) \<in> cl_granted c \<longrightarrow> v < cl_size c \<and> t \<le> rf_currentTerm (cl_node c v) \<and>
     (t = rf_currentTerm (cl_node c v) \<longrightarrow> rf_votedFor (cl_node c v) \<in> {int k, -1}))"

definition inv_once :: "cluster \<Rightarrow> bool" where
  "inv_once c \<longleftrightarrow> (\<forall>v t k k'. (v, t, k) \<in> cl_granted c \<longrightarrow> (v, t, k') \<in> cl_granted c \<longrightarrow> k = k')"

text \<open>A request, or its reply, is in flight or counted, never twice.\<close>

definition req_ok :: "cluster \<Rightarrow> nat \<Rightarrow> nat \<Rightarrow> RequestVoteArgs \<Rightarrow> bool" where
  "req_ok c i j args \<longleftrightarrow> i < cl_size c \<and> j < cl_size c \<and>
     rva_CandidateId args = int i \<and> rva_Term args \<le> rf_currentTerm (cl_node c i) \<and>
     j \<notin> cl_counted c i (rva_Term args) \<and> (\<forall>r. VoteRep i j (rva_Term args) r \<notin> cl_msgs c) \<and>
     (\<forall>args'. VoteReq i j args' \<in> cl_msgs c \<longrightarrow> rva_Term args' = rva_Term args \<longrightarrow> args' = args)"

definition inv_reqs :: "cluster \<Rightarrow> bool" where
  "inv_reqs c \<longleftrightarrow> (\<forall>i j args. VoteReq i j args \<in> cl_msgs c \<longrightarrow> req_ok c i j args)"

definition rep_ok :: "cluster \<Rightarrow> nat \<Rightarrow> nat \<Rightarrow> int \<Rightarrow> RequestVoteReply \<Rightarrow> bool" where
  "rep_ok c i j t r \<longleftrightarrow> i < cl_size c \<and> t \<le> rf_currentTerm (cl_node c i) \<and>
     j \<notin> cl_counted c i t \<and> (rvr_VoteGranted r \<longrightarrow> (j, t, i) \<in> cl_granted c) \<and>
     (\<forall>r'. VoteRep i j t r' \<in> cl_msgs c \<longrightarrow> r' = r)"

definition inv_reps :: "cluster \<Rightarrow> bool" where
  "inv_reps c \<longleftrightarrow> (\<forall>i j t r. VoteRep i j t r \<in> cl_msgs c \<longrightarrow> rep_ok c i j t r)"

definition inv_counts :: "cluster \<Rightarrow> bool" where
  "inv_counts c \<longleftrightarrow> (\<forall>i t. cl_counted c i t \<subseteq> {v. (v, t, i) \<in> cl_granted c} \<and> cl_votes c i t = int (card (cl_counted c i t)))"

text \<open>A leader has counted a majority.\<close>

definition inv_leader :: "cluster \<Rightarrow> bool" where
  "inv_leader c \<longleftrightarrow> (\<forall>i. rf_state (cl_node c i) = Leader \<longrightarrow>
     cl_size c < 2 * card (cl_counted c i (rf_currentTerm (cl_node c i))))"

definition cluster_inv :: "cluster \<Rightarrow> bool" where
  "cluster_inv c \<longleftrightarrow> inv_nodes c \<and> inv_granted c \<and> inv_once c \<and> inv_reqs c \<and> inv_reps c \<and> inv_counts c \<and> inv_leader c"

lemma cluster_invD:
  assumes "cluster_inv c"
  shows "rf_me (cl_node c i) = int i" "length (rf_peers (cl_node c i)) = cl_size c"
    "(v, t, k) \<in> cl_granted c \<Longrightarrow> v < cl_size c"
    "(v, t, k) \<in> cl_granted c \<Longrightarrow> t \<le> rf_currentTerm (cl_node c v)"
    "(v, t, k) \<in> cl_granted c \<Longrightarrow> t = rf_currentTerm (cl_node c v) \<Longrightarrow> rf_votedFor (cl_node c v) \<in> {int k, -1}"
    "VoteReq i j args \<in> cl_msgs c \<Longrightarrow> req_ok c i j args"
    "VoteRep i j t r \<in> cl_msgs c \<Longrightarrow> rep_ok c i j t r"
    "cl_counted c i t \<subseteq> {v. (v, t, i) \<in> cl_granted c}" "cl_votes c i t = int (card (cl_counted c i t))"
    "rf_state (cl_node c i) = Leader \<Longrightarrow> cl_size c < 2 * card (cl_counted c i (rf_currentTerm (cl_node c i)))"
  using assms unfolding cluster_inv_def inv_nodes_def inv_granted_def inv_reqs_def inv_reps_def inv_counts_def inv_leader_def
  by blast+

lemma cluster_inv_once:
  "cluster_inv c \<Longrightarrow> (v, t, k) \<in> cl_granted c \<Longrightarrow> (v, t, k') \<in> cl_granted c \<Longrightarrow> k = k'"
  unfolding cluster_inv_def inv_once_def by blast

text \<open>Two majorities of the same cluster meet, so there is one leader per term.\<close>

definition quorum :: "nat \<Rightarrow> nat set \<Rightarrow> bool" where
  "quorum n Q \<longleftrightarrow> Q \<subseteq> {..<n} \<and> n < 2 * card Q"

lemma quorum_meet:
  assumes "quorum n Q" and "quorum n Q'"
  shows "\<exists>v. v \<in> Q \<and> v \<in> Q'"
proof (rule ccontr)
  assume "\<not> ?thesis"
  then have disj: "Q \<inter> Q' = {}" by blast
  have sub: "Q \<subseteq> {..<n}" "Q' \<subseteq> {..<n}" using assms by (simp_all add: quorum_def)
  then have "finite Q" "finite Q'" using finite_subset by blast+
  then have "card Q + card Q' = card (Q \<union> Q')" using disj by (simp add: card_Un_disjoint)
  also have "\<dots> \<le> card {..<n}" using sub by (intro card_mono) auto
  finally show False using assms by (simp add: quorum_def)
qed

lemma counted_range: "cluster_inv c \<Longrightarrow> cl_counted c i t \<subseteq> {..<cl_size c}"
  using cluster_invD(3,8) [of c] by fastforce

lemma counted_once:
  assumes "cluster_inv c" and "cl_size c < 2 * card (cl_counted c i t)" and "cl_size c < 2 * card (cl_counted c j t)"
  shows "i = j"
proof -
  have "quorum (cl_size c) (cl_counted c k t)" if "k = i \<or> k = j" for k
    using that assms counted_range [OF assms(1)] by (auto simp: quorum_def)
  then obtain v where "v \<in> cl_counted c i t" "v \<in> cl_counted c j t" using quorum_meet by metis
  with cluster_invD(8) [OF assms(1)] cluster_inv_once [OF assms(1), of v t i j] show ?thesis by blast
qed

lemma one_leader:
  assumes "cluster_inv c" and "rf_state (cl_node c i) = Leader" and "rf_state (cl_node c j) = Leader"
    and "rf_currentTerm (cl_node c i) = rf_currentTerm (cl_node c j)"
  shows "i = j"
  using counted_once [OF assms(1)] cluster_invD(10) [OF assms(1)] assms(2-4) by metis

section \<open>Every step keeps the invariant\<close>

text \<open>What a critical section does that neither votes nor wins: it keeps or erases the vote of its term.\<close>

definition quiet :: "raft \<Rightarrow> raft \<Rightarrow> bool" where
  "quiet rf rf' \<longleftrightarrow> rf_me rf' = rf_me rf \<and> rf_peers rf' = rf_peers rf \<and> rf_currentTerm rf \<le> rf_currentTerm rf' \<and>
     (rf_currentTerm rf' = rf_currentTerm rf \<longrightarrow> rf_votedFor rf' \<in> {rf_votedFor rf, -1}) \<and>
     (rf_state rf' = Leader \<longrightarrow> rf_state rf = Leader \<and> rf_currentTerm rf' = rf_currentTerm rf)"

lemma quiet_refl [simp]: "quiet rf rf"
  by (simp add: quiet_def)

lemma quiet_Start: "raft_Start rf cmd = (r, rf') \<Longrightarrow> quiet rf rf'"
  by (auto simp: raft_Start_def Let_def quiet_def split: if_splits option.splits)

lemma quiet_applier: "applier_round rf = Some (Inr (es, rf')) \<Longrightarrow> quiet rf rf'"
  by (auto dest!: applier_roundD(2) simp: applier_step_def Let_def quiet_def split: if_splits option.splits)

lemma quiet_replicator: "quiet rf (replicator_step rf)"
  by (simp add: replicator_step_def quiet_def)

lemma quiet_append:
  assumes "raft_AppendEntries rf args now = Inr (reply, rf')"
  shows "quiet rf rf'"
  using raft_AppendEntries_success [OF assms]
  by (auto simp: append_outcome_def quiet_def split: if_splits)

lemma quiet_ack:
  assumes "handleAppendReply rf server args reply = Inr rf'"
  shows "quiet rf rf'"
proof (cases "\<not> aer_Term reply > rf_currentTerm rf \<and> aer_Success reply")
  case True
  define rf1 where "rf1 = advance_indices rf server (aea_PrevLogIndex args + int (length (aea_Entries args)))"
  from True assms have "commit_scan rf1 (int (length (rf_log rf1)) - 1) = Inr rf'"
    by (simp add: handleAppendReply_def Let_def rf1_def)
  from commit_scan_result [OF this] have "quiet rf1 rf'" by (auto simp: quiet_def)
  moreover have "rf_me rf1 = rf_me rf" "rf_peers rf1 = rf_peers rf" "rf_currentTerm rf1 = rf_currentTerm rf"
    "rf_votedFor rf1 = rf_votedFor rf" "rf_state rf1 = rf_state rf"
    by (simp_all add: rf1_def advance_indices_def)
  ultimately show ?thesis by (simp add: quiet_def)
next
  case False
  with assms show ?thesis by (auto simp: handleAppendReply_def quiet_def split: if_splits)
qed

text \<open>The conditions on a message in flight survive a step that keeps its size and raises its terms.\<close>

lemma req_ok_step:
  assumes "req_ok c i j args" and "cl_size c' = cl_size c" and "rf_currentTerm (cl_node c i) \<le> rf_currentTerm (cl_node c' i)"
    and "j \<notin> cl_counted c' i (rva_Term args)" and "\<And>r. VoteRep i j (rva_Term args) r \<notin> cl_msgs c'"
    and "\<And>args'. VoteReq i j args' \<in> cl_msgs c' \<Longrightarrow> rva_Term args' = rva_Term args \<Longrightarrow> VoteReq i j args' \<in> cl_msgs c"
  shows "req_ok c' i j args"
  using assms unfolding req_ok_def by (metis order_trans)

lemma rep_ok_step:
  assumes "rep_ok c i j t r" and "cl_size c' = cl_size c" and "rf_currentTerm (cl_node c i) \<le> rf_currentTerm (cl_node c' i)"
    and "j \<notin> cl_counted c' i t" and "cl_granted c \<subseteq> cl_granted c'"
    and "\<And>r'. VoteRep i j t r' \<in> cl_msgs c' \<Longrightarrow> VoteRep i j t r' \<in> cl_msgs c"
  shows "rep_ok c' i j t r"
  using assms unfolding rep_ok_def by (metis order_trans subsetD)

definition votes_within :: "rpc set \<Rightarrow> rpc set \<Rightarrow> bool" where
  "votes_within M N \<longleftrightarrow> (\<forall>i j args. VoteReq i j args \<in> M \<longrightarrow> VoteReq i j args \<in> N) \<and>
     (\<forall>i j t r. VoteRep i j t r \<in> M \<longrightarrow> VoteRep i j t r \<in> N)"

lemma votes_withinD [dest]:
  "votes_within M N \<Longrightarrow> VoteReq i j args \<in> M \<Longrightarrow> VoteReq i j args \<in> N"
  "votes_within M N \<Longrightarrow> VoteRep i j t r \<in> M \<Longrightarrow> VoteRep i j t r \<in> N"
  by (simp_all add: votes_within_def)

lemma cluster_inv_quiet:
  assumes inv: "cluster_inv c" and q: "quiet (cl_node c i) rf'" and w: "votes_within M (cl_msgs c)"
  shows "cluster_inv ((set_node i rf' c)\<lparr>cl_msgs := M\<rparr>)"
proof -
  let ?c = "(set_node i rf' c)\<lparr>cl_msgs := M\<rparr>"
  note q = q [unfolded quiet_def] and I = cluster_invD [OF inv]
  have up: "rf_currentTerm (cl_node c k) \<le> rf_currentTerm (cl_node ?c k)" for k using q by simp
  have "inv_nodes ?c" using I(1,2) q by (simp add: inv_nodes_def)
  moreover have "inv_granted ?c"
    unfolding inv_granted_def
  proof (intro allI impI conjI)
    fix v t k assume "(v, t, k) \<in> cl_granted ?c"
    then have g: "(v, t, k) \<in> cl_granted c" by simp
    show "v < cl_size ?c" using I(3) [OF g] by simp
    show "t \<le> rf_currentTerm (cl_node ?c v)" using I(4) [OF g] up [of v] by linarith
    show "rf_votedFor (cl_node ?c v) \<in> {int k, -1}" if "t = rf_currentTerm (cl_node ?c v)"
    proof (cases "v = i")
      case True
      with I(4) [OF g] that q have t: "t = rf_currentTerm (cl_node c i)" "rf_votedFor rf' \<in> {rf_votedFor (cl_node c i), -1}" by auto
      show ?thesis using t(2) I(5) [OF g] t(1) True by auto
    qed (use I(5) [OF g] that in simp)
  qed
  moreover have "inv_once ?c" using inv by (simp add: cluster_inv_def inv_once_def)
  moreover have "inv_reqs ?c"
    unfolding inv_reqs_def
  proof (intro allI impI)
    fix k j args assume "VoteReq k j args \<in> cl_msgs ?c"
    with w have r: "req_ok c k j args" by (intro I(6)) auto
    show "req_ok ?c k j args"
      by (rule req_ok_step [OF r]) (use r w up [of k] in \<open>auto simp: req_ok_def\<close>)
  qed
  moreover have "inv_reps ?c"
    unfolding inv_reps_def
  proof (intro allI impI)
    fix k j t r assume "VoteRep k j t r \<in> cl_msgs ?c"
    with w have r: "rep_ok c k j t r" by (intro I(7)) auto
    show "rep_ok ?c k j t r"
      by (rule rep_ok_step [OF r]) (use r w up [of k] in \<open>auto simp: rep_ok_def\<close>)
  qed
  moreover have "inv_counts ?c" using I(8,9) by (simp add: inv_counts_def)
  moreover have "inv_leader ?c" using I(10) q by (auto simp: inv_leader_def)
  ultimately show ?thesis by (simp add: cluster_inv_def)
qed


lemma cluster_inv_node:
  assumes "cluster_inv c" and "quiet (cl_node c i) rf'"
  shows "cluster_inv (set_node i rf' c)"
  using cluster_inv_quiet [OF assms, of "cl_msgs c"] by (simp add: votes_within_def)

lemma cluster_inv_msgs:
  assumes "cluster_inv c" and "votes_within M (cl_msgs c)"
  shows "cluster_inv (c\<lparr>cl_msgs := M\<rparr>)"
  using cluster_inv_quiet [OF assms(1) quiet_refl assms(2)] by simp

text \<open>An election: a new term, so nothing of it is in flight or counted.\<close>

lemma startElection_result:
  assumes "startElection rf now = Inr (args, rf')"
  shows "rva_Term args = rf_currentTerm rf + 1" "rva_CandidateId args = rf_me rf"
    "rf_currentTerm rf' = rf_currentTerm rf + 1" "rf_votedFor rf' = rf_me rf" "rf_state rf' = Candidate"
    "rf_me rf' = rf_me rf" "rf_peers rf' = rf_peers rf"
  using assms by (auto simp: startElection_def Let_def split: option.splits)

lemma cluster_inv_candidate:
  assumes inv: "cluster_inv c" and i: "i < cl_size c"
    and S: "rva_Term args = rf_currentTerm rf'" "rva_CandidateId args = int i" "rf_currentTerm (cl_node c i) < rf_currentTerm rf'"
      "rf_votedFor rf' = int i" "rf_state rf' = Candidate" "rf_me rf' = int i" "length (rf_peers rf') = cl_size c"
    and c': "c' = (set_node i rf' c)\<lparr>
      cl_msgs := cl_msgs c \<union> {VoteReq i j args | j. j < cl_size c \<and> j \<noteq> i},
      cl_votes := upd2 (cl_votes c) i (rf_currentTerm rf') 1,
      cl_granted := insert (i, rf_currentTerm rf', i) (cl_granted c),
      cl_counted := upd2 (cl_counted c) i (rf_currentTerm rf') {i}\<rparr>"
  shows "cluster_inv c'"
proof -
  note I = cluster_invD [OF inv]
  have up: "rf_currentTerm (cl_node c k) \<le> rf_currentTerm (cl_node c' k)" for k using S by (simp add: c')
  have old: "\<not> (i, rf_currentTerm rf', k) \<in> cl_granted c" for k using I(4) [of i "rf_currentTerm rf'" k] S by auto
  have late: "VoteRep i j (rf_currentTerm rf') r \<notin> cl_msgs c" for j r
    using I(7) [of i j "rf_currentTerm rf'" r] S(3) by (auto simp: rep_ok_def)
  have fresh: "rva_Term a \<noteq> rf_currentTerm rf'" if "VoteReq i j a \<in> cl_msgs c" for j a
    using I(6) [OF that] S(3) by (auto simp: req_ok_def)
  have "inv_nodes c'" using I(1,2) S by (simp add: inv_nodes_def c')
  moreover have "inv_granted c'"
    unfolding inv_granted_def
  proof (intro allI impI)
    fix v t k assume g: "(v, t, k) \<in> cl_granted c'"
    show "v < cl_size c' \<and> t \<le> rf_currentTerm (cl_node c' v) \<and>
      (t = rf_currentTerm (cl_node c' v) \<longrightarrow> rf_votedFor (cl_node c' v) \<in> {int k, -1})"
    proof (cases "(v, t, k) = (i, rf_currentTerm rf', i)")
      case True
      then show ?thesis using i S I(1) [of i] by (simp add: c')
    next
      case False
      with g have g: "(v, t, k) \<in> cl_granted c" by (auto simp: c')
      then show ?thesis using I(3) [OF g] I(4) [OF g] I(5) [OF g] S(3) by (auto simp: c')
    qed
  qed
  moreover have "inv_once c'" unfolding inv_once_def
    using old cluster_inv_once [OF inv] by (auto simp: c')
  moreover have "inv_reqs c'"
    unfolding inv_reqs_def
  proof (intro allI impI)
    fix k j a assume m: "VoteReq k j a \<in> cl_msgs c'"
    show "req_ok c' k j a"
    proof (cases "VoteReq k j a \<in> cl_msgs c")
      case True
      then show ?thesis
        by (intro req_ok_step [OF I(6) [OF True]])
          (use I(6) [OF True] up [of k] S fresh in \<open>auto simp: c' req_ok_def\<close>)
    next
      case False
      with m i S I(1) [of i] late fresh show ?thesis by (auto simp: c' req_ok_def)
    qed
  qed
  moreover have "inv_reps c'"
    unfolding inv_reps_def
  proof (intro allI impI)
    fix k j t r assume "VoteRep k j t r \<in> cl_msgs c'"
    then have m: "VoteRep k j t r \<in> cl_msgs c" by (simp add: c')
    show "rep_ok c' k j t r"
      by (rule rep_ok_step [OF I(7) [OF m]]) (use I(7) [OF m] up [of k] late m in \<open>auto simp: c' rep_ok_def\<close>)
  qed
  moreover have "inv_counts c'" using I(8,9) by (auto simp: inv_counts_def c')
  moreover have "inv_leader c'" using I(10) S(5) by (auto simp: inv_leader_def c')
  ultimately show ?thesis by (simp add: cluster_inv_def)
qed

lemma cluster_inv_elect:
  assumes inv: "cluster_inv c" and i: "i < cl_size c" and e: "startElection (cl_node c i) now = Inr (args, rf')"
    and c': "c' = (set_node i rf' c)\<lparr>
      cl_msgs := cl_msgs c \<union> {VoteReq i j args | j. j < cl_size c \<and> j \<noteq> i},
      cl_votes := upd2 (cl_votes c) i (rf_currentTerm rf') 1,
      cl_granted := insert (i, rf_currentTerm rf', i) (cl_granted c),
      cl_counted := upd2 (cl_counted c) i (rf_currentTerm rf') {i}\<rparr>"
  shows "cluster_inv c'"
  by (rule cluster_inv_candidate [OF inv i _ _ _ _ _ _ _ c'])
    (use startElection_result [OF e] cluster_invD(1,2) [OF inv] in simp_all)

text \<open>A vote: granted at most once per term, as the vote of the current term is remembered.\<close>

lemma raft_RequestVote_result:
  assumes "raft_RequestVote rf args now = Inr (reply, rf')"
  shows "vote_outcome rf args reply rf'"
proof (cases "rf_log rf = []")
  case True
  with assms have "rva_Term args < rf_currentTerm rf"
    by (auto simp: raft_RequestVote_def Let_def log_get_def split: if_splits)
  with assms show ?thesis by (auto simp: raft_RequestVote_def vote_outcome_def grants_def)
next
  case False
  then obtain r rf1 where "raft_RequestVote rf args now = Inr (r, rf1)" "vote_outcome rf args r rf1"
    by (rule raft_RequestVote_outcome [of rf args now])
  with assms show ?thesis by simp
qed

lemma cluster_inv_voter:
  assumes inv: "cluster_inv c" and m: "VoteReq i j args \<in> cl_msgs c"
    and o: "rf_me rf' = rf_me (cl_node c j)" "rf_peers rf' = rf_peers (cl_node c j)" "rf_currentTerm (cl_node c j) \<le> rf_currentTerm rf'"
      "rf_state rf' = Leader \<Longrightarrow> rf_state (cl_node c j) = Leader \<and> rf_currentTerm rf' = rf_currentTerm (cl_node c j)"
    and yes: "rvr_VoteGranted reply \<Longrightarrow> rf_currentTerm rf' = rva_Term args \<and> rf_votedFor rf' = int i"
    and no: "\<not> rvr_VoteGranted reply \<Longrightarrow> rf_currentTerm rf' = rf_currentTerm (cl_node c j) \<Longrightarrow>
      rf_votedFor rf' \<in> {rf_votedFor (cl_node c j), -1}"
    and same: "\<And>k. rvr_VoteGranted reply \<Longrightarrow> (j, rva_Term args, k) \<in> cl_granted c \<Longrightarrow> k = i"
    and c': "c' = (set_node j rf' c)\<lparr>
      cl_msgs := insert (VoteRep i j (rva_Term args) reply) (cl_msgs c - {VoteReq i j args}),
      cl_granted := (if rvr_VoteGranted reply then insert (j, rva_Term args, i) (cl_granted c) else cl_granted c)\<rparr>"
  shows "cluster_inv c'"
proof -
  let ?rf = "cl_node c j"
  note I = cluster_invD [OF inv]
  have R: "req_ok c i j args" by (rule I(6) [OF m])
  have up: "rf_currentTerm (cl_node c k) \<le> rf_currentTerm (cl_node c' k)" for k using o by (simp add: c')
  have "inv_nodes c'" using I(1,2) o by (simp add: inv_nodes_def c')
  moreover have "inv_granted c'"
    unfolding inv_granted_def
  proof (intro allI impI)
    fix v t k assume g: "(v, t, k) \<in> cl_granted c'"
    show "v < cl_size c' \<and> t \<le> rf_currentTerm (cl_node c' v) \<and>
      (t = rf_currentTerm (cl_node c' v) \<longrightarrow> rf_votedFor (cl_node c' v) \<in> {int k, -1})"
    proof (cases "(v, t, k) \<in> cl_granted c")
      case True
      show ?thesis
      proof (cases "v = j")
        case v: True
        show ?thesis
        proof (cases "rvr_VoteGranted reply")
          case g: True
          then show ?thesis using I(3) [OF True] I(4) [OF True] o yes [OF g] same [OF g] True v by (auto simp: c')
        next
          case g: False
          then show ?thesis using I(3) [OF True] I(4) [OF True] I(5) [OF True] o no [OF g] True v by (auto simp: c')
        qed
      qed (use I(3) [OF True] I(4) [OF True] I(5) [OF True] in \<open>simp add: c'\<close>)
    next
      case False
      with g have "v = j" "t = rva_Term args" "k = i" "rvr_VoteGranted reply" by (auto simp: c' split: if_splits)
      then show ?thesis using yes R by (simp add: c' req_ok_def)
    qed
  qed
  moreover have "inv_once c'" unfolding inv_once_def
    using same cluster_inv_once [OF inv] by (auto simp: c')
  moreover have "inv_reqs c'"
    unfolding inv_reqs_def
  proof (intro allI impI)
    fix k l a assume a: "VoteReq k l a \<in> cl_msgs c'"
    then have m': "VoteReq k l a \<in> cl_msgs c" by (simp add: c')
    show "req_ok c' k l a"
      by (rule req_ok_step [OF I(6) [OF m']])
        (use I(6) [OF m'] up [of k] R m a m' in \<open>auto simp: c' req_ok_def\<close>)
  qed
  moreover have "inv_reps c'"
    unfolding inv_reps_def
  proof (intro allI impI)
    fix k l t r assume a: "VoteRep k l t r \<in> cl_msgs c'"
    show "rep_ok c' k l t r"
    proof (cases "VoteRep k l t r \<in> cl_msgs c")
      case True
      show ?thesis
        by (rule rep_ok_step [OF I(7) [OF True]]) (use I(7) [OF True] up [of k] R True in \<open>auto simp: c' rep_ok_def req_ok_def\<close>)
    next
      case False
      with a have "k = i" "l = j" "t = rva_Term args" "r = reply" by (auto simp: c')
      then show ?thesis using R up [of i] o by (auto simp: c' rep_ok_def req_ok_def)
    qed
  qed
  moreover have "inv_counts c'" using I(8,9) by (auto simp: inv_counts_def c')
  moreover have "inv_leader c'" using I(10) o(4) by (auto simp: inv_leader_def c')
  ultimately show ?thesis by (simp add: cluster_inv_def)
qed

lemma cluster_inv_vote:
  assumes inv: "cluster_inv c" and m: "VoteReq i j args \<in> cl_msgs c"
    and e: "raft_RequestVote (cl_node c j) args now = Inr (reply, rf')" and strict: "\<not> vote_erased c j args"
    and c': "c' = (set_node j rf' c)\<lparr>
      cl_msgs := insert (VoteRep i j (rva_Term args) reply) (cl_msgs c - {VoteReq i j args}),
      cl_granted := (if rvr_VoteGranted reply then insert (j, rva_Term args, i) (cl_granted c) else cl_granted c)\<rparr>"
  shows "cluster_inv c'"
proof -
  note I = cluster_invD [OF inv] and o = raft_RequestVote_result [OF e, unfolded vote_outcome_def]
  have R: "req_ok c i j args" by (rule I(6) [OF m])
  have same: "k = i" if "grants (cl_node c j) args" "(j, rva_Term args, k) \<in> cl_granted c" for k
    using that I(4) [OF that(2)] I(5) [OF that(2)] R strict by (auto simp: grants_def req_ok_def vote_erased_def)
  show ?thesis
    by (rule cluster_inv_voter [OF inv m _ _ _ _ _ _ _ c'])
      (use o R same in \<open>auto simp: req_ok_def grants_def max_def split: if_splits\<close>)
qed


text \<open>A reply is counted for the term it was asked for; the count that reaches the majority wins.\<close>

lemma cluster_inv_counter:
  assumes inv: "cluster_inv c" and m: "VoteRep i j t reply \<in> cl_msgs c"
    and h: "rf_currentTerm (cl_node c i) = t" "rvr_VoteGranted reply" "n = cl_votes c i t + 1"
    and f: "rf_me rf' = rf_me (cl_node c i)" "rf_peers rf' = rf_peers (cl_node c i)" "rf_currentTerm rf' = t"
      "rf_votedFor rf' = rf_votedFor (cl_node c i)" "rf_state rf' = Leader \<Longrightarrow> n = int (cl_size c) div 2 + 1"
    and c': "c' = (set_node i rf' c)\<lparr>
      cl_msgs := cl_msgs c - {VoteRep i j t reply},
      cl_votes := upd2 (cl_votes c) i t n,
      cl_counted := upd2 (cl_counted c) i t (insert j (cl_counted c i t))\<rparr>"
  shows "cluster_inv c'"
proof -
  let ?rf = "cl_node c i"
  note I = cluster_invD [OF inv]
  have terms: "rf_currentTerm (cl_node c' k) = rf_currentTerm (cl_node c k)" for k using f(3) h(1) by (simp add: c')
  have R: "rep_ok c i j t reply" by (rule I(7) [OF m])
  have fin: "finite (cl_counted c i t)"
    by (rule finite_subset [of _ "{..<cl_size c}"]) (use I(3) I(8) [of i t] in auto)
  have card: "n = int (card (insert j (cl_counted c i t)))" using fin R h(3) I(9) by (simp add: rep_ok_def)
  have "inv_nodes c'" using I(1,2) f by (simp add: inv_nodes_def c')
  moreover have "inv_granted c'"
    using I(3-5) terms f(4) unfolding inv_granted_def by (auto simp: c')
  moreover have "inv_once c'" using inv by (simp add: cluster_inv_def inv_once_def c')
  moreover have "inv_reqs c'"
    unfolding inv_reqs_def
  proof (intro allI impI)
    fix k l a assume "VoteReq k l a \<in> cl_msgs c'"
    then have a: "VoteReq k l a \<in> cl_msgs c" by (simp add: c')
    show "req_ok c' k l a"
      by (rule req_ok_step [OF I(6) [OF a]]) (use I(6) [OF a] terms [of k] m in \<open>auto simp: c' req_ok_def\<close>)
  qed
  moreover have "inv_reps c'"
    unfolding inv_reps_def
  proof (intro allI impI)
    fix k l u r assume a: "VoteRep k l u r \<in> cl_msgs c'"
    then have a': "VoteRep k l u r \<in> cl_msgs c" by (simp add: c')
    show "rep_ok c' k l u r"
      by (rule rep_ok_step [OF I(7) [OF a']]) (use I(7) [OF a'] terms [of k] R a in \<open>auto simp: c' rep_ok_def\<close>)
  qed
  moreover have "inv_counts c'"
    using I(8) [of i t] I(8,9) card R h(2) unfolding inv_counts_def by (auto simp: c' rep_ok_def)
  moreover have "inv_leader c'"
    unfolding inv_leader_def
  proof (intro allI impI)
    fix k assume l: "rf_state (cl_node c' k) = Leader"
    show "cl_size c' < 2 * card (cl_counted c' k (rf_currentTerm (cl_node c' k)))"
    proof (cases "k = i")
      case True
      with l f(5) have "n = int (cl_size c) div 2 + 1" by (simp add: c')
      with card have "cl_size c < 2 * card (insert j (cl_counted c i t))" by linarith
      with True f(3) show ?thesis by (simp add: c')
    qed (use l I(10) [of k] in \<open>simp add: c'\<close>)
  qed
  ultimately show ?thesis by (simp add: cluster_inv_def)
qed

lemma cluster_inv_count:
  assumes inv: "cluster_inv c" and m: "VoteRep i j t reply \<in> cl_msgs c"
    and e: "handleVoteReply (cl_node c i) t (cl_votes c i t) reply = (n, won, rf')" and n: "n \<noteq> cl_votes c i t"
    and c': "c' = (set_node i rf' c)\<lparr>
      cl_msgs := cl_msgs c - {VoteRep i j t reply},
      cl_votes := upd2 (cl_votes c) i t n,
      cl_counted := upd2 (cl_counted c) i t (insert j (cl_counted c i t))\<rparr>"
  shows "cluster_inv c'"
proof -
  have h: "rf_state (cl_node c i) = Candidate" "rf_currentTerm (cl_node c i) = t" "rvr_VoteGranted reply" "n = cl_votes c i t + 1"
    "rf' = (if n = votesRequired (cl_node c i) then init_leader (cl_node c i) else cl_node c i)"
    using e n by (auto simp: handleVoteReply_def Let_def split: if_splits)
  show ?thesis
    by (rule cluster_inv_counter [OF inv m _ _ _ _ _ _ _ _ c'])
      (use h cluster_invD(2) [OF inv] in \<open>auto simp: init_leader_eq votesRequired_def split: if_splits\<close>)
qed

lemma quiet_count: "handleVoteReply rf t v reply = (v, won, rf') \<Longrightarrow> quiet rf rf'"
  by (auto simp: handleVoteReply_def Let_def quiet_def split: if_splits)

lemma upd2_same [simp]: "upd2 f a b (f a b) = f"
  by (simp add: fun_eq_iff)

lemma cluster_inv_step:
  assumes "cluster_step True timely c c'" and inv: "cluster_inv c"
  shows "cluster_inv c'"
  using assms(1)
proof cases
  case (elect i now args rf')
  then show ?thesis by (intro cluster_inv_elect [OF inv])
next
  case (vote i j args now reply rf')
  then show ?thesis by (intro cluster_inv_vote [OF inv]) auto
next
  case (count i j t reply n won rf')
  show ?thesis
  proof (cases "n = cl_votes c i t")
    case True
    with count(1) cluster_inv_quiet [OF inv quiet_count, of i t _ reply won rf' "cl_msgs c - {VoteRep i j t reply}"] count(3)
    show ?thesis by (simp add: votes_within_def)
  next
    case False
    with count show ?thesis by (intro cluster_inv_count [OF inv]) auto
  qed
next
  case (beat i t)
  then show ?thesis by (auto intro!: cluster_inv_msgs [OF inv] simp: votes_within_def)
next
  case (send i j t args)
  then show ?thesis by (auto intro!: cluster_inv_msgs [OF inv] simp: votes_within_def)
next
  case (append i j args now reply rf')
  then show ?thesis by (auto intro!: cluster_inv_quiet [OF inv quiet_append] simp: votes_within_def)
next
  case (ack i j args reply rf')
  then show ?thesis by (auto intro: cluster_inv_node [OF inv quiet_ack])
next
  case (client i cmd r rf')
  then show ?thesis by (auto intro: cluster_inv_node [OF inv quiet_Start])
next
  case (applier i es rf')
  then show ?thesis by (auto intro: cluster_inv_node [OF inv quiet_applier])
next
  case (replicator i)
  then show ?thesis by (auto intro: cluster_inv_node [OF inv quiet_replicator])
next
  case (lose m)
  then show ?thesis by (auto intro!: cluster_inv_msgs [OF inv] simp: votes_within_def)
qed

lemma cluster_inv_init: "cluster_init c \<Longrightarrow> cluster_inv c"
proof -
  assume c: "cluster_init c"
  have "rf_me (cl_node c i) = int i \<and> length (rf_peers (cl_node c i)) = cl_size c \<and> rf_state (cl_node c i) = Follower" for i
  proof -
    from c obtain peers f now where "cl_node c i = raft_Make peers (int i) f now" "length peers = cl_size c"
      unfolding cluster_init_def by blast
    then show ?thesis by (simp add: raft_Make_fields)
  qed
  with c show ?thesis
    by (simp add: cluster_init_def cluster_inv_def inv_nodes_def inv_granted_def inv_once_def inv_reqs_def
        inv_reps_def inv_counts_def inv_leader_def)
qed


interpretation cl: invariant_system cluster_init "cluster_step True timely" cluster_inv for timely
  by unfold_locales (auto intro: cluster_inv_init cluster_inv_step)

section \<open>A run of three new nodes\<close>

definition fresh_log :: "log_entry list" where
  "fresh_log = [\<lparr>le_Index = 0, le_Term = 0, le_Command = []\<rparr>]"

definition fresh_node :: "nat \<Rightarrow> raft" where
  "fresh_node i = raft_Make [True, True, True] (int i) \<lparr>content = [], quota = 1000\<rparr> 0"

definition fresh_cluster :: cluster where
  "fresh_cluster = \<lparr>cl_size = 3, cl_node = fresh_node, cl_msgs = {}, cl_votes = (\<lambda>_ _. 0), cl_granted = {},
     cl_counted = (\<lambda>_ _. {})\<rparr>"

lemma fresh_cluster_init: "cluster_init fresh_cluster"
  unfolding cluster_init_def fresh_cluster_def fresh_node_def
  by (auto intro!: exI [of _ "[True, True, True]"])

lemma fresh_node_fields:
  "rf_peers (fresh_node i) = [True, True, True]" "rf_me (fresh_node i) = int i" "rf_currentTerm (fresh_node i) = 0"
  "rf_votedFor (fresh_node i) = -1" "rf_log (fresh_node i) = fresh_log" "rf_commitIndex (fresh_node i) = 0"
  "rf_lastApplied (fresh_node i) = 0"
  by (simp_all add: fresh_node_def fresh_log_def raft_Make_def readPersist_def RecoverEntries_def createOrOpenRaftWAL_def
      recover_rrecs.simps)

text \<open>The request and the candidate after the first timeout of a new node.\<close>

definition first_request :: "nat \<Rightarrow> RequestVoteArgs" where
  "first_request i = \<lparr>rva_Term = 1, rva_CandidateId = int i, rva_LastLogIndex = 0, rva_LastLogTerm = 0\<rparr>"

definition first_candidate :: "nat \<Rightarrow> raft" where
  "first_candidate i = persistState ((fresh_node i)\<lparr>rf_state := Candidate, rf_currentTerm := 1,
     rf_votedFor := int i, rf_lastResetTime := 0\<rparr>)"

lemma fresh_election: "startElection (fresh_node i) 0 = Inr (first_request i, first_candidate i)"
  by (simp add: startElection_def first_request_def first_candidate_def fresh_node_fields fresh_log_def Let_def log_get_def)

lemma first_win:
  "rvr_VoteGranted reply \<Longrightarrow> rvr_Term reply = 1 \<Longrightarrow>
     handleVoteReply (first_candidate i) 1 1 reply = (2, True, init_leader (first_candidate i))"
  by (simp add: handleVoteReply_def first_candidate_def votesRequired_def fresh_node_fields)

definition first_heartbeat :: AppendEntriesArgs where
  "first_heartbeat = \<lparr>aea_Term = 1, aea_LeaderId = 0, aea_PrevLogIndex = 0, aea_PrevLogTerm = 0, aea_Entries = [],
     aea_LeaderCommit = 0\<rparr>"

lemma first_leader_heartbeat: "heartbeat_args (init_leader (first_candidate 0)) 1 2 = Inr (Some first_heartbeat)"
  by (subst heartbeat_args_leader [of _ _ 1])
    (simp_all add: init_leader_eq first_candidate_def fresh_node_fields fresh_log_def first_heartbeat_def)

text \<open>A voter with an empty log grants a request of term 1 if it has no vote of that term.\<close>

lemma first_vote:
  assumes "rf_log rf = fresh_log" and "rf_currentTerm rf = 0 \<or> rf_currentTerm rf = 1 \<and> rf_votedFor rf = -1"
  shows "\<exists>reply rf'. raft_RequestVote rf (first_request i) 0 = Inr (reply, rf') \<and> rvr_VoteGranted reply \<and>
    rvr_Term reply = 1 \<and> rf_currentTerm rf' = 1 \<and> rf_log rf' = fresh_log \<and>
    rf_commitIndex rf' = rf_commitIndex rf \<and> rf_lastApplied rf' = rf_lastApplied rf"
proof -
  have "rf_log rf \<noteq> []" using assms(1) by (simp add: fresh_log_def)
  then obtain reply rf' where r: "raft_RequestVote rf (first_request i) 0 = Inr (reply, rf')"
    "vote_outcome rf (first_request i) reply rf'"
    by (rule raft_RequestVote_outcome [of rf "first_request i" 0])
  moreover have "grants rf (first_request i)"
    using assms by (auto simp: grants_def logOk_def first_request_def fresh_log_def)
  ultimately show ?thesis using assms by (auto simp: vote_outcome_def first_request_def)
qed

lemma first_append:
  assumes "rf_log rf = fresh_log" and "rf_currentTerm rf = 1"
  shows "\<exists>reply rf'. raft_AppendEntries rf first_heartbeat 0 = Inr (reply, rf') \<and>
    rf_currentTerm rf' = 1 \<and> rf_votedFor rf' = -1 \<and> rf_log rf' = fresh_log"
  using assms
  by (simp add: raft_AppendEntries_def first_heartbeat_def fresh_log_def Let_def log_get_def update_commit_def)


text \<open>Nodes 0 and 1 time out, node 2 votes for node 0, which becomes leader; the request of node 1 is on its way.\<close>

definition first_elected :: "cluster \<Rightarrow> bool" where
  "first_elected c \<longleftrightarrow> cl_size c = 3 \<and> cl_node c 0 = init_leader (first_candidate 0) \<and> cl_node c 1 = first_candidate 1 \<and>
     rf_log (cl_node c 2) = fresh_log \<and> rf_currentTerm (cl_node c 2) = 1 \<and>
     rf_commitIndex (cl_node c 2) = 0 \<and> rf_lastApplied (cl_node c 2) = 0 \<and>
     VoteReq 1 2 (first_request 1) \<in> cl_msgs c \<and> cl_votes c 1 1 = 1"

lemma first_elected_reach:
  assumes "init fresh_cluster"
  shows "\<exists>c. reach init (cluster_step strict timely) c \<and> first_elected c"
proof -
  let ?r = "reach init (cluster_step strict timely)"
  have r0: "?r fresh_cluster" using assms by (rule reach_init)
  have f: "rf_currentTerm (first_candidate i) = 1" for i by (simp add: first_candidate_def)
  have e0: "startElection (cl_node fresh_cluster 0) 0 = Inr (first_request 0, first_candidate 0)"
    by (simp add: fresh_cluster_def fresh_election)
  obtain c1 where c1: "?r c1" "cl_size c1 = 3" "cl_node c1 = fresh_node(0 := first_candidate 0)" "cl_votes c1 0 1 = 1"
    "VoteReq 0 2 (first_request 0) \<in> cl_msgs c1" "cl_granted c1 = {(0, 1, 0)}"
    using reach_step [OF r0, OF elect [OF _ e0]]
    by (rule that) (auto simp: fresh_cluster_def f)
  have e1: "startElection (cl_node c1 1) 0 = Inr (first_request 1, first_candidate 1)"
    by (simp add: c1 fresh_election)
  obtain c2 where c2: "?r c2" "cl_size c2 = 3" "cl_node c2 = (cl_node c1)(1 := first_candidate 1)" "cl_votes c2 0 1 = 1"
    "cl_votes c2 1 1 = 1" "VoteReq 0 2 (first_request 0) \<in> cl_msgs c2" "VoteReq 1 2 (first_request 1) \<in> cl_msgs c2"
    "cl_granted c2 = {(0, 1, 0), (1, 1, 1)}"
    using reach_step [OF c1(1), OF elect [OF _ e1]]
    by (rule that) (use c1 in \<open>auto simp: f\<close>)
  have n2: "cl_node c2 2 = fresh_node 2" by (simp add: c1 c2)
  obtain reply rf where v: "raft_RequestVote (cl_node c2 2) (first_request 0) 0 = Inr (reply, rf)"
    "rvr_VoteGranted reply" "rvr_Term reply = 1" "rf_currentTerm rf = 1" "rf_log rf = fresh_log"
    "rf_commitIndex rf = 0" "rf_lastApplied rf = 0"
    using first_vote [of "cl_node c2 2" 0] by (auto simp: n2 fresh_node_fields)
  obtain c3 where c3: "?r c3" "cl_size c3 = 3" "cl_node c3 = (cl_node c2)(2 := rf)" "cl_votes c3 = cl_votes c2"
    "VoteRep 0 2 1 reply \<in> cl_msgs c3" "VoteReq 1 2 (first_request 1) \<in> cl_msgs c3"
    using reach_step [OF c2(1), OF vote [OF c2(6) v(1)]]
    by (rule that) (use c2 v n2 in \<open>auto simp: vote_erased_def first_request_def fresh_node_fields\<close>)
  have "handleVoteReply (cl_node c3 0) 1 (cl_votes c3 0 1) reply = (2, True, init_leader (first_candidate 0))"
    using first_win [OF v(2,3), of 0] by (simp add: c1 c2 c3)
  from reach_step [OF c3(1), OF count [OF c3(5) this]] show ?thesis
    unfolding first_elected_def by (rule_tac exI, intro conjI) (assumption, simp_all add: c1 c2 c3 v del: One_nat_def)
qed

text \<open>
  C5: Election safety of a cluster, whatever messages are lost, delayed or reordered and whichever
  nodes time out: two leaders of the same term are the same node, provided that no node
  votes in a term in which it has voted before and an AppendEntries request has erased that vote.
\<close>

theorem election_safety:
  assumes "reach cluster_init (cluster_step True timely) c"
    and "rf_state (cl_node c i) = Leader" and "rf_state (cl_node c j) = Leader"
    and "rf_currentTerm (cl_node c i) = rf_currentTerm (cl_node c j)"
  shows "i = j"
  using cl.reach_inv [OF assms(1)] assms(2-4) by (rule one_leader)

theorem election_safety_witness:
  "\<exists>c. reach cluster_init (cluster_step True True) c \<and> rf_state (cl_node c 0) = Leader \<and>
     \<not> (rf_state (cl_node c 1) = Leader \<and> rf_currentTerm (cl_node c 1) = rf_currentTerm (cl_node c 0))"
proof -
  obtain c where c: "reach cluster_init (cluster_step True True) c" "first_elected c" using first_elected_reach [of cluster_init, OF fresh_cluster_init] by blast
  then have l: "rf_state (cl_node c 0) = Leader" by (simp add: first_elected_def init_leader_eq)
  from election_safety [OF c(1) l, of 0] election_safety [OF c(1) l, of 1] c(1) l show ?thesis
    by (intro exI [of _ c]) auto
qed

text \<open>
  A heartbeat of the new leader erases the vote of node 2, which then votes for node 1 in the same term.
\<close>

definition second_elected :: "cluster \<Rightarrow> bool" where
  "second_elected c \<longleftrightarrow> cl_size c = 3 \<and> cl_node c 0 = init_leader (first_candidate 0) \<and>
     cl_node c 1 = init_leader (first_candidate 1) \<and>
     rf_log (cl_node c 2) = fresh_log \<and> rf_currentTerm (cl_node c 2) = 1"

lemma second_elected_reach:
  assumes "init fresh_cluster"
  shows "\<exists>c. reach init (cluster_step False True) c \<and> second_elected c"
proof -
  let ?r = "reach init (cluster_step False True)" and ?l = "init_leader (first_candidate 0)"
  have f: "rf_state ?l = Leader" "rf_currentTerm ?l = 1" "rf_me ?l = 0" "rf_peers ?l = [True, True, True]"
    by (simp_all add: init_leader_eq first_candidate_def fresh_node_fields)
  obtain c0 where c0: "?r c0" "cl_size c0 = 3" "cl_node c0 0 = ?l" "cl_node c0 1 = first_candidate 1"
    "rf_log (cl_node c0 2) = fresh_log" "rf_currentTerm (cl_node c0 2) = 1"
    "VoteReq 1 2 (first_request 1) \<in> cl_msgs c0" "cl_votes c0 1 1 = 1"
    using first_elected_reach [of init, OF assms] unfolding first_elected_def by blast
  obtain c1 where c1: "?r c1" "cl_size c1 = 3" "cl_node c1 = cl_node c0" "cl_votes c1 = cl_votes c0"
    "Heartbeat 0 2 1 \<in> cl_msgs c1" "VoteReq 1 2 (first_request 1) \<in> cl_msgs c1"
    using reach_step [OF c0(1), OF beat [of 0]]
    by (rule that) (use c0 in \<open>auto simp: sendHeartBeats_term_def heartbeat_peers_def f upt_rec\<close>)
  obtain c2 where c2: "?r c2" "cl_size c2 = 3" "cl_node c2 = cl_node c0" "cl_votes c2 = cl_votes c0"
    "AppReq 0 2 first_heartbeat \<in> cl_msgs c2" "VoteReq 1 2 (first_request 1) \<in> cl_msgs c2"
    using reach_step [OF c1(1), OF send [OF c1(5)]]
    by (rule that) (use c0 c1 in \<open>auto simp: first_leader_heartbeat f\<close>)
  obtain areply rf where a: "raft_AppendEntries (cl_node c2 2) first_heartbeat 0 = Inr (areply, rf)"
    "rf_currentTerm rf = 1" "rf_votedFor rf = -1" "rf_log rf = fresh_log"
    using first_append [of "cl_node c2 2"] by (auto simp: c0 c2)
  obtain c3 where c3: "?r c3" "cl_size c3 = 3" "cl_node c3 = (cl_node c0)(2 := rf)" "cl_votes c3 = cl_votes c0"
    "VoteReq 1 2 (first_request 1) \<in> cl_msgs c3"
    using reach_step [OF c2(1), OF append [OF c2(5) a(1)]] by (rule that) (use c2 in auto)
  obtain reply rf' where v: "raft_RequestVote (cl_node c3 2) (first_request 1) 0 = Inr (reply, rf')"
    "rvr_VoteGranted reply" "rvr_Term reply = 1" "rf_currentTerm rf' = 1" "rf_log rf' = fresh_log"
    using first_vote [of "cl_node c3 2" 1] by (auto simp: a c3)
  obtain c4 where c4: "?r c4" "cl_size c4 = 3" "cl_node c4 = (cl_node c0)(2 := rf')" "cl_votes c4 = cl_votes c0"
    "VoteRep 1 2 1 reply \<in> cl_msgs c4"
    using reach_step [OF c3(1), OF vote [OF c3(5) v(1)]] by (rule that) (use c3 in \<open>auto simp: first_request_def\<close>)
  have "handleVoteReply (cl_node c4 1) 1 (cl_votes c4 1 1) reply = (2, True, init_leader (first_candidate 1))"
    using first_win [OF v(2,3), of 1] by (simp add: c0 c4 del: One_nat_def)
  from reach_step [OF c4(1), OF count [OF c4(5) this]] show ?thesis
    unfolding second_elected_def by (rule_tac exI, intro conjI) (assumption, simp_all add: c0 c4 v del: One_nat_def)
qed

text \<open>
  The condition is needed, and normal operation breaks it: a heartbeat of the new leader erases
  the vote of its follower, which then votes for the other candidate of the same term, and the
  cluster has two leaders in term 1.
\<close>

lemma two_leaders_one_term:
  "\<exists>c. reach cluster_init (cluster_step False True) c \<and> cl_size c = 3 \<and>
     rf_state (cl_node c 0) = Leader \<and> rf_state (cl_node c 1) = Leader \<and>
     rf_currentTerm (cl_node c 0) = 1 \<and> rf_currentTerm (cl_node c 1) = 1"
proof -
  obtain c where c: "reach cluster_init (cluster_step False True) c" "second_elected c"
    using second_elected_reach [of cluster_init, OF fresh_cluster_init] by blast
  then show ?thesis
    by (intro exI [of _ c]) (simp add: second_elected_def init_leader_eq first_candidate_def)
qed

end
