(* ===== verification/Raft_Cluster_Logs.thy ===== *)
theory Raft_Cluster_Logs
  imports Raft_Cluster
begin

text \<open>
  The logs of a new cluster, whose nodes start with an empty WAL. A type discipline for the states
  of the cluster: every log starts with the sentinel and carries its positions as indices, every
  leader has a next index for every peer, and every AppendEntries request in flight carries entries
  whose indices continue its previous index. Every step keeps it, whether or not the steps
  are \<open>strict\<close> or \<open>timely\<close>, and a typed cluster never panics on a message.
\<close>

section \<open>Typed states\<close>

definition cluster_new :: "cluster \<Rightarrow> bool" where
  "cluster_new c \<longleftrightarrow> cl_msgs c = {} \<and> cl_votes c = (\<lambda>_ _. 0) \<and> cl_granted c = {} \<and> cl_counted c = (\<lambda>_ _. {}) \<and>
     (\<forall>i. \<exists>peers q now. cl_node c i = raft_Make peers (int i) \<lparr>content = [], quota = q\<rparr> now \<and> length peers = cl_size c)"

lemma cluster_new_init: "cluster_new c \<Longrightarrow> cluster_init c"
  unfolding cluster_new_def cluster_init_def by blast

lemma reach_weaken: "reach init step s \<Longrightarrow> (\<And>s. init s \<Longrightarrow> init' s) \<Longrightarrow> reach init' step s"
  by (induction rule: reach.induct) (auto intro: reach.intros)

lemma new_node_fields:
  assumes "cluster_new c"
  shows "rf_log (cl_node c i) = fresh_log" "rf_currentTerm (cl_node c i) = 0" "rf_commitIndex (cl_node c i) = 0"
    "rf_lastApplied (cl_node c i) = 0" "rf_state (cl_node c i) = Follower" "length (rf_peers (cl_node c i)) = cl_size c"
    "node_inv (cl_node c i)"
proof -
  obtain peers q now where m: "cl_node c i = raft_Make peers (int i) \<lparr>content = [], quota = q\<rparr> now"
    "length peers = cl_size c" using assms unfolding cluster_new_def by blast
  show "rf_log (cl_node c i) = fresh_log" "rf_currentTerm (cl_node c i) = 0" "rf_commitIndex (cl_node c i) = 0"
    by (simp_all add: m raft_Make_def readPersist_def RecoverEntries_def createOrOpenRaftWAL_def
        recover_rrecs.simps fresh_log_def)
  show "rf_lastApplied (cl_node c i) = 0" "rf_state (cl_node c i) = Follower" "length (rf_peers (cl_node c i)) = cl_size c"
    by (simp_all add: m raft_Make_fields)
  show "node_inv (cl_node c i)" by (rule raft_init_inv) (auto simp: m raft_init_def)
qed

text \<open>Entries that continue at index \<open>k\<close>, and a log: the sentinel and entries that continue at 1.\<close>

definition entries_from :: "nat \<Rightarrow> log_entry list \<Rightarrow> bool" where
  "entries_from k es \<longleftrightarrow> (\<forall>m < length es. le_Index (es ! m) = int (k + m))"

definition log_typed :: "log_entry list \<Rightarrow> bool" where
  "log_typed l \<longleftrightarrow> entries_from 0 l \<and> take 1 l = fresh_log"

definition node_typed :: "nat \<Rightarrow> raft \<Rightarrow> bool" where
  "node_typed n rf \<longleftrightarrow> node_inv rf \<and> length (rf_peers rf) = n \<and> log_typed (rf_log rf) \<and> 0 \<le> rf_lastApplied rf \<and>
     (rf_state rf = Leader \<longrightarrow> (\<forall>p < n. rf_nextIndex rf (int p) \<noteq> None))"

definition args_typed :: "AppendEntriesArgs \<Rightarrow> bool" where
  "args_typed args \<longleftrightarrow> 0 \<le> aea_PrevLogIndex args \<and> entries_from (Suc (nat (aea_PrevLogIndex args))) (aea_Entries args)"

fun rpc_typed :: "nat \<Rightarrow> rpc \<Rightarrow> bool" where
  "rpc_typed n (VoteReq i j args) \<longleftrightarrow> i < n \<and> j < n \<and> j \<noteq> i"
| "rpc_typed n (VoteRep i j t reply) \<longleftrightarrow> i < n \<and> j < n \<and> j \<noteq> i"
| "rpc_typed n (Heartbeat i j t) \<longleftrightarrow> i < n \<and> j < n \<and> j \<noteq> i"
| "rpc_typed n (AppReq i j args) \<longleftrightarrow> i < n \<and> j < n \<and> j \<noteq> i \<and> args_typed args"
| "rpc_typed n (AppRep i j args reply) \<longleftrightarrow> i < n \<and> j < n \<and> j \<noteq> i \<and> args_typed args"

definition cluster_typed :: "cluster \<Rightarrow> bool" where
  "cluster_typed c \<longleftrightarrow> (\<forall>i. node_typed (cl_size c) (cl_node c i) \<and> rf_me (cl_node c i) = int i) \<and>
     (\<forall>m \<in> cl_msgs c. rpc_typed (cl_size c) m)"

lemma cluster_typedD:
  assumes "cluster_typed c"
  shows "node_typed (cl_size c) (cl_node c i)" "rf_me (cl_node c i) = int i" "m \<in> cl_msgs c \<Longrightarrow> rpc_typed (cl_size c) m"
  using assms by (auto simp: cluster_typed_def)

lemma cluster_new_typed: "cluster_new c \<Longrightarrow> cluster_typed c"
  using cluster_invD(1) [OF cluster_inv_init [OF cluster_new_init], of c]
  by (simp add: cluster_typed_def node_typed_def new_node_fields log_typed_def entries_from_def fresh_log_def)
    (simp add: cluster_new_def)

section \<open>Every step keeps the types\<close>

lemma entries_take: "entries_from k es \<Longrightarrow> entries_from k (take n es)"
  by (simp add: entries_from_def)

lemma entries_drop: "entries_from k es \<Longrightarrow> entries_from (k + n) (drop n es)"
  by (simp add: entries_from_def add.assoc)

lemma entries_append: "entries_from k es \<Longrightarrow> entries_from (k + length es) fs \<Longrightarrow> entries_from k (es @ fs)"
  unfolding entries_from_def nth_append length_append by (simp add: algebra_simps)

lemma log_typed_nonempty: "log_typed l \<Longrightarrow> l \<noteq> []"
  by (auto simp: log_typed_def fresh_log_def)

lemma log_typed_append: "log_typed l \<Longrightarrow> entries_from (length l) es \<Longrightarrow> log_typed (l @ es)"
  using entries_append [of 0 l es] by (cases l) (auto simp: log_typed_def fresh_log_def)

lemma merged_typed:
  assumes "log_typed l" and "Suc p \<le> length l" and "entries_from (Suc p) es"
  shows "log_typed (merged l (Suc p) es)"
proof -
  let ?a = "agree l (Suc p) es"
  have le: "Suc p + ?a \<le> length l" by (rule agree_in_range [OF assms(2)])
  have "log_typed (take (Suc p + ?a) l)"
    using assms(1) by (simp add: log_typed_def entries_take min_def)
  then have "log_typed (take (Suc p + ?a) l @ drop ?a es)"
    by (rule log_typed_append) (use entries_drop [OF assms(3), of ?a] le in \<open>simp add: min_absorb2\<close>)
  then show ?thesis using assms(1) by (simp add: merged_def)
qed

text \<open>A step that leaves the log alone, keeps the peers known and makes no new leader.\<close>

lemma node_typed_same:
  assumes "node_typed n rf" and "node_inv rf'" and "rf_peers rf' = rf_peers rf" and "rf_log rf' = rf_log rf"
    and "0 \<le> rf_lastApplied rf'"
    and "rf_state rf' = Leader \<Longrightarrow> rf_state rf = Leader \<and> dom (rf_nextIndex rf) \<subseteq> dom (rf_nextIndex rf')"
  shows "node_typed n rf'"
  using assms unfolding node_typed_def by (auto simp: dom_def) blast

lemma typed_elect:
  assumes "node_typed n rf" and "startElection rf now = Inr (args, rf')"
  shows "node_typed n rf'"
proof (rule node_typed_same [OF assms(1)])
  show "node_inv rf'" using raft_step_keeps [OF step_startElection [OF assms(2)]] assms(1) by (simp add: node_typed_def)
qed (use assms in \<open>auto simp: startElection_def Let_def node_typed_def split: option.splits\<close>)

lemma typed_vote:
  assumes "node_typed n rf" and "raft_RequestVote rf args now = Inr (reply, rf')"
  shows "node_typed n rf'"
proof (rule node_typed_same [OF assms(1)])
  show "node_inv rf'" using RequestVote_step [OF _ assms(2)] assms(1) by (simp add: node_typed_def)
qed (use raft_RequestVote_result [OF assms(2)] assms(1) in \<open>auto simp: vote_outcome_def node_typed_def split: if_splits\<close>)

lemma typed_count:
  assumes "node_typed n rf" and "handleVoteReply rf t v reply = (v', won, rf')"
  shows "node_typed n rf'"
proof (cases won)
  case True
  with assms(2) have rf': "rf' = init_leader rf" by (auto simp: handleVoteReply_def Let_def split: if_splits)
  have "node_inv rf'" using VoteReply_step [OF _ assms(2)] assms(1) by (simp add: node_typed_def)
  with assms(1) show ?thesis by (simp add: node_typed_def rf' init_leader_eq)
next
  case False
  show ?thesis
  proof (rule node_typed_same [OF assms(1)])
    show "node_inv rf'" using VoteReply_step [OF _ assms(2)] assms(1) by (simp add: node_typed_def)
  qed (use assms False in \<open>auto simp: handleVoteReply_def Let_def node_typed_def split: if_splits\<close>)
qed

lemma typed_append:
  assumes "node_typed n rf" and "args_typed args" and "raft_AppendEntries rf args now = Inr (reply, rf')"
  shows "node_typed n rf'"
proof -
  have out: "append_outcome rf args reply rf'" using raft_AppendEntries_success [OF assms(3)] by simp
  have inv: "node_inv rf'" using AppendEntries_step [OF _ assms(3)] assms(1) by (simp add: node_typed_def)
  have "log_typed (rf_log rf')"
  proof (cases "accepts rf args")
    case True
    then have "Suc (nat (aea_PrevLogIndex args)) \<le> length (rf_log rf)"
      using assms(2) by (auto simp: accepts_def args_typed_def)
    with merged_typed [OF _ this, of "aea_Entries args"] assms(1,2) out True show ?thesis
      by (simp add: append_outcome_def node_typed_def args_typed_def)
  qed (use out assms(1) in \<open>simp add: append_outcome_def node_typed_def\<close>)
  with out inv assms(1) show ?thesis by (auto simp: append_outcome_def node_typed_def split: if_splits)
qed

lemma handleAppendReply_result:
  assumes "handleAppendReply rf server args reply = Inr rf'"
  shows "rf_log rf' = rf_log rf" "rf_peers rf' = rf_peers rf" "rf_lastApplied rf' = rf_lastApplied rf" "rf_me rf' = rf_me rf"
    "dom (rf_nextIndex rf) \<subseteq> dom (rf_nextIndex rf')" "rf_state rf' = Leader \<Longrightarrow> rf_state rf = Leader"
proof -
  let ?rf1 = "advance_indices rf server (aea_PrevLogIndex args + int (length (aea_Entries args)))"
  consider "aer_Term reply > rf_currentTerm rf \<or> \<not> aer_Success reply"
    | "commit_scan ?rf1 (int (length (rf_log ?rf1)) - 1) = Inr rf'"
    using assms by (auto simp: handleAppendReply_def Let_def split: if_splits)
  then have "rf_log rf' = rf_log rf \<and> rf_peers rf' = rf_peers rf \<and> rf_lastApplied rf' = rf_lastApplied rf \<and>
    rf_me rf' = rf_me rf \<and> dom (rf_nextIndex rf) \<subseteq> dom (rf_nextIndex rf') \<and> (rf_state rf' = Leader \<longrightarrow> rf_state rf = Leader)"
  proof cases
    case 1
    with assms show ?thesis by (auto simp: handleAppendReply_def split: if_splits)
  next
    case 2
    from commit_scan_result [OF this] show ?thesis by (auto simp: advance_indices_def split: if_splits)
  qed
  then show "rf_log rf' = rf_log rf" "rf_peers rf' = rf_peers rf" "rf_lastApplied rf' = rf_lastApplied rf" "rf_me rf' = rf_me rf"
    "dom (rf_nextIndex rf) \<subseteq> dom (rf_nextIndex rf')" "rf_state rf' = Leader \<Longrightarrow> rf_state rf = Leader" by blast+
qed

lemma typed_ack:
  assumes "node_typed n rf" and "handleAppendReply rf server args reply = Inr rf'"
  shows "node_typed n rf'"
proof (rule node_typed_same [OF assms(1)])
  show "node_inv rf'" using AppendReply_step [OF _ assms(2)] assms(1) by (simp add: node_typed_def)
qed (use handleAppendReply_result [OF assms(2)] assms(1) in \<open>simp_all add: node_typed_def\<close>)

lemma typed_client:
  assumes "node_typed n rf" and "raft_Start rf cmd = (r, rf')"
  shows "node_typed n rf'"
proof (cases "rf' = rf")
  case False
  with assms(2) obtain b where b: "rf_log rf' = rf_log rf @ [\<lparr>le_Index = int (length (rf_log rf)), le_Term = rf_currentTerm rf, le_Command = b\<rparr>]"
    "rf_peers rf' = rf_peers rf" "rf_lastApplied rf' = rf_lastApplied rf" "rf_nextIndex rf' = rf_nextIndex rf" "rf_state rf' = rf_state rf"
    by (auto simp: raft_Start_def Let_def split: if_splits option.splits)
  have "log_typed (rf_log rf')" unfolding b(1)
    by (rule log_typed_append) (use assms(1) in \<open>simp_all add: node_typed_def entries_from_def\<close>)
  moreover have "node_inv rf'" using raft_step_keeps [OF step_Start [OF assms(2)]] assms(1) by (simp add: node_typed_def)
  ultimately show ?thesis using assms(1) b(2-5) by (simp add: node_typed_def)
qed (use assms(1) in simp)

lemma typed_applier:
  assumes "node_typed n rf" and "applier_round rf = Some (Inr (es, rf'))"
  shows "node_typed n rf'"
proof (rule node_typed_same [OF assms(1)])
  show "node_inv rf'" using raft_step_keeps [OF step_applier [OF assms(2)]] assms(1) by (simp add: node_typed_def)
qed (use assms in \<open>auto dest!: applier_roundD(2) simp: applier_step_def Let_def node_typed_def split: if_splits option.splits\<close>)

lemma typed_replicator: "node_typed n rf \<Longrightarrow> node_typed n (replicator_step rf)"
  using raft_step_keeps [OF step_replicator [of rf]]
  by (auto intro!: node_typed_same [of n rf] simp: node_typed_def replicator_step_def)

text \<open>A typed leader builds typed requests.\<close>

lemma typed_request:
  assumes "node_typed n rf" and "j < n" and "heartbeat_args rf t (int j) = Inr (Some args)"
  shows "args_typed args"
proof -
  have l: "rf_state rf = Leader" using assms(3) by (auto simp: heartbeat_args_def split: if_splits)
  with assms(1,2) obtain v where v: "rf_nextIndex rf (int j) = Some v" "1 \<le> v"
    by (fastforce simp: node_typed_def node_inv_def next_ok_def)
  define p where "p = nat (v - 1)"
  have p: "rf_nextIndex rf (int j) = Some (int (Suc p))" "1 \<le> Suc p" using v by (auto simp: p_def)
  have "entries_from (Suc p) (drop (Suc p) (rf_log rf))"
    using assms(1) entries_drop [of 0 "rf_log rf" "Suc p"] by (simp add: node_typed_def log_typed_def)
  with heartbeat_args_leader [OF l p, of t] assms(3) show ?thesis
    by (auto simp: args_typed_def entries_take)
qed

lemma typed_node_only:
  assumes "cluster_typed c" and "node_typed (cl_size c) rf'" and "rf_me rf' = rf_me (cl_node c i)"
  shows "cluster_typed (set_node i rf' c)"
  using assms by (auto simp: cluster_typed_def)

lemma typed_msgs_only:
  assumes "cluster_typed c" and "\<And>m. m \<in> M \<Longrightarrow> m \<in> cl_msgs c \<or> rpc_typed (cl_size c) m"
  shows "cluster_typed (c\<lparr>cl_msgs := M\<rparr>)"
  using assms by (auto simp: cluster_typed_def)

lemma cluster_typed_step:
  assumes "cluster_step strict timely c c'" and typed: "cluster_typed c"
  shows "cluster_typed c'"
  using assms(1)
proof cases
  case (elect i now args rf')
  with typed_elect [OF cluster_typedD(1) [OF typed] elect(3)] startElection_result(6) [OF elect(3)] typed
  show ?thesis by (auto simp: cluster_typed_def)
next
  case (vote i j args now reply rf')
  with typed_vote [OF cluster_typedD(1) [OF typed] vote(3)] raft_RequestVote_result [OF vote(3)] typed
    cluster_typedD(3) [OF typed vote(2)]
  show ?thesis by (auto simp: cluster_typed_def vote_outcome_def)
next
  case (count i j t reply n won rf')
  have "rf_me rf' = rf_me (cl_node c i)"
    using count(3) by (auto simp: handleVoteReply_def init_leader_eq Let_def split: if_splits)
  with count typed_count [OF cluster_typedD(1) [OF typed] count(3)] typed
  show ?thesis by (auto simp: cluster_typed_def)
next
  case (beat i t)
  have "length (rf_peers (cl_node c i)) = cl_size c" "rf_me (cl_node c i) = int i"
    using cluster_typedD(1,2) [OF typed, of i] by (simp_all add: node_typed_def)
  with beat show ?thesis by (auto intro!: typed_msgs_only [OF typed] simp: heartbeat_peers_def)
next
  case (send i j t args)
  with typed_request [OF cluster_typedD(1) [OF typed], of j i t args] cluster_typedD(3) [OF typed send(2)]
  show ?thesis by (auto intro!: typed_msgs_only [OF typed])
next
  case (append i j args now reply rf')
  with typed_append [OF cluster_typedD(1) [OF typed] _ append(3)] raft_AppendEntries_success [OF append(3)] typed
    cluster_typedD(3) [OF typed append(2)]
  show ?thesis by (auto simp: cluster_typed_def append_outcome_def)
next
  case (ack i j args reply rf')
  with typed_node_only [OF typed typed_ack [OF cluster_typedD(1) [OF typed] ack(3)]] handleAppendReply_result(4) [OF ack(3)]
  show ?thesis by simp
next
  case (client i cmd r rf')
  with typed_node_only [OF typed typed_client [OF cluster_typedD(1) [OF typed] client(2)]] quiet_Start [OF client(2)]
  show ?thesis by (simp add: quiet_def)
next
  case (applier i es rf')
  with typed_node_only [OF typed typed_applier [OF cluster_typedD(1) [OF typed] applier(2)]] quiet_applier [OF applier(2)]
  show ?thesis by (simp add: quiet_def)
next
  case (replicator i)
  with typed_node_only [OF typed typed_replicator [OF cluster_typedD(1) [OF typed]], of i i]
  show ?thesis by (simp add: replicator_step_def)
next
  case (lose m)
  then show ?thesis by (auto intro!: typed_msgs_only [OF typed])
qed

interpretation ty: invariant_system cluster_new "cluster_step strict timely" cluster_typed for strict timely
  by unfold_locales (auto intro: cluster_new_typed cluster_typed_step)

section \<open>Properties\<close>

lemma applied_indices:
  assumes "log_typed (rf_log rf)" and "0 \<le> rf_lastApplied rf" and "applier_step rf = Inr (es, rf')" and "k < length es"
  shows "le_Index (es ! k) = rf_lastApplied rf + 1 + int k"
proof -
  define a where "a = nat (rf_lastApplied rf)"
  have a: "rf_lastApplied rf = int a" using assms(2) by (simp add: a_def)
  obtain n where "entries_between (rf_log rf) (int a) n = Some es"
    using assms(3,4) by (auto simp: applier_step_def Let_def a split: if_splits option.splits)
  then have es: "es = take n (drop (Suc a) (rf_log rf))" using entries_between_slice by blast
  have "entries_from (Suc a) es"
    using assms(1) entries_drop [of 0 "rf_log rf" "Suc a"] by (simp add: es log_typed_def entries_take)
  with assms(4) show ?thesis by (simp add: entries_from_def a)
qed

text \<open>
  C9: Type safety of a new cluster, whatever messages are lost, repeated or reordered: in every
  reachable state the entry at position \<open>n\<close> of every log has index \<open>n\<close> and position 0 holds the
  sentinel; every message in flight can be handled without a panic, and every pending goroutine of
  \<open>sendHeartBeats\<close> can build its request, whose entries continue its previous index; what an applier
  hands to the store has consecutive indices, starting after the last one applied.
\<close>

theorem cluster_type_safety:
  assumes "reach cluster_new (cluster_step strict timely) c"
  shows "(\<forall>i n. n < length (rf_log (cl_node c i)) \<longrightarrow> le_Index (rf_log (cl_node c i) ! n) = int n) \<and>
    (\<forall>i. take 1 (rf_log (cl_node c i)) = [\<lparr>le_Index = 0, le_Term = 0, le_Command = []\<rparr>]) \<and>
    (\<forall>i j args. VoteReq i j args \<in> cl_msgs c \<longrightarrow> (\<exists>r. raft_RequestVote (cl_node c j) args now = Inr r)) \<and>
    (\<forall>i j t. Heartbeat i j t \<in> cl_msgs c \<longrightarrow> (\<exists>r. heartbeat_args (cl_node c i) t (int j) = Inr r)) \<and>
    (\<forall>i j args. AppReq i j args \<in> cl_msgs c \<longrightarrow> (\<exists>r. raft_AppendEntries (cl_node c j) args now = Inr r) \<and>
       (\<forall>m < length (aea_Entries args). le_Index (aea_Entries args ! m) = aea_PrevLogIndex args + 1 + int m)) \<and>
    (\<forall>i j args reply. AppRep i j args reply \<in> cl_msgs c \<longrightarrow> (\<exists>r. handleAppendReply (cl_node c i) (int j) args reply = Inr r)) \<and>
    (\<forall>i es rf' k. applier_step (cl_node c i) = Inr (es, rf') \<longrightarrow> k < length es \<longrightarrow>
       le_Index (es ! k) = rf_lastApplied (cl_node c i) + 1 + int k)"
proof (intro conjI allI impI)
  note typed = ty.reach_inv [OF assms]
  note node = cluster_typedD(1) [OF typed, unfolded node_typed_def node_inv_def log_typed_def]
  note msg = cluster_typedD(3) [OF typed]
  show "le_Index (rf_log (cl_node c i) ! n) = int n" if "n < length (rf_log (cl_node c i))" for i n
    using node [of i] that by (simp add: entries_from_def)
  show "take 1 (rf_log (cl_node c i)) = [\<lparr>le_Index = 0, le_Term = 0, le_Command = []\<rparr>]" for i
    using node [of i] by (simp add: fresh_log_def)
  show "\<exists>r. raft_RequestVote (cl_node c j) args now = Inr r" for j args
    using raft_RequestVote_outcome [of "cl_node c j" args now] node [of j] by metis
  show "\<exists>r. heartbeat_args (cl_node c i) t (int j) = Inr r" for i j t
    using heartbeat_args_total node by blast
  show "\<exists>r. handleAppendReply (cl_node c i) (int j) args reply = Inr r" for i j args reply
    using handleAppendReply_total node by blast
  show "\<exists>r. raft_AppendEntries (cl_node c j) args now = Inr r" if "AppReq i j args \<in> cl_msgs c" for i j args
    using raft_AppendEntries_outcome [of args "cl_node c j" now] msg [OF that]
    unfolding rpc_typed.simps args_typed_def by metis
  show "le_Index (aea_Entries args ! m) = aea_PrevLogIndex args + 1 + int m"
    if "AppReq i j args \<in> cl_msgs c" "m < length (aea_Entries args)" for i j args m
    using msg [OF that(1)] that(2) by (auto simp: args_typed_def entries_from_def)
  show "le_Index (es ! k) = rf_lastApplied (cl_node c i) + 1 + int k"
    if "applier_step (cl_node c i) = Inr (es, rf')" "k < length es" for i es rf' k
    using applied_indices [OF _ _ that] cluster_typedD(1) [OF typed, of i] by (simp add: node_typed_def)
qed

lemma fresh_cluster_new: "cluster_new fresh_cluster"
  unfolding cluster_new_def fresh_cluster_def fresh_node_def by (auto intro!: exI [of _ "[True, True, True]"])

theorem cluster_type_safety_witness:
  "\<exists>c. reach cluster_new (cluster_step False False) c \<and> VoteReq 1 2 (first_request 1) \<in> cl_msgs c \<and>
     (\<exists>r. raft_RequestVote (cl_node c 2) (first_request 1) 0 = Inr r)"
proof -
  obtain c where c: "reach cluster_new (cluster_step False False) c" "first_elected c"
    using first_elected_reach [of cluster_new, OF fresh_cluster_new] by blast
  from cluster_type_safety [OF c(1), of 0] c show ?thesis
    by (intro exI [of _ c]) (auto simp: first_elected_def)
qed

end
