(* ===== verification/Raft_Cluster_Runs.thy ===== *)
theory Raft_Cluster_Runs
  imports Raft_Cluster_Logs
begin

text \<open>
  Runs of a cluster of three new nodes: the round in which a leader of term 1 gets a command,
  replicates it to node 2 and commits it. The run with one leader shows that the conditions of the
  safety theorems can hold; the run of \<open>two_leaders_one_term\<close>, continued with a round of each leader,
  shows what happens without them.
\<close>

section \<open>One round of a leader and node 2\<close>

definition first_entry :: "bytes \<Rightarrow> log_entry" where
  "first_entry cmd = \<lparr>le_Index = 1, le_Term = 1, le_Command = cmd\<rparr>"

definition first_append_args :: "nat \<Rightarrow> bytes \<Rightarrow> AppendEntriesArgs" where
  "first_append_args i cmd = \<lparr>aea_Term = 1, aea_LeaderId = int i, aea_PrevLogIndex = 0, aea_PrevLogTerm = 0,
     aea_Entries = [first_entry cmd], aea_LeaderCommit = 0\<rparr>"

definition leader_with :: "nat \<Rightarrow> bytes \<Rightarrow> raft" where
  "leader_with i cmd = (init_leader (first_candidate i))\<lparr>rf_log := fresh_log @ [first_entry cmd], rf_triggerCh := True\<rparr>"

lemma leader_with_fields:
  "rf_state (leader_with i cmd) = Leader" "rf_currentTerm (leader_with i cmd) = 1" "rf_me (leader_with i cmd) = int i"
  "rf_peers (leader_with i cmd) = [True, True, True]" "rf_log (leader_with i cmd) = fresh_log @ [first_entry cmd]"
  "rf_nextIndex (leader_with i cmd) 2 = Some (int 1)" "rf_commitIndex (leader_with i cmd) = 0"
  "rf_lastApplied (leader_with i cmd) = 0" "rf_matchIndex (leader_with i cmd) 2 = Some 0"
  by (simp_all add: leader_with_def init_leader_eq first_candidate_def fresh_node_fields fresh_log_def)

lemma leader_gets_command:
  "raft_Start (init_leader (first_candidate i)) (Some cmd) = ((1, 1, True), leader_with i cmd)"
  by (simp add: raft_Start_def leader_with_def init_leader_eq first_candidate_def fresh_node_fields fresh_log_def
      first_entry_def)

lemma leader_request: "heartbeat_args (leader_with i cmd) 1 2 = Inr (Some (first_append_args i cmd))"
  using heartbeat_args_leader [OF leader_with_fields(1,6), of i cmd 1]
  by (simp add: leader_with_fields first_append_args_def fresh_log_def)

lemma follower_keeps_first:
  assumes "rf_currentTerm rf = 1" and "rf_log rf = fresh_log @ rest" and "rest = [] \<or> (\<exists>old. rest = [first_entry old])"
  shows "\<exists>reply rf'. raft_AppendEntries rf (first_append_args i cmd) 0 = Inr (reply, rf') \<and> aer_Success reply \<and>
    aer_Term reply = 1 \<and> rf_currentTerm rf' = 1 \<and> rf_lastApplied rf' = rf_lastApplied rf \<and>
    (0 \<le> rf_commitIndex rf \<longrightarrow> rf_commitIndex rf' = rf_commitIndex rf) \<and>
    rf_log rf' = fresh_log @ (if rest = [] then [first_entry cmd] else rest)"
proof -
  obtain reply rf' where r: "raft_AppendEntries rf (first_append_args i cmd) 0 = Inr (reply, rf')"
    "append_outcome rf (first_append_args i cmd) reply rf'"
    by (rule raft_AppendEntries_outcome [of "first_append_args i cmd" rf 0]) (simp_all add: first_append_args_def)
  have "accepts rf (first_append_args i cmd)"
    using assms(1,2) by (simp add: accepts_def first_append_args_def fresh_log_def)
  with r assms show ?thesis
    by (auto simp: append_outcome_def first_append_args_def merged_def fresh_log_def first_entry_def)
qed

definition leader_committed :: "nat \<Rightarrow> bytes \<Rightarrow> raft" where
  "leader_committed i cmd = (advance_indices (leader_with i cmd) 2 1)\<lparr>rf_commitIndex := 1, rf_commitCh := True\<rparr>"

lemma leader_committed_fields:
  "rf_log (leader_committed i cmd) = fresh_log @ [first_entry cmd]" "rf_commitIndex (leader_committed i cmd) = 1"
  "rf_lastApplied (leader_committed i cmd) = 0" "rf_state (leader_committed i cmd) = Leader"
  "rf_currentTerm (leader_committed i cmd) = 1" "rf_peers (leader_committed i cmd) = [True, True, True]"
  "rf_me (leader_committed i cmd) = int i" "rf_nextIndex (leader_committed i cmd) 2 = Some (int 2)" "rf_commitCh (leader_committed i cmd)"
  by (simp_all add: leader_committed_def advance_indices_def leader_with_fields mget_def)

lemma leader_commits:
  assumes "i < 2" and "aer_Success reply" and "aer_Term reply = 1"
  shows "handleAppendReply (leader_with i cmd) 2 (first_append_args i cmd) reply = Inr (leader_committed i cmd)"
proof -
  let ?rf = "advance_indices (leader_with i cmd) 2 1"
  have f: "rf_commitIndex ?rf = 0" "rf_log ?rf = fresh_log @ [first_entry cmd]" "rf_currentTerm ?rf = 1"
    "rf_peers ?rf = [True, True, True]" "rf_me ?rf = int i"
    by (simp_all add: advance_indices_def leader_with_fields mget_def)
  have "mget (rf_matchIndex (advance_indices (leader_with j cmd) 2 1)) 2 = 1" for j
    by (simp add: advance_indices_def leader_with_fields mget_def)
  then have "match_count ?rf 1 > 1"
    using assms(1) by (auto simp: match_count_def f upt_rec)
  then have "commit_scan ?rf 1 = Inr (leader_committed i cmd)"
    by (simp add: commit_scan.simps f log_get_def fresh_log_def first_entry_def leader_committed_def)
  then show ?thesis
    using assms(2,3) f by (simp add: handleAppendReply_def leader_with_fields first_append_args_def fresh_log_def)
qed

lemma leader_round:
  assumes r: "reach init (cluster_step strict timely) c" and i: "i < 2" and n: "cl_size c = 3"
    and ld: "cl_node c i = init_leader (first_candidate i)" and tm: "rf_currentTerm (cl_node c 2) = 1"
    and log: "rf_log (cl_node c 2) = fresh_log @ rest" "rest = [] \<or> (\<exists>old. rest = [first_entry old])"
  shows "\<exists>c'. reach init (cluster_step strict timely) c' \<and> cl_size c' = 3 \<and>
    (\<forall>j. j \<noteq> i \<longrightarrow> j \<noteq> 2 \<longrightarrow> cl_node c' j = cl_node c j) \<and> cl_node c' i = leader_committed i cmd \<and>
    rf_currentTerm (cl_node c' 2) = 1 \<and> rf_lastApplied (cl_node c' 2) = rf_lastApplied (cl_node c 2) \<and>
    (0 \<le> rf_commitIndex (cl_node c 2) \<longrightarrow> rf_commitIndex (cl_node c' 2) = rf_commitIndex (cl_node c 2)) \<and>
    rf_log (cl_node c' 2) = fresh_log @ (if rest = [] then [first_entry cmd] else rest)"
proof -
  let ?r = "reach init (cluster_step strict timely)" and ?l = "leader_with i cmd" and ?a = "first_append_args i cmd"
  have ne: "2 \<noteq> i" "i \<noteq> 2" using i by simp_all
  obtain c1 where c1: "?r c1" "cl_size c1 = 3" "cl_node c1 = (cl_node c)(i := ?l)"
    using reach_step [OF r, OF client [of _ i "Some cmd"]]
    by (rule that) (simp_all add: ld leader_gets_command n)
  obtain c2 where c2: "?r c2" "cl_size c2 = 3" "cl_node c2 = cl_node c1" "Heartbeat i 2 1 \<in> cl_msgs c2"
    using reach_step [OF c1(1), OF beat [of i]]
    by (rule that) (use i c1 in \<open>auto simp: sendHeartBeats_term_def heartbeat_peers_def leader_with_fields upt_rec\<close>)
  obtain c3 where c3: "?r c3" "cl_size c3 = 3" "cl_node c3 = cl_node c1" "AppReq i 2 ?a \<in> cl_msgs c3"
    using reach_step [OF c2(1), OF send [OF c2(4)]]
    by (rule that) (use c1 c2 in \<open>auto simp: leader_request leader_with_fields\<close>)
  obtain reply rf where a: "raft_AppendEntries (cl_node c3 2) ?a 0 = Inr (reply, rf)" "aer_Success reply"
    "aer_Term reply = 1" "rf_currentTerm rf = 1" "rf_lastApplied rf = rf_lastApplied (cl_node c 2)"
    "0 \<le> rf_commitIndex (cl_node c 2) \<longrightarrow> rf_commitIndex rf = rf_commitIndex (cl_node c 2)"
    "rf_log rf = fresh_log @ (if rest = [] then [first_entry cmd] else rest)"
    using follower_keeps_first [OF _ _ log(2), of "cl_node c3 2" i cmd] tm log(1) ne by (auto simp: c3 c1)
  obtain c4 where c4: "?r c4" "cl_size c4 = 3" "cl_node c4 = (cl_node c1)(2 := rf)" "AppRep i 2 ?a reply \<in> cl_msgs c4"
    using reach_step [OF c3(1), OF append [OF c3(4) a(1)]] by (rule that) (use c3 in auto)
  have b: "handleAppendReply (cl_node c4 i) (int 2) ?a reply = Inr (leader_committed i cmd)"
    using leader_commits [OF i a(2,3), of cmd] ne by (auto simp: c4 c1)
  have "?r (set_node i (leader_committed i cmd) c4)"
    by (rule reach_step [OF c4(1), OF ack [OF c4(4) b]])
      (use ne in \<open>simp add: c4 c1 leader_with_fields first_append_args_def\<close>)
  with a b ne show ?thesis by (intro exI [of _ "set_node i (leader_committed i cmd) c4"]) (auto simp: c4 c1)
qed

text \<open>After the first election and one round: the command is committed at the leader and stored at node 2.\<close>

definition first_committed :: "bytes \<Rightarrow> cluster \<Rightarrow> bool" where
  "first_committed cmd c \<longleftrightarrow> cl_size c = 3 \<and> cl_node c 0 = leader_committed 0 cmd \<and>
     rf_log (cl_node c 2) = fresh_log @ [first_entry cmd] \<and> rf_currentTerm (cl_node c 2) = 1 \<and>
     rf_commitIndex (cl_node c 2) = 0 \<and> rf_lastApplied (cl_node c 2) = 0"

lemma first_committed_reach:
  assumes "init fresh_cluster"
  shows "\<exists>c. reach init (cluster_step strict timely) c \<and> first_committed cmd c"
proof -
  obtain c where c: "reach init (cluster_step strict timely) c" "first_elected c"
    using first_elected_reach [of init, OF assms] by blast
  from leader_round [OF c(1), of 0 "[]" cmd] c(2) show ?thesis
    unfolding first_committed_def first_elected_def by auto
qed

lemma applies_first:
  assumes "rf_log rf = fresh_log @ [first_entry cmd]" and "rf_commitIndex rf = 1" and "rf_lastApplied rf = 0" and "rf_commitCh rf"
  shows "\<exists>rf'. applier_round rf = Some (Inr ([first_entry cmd], rf')) \<and> rf_lastApplied rf' = 1 \<and> rf_log rf' = rf_log rf"
  using assms by (simp add: applier_round_def applier_step_def fresh_log_def log_get_def)

text \<open>The next heartbeat of the leader moves the commit index of node 2, and both appliers run.\<close>

lemma first_applied_reach:
  assumes "init fresh_cluster"
  shows "\<exists>c. reach init (cluster_step strict timely) c \<and>
    (\<forall>i \<in> {0, 2}. rf_log (cl_node c i) = fresh_log @ [first_entry cmd] \<and> rf_lastApplied (cl_node c i) = 1)"
proof -
  let ?r = "reach init (cluster_step strict timely)" and ?l = "leader_committed 0 cmd"
  let ?a = "\<lparr>aea_Term = 1, aea_LeaderId = 0, aea_PrevLogIndex = 1, aea_PrevLogTerm = 1, aea_Entries = [],
    aea_LeaderCommit = 1\<rparr>"
  obtain c where c: "?r c" "cl_size c = 3" "cl_node c 0 = ?l" "rf_log (cl_node c 2) = fresh_log @ [first_entry cmd]"
    "rf_currentTerm (cl_node c 2) = 1" "rf_commitIndex (cl_node c 2) = 0" "rf_lastApplied (cl_node c 2) = 0"
    using first_committed_reach [of init, OF assms] unfolding first_committed_def by blast
  have args: "heartbeat_args ?l 1 2 = Inr (Some ?a)"
    using heartbeat_args_leader [OF leader_committed_fields(4,8), of 0 cmd 1]
    by (simp add: leader_committed_fields fresh_log_def first_entry_def)
  obtain c1 where c1: "?r c1" "cl_node c1 = cl_node c" "Heartbeat 0 2 1 \<in> cl_msgs c1"
    using reach_step [OF c(1), OF beat [of 0]]
    by (rule that) (use c in \<open>auto simp: sendHeartBeats_term_def heartbeat_peers_def leader_committed_fields upt_rec\<close>)
  obtain c2 where c2: "?r c2" "cl_node c2 = cl_node c" "AppReq 0 2 ?a \<in> cl_msgs c2"
    using reach_step [OF c1(1), OF send [OF c1(3)]]
    by (rule that) (use c c1 args in \<open>auto simp: leader_committed_fields\<close>)
  obtain reply rf where f: "raft_AppendEntries (cl_node c2 2) ?a 0 = Inr (reply, rf)" "append_outcome (cl_node c2 2) ?a reply rf"
    by (rule raft_AppendEntries_outcome [of ?a "cl_node c2 2" 0]) simp_all
  have "accepts (cl_node c2 2) ?a" using c by (simp add: accepts_def c2 fresh_log_def first_entry_def)
  with f(2) c have rf: "rf_log rf = fresh_log @ [first_entry cmd]" "rf_commitIndex rf = 1" "rf_lastApplied rf = 0"
    by (auto simp: append_outcome_def merged_def c2)
  moreover have "rf_commitCh rf"
    using f(1) c by (auto simp: raft_AppendEntries_def c2 Let_def log_get_def fresh_log_def first_entry_def update_commit_def)
  ultimately have sig: "rf_commitCh rf" by blast
  obtain c3 where c3: "?r c3" "cl_node c3 = (cl_node c)(2 := rf)"
    using reach_step [OF c2(1), OF append [OF c2(3) f(1)]] by (rule that) (use c2 in auto)
  obtain x where x: "applier_round (cl_node c3 0) = Some (Inr ([first_entry cmd], x))" "rf_lastApplied x = 1"
    "rf_log x = fresh_log @ [first_entry cmd]"
    using applies_first [OF leader_committed_fields(1-3,9), of 0 cmd] c(3) by (auto simp: c3 leader_committed_fields)
  obtain c4 where c4: "?r c4" "cl_node c4 = (cl_node c3)(0 := x)"
    using reach_step [OF c3(1), OF applier [OF x(1)]] by (rule that) simp
  obtain y where y: "applier_round (cl_node c4 2) = Some (Inr ([first_entry cmd], y))" "rf_lastApplied y = 1"
    "rf_log y = fresh_log @ [first_entry cmd]"
    using applies_first [OF rf sig] rf(1) by (auto simp: c4 c3)
  have "?r (set_node 2 y c4)" by (rule reach_step [OF c4(1), OF applier [OF y(1)]])
  with x y show ?thesis by (intro exI [of _ "set_node 2 y c4"]) (simp add: c4)
qed

section \<open>Two leaders commit\<close>

text \<open>
  C32: With two leaders in one term the replicas of the key-value store diverge: from three new nodes with empty logs, steps
  lead to a state in which nodes 0 and 1 are both leaders of term 1, each has committed an entry of this term at index 1,
  counting node 2, which has stored only the first of them, and the appliers, which have a signal, hand different
  commands to the stores. The steps keep to the condition \<open>timely\<close>; only a vote that is given again is needed.
\<close>

theorem committed_commands_diverge:
  "\<exists>c rf0 rf1. reach cluster_new (cluster_step False True) c \<and> cl_size c = 3 \<and>
     rf_state (cl_node c 0) = Leader \<and> rf_currentTerm (cl_node c 0) = 1 \<and>
     rf_state (cl_node c 1) = Leader \<and> rf_currentTerm (cl_node c 1) = 1 \<and>
     applier_round (cl_node c 0) = Some (Inr ([\<lparr>le_Index = 1, le_Term = 1, le_Command = [10]\<rparr>], rf0)) \<and>
     applier_round (cl_node c 1) = Some (Inr ([\<lparr>le_Index = 1, le_Term = 1, le_Command = [20]\<rparr>], rf1))"
proof -
  let ?r = "reach cluster_new (cluster_step False True)"
  obtain c where c: "?r c" "cl_size c = 3" "cl_node c 0 = init_leader (first_candidate 0)"
    "cl_node c 1 = init_leader (first_candidate 1)" "rf_currentTerm (cl_node c 2) = 1" "rf_log (cl_node c 2) = fresh_log @ []"
    using second_elected_reach [of cluster_new, OF fresh_cluster_new] unfolding second_elected_def by auto
  obtain c1 where c1: "?r c1" "cl_size c1 = 3" "cl_node c1 1 = cl_node c 1" "cl_node c1 0 = leader_committed 0 [10]"
    "rf_currentTerm (cl_node c1 2) = 1" "rf_log (cl_node c1 2) = fresh_log @ [first_entry [10]]"
    using leader_round [OF c(1) _ c(2,3,5,6), of "[10]"] by auto
  have old: "[first_entry [10]] = [] \<or> (\<exists>old. [first_entry [10]] = [first_entry old])" by blast
  obtain c2 where c2: "?r c2" "cl_size c2 = 3" "cl_node c2 0 = leader_committed 0 [10]" "cl_node c2 1 = leader_committed 1 [20]"
    using leader_round [OF c1(1) _ c1(2) _ c1(5,6) old, of 1 "[20]"] c1(3,4) c(4) by (auto simp del: One_nat_def)
  from applies_first [OF leader_committed_fields(1-3,9), of 0 "[10]"] applies_first [OF leader_committed_fields(1-3,9), of 1 "[20]"] c2
  show ?thesis by (auto simp: first_entry_def leader_committed_fields intro!: exI [of _ c2])
qed

end
