(* ===== verification/Raft_Log_Matching.thy ===== *)
theory Raft_Log_Matching
  imports Raft_Cluster_Runs
begin

text \<open>
  Log matching in a new cluster, for all pairs of nodes: two logs that have an entry of the same
  term at the same index agree up to that index. The proof follows the logs of the leaders: \<open>h t\<close>
  is the log of the leader of term \<open>t\<close> as far as it has grown, and every log of the cluster, and
  every log a request in flight was built from, is made of prefixes of these.
\<close>

section \<open>Logs made of prefixes\<close>

definition same_upto :: "nat \<Rightarrow> log_entry list \<Rightarrow> log_entry list \<Rightarrow> bool" where
  "same_upto n l l' \<longleftrightarrow> n < length l \<and> n < length l' \<and> take (Suc n) l = take (Suc n) l'"

lemma same_upto_sym: "same_upto n l l' \<Longrightarrow> same_upto n l' l"
  by (simp add: same_upto_def)

lemma same_upto_trans: "same_upto n l l' \<Longrightarrow> same_upto n l' l'' \<Longrightarrow> same_upto n l l''"
  by (simp add: same_upto_def)

lemma same_upto_refl: "n < length l \<Longrightarrow> same_upto n l l"
  by (simp add: same_upto_def)

lemma same_upto_le: "same_upto n l l' \<Longrightarrow> m \<le> n \<Longrightarrow> same_upto m l l'"
  unfolding same_upto_def by (metis Suc_le_mono min.absorb1 order.strict_trans1 take_take)

lemma same_upto_nth: "same_upto n l l' \<Longrightarrow> m \<le> n \<Longrightarrow> l ! m = l' ! m"
  unfolding same_upto_def by (metis le_imp_less_Suc nth_take)

lemma same_upto_take: "n < m \<Longrightarrow> n < length l \<Longrightarrow> same_upto n (take m l) l"
  by (simp add: same_upto_def min_def)

lemma same_upto_append: "n < length l \<Longrightarrow> same_upto n l (l @ l')"
  by (simp add: same_upto_def)

type_synonym leader_logs = "int \<Rightarrow> log_entry list"

definition traced :: "leader_logs \<Rightarrow> log_entry list \<Rightarrow> bool" where
  "traced h l \<longleftrightarrow> (\<forall>n < length l. same_upto n l (h (le_Term (l ! n))))"

lemma tracedD: "traced h l \<Longrightarrow> n < length l \<Longrightarrow> same_upto n l (h (le_Term (l ! n)))"
  by (simp add: traced_def)

lemma traced_take: "traced h l \<Longrightarrow> traced h (take m l)"
  unfolding traced_def using same_upto_take same_upto_trans by (metis length_take min_less_iff_conj nth_take)

lemma traced_matching: "traced h l \<Longrightarrow> traced h l' \<Longrightarrow> log_matching l l'"
  by (auto simp: traced_def log_matching_def same_upto_def)

lemma traced_same: "traced h l \<Longrightarrow> traced h l' \<Longrightarrow> n < length l \<Longrightarrow> n < length l' \<Longrightarrow> le_Term (l ! n) = le_Term (l' ! n) \<Longrightarrow>
    same_upto n l l'"
  by (metis same_upto_sym same_upto_trans tracedD)

text \<open>The leaders' logs only grow.\<close>

definition grows :: "leader_logs \<Rightarrow> leader_logs \<Rightarrow> bool" where
  "grows h h' \<longleftrightarrow> (\<forall>t. \<exists>es. h' t = h t @ es)"

lemma grows_refl [simp]: "grows h h"
  by (simp add: grows_def)

lemma grows_same: "grows h h' \<Longrightarrow> n < length (h t) \<Longrightarrow> same_upto n (h t) (h' t)"
  unfolding grows_def using same_upto_append by metis

lemma grows_upto: "grows h h' \<Longrightarrow> same_upto n l (h t) \<Longrightarrow> same_upto n l (h' t)"
  using grows_same same_upto_trans by (metis same_upto_def)

lemma grows_traced: "grows h h' \<Longrightarrow> traced h l \<Longrightarrow> traced h' l"
  unfolding traced_def using grows_upto by blast

text \<open>A merge of a slice of another log gives the old log or a prefix of the other one.\<close>

lemma merged_traced_cases:
  assumes "traced h l" and "traced h g" and "p < length l" and "p < length g" and "le_Term (l ! p) = le_Term (g ! p)"
    and "es = take m (drop (Suc p) g)"
  shows "merged l (Suc p) es = l \<and> same_upto (p + length es) l g \<or>
    merged l (Suc p) es = take (Suc p + length es) g \<and> p + length es < length g"
proof -
  have "length es \<le> length g - Suc p" using assms(6) by simp
  then have len: "p + length es < length g" using assms(4) by linarith
  have "p + length es < length l" if "take (Suc p + length es) l = take (Suc p + length es) g"
    using arg_cong [OF that, of length] len by (simp add: min_def split: if_splits)
  with merged_slice [OF traced_matching [OF assms(1,2)], of "Suc p" es m] assms(3-6) len show ?thesis
    by (auto simp: same_upto_def)
qed

section \<open>The invariant\<close>

definition from_leader :: "leader_logs \<Rightarrow> AppendEntriesArgs \<Rightarrow> bool" where
  "from_leader h args \<longleftrightarrow> aea_Entries args = [] \<or>
     (\<exists>g m. traced h g \<and> nat (aea_PrevLogIndex args) < length g \<and>
        aea_PrevLogTerm args = le_Term (g ! nat (aea_PrevLogIndex args)) \<and>
        aea_Entries args = take m (drop (Suc (nat (aea_PrevLogIndex args))) g))"

definition tracked :: "cluster \<Rightarrow> leader_logs \<Rightarrow> (int \<times> nat) set \<Rightarrow> bool" where
  "tracked c h L \<longleftrightarrow>
     (\<forall>i. traced h (rf_log (cl_node c i))) \<and> (\<forall>t. traced h (h t)) \<and>
     (\<forall>i j args. AppReq i j args \<in> cl_msgs c \<longrightarrow> from_leader h args) \<and>
     (\<forall>t. t \<noteq> 0 \<longrightarrow> h t \<noteq> [] \<longrightarrow> (\<exists>i. (t, i) \<in> L)) \<and> h 0 = fresh_log \<and>
     (\<forall>i. rf_state (cl_node c i) = Leader \<longrightarrow> rf_log (cl_node c i) = h (rf_currentTerm (cl_node c i)) \<and>
        (rf_currentTerm (cl_node c i), i) \<in> L) \<and>
     (\<forall>t i. (t, i) \<in> L \<longrightarrow> 0 < t \<and> cl_size c < 2 * card (cl_counted c i t) \<and> t \<le> rf_currentTerm (cl_node c i) \<and>
        (t = rf_currentTerm (cl_node c i) \<longrightarrow> rf_state (cl_node c i) \<noteq> Candidate)) \<and>
     (\<forall>i. 0 \<le> rf_currentTerm (cl_node c i) \<and>
        (rf_state (cl_node c i) \<noteq> Follower \<longrightarrow> 0 < rf_currentTerm (cl_node c i)))"

lemma trackedD:
  assumes "tracked c h L"
  shows "traced h (rf_log (cl_node c i))" "traced h (h t)"
    "AppReq i j args \<in> cl_msgs c \<Longrightarrow> from_leader h args"
    "t \<noteq> 0 \<Longrightarrow> h t \<noteq> [] \<Longrightarrow> \<exists>i. (t, i) \<in> L" "h 0 = fresh_log"
    "rf_state (cl_node c i) = Leader \<Longrightarrow> rf_log (cl_node c i) = h (rf_currentTerm (cl_node c i))"
    "rf_state (cl_node c i) = Leader \<Longrightarrow> (rf_currentTerm (cl_node c i), i) \<in> L"
    "(t, i) \<in> L \<Longrightarrow> 0 < t" "(t, i) \<in> L \<Longrightarrow> cl_size c < 2 * card (cl_counted c i t)"
    "(t, i) \<in> L \<Longrightarrow> t \<le> rf_currentTerm (cl_node c i)"
    "(t, i) \<in> L \<Longrightarrow> t = rf_currentTerm (cl_node c i) \<Longrightarrow> rf_state (cl_node c i) \<noteq> Candidate"
    "0 \<le> rf_currentTerm (cl_node c i)"
    "rf_state (cl_node c i) \<noteq> Follower \<Longrightarrow> 0 < rf_currentTerm (cl_node c i)"
  using assms unfolding tracked_def by auto

lemma trackedI:
  assumes "\<And>i. traced h (rf_log (cl_node c i))" and "\<And>t. traced h (h t)"
    and "\<And>i j args. AppReq i j args \<in> cl_msgs c \<Longrightarrow> from_leader h args"
    and "\<And>t. t \<noteq> 0 \<Longrightarrow> h t \<noteq> [] \<Longrightarrow> \<exists>i. (t, i) \<in> L" and "h 0 = fresh_log"
    and "\<And>i. rf_state (cl_node c i) = Leader \<Longrightarrow> rf_log (cl_node c i) = h (rf_currentTerm (cl_node c i)) \<and>
      (rf_currentTerm (cl_node c i), i) \<in> L"
    and "\<And>t i. (t, i) \<in> L \<Longrightarrow> 0 < t \<and> cl_size c < 2 * card (cl_counted c i t) \<and> t \<le> rf_currentTerm (cl_node c i) \<and>
      (t = rf_currentTerm (cl_node c i) \<longrightarrow> rf_state (cl_node c i) \<noteq> Candidate)"
    and "\<And>i. 0 \<le> rf_currentTerm (cl_node c i)"
    and "\<And>i. rf_state (cl_node c i) \<noteq> Follower \<Longrightarrow> 0 < rf_currentTerm (cl_node c i)"
  shows "tracked c h L"
  using assms unfolding tracked_def by blast

lemma tracked_new: "cluster_new c \<Longrightarrow> tracked c (\<lambda>t. if t = 0 then fresh_log else []) {}"
  by (simp add: tracked_def new_node_fields traced_def same_upto_def fresh_log_def) (simp add: cluster_new_def)

section \<open>Every step keeps the invariant\<close>

text \<open>
  A step that neither elects nor appends at a leader: the node keeps its role in its term or becomes
  a follower, and its log stays made of prefixes.
\<close>

definition calm :: "raft \<Rightarrow> raft \<Rightarrow> bool" where
  "calm rf rf' \<longleftrightarrow> rf_currentTerm rf \<le> rf_currentTerm rf' \<and>
     (rf_state rf' \<noteq> Follower \<longrightarrow> rf_state rf' = rf_state rf \<and> rf_currentTerm rf' = rf_currentTerm rf \<and> rf_log rf' = rf_log rf)"

lemma calm_refl [simp]: "calm rf rf"
  by (simp add: calm_def)

lemma calm_vote: "raft_RequestVote rf args now = Inr (reply, rf') \<Longrightarrow> calm rf rf'"
  using raft_RequestVote_result [of rf args now reply rf'] by (auto simp: vote_outcome_def calm_def max_def split: if_splits)

lemma calm_append: "raft_AppendEntries rf args now = Inr (reply, rf') \<Longrightarrow> calm rf rf'"
  using raft_AppendEntries_success [of rf args now reply rf'] by (auto simp: append_outcome_def calm_def split: if_splits)

lemma handleAppendReply_cases:
  assumes "handleAppendReply rf server args reply = Inr rf'"
  obtains "rf_currentTerm rf < rf_currentTerm rf'" "rf_state rf' = Follower" "rf_commitIndex rf' = rf_commitIndex rf"
  | "rf_currentTerm rf' = rf_currentTerm rf" "rf_state rf' = rf_state rf" "aer_Success reply"
    "commit_scan (advance_indices rf server (aea_PrevLogIndex args + int (length (aea_Entries args))))
       (int (length (rf_log rf)) - 1) = Inr rf'"
  | "rf_currentTerm rf' = rf_currentTerm rf" "rf_state rf' = rf_state rf" "rf_commitIndex rf' = rf_commitIndex rf"
    "rf_matchIndex rf' = rf_matchIndex rf"
proof -
  let ?rf1 = "advance_indices rf server (aea_PrevLogIndex args + int (length (aea_Entries args)))"
  have f: "rf_currentTerm ?rf1 = rf_currentTerm rf" "rf_state ?rf1 = rf_state rf" "rf_log ?rf1 = rf_log rf"
    by (simp_all add: advance_indices_def)
  consider "aer_Term reply > rf_currentTerm rf" | "\<not> aer_Term reply > rf_currentTerm rf" "aer_Success reply"
    | "\<not> aer_Term reply > rf_currentTerm rf" "\<not> aer_Success reply" by blast
  then show thesis
  proof cases
    case 1
    with assms that(1) show ?thesis by (auto simp: handleAppendReply_def)
  next
    case 2
    with assms f have scan: "commit_scan ?rf1 (int (length (rf_log rf)) - 1) = Inr rf'"
      by (simp add: handleAppendReply_def Let_def)
    from commit_scan_result [OF this] f that(2) [OF _ _ 2(2) scan] show ?thesis by auto
  next
    case 3
    with assms that(3) show ?thesis by (auto simp: handleAppendReply_def)
  qed
qed

lemma calm_ack:
  assumes "handleAppendReply rf server args reply = Inr rf'"
  shows "calm rf rf'"
  using assms by (rule handleAppendReply_cases) (use handleAppendReply_result(1) [OF assms] in \<open>simp_all add: calm_def\<close>)

lemma calm_applier: "applier_round rf = Some (Inr (es, rf')) \<Longrightarrow> calm rf rf'"
  by (auto dest!: applier_roundD(2) simp: applier_step_def Let_def calm_def split: if_splits option.splits)

lemma calm_replicator: "calm rf (replicator_step rf)"
  by (simp add: replicator_step_def calm_def)

lemma calm_count: "handleVoteReply rf t v reply = (v', won, rf') \<Longrightarrow> \<not> won \<Longrightarrow> calm rf rf'"
  by (auto simp: handleVoteReply_def Let_def calm_def split: if_splits)

lemma tracked_calm:
  assumes t: "tracked c h L" and "cl_size c' = cl_size c" and n: "cl_node c' = (cl_node c)(i := rf')"
    and q: "calm (cl_node c i) rf'" and log: "traced h (rf_log rf')"
    and m: "\<And>k j args. AppReq k j args \<in> cl_msgs c' \<Longrightarrow> AppReq k j args \<in> cl_msgs c \<or> from_leader h args"
    and v: "\<And>k t. card (cl_counted c k t) \<le> card (cl_counted c' k t)"
  shows "tracked c' h L"
proof -
  note T = trackedD [OF t]
  have "cl_size c' < 2 * card (cl_counted c' k s)" if "(s, k) \<in> L" for k s
    using T(9) [OF that] v [of k s] assms(2) by simp
  moreover have "s \<le> rf_currentTerm (cl_node c' k) \<and> (s = rf_currentTerm (cl_node c' k) \<longrightarrow> rf_state (cl_node c' k) \<noteq> Candidate)"
    if "(s, k) \<in> L" for k s
    using T(10,11) [OF that] q by (auto simp: n calm_def)
  moreover have "rf_log (cl_node c' k) = h (rf_currentTerm (cl_node c' k)) \<and> (rf_currentTerm (cl_node c' k), k) \<in> L"
    if "rf_state (cl_node c' k) = Leader" for k
    using T(6,7) [of k] q that by (auto simp: n calm_def split: if_splits)
  moreover have "0 \<le> rf_currentTerm (cl_node c' k)" for k
    using T(12) [of k] q by (auto simp: n calm_def)
  moreover have "0 < rf_currentTerm (cl_node c' k)" if "rf_state (cl_node c' k) \<noteq> Follower" for k
    using T(13) [of k] q that by (auto simp: n calm_def split: if_splits)
  moreover have "from_leader h args" if "AppReq k j args \<in> cl_msgs c'" for k j args
    using m [OF that] T(3) by blast
  ultimately show ?thesis using T(1,2,4,5,8) log unfolding tracked_def by (auto simp: n)
qed

lemma append_traced:
  assumes "traced h (rf_log rf)" and "from_leader h args" and "raft_AppendEntries rf args now = Inr (reply, rf')"
  shows "traced h (rf_log rf')"
proof (cases "accepts rf args")
  case True
  from raft_AppendEntries_success [OF assms(3)] True have prev: "0 \<le> aea_PrevLogIndex args"
    and log: "rf_log rf' = merged (rf_log rf) (Suc (nat (aea_PrevLogIndex args))) (aea_Entries args)"
    by (auto simp: append_outcome_def)
  show ?thesis
  proof (cases "aea_Entries args = []")
    case False
    with assms(2) obtain g m where g: "traced h g" "nat (aea_PrevLogIndex args) < length g"
      "aea_PrevLogTerm args = le_Term (g ! nat (aea_PrevLogIndex args))"
      "aea_Entries args = take m (drop (Suc (nat (aea_PrevLogIndex args))) g)"
      unfolding from_leader_def by blast
    have "nat (aea_PrevLogIndex args) < length (rf_log rf)" "le_Term (rf_log rf ! nat (aea_PrevLogIndex args)) = aea_PrevLogTerm args"
      using True prev by (auto simp: accepts_def)
    with merged_traced_cases [OF assms(1) g(1) _ g(2) _ g(4)] g(3) log
    have "rf_log rf' = rf_log rf \<or> (\<exists>k. rf_log rf' = take k g)" by auto
    with assms(1) traced_take [OF g(1)] show ?thesis by auto
  qed (use log assms(1) in \<open>simp add: merged_def\<close>)
qed (use raft_AppendEntries_success [OF assms(3)] assms(1) in \<open>simp add: append_outcome_def\<close>)

lemma request_from_leader:
  assumes "tracked c h L" and "cluster_typed c" and "j < cl_size c" and "heartbeat_args (cl_node c i) t (int j) = Inr (Some args)"
  shows "from_leader h args"
proof -
  let ?rf = "cl_node c i"
  have l: "rf_state ?rf = Leader" using assms(4) by (auto simp: heartbeat_args_def split: if_splits)
  with cluster_typedD(1) [OF assms(2), of i] assms(3) obtain v where v: "rf_nextIndex ?rf (int j) = Some v" "1 \<le> v"
    by (fastforce simp: node_typed_def node_inv_def next_ok_def)
  define p where "p = nat (v - 1)"
  have p: "rf_nextIndex ?rf (int j) = Some (int (Suc p))" "1 \<le> Suc p" using v by (auto simp: p_def)
  have "aea_PrevLogIndex args = int p" "aea_Entries args = take 100 (drop (Suc p) (rf_log ?rf))"
    "Suc p \<le> length (rf_log ?rf) \<Longrightarrow> aea_PrevLogTerm args = le_Term (rf_log ?rf ! p)"
    using heartbeat_args_leader [OF l p, of t] assms(4) by auto
  with trackedD(1) [OF assms(1), of i] show ?thesis
    unfolding from_leader_def by (cases "Suc p \<le> length (rf_log ?rf)") auto
qed

text \<open>An election starts a term that has no leader yet.\<close>

lemma tracked_elect:
  assumes t: "tracked c h L" and e: "startElection (cl_node c i) now = Inr (args, rf')"
    and "cl_size c' = cl_size c" and n: "cl_node c' = (cl_node c)(i := rf')"
    and m: "\<And>k j args. AppReq k j args \<in> cl_msgs c' \<Longrightarrow> AppReq k j args \<in> cl_msgs c"
    and v: "cl_counted c' = upd2 (cl_counted c) i (rf_currentTerm rf') {i}"
  shows "tracked c' h L"
proof -
  note T = trackedD [OF t] and S = startElection_result [OF e]
  have log: "rf_log rf' = rf_log (cl_node c i)" using e by (auto simp: startElection_def Let_def split: option.splits)
  have new: "(rf_currentTerm rf', i) \<notin> L" using T(10) [of "rf_currentTerm rf'" i] S(3) by auto
  have "cl_size c' < 2 * card (cl_counted c' k s)" if "(s, k) \<in> L" for k s
    using T(9) [OF that] new that assms(3) by (auto simp: v)
  moreover have "s \<le> rf_currentTerm (cl_node c' k) \<and> (s = rf_currentTerm (cl_node c' k) \<longrightarrow> rf_state (cl_node c' k) \<noteq> Candidate)"
    if "(s, k) \<in> L" for k s
    using T(10,11) [OF that] S(3) new that by (auto simp: n)
  moreover have "0 < rf_currentTerm rf'" using T(12) [of i] S(3) by simp
  moreover have "from_leader h a" if "AppReq k j a \<in> cl_msgs c'" for k j a using T(3) [OF m [OF that]] .
  ultimately show ?thesis using T(1,2,4-8,12,13) log S(5) unfolding tracked_def by (auto simp: n)
qed

text \<open>The winner of an election is the first leader of its term, so no log has an entry of the term.\<close>

lemma traced_no_entry: "traced h l \<Longrightarrow> h t = [] \<Longrightarrow> n < length l \<Longrightarrow> le_Term (l ! n) \<noteq> t"
  by (auto simp: traced_def same_upto_def)

lemma tracked_fresh_term:
  assumes "tracked c h L" and "cluster_inv c'" and "rf_state (cl_node c i) = Candidate" and "rf_currentTerm (cl_node c i) = t"
    and "cl_size c' = cl_size c" and "cl_size c' < 2 * card (cl_counted c' i t)"
    and v: "\<And>k t. card (cl_counted c k t) \<le> card (cl_counted c' k t)"
  shows "h t = []" "(t, k) \<notin> L"
proof -
  note T = trackedD [OF assms(1)]
  show no: "(t, k) \<notin> L" for k
  proof
    assume k: "(t, k) \<in> L"
    have "cl_size c' < 2 * card (cl_counted c' k t)" using T(9) [OF k] v [of k t] assms(5) by simp
    then have "k = i" using counted_once [OF assms(2) _ assms(6)] by blast
    with T(11) [OF k] assms(3,4) show False by simp
  qed
  have "0 < t" using T(13) [of i] assms(3,4) by simp
  with T(4) [of t] no show "h t = []" by auto
qed

lemma tracked_win:
  assumes t: "tracked c h L" and inv: "cluster_inv c'"
    and i: "rf_state (cl_node c i) = Candidate" "rf_currentTerm (cl_node c i) = s"
    and r: "rf_state rf' = Leader" "rf_currentTerm rf' = s" "rf_log rf' = rf_log (cl_node c i)"
    and n: "cl_size c' = cl_size c" "cl_node c' = (cl_node c)(i := rf')"
    and m: "\<And>k j args. AppReq k j args \<in> cl_msgs c' \<Longrightarrow> AppReq k j args \<in> cl_msgs c"
    and v: "\<And>k t. card (cl_counted c k t) \<le> card (cl_counted c' k t)"
  shows "grows h (h(s := rf_log rf'))" "tracked c' (h(s := rf_log rf')) (insert (s, i) L)"
proof -
  let ?h = "h(s := rf_log rf')"
  note T = trackedD [OF t]
  have maj: "cl_size c' < 2 * card (cl_counted c' i s)" using cluster_invD(10) [OF inv, of i] r n by simp
  note fresh = tracked_fresh_term [OF t inv i n(1) maj v]
  have pos: "0 < s" using T(13) [of i] i by simp
  show g: "grows h ?h" using fresh(1) by (simp add: grows_def)
  have "from_leader ?h args" if "AppReq k j args \<in> cl_msgs c'" for k j args
    using T(3) [OF m [OF that]] grows_traced [OF g] unfolding from_leader_def by blast
  moreover have "traced ?h l" if "traced h l" for l using grows_traced [OF g that] .
  moreover have "cl_size c' < 2 * card (cl_counted c' k u)" if "(u, k) \<in> L" for k u
    using T(9) [OF that] v [of k u] n by simp
  moreover have "u \<le> rf_currentTerm (cl_node c' k) \<and> (u = rf_currentTerm (cl_node c' k) \<longrightarrow> rf_state (cl_node c' k) \<noteq> Candidate)"
    if "(u, k) \<in> L" for k u
    using T(10,11) [OF that] i r by (auto simp: n)
  moreover have "rf_log (cl_node c' k) = ?h (rf_currentTerm (cl_node c' k)) \<and> (rf_currentTerm (cl_node c' k), k) \<in> insert (s, i) L"
    if "rf_state (cl_node c' k) = Leader" for k
    using T(6,7) [of k] fresh(2) [of k] r that by (auto simp: n)
  ultimately show "tracked c' ?h (insert (s, i) L)"
    using T(1,2,4,5,8,12,13) pos maj r unfolding tracked_def by (auto simp: n)
qed

text \<open>A leader that appends extends the log of its term.\<close>

lemma traced_extend:
  assumes "traced h l" and "le_Term e = t" and "h t = l"
  shows "traced (h(t := l @ [e])) (l @ [e])"
  unfolding traced_def
proof (intro allI impI)
  fix n assume n: "n < length (l @ [e])"
  show "same_upto n (l @ [e]) ((h(t := l @ [e])) (le_Term ((l @ [e]) ! n)))"
  proof (cases "n < length l \<and> le_Term (l ! n) \<noteq> t")
    case True
    then have "same_upto n (l @ [e]) (h (le_Term (l ! n)))"
      using same_upto_trans [OF same_upto_sym [OF same_upto_append] tracedD [OF assms(1)]] by blast
    with True show ?thesis by (simp add: nth_append)
  next
    case False
    with n assms(2) have "le_Term ((l @ [e]) ! n) = t" by (cases "n < length l") (auto simp: nth_append less_Suc_eq)
    with n show ?thesis by (simp add: same_upto_refl)
  qed
qed

lemma tracked_client:
  assumes t: "tracked c h L" and inv: "cluster_inv c" and l: "rf_state (cl_node c i) = Leader" "rf_currentTerm (cl_node c i) = s"
    and r: "rf_state rf' = Leader" "rf_currentTerm rf' = s" "rf_log rf' = rf_log (cl_node c i) @ [e]" "le_Term e = s"
    and c': "c' = set_node i rf' c"
  shows "grows h (h(s := rf_log rf'))" "tracked c' (h(s := rf_log rf')) L"
proof -
  let ?h = "h(s := rf_log rf')"
  note T = trackedD [OF t]
  have h: "h s = rf_log (cl_node c i)" using T(6) [OF l(1)] l(2) by simp
  show g: "grows h ?h" using h r(3) by (auto simp: grows_def)
  have pos: "0 < s" using T(8) [OF T(7) [OF l(1)]] l(2) by simp
  have in_L: "(s, i) \<in> L" using T(7) [OF l(1)] l(2) by simp
  have up: "traced ?h l" if "traced h l" for l using grows_traced [OF g that] .
  have new: "traced ?h (rf_log rf')" using traced_extend [OF T(1) r(4) h] by (simp add: r(3))
  show "tracked c' ?h L"
  proof (rule trackedI)
    show "traced ?h (rf_log (cl_node c' k))" for k using up [OF T(1) [of k]] new by (simp add: c')
    show "traced ?h (?h u)" for u using up [OF T(2) [of u]] new by simp
    show "from_leader ?h args" if "AppReq k j args \<in> cl_msgs c'" for k j args
      using T(3) [of k j args] that up unfolding from_leader_def by (simp add: c') blast
    show "\<exists>k. (u, k) \<in> L" if "u \<noteq> 0" "?h u \<noteq> []" for u
      using T(4) [of u] in_L that by (cases "u = s") auto
    show "?h 0 = fresh_log" using T(5) pos by simp
    show "rf_log (cl_node c' k) = ?h (rf_currentTerm (cl_node c' k)) \<and> (rf_currentTerm (cl_node c' k), k) \<in> L"
      if "rf_state (cl_node c' k) = Leader" for k
    proof (cases "k = i")
      case False
      with that have k: "rf_state (cl_node c k) = Leader" by (simp add: c')
      have "rf_currentTerm (cl_node c k) \<noteq> s" using one_leader [OF inv k l(1)] False l(2) by auto
      with T(6,7) [OF k] False show ?thesis by (simp add: c')
    qed (use in_L r(2) in \<open>simp add: c'\<close>)
    show "0 < u \<and> cl_size c' < 2 * card (cl_counted c' k u) \<and> u \<le> rf_currentTerm (cl_node c' k) \<and>
      (u = rf_currentTerm (cl_node c' k) \<longrightarrow> rf_state (cl_node c' k) \<noteq> Candidate)" if "(u, k) \<in> L" for u k
      using T(8-11) [OF that] l(2) r(1,2) by (cases "k = i") (simp_all add: c')
    show "0 \<le> rf_currentTerm (cl_node c' k)" for k using T(12) [of k] r(2) pos by (simp add: c')
    show "0 < rf_currentTerm (cl_node c' k)" if "rf_state (cl_node c' k) \<noteq> Follower" for k
      using T(13) [of k] that r(2) pos by (cases "k = i") (simp_all add: c')
  qed
qed

text \<open>All steps.\<close>

lemma client_cases:
  assumes "raft_Start rf cmd = (r, rf')"
  obtains "rf' = rf" | e where "rf_state rf = Leader" "rf_state rf' = Leader" "rf_currentTerm rf' = rf_currentTerm rf"
    "rf_log rf' = rf_log rf @ [e]" "le_Term e = rf_currentTerm rf" "rf_commitIndex rf' = rf_commitIndex rf"
    "rf_lastApplied rf' = rf_lastApplied rf" "rf_matchIndex rf' = rf_matchIndex rf" "rf_nextIndex rf' = rf_nextIndex rf"
  using assms by (auto simp: raft_Start_def Let_def split: if_splits option.splits)

lemma win_result:
  assumes "handleVoteReply rf t v reply = (n, won, rf')" and won
  shows "rf' = init_leader rf" "rf_state rf = Candidate" "rf_currentTerm rf = t" "n \<noteq> v"
  using assms by (auto simp: handleVoteReply_def Let_def split: if_splits)

lemma tracked_vote:
  assumes t: "tracked c h L" and v: "raft_RequestVote (cl_node c j) args now = Inr (reply, rf')"
    and "cl_size c' = cl_size c" "cl_node c' = (cl_node c)(j := rf')" "cl_counted c' = cl_counted c"
    and "\<And>k j args. AppReq k j args \<in> cl_msgs c' \<Longrightarrow> AppReq k j args \<in> cl_msgs c"
  shows "tracked c' h L"
proof (rule tracked_calm [OF t assms(3,4) calm_vote [OF v]])
  show "traced h (rf_log rf')"
    using raft_RequestVote_result [OF v] trackedD(1) [OF t, of j] by (simp add: vote_outcome_def)
qed (use assms(5,6) in auto)

lemma tracked_count:
  assumes t: "tracked c h L" and r: "handleVoteReply (cl_node c i) u w reply = (n, won, rf')" "\<not> won"
    and "cl_size c' = cl_size c" "cl_node c' = (cl_node c)(i := rf')"
    and v: "\<And>k t. card (cl_counted c k t) \<le> card (cl_counted c' k t)"
    and "\<And>k j args. AppReq k j args \<in> cl_msgs c' \<Longrightarrow> AppReq k j args \<in> cl_msgs c"
  shows "tracked c' h L"
proof (rule tracked_calm [OF t assms(4,5) calm_count [OF r]])
  show "traced h (rf_log rf')"
    using r trackedD(1) [OF t, of i] by (auto simp: handleVoteReply_def Let_def split: if_splits)
qed (use v assms(7) in auto)

lemma tracked_msgs:
  assumes t: "tracked c h L" and "\<And>k j args. AppReq k j args \<in> M \<Longrightarrow> AppReq k j args \<in> cl_msgs c \<or> from_leader h args"
  shows "tracked (c\<lparr>cl_msgs := M\<rparr>) h L"
  by (rule tracked_calm [OF t, of _ 0 "cl_node c 0"]) (use trackedD(1) [OF t] assms(2) in auto)

lemma tracked_append:
  assumes t: "tracked c h L" and a: "AppReq i j args \<in> cl_msgs c" "raft_AppendEntries (cl_node c j) args now = Inr (reply, rf')"
    and c': "c' = (set_node j rf' c)\<lparr>cl_msgs := insert (AppRep i j args reply) (cl_msgs c)\<rparr>"
  shows "tracked c' h L"
  by (rule tracked_calm [OF t _ _ calm_append [OF a(2)] append_traced [OF trackedD(1) [OF t] trackedD(3) [OF t a(1)] a(2)]])
    (auto simp: c')

lemma tracked_node:
  assumes t: "tracked c h L" and "calm (cl_node c i) rf'" and "rf_log rf' = rf_log (cl_node c i)"
  shows "tracked (set_node i rf' c) h L"
  by (rule tracked_calm [OF t _ _ assms(2)]) (use trackedD(1) [OF t, of i] assms(3) in auto)

lemma applier_result:
  assumes "applier_round rf = Some (Inr (es, rf'))"
  shows "rf_log rf' = rf_log rf" "rf_currentTerm rf' = rf_currentTerm rf" "rf_state rf' = rf_state rf"
    "rf_commitIndex rf' = rf_commitIndex rf" "rf_lastApplied rf' \<in> {rf_lastApplied rf, rf_commitIndex rf}"
    "rf_matchIndex rf' = rf_matchIndex rf"
  using assms by (auto dest!: applier_roundD(2) simp: applier_step_def Let_def split: if_splits option.splits)

lemma tracked_step:
  assumes "cluster_step True timely c c'" and inv: "cluster_inv c" and typed: "cluster_typed c" and t: "tracked c h L"
  shows "\<exists>h' L'. tracked c' h' L'"
  using assms(1)
proof cases
  case (elect i now args rf')
  have "tracked c' h L" by (rule tracked_elect [OF t elect(3)]) (auto simp: elect(1))
  then show ?thesis by blast
next
  case (vote i j args now reply rf')
  have "tracked c' h L" by (rule tracked_vote [OF t vote(3)]) (auto simp: vote(1))
  then show ?thesis by blast
next
  case (count i j u reply n won rf')
  have v: "card (cl_counted c k w) \<le> card (cl_counted c' k w)" for k w by (simp add: count(1) card_insert_le)
  show ?thesis
  proof (cases won)
    case True
    note w = win_result [OF count(3) True]
    have "tracked c' (h(u := rf_log rf')) (insert (u, i) L)"
      by (rule tracked_win(2) [OF t cluster_inv_step [OF assms(1) inv] w(2,3) _ _ _ _ _ _ v])
        (auto simp: count(1) w init_leader_eq)
    then show ?thesis by blast
  next
    case False
    have "tracked c' h L" by (rule tracked_count [OF t count(3) False _ _ v]) (auto simp: count(1))
    then show ?thesis by blast
  qed
next
  case (beat i u)
  have "tracked c' h L" unfolding beat(1) by (rule tracked_msgs [OF t]) auto
  then show ?thesis by blast
next
  case (send i j u args)
  have "j < cl_size c" using cluster_typedD(3) [OF typed send(2)] by simp
  then have "tracked c' h L" unfolding send(1)
    by (intro tracked_msgs [OF t]) (use request_from_leader [OF t typed _ send(3)] in auto)
  then show ?thesis by blast
next
  case (append i j args now reply rf')
  from tracked_append [OF t append(2,3,1)] show ?thesis by blast
next
  case (ack i j args reply rf')
  from tracked_node [OF t calm_ack [OF ack(3)] handleAppendReply_result(1) [OF ack(3)]] ack(1) show ?thesis by blast
next
  case (client i cmd r rf')
  show ?thesis
    using client(2)
  proof (cases rule: client_cases)
    case 1
    with t show ?thesis by (auto simp: client(1))
  next
    case (2 e)
    from tracked_client(2) [OF t inv 2(1) refl 2(2-5) client(1)] show ?thesis by blast
  qed
next
  case (applier i es rf')
  from tracked_node [OF t calm_applier [OF applier(2)] applier_result(1) [OF applier(2)]] applier(1) show ?thesis by blast
next
  case (replicator i)
  have "tracked c' h L" unfolding replicator by (rule tracked_node [OF t calm_replicator]) (simp add: replicator_step_def)
  then show ?thesis by blast
next
  case (lose m)
  have "tracked c' h L" unfolding lose by (rule tracked_msgs [OF t]) auto
  then show ?thesis by blast
qed

section \<open>Log matching\<close>

definition logs_inv :: "cluster \<Rightarrow> bool" where
  "logs_inv c \<longleftrightarrow> cluster_inv c \<and> cluster_typed c \<and> (\<exists>h L. tracked c h L)"

interpretation lm: invariant_system cluster_new "cluster_step True timely" logs_inv for timely
proof
  show "logs_inv c" if "cluster_new c" for c
    using that cluster_inv_init [OF cluster_new_init] cluster_new_typed tracked_new unfolding logs_inv_def by blast
  show "logs_inv c'" if "logs_inv c" "cluster_step True timely c c'" for timely c c'
    using that cluster_inv_step cluster_typed_step tracked_step unfolding logs_inv_def by blast
qed

text \<open>
  C7: Log matching in a new cluster, whatever messages are lost, repeated or reordered, if no node votes again in a term in which its vote was
  erased (the condition of election safety; without it two leaders of one term put different entries at one index, \<open>committed_commands_diverge\<close>): if
  the logs of two nodes have entries of the same term at the same
  index, then the logs are identical up to and including that index.
\<close>

theorem cluster_log_matching:
  assumes "reach cluster_new (cluster_step True timely) c"
    and "n < length (rf_log (cl_node c i))" and "n < length (rf_log (cl_node c j))"
    and "le_Term (rf_log (cl_node c i) ! n) = le_Term (rf_log (cl_node c j) ! n)"
  shows "take (Suc n) (rf_log (cl_node c i)) = take (Suc n) (rf_log (cl_node c j))"
proof -
  obtain h L where "tracked c h L" using lm.reach_inv [OF assms(1)] by (auto simp: logs_inv_def)
  then have "traced h (rf_log (cl_node c i))" "traced h (rf_log (cl_node c j))" by (auto intro: trackedD(1))
  from traced_same [OF this assms(2-4)] show ?thesis by (simp add: same_upto_def)
qed

theorem cluster_log_matching_witness:
  "\<exists>c. reach cluster_new (cluster_step True True) c \<and> length (rf_log (cl_node c 0)) = 2 \<and>
     le_Command (rf_log (cl_node c 0) ! 1) = [7] \<and> take 2 (rf_log (cl_node c 0)) = take 2 (rf_log (cl_node c 2))"
proof -
  obtain c where c: "reach cluster_new (cluster_step True True) c" "first_committed [7] c"
    using first_committed_reach [of cluster_new, OF fresh_cluster_new] by blast
  with cluster_log_matching [OF c(1), of 1 0 2] show ?thesis
    by (intro exI [of _ c]) (simp add: first_committed_def leader_committed_fields fresh_log_def first_entry_def numeral_2_eq_2)
qed

end
