(* ===== verification/Raft_Completeness.thy ===== *)
theory Raft_Completeness
  imports Raft_Log_Matching
begin

text \<open>
  Committed entries and why later leaders have them. The history of a run is the logs \<open>h\<close> of the
  leaders, the leaders \<open>L\<close> and the set \<open>A\<close> of stored entries: \<open>(v, t, n)\<close> if node \<open>v\<close> stored, in
  term \<open>t\<close>, the entry \<open>n\<close> that the leader of term \<open>t\<close> appended in that term. An entry is committed if a
  majority has stored it; it is passed over if a majority has not and, being in a later term, never will.
  The invariant says that a later leader, a node that stored the entry, and a candidate that has the vote of
  such a node, have the entry, or it has been passed over.
\<close>

type_synonym stored = "(nat \<times> int \<times> nat) set"

definition own_entry :: "leader_logs \<Rightarrow> int \<Rightarrow> nat \<Rightarrow> bool" where
  "own_entry h t n \<longleftrightarrow> 0 < t \<and> n < length (h t) \<and> le_Term (h t ! n) = t"

definition committed :: "nat \<Rightarrow> leader_logs \<Rightarrow> stored \<Rightarrow> int \<Rightarrow> nat \<Rightarrow> bool" where
  "committed N h A t n \<longleftrightarrow> own_entry h t n \<and> (\<exists>Q. quorum N Q \<and> (\<forall>v \<in> Q. (v, t, n) \<in> A))"

definition passed_over :: "cluster \<Rightarrow> stored \<Rightarrow> int \<Rightarrow> nat \<Rightarrow> bool" where
  "passed_over c A t n \<longleftrightarrow> (\<exists>Q. quorum (cl_size c) Q \<and>
     (\<forall>v \<in> Q. t < rf_currentTerm (cl_node c v) \<and> (v, t, n) \<notin> A))"

lemma committed_not_passed: "committed (cl_size c) h A t n \<Longrightarrow> \<not> passed_over c A t n"
  unfolding committed_def passed_over_def using quorum_meet by metis

text \<open>A log up to an index that is committed by a leader of a term not after \<open>T\<close>.\<close>

definition chosen_upto :: "nat \<Rightarrow> leader_logs \<Rightarrow> stored \<Rightarrow> log_entry list \<Rightarrow> int \<Rightarrow> int \<Rightarrow> bool" where
  "chosen_upto N h A l T m \<longleftrightarrow> m \<le> 0 \<or>
     (\<exists>t n. t \<le> T \<and> committed N h A t n \<and> nat m \<le> n \<and> same_upto (nat m) l (h t))"

lemma chosen_upto_le:
  assumes "chosen_upto N h A l T m" and "m' \<le> m"
  shows "chosen_upto N h A l T m'"
proof -
  have m: "nat m' \<le> nat m" using assms(2) by simp
  show ?thesis
    using assms(1) unfolding chosen_upto_def
  proof (elim disjE exE conjE)
    fix t n assume a: "t \<le> T" "committed N h A t n" "nat m \<le> n" "same_upto (nat m) l (h t)"
    from same_upto_le [OF a(4) m] le_trans [OF m a(3)] a(1,2)
    show "m' \<le> 0 \<or> (\<exists>t n. t \<le> T \<and> committed N h A t n \<and> nat m' \<le> n \<and> same_upto (nat m') l (h t))" by blast
  qed (use assms(2) in simp)
qed

section \<open>The invariant\<close>

definition sorted_logs :: "leader_logs \<Rightarrow> bool" where
  "sorted_logs h \<longleftrightarrow> (\<forall>t n m. m \<le> n \<longrightarrow> n < length (h t) \<longrightarrow> le_Term (h t ! m) \<le> le_Term (h t ! n) \<and> le_Term (h t ! n) \<le> t)"

definition leader_safe :: "nat \<Rightarrow> leader_logs \<Rightarrow> stored \<Rightarrow> nat \<Rightarrow> raft \<Rightarrow> bool" where
  "leader_safe N h A i rf \<longleftrightarrow>
     (\<forall>n. own_entry h (rf_currentTerm rf) n \<longrightarrow> (i, rf_currentTerm rf, n) \<in> A) \<and>
     (\<forall>p < N. p \<noteq> i \<longrightarrow> mget (rf_matchIndex rf) (int p) < int (length (h (rf_currentTerm rf))) \<and>
        (\<forall>n. own_entry h (rf_currentTerm rf) n \<longrightarrow> int n \<le> mget (rf_matchIndex rf) (int p) \<longrightarrow>
           (p, rf_currentTerm rf, n) \<in> A))"

definition node_safe :: "nat \<Rightarrow> leader_logs \<Rightarrow> (int \<times> nat) set \<Rightarrow> stored \<Rightarrow> nat \<Rightarrow> raft \<Rightarrow> bool" where
  "node_safe N h L A i rf \<longleftrightarrow> (\<forall>n < length (rf_log rf). le_Term (rf_log rf ! n) \<le> rf_currentTerm rf) \<and>
     ((rf_currentTerm rf, i) \<in> L \<longrightarrow> rf_state rf = Leader) \<and> (rf_state rf = Leader \<longrightarrow> leader_safe N h A i rf) \<and>
     chosen_upto N h A (rf_log rf) (rf_currentTerm rf) (rf_commitIndex rf) \<and>
     chosen_upto N h A (rf_log rf) (rf_currentTerm rf) (rf_lastApplied rf)"

text \<open>
  A request of a leader is a slice of its log, or one that no node accepts because
  it names term 0 at an index other than 0.
\<close>

definition req_safe :: "nat \<Rightarrow> leader_logs \<Rightarrow> stored \<Rightarrow> AppendEntriesArgs \<Rightarrow> bool" where
  "req_safe N h A args \<longleftrightarrow>
     (let t = aea_Term args; p = nat (aea_PrevLogIndex args); es = aea_Entries args in
      p + length es < length (h t) \<and> aea_PrevLogTerm args = le_Term (h t ! p) \<and>
      es = take (length es) (drop (Suc p) (h t)) \<and> chosen_upto N h A (h t) t (aea_LeaderCommit args) \<or>
      0 < p \<and> aea_PrevLogTerm args = 0)"

definition rep_safe :: "leader_logs \<Rightarrow> stored \<Rightarrow> nat \<Rightarrow> AppendEntriesArgs \<Rightarrow> bool" where
  "rep_safe h A j args \<longleftrightarrow>
     (let t = aea_Term args; m = nat (aea_PrevLogIndex args) + length (aea_Entries args) in
      m < length (h t) \<and> (\<forall>n \<le> m. own_entry h t n \<longrightarrow> (j, t, n) \<in> A))"

fun rpc_safe :: "nat \<Rightarrow> leader_logs \<Rightarrow> (int \<times> nat) set \<Rightarrow> stored \<Rightarrow> rpc \<Rightarrow> bool" where
  "rpc_safe N h L A (AppReq i j args) \<longleftrightarrow> (aea_Term args, i) \<in> L \<and> req_safe N h A args"
| "rpc_safe N h L A (AppRep i j args reply) \<longleftrightarrow> (aea_Term args, i) \<in> L \<and> (aer_Success reply \<longrightarrow> rep_safe h A j args)"
| "rpc_safe N h L A _ \<longleftrightarrow> True"

definition stored_safe :: "cluster \<Rightarrow> leader_logs \<Rightarrow> stored \<Rightarrow> bool" where
  "stored_safe c h A \<longleftrightarrow> (\<forall>v t n. (v, t, n) \<in> A \<longrightarrow> own_entry h t n \<and> t \<le> rf_currentTerm (cl_node c v) \<and>
     (same_upto n (rf_log (cl_node c v)) (h t) \<or> passed_over c A t n))"

definition leaders_safe :: "cluster \<Rightarrow> leader_logs \<Rightarrow> (int \<times> nat) set \<Rightarrow> stored \<Rightarrow> bool" where
  "leaders_safe c h L A \<longleftrightarrow> (\<forall>u k t n. (u, k) \<in> L \<longrightarrow> t < u \<longrightarrow> own_entry h t n \<longrightarrow>
     same_upto n (h u) (h t) \<or> passed_over c A t n)"

definition votes_safe :: "cluster \<Rightarrow> leader_logs \<Rightarrow> stored \<Rightarrow> bool" where
  "votes_safe c h A \<longleftrightarrow> (\<forall>v u k. (v, u, k) \<in> cl_granted c \<longrightarrow> u \<le> rf_currentTerm (cl_node c k) \<and>
     (rf_state (cl_node c k) = Candidate \<longrightarrow> rf_currentTerm (cl_node c k) = u \<longrightarrow>
       (\<forall>t n. (v, t, n) \<in> A \<longrightarrow> t < u \<longrightarrow> same_upto n (rf_log (cl_node c k)) (h t) \<or> passed_over c A t n)))"

definition requests_safe :: "cluster \<Rightarrow> bool" where
  "requests_safe c \<longleftrightarrow> (\<forall>i j args. VoteReq i j args \<in> cl_msgs c \<longrightarrow> rf_state (cl_node c i) = Candidate \<longrightarrow>
     rf_currentTerm (cl_node c i) = rva_Term args \<longrightarrow>
     rva_LastLogIndex args = int (length (rf_log (cl_node c i))) - 1 \<and>
     rva_LastLogTerm args = le_Term (last (rf_log (cl_node c i))))"

definition safe :: "cluster \<Rightarrow> leader_logs \<Rightarrow> (int \<times> nat) set \<Rightarrow> stored \<Rightarrow> bool" where
  "safe c h L A \<longleftrightarrow> tracked c h L \<and> sorted_logs h \<and> (\<forall>i. node_safe (cl_size c) h L A i (cl_node c i)) \<and>
     (\<forall>m \<in> cl_msgs c. rpc_safe (cl_size c) h L A m) \<and> stored_safe c h A \<and> leaders_safe c h L A \<and>
     votes_safe c h A \<and> requests_safe c"

lemma safeD:
  assumes "safe c h L A"
  shows "tracked c h L" "sorted_logs h" "node_safe (cl_size c) h L A i (cl_node c i)"
    "m \<in> cl_msgs c \<Longrightarrow> rpc_safe (cl_size c) h L A m" "stored_safe c h A" "leaders_safe c h L A"
    "votes_safe c h A" "requests_safe c"
  using assms by (auto simp: safe_def)

lemma sorted_logsD: "sorted_logs h \<Longrightarrow> m \<le> n \<Longrightarrow> n < length (h t) \<Longrightarrow> le_Term (h t ! m) \<le> le_Term (h t ! n)"
  "sorted_logs h \<Longrightarrow> n < length (h t) \<Longrightarrow> le_Term (h t ! n) \<le> t"
  by (auto simp: sorted_logs_def)

lemma stored_safeD:
  assumes "stored_safe c h A" and "(v, t, n) \<in> A"
  shows "own_entry h t n" "t \<le> rf_currentTerm (cl_node c v)"
    "same_upto n (rf_log (cl_node c v)) (h t) \<or> passed_over c A t n"
  using assms by (auto simp: stored_safe_def)

lemma leaders_safeD:
  "leaders_safe c h L A \<Longrightarrow> (u, k) \<in> L \<Longrightarrow> t < u \<Longrightarrow> own_entry h t n \<Longrightarrow> same_upto n (h u) (h t) \<or> passed_over c A t n"
  unfolding leaders_safe_def by blast

lemma votes_safeD:
  assumes "votes_safe c h A" and "(v, u, k) \<in> cl_granted c"
  shows "u \<le> rf_currentTerm (cl_node c k)"
    "rf_state (cl_node c k) = Candidate \<Longrightarrow> rf_currentTerm (cl_node c k) = u \<Longrightarrow> (v, t, n) \<in> A \<Longrightarrow> t < u \<Longrightarrow>
       same_upto n (rf_log (cl_node c k)) (h t) \<or> passed_over c A t n"
  using assms unfolding votes_safe_def by blast+

section \<open>Leader completeness\<close>

lemma committed_in_leader:
  assumes "safe c h L A" and "committed (cl_size c) h A t n" and "(u, k) \<in> L" and "t \<le> u"
  shows "same_upto n (h u) (h t)"
proof (cases "t = u")
  case True
  with assms(2) show ?thesis by (simp add: committed_def own_entry_def same_upto_refl)
next
  case False
  then have "t < u" using assms(4) by simp
  moreover have "own_entry h t n" using assms(2) by (simp add: committed_def)
  ultimately show ?thesis
    using leaders_safeD [OF safeD(6) [OF assms(1)] assms(3)] committed_not_passed [OF assms(2)] by blast
qed

text \<open>A traced log is sorted by term.\<close>

lemma traced_sorted:
  assumes "traced h l" and "sorted_logs h" and "m \<le> n" and "n < length l"
  shows "le_Term (l ! m) \<le> le_Term (l ! n)"
proof -
  have "same_upto n l (h (le_Term (l ! n)))" using assms(1,4) by (rule tracedD)
  with sorted_logsD(1) [OF assms(2,3)] same_upto_nth [OF this] assms(3) show ?thesis by (metis order_refl same_upto_def)
qed

text \<open>
  The vote rule: a log that is at least as up to date as one with the entry \<open>n\<close> of term \<open>t\<close> has that
  entry, if the leaders of later terms have it.
\<close>

lemma up_to_date_has_entry:
  assumes tr: "traced h v" "traced h l" and srt: "sorted_logs h" and e: "own_entry h t n" "same_upto n v (h t)"
    and "l \<noteq> []" and ok: "logOk (le_Term (last v)) (int (length v) - 1) args"
    and args: "rva_LastLogIndex args = int (length l) - 1" "rva_LastLogTerm args = le_Term (last l)"
    and later: "\<And>u. t < u \<Longrightarrow> h u \<noteq> [] \<Longrightarrow> same_upto n (h u) (h t)"
  shows "same_upto n l (h t)"
proof -
  define m where "m = length l - 1"
  define u where "u = le_Term (last l)"
  have m: "m < length l" "l ! m = last l" using \<open>l \<noteq> []\<close> by (simp_all add: m_def last_conv_nth)
  have l: "same_upto m l (h u)" using tracedD [OF tr(2) m(1)] m(2) by (simp add: u_def)
  have n: "n < length v" "le_Term (v ! n) = t"
    using e same_upto_nth [OF e(2), of n] by (simp_all add: same_upto_def own_entry_def)
  then have v: "v \<noteq> []" by auto
  then have "last v = v ! (length v - 1)" by (rule last_conv_nth)
  have "t \<le> le_Term (last v)" using traced_sorted [OF tr(1) srt, of n "length v - 1"] n \<open>last v = _\<close> by simp
  with ok args(2) have le: "t \<le> u" by (auto simp: logOk_def u_def)
  show ?thesis
  proof (cases "t = u")
    case True
    with ok args \<open>t \<le> le_Term (last v)\<close> have "length v \<le> length l" by (auto simp: logOk_def u_def)
    with n(1) have "n \<le> m" by (simp add: m_def)
    with same_upto_le [OF l] True show ?thesis by simp
  next
    case False
    with le l have hu: "same_upto n (h u) (h t)" by (intro later) (auto simp: same_upto_def)
    have "n \<le> m"
    proof (rule ccontr)
      assume "\<not> n \<le> m"
      then have "m \<le> n" by simp
      then have "le_Term (h u ! m) \<le> le_Term (h u ! n)" using hu by (intro sorted_logsD(1) [OF srt]) (auto simp: same_upto_def)
      moreover have "le_Term (h u ! n) = t" using same_upto_nth [OF hu, of n] e(1) by (simp add: own_entry_def)
      moreover have "h u ! m = l ! m" using same_upto_nth [OF l, of m] by simp
      ultimately show False using m(2) le False by (simp add: u_def)
    qed
    from same_upto_trans [OF same_upto_le [OF l this] hu] show ?thesis .
  qed
qed

section \<open>The history grows\<close>

text \<open>
  What every step does to the history: terms and logs grow, and a node stores entries of its own
  term or a later one only. Commitments and entries passed over then stay so.
\<close>

definition evolves :: "cluster \<Rightarrow> leader_logs \<Rightarrow> stored \<Rightarrow> cluster \<Rightarrow> leader_logs \<Rightarrow> stored \<Rightarrow> bool" where
  "evolves c h A c' h' A' \<longleftrightarrow> cl_size c' = cl_size c \<and>
     (\<forall>v. rf_currentTerm (cl_node c v) \<le> rf_currentTerm (cl_node c' v)) \<and> grows h h' \<and> A \<subseteq> A' \<and>
     (\<forall>v t n. (v, t, n) \<in> A' \<longrightarrow> (v, t, n) \<in> A \<or> rf_currentTerm (cl_node c v) \<le> t)"

lemma evolvesD:
  assumes "evolves c h A c' h' A'"
  shows "cl_size c' = cl_size c" "rf_currentTerm (cl_node c v) \<le> rf_currentTerm (cl_node c' v)" "grows h h'" "A \<subseteq> A'"
    "(v, t, n) \<in> A' \<Longrightarrow> (v, t, n) \<in> A \<or> rf_currentTerm (cl_node c v) \<le> t"
  using assms by (auto simp: evolves_def)

lemma passed_over_evolves:
  assumes "evolves c h A c' h' A'" and "passed_over c A t n"
  shows "passed_over c' A' t n"
proof -
  note E = evolvesD [OF assms(1)]
  obtain Q where Q: "quorum (cl_size c) Q" "\<forall>v \<in> Q. t < rf_currentTerm (cl_node c v) \<and> (v, t, n) \<notin> A"
    using assms(2) by (auto simp: passed_over_def)
  have "t < rf_currentTerm (cl_node c' v) \<and> (v, t, n) \<notin> A'" if "v \<in> Q" for v
    using Q(2) that E(2) [of v] E(5) [of v t n] by fastforce
  with Q(1) E(1) show ?thesis by (auto simp: passed_over_def)
qed

lemma own_entry_grows: "grows h h' \<Longrightarrow> own_entry h t n \<Longrightarrow> own_entry h' t n"
  using grows_same [of h h' n t] same_upto_nth [of n "h t" "h' t" n] by (auto simp: own_entry_def same_upto_def)

lemma own_entry_old: "grows h h' \<Longrightarrow> own_entry h' t n \<Longrightarrow> n < length (h t) \<Longrightarrow> own_entry h t n"
  using grows_same [of h h' n t] same_upto_nth [of n "h t" "h' t" n] by (auto simp: own_entry_def)

lemma committed_grows: "grows h h' \<Longrightarrow> A \<subseteq> A' \<Longrightarrow> committed N h A t n \<Longrightarrow> committed N h' A' t n"
  unfolding committed_def using own_entry_grows by blast

lemma chosen_upto_grows:
  assumes "grows h h'" and "A \<subseteq> A'" and "chosen_upto N h A l T m" and "T \<le> T'"
    and "\<And>t n. t \<le> T \<Longrightarrow> committed N h A t n \<Longrightarrow> same_upto (nat m) l (h t) \<Longrightarrow> nat m \<le> n \<Longrightarrow> same_upto (nat m) l' (h t)"
  shows "chosen_upto N h' A' l' T' m"
  using assms(3) unfolding chosen_upto_def
proof (elim disjE exE conjE)
  fix t n assume a: "t \<le> T" "committed N h A t n" "nat m \<le> n" "same_upto (nat m) l (h t)"
  from grows_upto [OF assms(1) assms(5) [OF a(1,2,4,3)]] committed_grows [OF assms(1,2) a(2)] a(1,3) assms(4)
  show "m \<le> 0 \<or> (\<exists>t n. t \<le> T' \<and> committed N h' A' t n \<and> nat m \<le> n \<and> same_upto (nat m) l' (h' t))" by force
qed simp

lemma chosen_upto_same: "grows h h' \<Longrightarrow> A \<subseteq> A' \<Longrightarrow> chosen_upto N h A l T m \<Longrightarrow> T \<le> T' \<Longrightarrow> chosen_upto N h' A' l T' m"
  by (rule chosen_upto_grows)

lemma rep_safe_grows:
  assumes "grows h h'" and "A \<subseteq> A'" and "rep_safe h A j args"
  shows "rep_safe h' A' j args"
  unfolding rep_safe_def Let_def
proof (intro conjI allI impI)
  let ?t = "aea_Term args" and ?m = "nat (aea_PrevLogIndex args) + length (aea_Entries args)"
  have m: "?m < length (h ?t)" and old: "\<And>n. n \<le> ?m \<Longrightarrow> own_entry h ?t n \<Longrightarrow> (j, ?t, n) \<in> A"
    using assms(3) by (auto simp: rep_safe_def Let_def)
  show "?m < length (h' ?t)" using grows_same [OF assms(1) m] by (simp add: same_upto_def)
  show "(j, ?t, n) \<in> A'" if "n \<le> ?m" "own_entry h' ?t n" for n
    using old [OF that(1)] own_entry_old [OF assms(1) that(2)] that(1) m assms(2) by auto
qed

lemma req_safe_grows:
  assumes "grows h h'" and "A \<subseteq> A'" and "req_safe N h A args"
  shows "req_safe N h' A' args"
proof (cases "0 < nat (aea_PrevLogIndex args) \<and> aea_PrevLogTerm args = 0")
  case False
  let ?t = "aea_Term args" and ?p = "nat (aea_PrevLogIndex args)" and ?es = "aea_Entries args"
  from False assms(3) have r: "?p + length ?es < length (h ?t)" "aea_PrevLogTerm args = le_Term (h ?t ! ?p)"
    "?es = take (length ?es) (drop (Suc ?p) (h ?t))" "chosen_upto N h A (h ?t) ?t (aea_LeaderCommit args)"
    unfolding req_safe_def Let_def by blast+
  obtain x where x: "h' ?t = h ?t @ x" using assms(1) by (auto simp: grows_def)
  have "?es = take (length ?es) (drop (Suc ?p) (h' ?t))" using r(1,3) by (simp add: x)
  moreover have "chosen_upto N h' A' (h' ?t) ?t (aea_LeaderCommit args)"
    by (rule chosen_upto_grows [OF assms(1,2) r(4)])
      (use same_upto_append [of _ "h ?t" x] same_upto_trans [OF same_upto_sym] in \<open>auto simp: x same_upto_def\<close>)
  ultimately show ?thesis using r(1,2) unfolding req_safe_def Let_def by (simp add: x nth_append)
qed (simp add: req_safe_def Let_def)

lemma rpc_safe_grows:
  "grows h h' \<Longrightarrow> A \<subseteq> A' \<Longrightarrow> L \<subseteq> L' \<Longrightarrow> rpc_safe N h L A m \<Longrightarrow> rpc_safe N h' L' A' m"
  by (cases m) (auto intro: req_safe_grows rep_safe_grows)

lemma leader_safe_grows:
  assumes "grows h h'" and "A \<subseteq> A'" and "leader_safe N h A i rf"
    and "\<And>n. own_entry h' (rf_currentTerm rf) n \<Longrightarrow> own_entry h (rf_currentTerm rf) n \<or> (i, rf_currentTerm rf, n) \<in> A'"
  shows "leader_safe N h' A' i rf"
  unfolding leader_safe_def
proof (intro conjI allI impI)
  let ?t = "rf_currentTerm rf"
  note old = assms(3) [unfolded leader_safe_def]
  show "(i, ?t, n) \<in> A'" if "own_entry h' ?t n" for n using assms(4) [OF that] old assms(2) by blast
  fix p assume p: "p < N" "p \<noteq> i"
  have m: "mget (rf_matchIndex rf) (int p) < int (length (h ?t))" using old p by blast
  also have "length (h ?t) \<le> length (h' ?t)" using assms(1) unfolding grows_def by (metis length_append le_add1)
  finally show "mget (rf_matchIndex rf) (int p) < int (length (h' ?t))" by simp
  show "(p, ?t, n) \<in> A'" if "own_entry h' ?t n" "int n \<le> mget (rf_matchIndex rf) (int p)" for n
    using own_entry_old [OF assms(1) that(1)] that(2) m old p assms(2) by fastforce
qed

text \<open>The parts of the invariant that follow from the growth of the history.\<close>

lemma stored_evolves:
  assumes "stored_safe c h A" and ev: "evolves c h A c' h' A'"
    and keep: "\<And>v t n. (v, t, n) \<in> A \<Longrightarrow> same_upto n (rf_log (cl_node c v)) (h t) \<Longrightarrow> own_entry h t n \<Longrightarrow>
      t \<le> rf_currentTerm (cl_node c v) \<Longrightarrow> same_upto n (rf_log (cl_node c' v)) (h t) \<or> passed_over c' A' t n"
    and new: "\<And>v t n. (v, t, n) \<in> A' \<Longrightarrow> (v, t, n) \<notin> A \<Longrightarrow> own_entry h' t n \<and> t \<le> rf_currentTerm (cl_node c' v) \<and>
      same_upto n (rf_log (cl_node c' v)) (h' t)"
  shows "stored_safe c' h' A'"
  unfolding stored_safe_def
proof (intro allI impI)
  fix v t n assume a: "(v, t, n) \<in> A'"
  show "own_entry h' t n \<and> t \<le> rf_currentTerm (cl_node c' v) \<and> (same_upto n (rf_log (cl_node c' v)) (h' t) \<or> passed_over c' A' t n)"
  proof (cases "(v, t, n) \<in> A")
    case True
    note St = stored_safeD [OF assms(1) True]
    have "same_upto n (rf_log (cl_node c' v)) (h t) \<or> passed_over c' A' t n"
      using St(3) keep [OF True _ St(1,2)] passed_over_evolves [OF ev] by blast
    then show ?thesis
      using grows_upto [OF evolvesD(3) [OF ev]] own_entry_grows [OF evolvesD(3) [OF ev] St(1)] St(2) evolvesD(2) [OF ev, of v]
      by (meson order.trans)
  qed (use new [OF a] in blast)
qed

lemma leaders_evolves:
  assumes "leaders_safe c h L A" and ev: "evolves c h A c' h' A'"
    and new: "\<And>u k t n. (u, k) \<in> L \<Longrightarrow> t < u \<Longrightarrow> own_entry h' t n \<Longrightarrow> \<not> own_entry h t n \<Longrightarrow> passed_over c' A' t n"
  shows "leaders_safe c' h' L A'"
  unfolding leaders_safe_def
proof (intro allI impI)
  fix u k t n assume a: "(u, k) \<in> L" "t < u" "own_entry h' t n"
  note up = grows_upto [OF evolvesD(3) [OF ev]]
  show "same_upto n (h' u) (h' t) \<or> passed_over c' A' t n"
  proof (cases "own_entry h t n")
    case True
    then show ?thesis
      using leaders_safeD [OF assms(1) a(1,2)] passed_over_evolves [OF ev] up [OF same_upto_sym [OF up [OF same_upto_sym]]]
      by (meson same_upto_sym up)
  qed (use new a in blast)
qed

lemma votes_evolves:
  assumes "votes_safe c h A" and inv: "cluster_inv c" and ev: "evolves c h A c' h' A'" and g: "cl_granted c' = cl_granted c"
    and cand: "\<And>k. rf_state (cl_node c' k) = Candidate \<Longrightarrow> cl_node c' k = cl_node c k"
  shows "votes_safe c' h' A'"
  unfolding votes_safe_def
proof (intro allI impI conjI)
  fix v u k assume "(v, u, k) \<in> cl_granted c'"
  then have g: "(v, u, k) \<in> cl_granted c" by (simp add: g)
  note V = votes_safeD [OF assms(1) g]
  show "u \<le> rf_currentTerm (cl_node c' k)" using V(1) evolvesD(2) [OF ev, of k] by simp
  fix t n assume k: "rf_state (cl_node c' k) = Candidate" "rf_currentTerm (cl_node c' k) = u" and a: "(v, t, n) \<in> A'" "t < u"
  have "u \<le> rf_currentTerm (cl_node c v)" by (rule cluster_invD(4) [OF inv g])
  then have "(v, t, n) \<in> A" using evolvesD(5) [OF ev a(1)] a(2) by auto
  with V(2) k a(2) passed_over_evolves [OF ev] grows_upto [OF evolvesD(3) [OF ev]]
  show "same_upto n (rf_log (cl_node c' k)) (h' t) \<or> passed_over c' A' t n" unfolding cand [OF k(1)] by blast
qed

lemma requests_evolves:
  assumes "requests_safe c" and "\<And>i j args. VoteReq i j args \<in> cl_msgs c' \<Longrightarrow> VoteReq i j args \<in> cl_msgs c"
    and "\<And>k. rf_state (cl_node c' k) = Candidate \<Longrightarrow> cl_node c' k = cl_node c k"
  shows "requests_safe c'"
  using assms unfolding requests_safe_def by metis

end
