(* ===== verification/Raft_Safety_Steps.thy ===== *)
theory Raft_Safety_Steps
  imports Raft_Completeness
begin

text \<open>
  Every step of a run in which no node votes twice in a term and every goroutine of
  \<open>sendHeartBeats\<close> stays within the term in which it was started keeps the invariant \<open>safe\<close>: first the steps
  that leave the logs alone, then a follower that stores entries, a leader that appends and a
  candidate that wins.
\<close>

section \<open>Steps that leave the logs alone\<close>

lemma node_safe_grows:
  assumes "grows h h'" and "A \<subseteq> A'" and "node_safe N h L A i rf" and "(rf_currentTerm rf, i) \<in> L' \<Longrightarrow> (rf_currentTerm rf, i) \<in> L"
    and "\<And>n. rf_state rf = Leader \<Longrightarrow> own_entry h' (rf_currentTerm rf) n \<Longrightarrow> own_entry h (rf_currentTerm rf) n"
  shows "node_safe N h' L' A' i rf"
proof -
  have "leader_safe N h' A' i rf" if "rf_state rf = Leader"
    by (rule leader_safe_grows [OF assms(1,2)]) (use assms(3,5) that in \<open>auto simp: node_safe_def\<close>)
  with assms(3,4) chosen_upto_same [OF assms(1,2)] show ?thesis unfolding node_safe_def by blast
qed

lemma node_safe_same:
  assumes "node_safe N h L A i rf" and "rf_log rf' = rf_log rf" and "rf_currentTerm rf \<le> rf_currentTerm rf'"
    and "rf_commitIndex rf' = rf_commitIndex rf" and "rf_lastApplied rf' \<in> {rf_lastApplied rf, rf_commitIndex rf}"
    and "rf_state rf' = Leader \<Longrightarrow> rf_state rf = Leader \<and> rf_currentTerm rf' = rf_currentTerm rf \<and> rf_matchIndex rf' = rf_matchIndex rf"
    and "(rf_currentTerm rf', i) \<in> L \<Longrightarrow> rf_currentTerm rf' = rf_currentTerm rf"
    and "rf_state rf = Leader \<Longrightarrow> rf_currentTerm rf' = rf_currentTerm rf \<Longrightarrow> rf_state rf' = Leader"
  shows "node_safe N h L A i rf'"
proof -
  note S = assms(1) [unfolded node_safe_def]
  have "chosen_upto N h A (rf_log rf') (rf_currentTerm rf') m" if "m = rf_commitIndex rf \<or> m = rf_lastApplied rf" for m
    using chosen_upto_same [of h h A A N "rf_log rf" "rf_currentTerm rf" m "rf_currentTerm rf'"] S that assms(2,3) by auto
  moreover have "leader_safe N h A i rf'" if "rf_state rf' = Leader"
    using S assms(6) [OF that] by (simp add: leader_safe_def)
  moreover have "le_Term (rf_log rf' ! n) \<le> rf_currentTerm rf'" if "n < length (rf_log rf')" for n
    using S that assms(2,3) by fastforce
  ultimately show ?thesis using S assms(4,5,7,8) unfolding node_safe_def by auto
qed

text \<open>
  The frame: one node changes, but not its log; what is new is the state of this node, new
  messages and new votes.
\<close>

lemma safe_frame:
  assumes S: "safe c h L A" and inv: "cluster_inv c" and T: "tracked c' h L" and n: "cl_size c' = cl_size c" "cl_node c' = (cl_node c)(i := rf')"
    and log: "rf_log rf' = rf_log (cl_node c i)" and up: "rf_currentTerm (cl_node c i) \<le> rf_currentTerm rf'"
    and node: "node_safe (cl_size c) h L A i rf'"
    and msgs: "\<And>m. m \<in> cl_msgs c' \<Longrightarrow> m \<in> cl_msgs c \<or> rpc_safe (cl_size c) h L A m"
    and cand: "rf_state rf' = Candidate \<Longrightarrow> rf_currentTerm rf' = rf_currentTerm (cl_node c i) \<Longrightarrow> rf_state (cl_node c i) = Candidate"
    and votes: "\<And>v u k. (v, u, k) \<in> cl_granted c' \<Longrightarrow> (v, u, k) \<in> cl_granted c \<or> u \<le> rf_currentTerm (cl_node c' k) \<and>
      (rf_state (cl_node c' k) = Candidate \<longrightarrow> rf_currentTerm (cl_node c' k) = u \<longrightarrow>
        (\<forall>t n. (v, t, n) \<in> A \<longrightarrow> t < u \<longrightarrow> same_upto n (rf_log (cl_node c k)) (h t) \<or> passed_over c A t n))"
    and reqs: "\<And>k j args. VoteReq k j args \<in> cl_msgs c' \<Longrightarrow> VoteReq k j args \<in> cl_msgs c \<or> k = i \<and>
      rva_LastLogIndex args = int (length (rf_log rf')) - 1 \<and> rva_LastLogTerm args = le_Term (last (rf_log rf'))"
  shows "safe c' h L A"
proof -
  note D = safeD [OF S]
  have ev: "evolves c h A c' h A" using up by (auto simp: evolves_def n)
  note pass = passed_over_evolves [OF ev]
  have logs: "rf_log (cl_node c' k) = rf_log (cl_node c k)" for k using log by (simp add: n)
  have "stored_safe c' h A" by (rule stored_evolves [OF D(5) ev]) (simp_all add: logs)
  moreover have "leaders_safe c' h L A" by (rule leaders_evolves [OF D(6) ev]) blast
  moreover have "votes_safe c' h A"
    unfolding votes_safe_def
  proof (intro allI impI)
    fix v u k assume g: "(v, u, k) \<in> cl_granted c'"
    show "u \<le> rf_currentTerm (cl_node c' k) \<and> (rf_state (cl_node c' k) = Candidate \<longrightarrow> rf_currentTerm (cl_node c' k) = u \<longrightarrow>
       (\<forall>t n. (v, t, n) \<in> A \<longrightarrow> t < u \<longrightarrow> same_upto n (rf_log (cl_node c' k)) (h t) \<or> passed_over c' A t n))"
    proof (cases "(v, u, k) \<in> cl_granted c")
      case True
      note V = votes_safeD [OF D(7) True]
      have le: "u \<le> rf_currentTerm (cl_node c' k)" using V(1) evolvesD(2) [OF ev, of k] by simp
      have "rf_state (cl_node c k) = Candidate \<and> rf_currentTerm (cl_node c k) = u"
        if "rf_state (cl_node c' k) = Candidate" "rf_currentTerm (cl_node c' k) = u"
        using that V(1) up cand by (cases "k = i") (auto simp: n)
      with V(2) le pass show ?thesis unfolding logs by blast
    next
      case False
      with votes [OF g] pass show ?thesis unfolding logs by blast
    qed
  qed
  moreover have "requests_safe c'"
    unfolding requests_safe_def
  proof (intro allI impI)
    fix k j args assume a: "VoteReq k j args \<in> cl_msgs c'" "rf_state (cl_node c' k) = Candidate"
      "rf_currentTerm (cl_node c' k) = rva_Term args"
    show "rva_LastLogIndex args = int (length (rf_log (cl_node c' k))) - 1 \<and> rva_LastLogTerm args = le_Term (last (rf_log (cl_node c' k)))"
    proof (cases "VoteReq k j args \<in> cl_msgs c")
      case True
      then have "rva_Term args \<le> rf_currentTerm (cl_node c k)" using cluster_invD(6) [OF inv] by (simp add: req_ok_def)
      then have "rf_state (cl_node c k) = Candidate \<and> rf_currentTerm (cl_node c k) = rva_Term args"
        using a(2,3) up cand by (cases "k = i") (auto simp: n)
      with D(8) True show ?thesis unfolding requests_safe_def logs by blast
    qed (use reqs [OF a(1)] in \<open>auto simp: n\<close>)
  qed
  moreover have "node_safe (cl_size c') h L A k (cl_node c' k)" for k using node D(3) [of k] by (simp add: n)
  moreover have "rpc_safe (cl_size c') h L A m" if "m \<in> cl_msgs c'" for m using msgs [OF that] D(4) [of m] n(1) by auto
  ultimately show ?thesis using T D(2) unfolding safe_def by blast
qed

lemma safe_msgs:
  assumes S: "safe c h L A" and inv: "cluster_inv c" and T: "tracked (c\<lparr>cl_msgs := M\<rparr>) h L"
    and "\<And>m. m \<in> M \<Longrightarrow> m \<in> cl_msgs c \<or> rpc_safe (cl_size c) h L A m"
    and "\<And>k j args. VoteReq k j args \<in> M \<Longrightarrow> VoteReq k j args \<in> cl_msgs c"
  shows "safe (c\<lparr>cl_msgs := M\<rparr>) h L A"
  by (rule safe_frame [OF S inv T, of 0 "cl_node c 0"]) (use safeD(3) [OF S, of 0] assms(4,5) in auto)

lemma safe_node:
  assumes S: "safe c h L A" and inv: "cluster_inv c" and q: "calm (cl_node c i) rf'" and log: "rf_log rf' = rf_log (cl_node c i)"
    and node: "node_safe (cl_size c) h L A i rf'"
  shows "safe (set_node i rf' c) h L A"
  by (rule safe_frame [OF S inv tracked_node [OF safeD(1) [OF S] q log] _ _ log _ node])
    (use q in \<open>auto simp: calm_def\<close>)

text \<open>The node is not the leader of a term it has not reached.\<close>

lemma leader_term: "tracked c h L \<Longrightarrow> rf_currentTerm (cl_node c i) \<le> t \<Longrightarrow> (t, i) \<in> L \<Longrightarrow> t = rf_currentTerm (cl_node c i)"
  using trackedD(10) [of c h L t i] by simp

lemma safe_elect:
  assumes S: "safe c h L A" and inv: "cluster_inv c" and e: "startElection (cl_node c i) now = Inr (args, rf')"
    and c': "c' = (set_node i rf' c)\<lparr>
      cl_msgs := cl_msgs c \<union> {VoteReq i j args | j. j < cl_size c \<and> j \<noteq> i},
      cl_votes := upd2 (cl_votes c) i (rf_currentTerm rf') 1,
      cl_granted := insert (i, rf_currentTerm rf', i) (cl_granted c),
      cl_counted := upd2 (cl_counted c) i (rf_currentTerm rf') {i}\<rparr>"
  shows "safe c' h L A"
proof -
  let ?rf = "cl_node c i"
  note D = safeD [OF S] and R = startElection_result [OF e]
  have ne: "rf_log ?rf \<noteq> []" using e by (auto simp: startElection_def Let_def log_get_def)
  have s: "rf_log rf' = rf_log ?rf" "rf_commitIndex rf' = rf_commitIndex ?rf" "rf_lastApplied rf' = rf_lastApplied ?rf"
    "rva_LastLogIndex args = int (length (rf_log ?rf)) - 1" "rva_LastLogTerm args = le_Term (last (rf_log ?rf))"
    using e ne by (auto simp: startElection_def Let_def)
  have T: "tracked c' h L" by (rule tracked_elect [OF D(1) e]) (auto simp: c')
  show ?thesis
  proof (rule safe_frame [OF S inv T, of i rf'])
    show "node_safe (cl_size c) h L A i rf'"
      by (rule node_safe_same [OF D(3)]) (use s R leader_term [OF D(1), of i "rf_currentTerm rf'"] in auto)
    show "(v, u, k) \<in> cl_granted c \<or> u \<le> rf_currentTerm (cl_node c' k) \<and> (rf_state (cl_node c' k) = Candidate \<longrightarrow>
        rf_currentTerm (cl_node c' k) = u \<longrightarrow>
        (\<forall>t n. (v, t, n) \<in> A \<longrightarrow> t < u \<longrightarrow> same_upto n (rf_log (cl_node c k)) (h t) \<or> passed_over c A t n))"
      if "(v, u, k) \<in> cl_granted c'" for v u k
      using that stored_safeD(3) [OF D(5)] R by (auto simp: c')
  qed (use s R in \<open>auto simp: c'\<close>)
qed

lemma safe_count:
  assumes S: "safe c h L A" and inv: "cluster_inv c" and r: "handleVoteReply (cl_node c i) t (cl_votes c i t) reply = (n, won, rf')" "\<not> won"
    and c': "c' = (set_node i rf' c)\<lparr>
      cl_msgs := cl_msgs c - {VoteRep i j t reply},
      cl_votes := upd2 (cl_votes c) i t n,
      cl_counted := (if n \<noteq> cl_votes c i t then upd2 (cl_counted c) i t (insert j (cl_counted c i t)) else cl_counted c)\<rparr>"
  shows "safe c' h L A"
proof -
  let ?rf = "cl_node c i"
  note D = safeD [OF S]
  have s: "rf_log rf' = rf_log ?rf" "rf_commitIndex rf' = rf_commitIndex ?rf" "rf_lastApplied rf' = rf_lastApplied ?rf"
    "rf_matchIndex rf' = rf_matchIndex ?rf" "rf_currentTerm ?rf \<le> rf_currentTerm rf'"
    "rf_currentTerm rf' = rf_currentTerm ?rf \<Longrightarrow> rf_state rf' = rf_state ?rf"
    "rf_currentTerm rf' = rf_currentTerm ?rf \<or> rf_state rf' = Follower"
    using r by (auto simp: handleVoteReply_def Let_def split: if_splits)
  have T: "tracked c' h L" by (rule tracked_count [OF D(1) r]) (auto simp: c' card_insert_le)
  show ?thesis
  proof (rule safe_frame [OF S inv T, of i rf'])
    show "node_safe (cl_size c) h L A i rf'"
      by (rule node_safe_same [OF D(3)]) (use s leader_term [OF D(1) s(5)] in auto)
  qed (use s in \<open>auto simp: c'\<close>)
qed

lemma safe_applier: "safe c h L A \<Longrightarrow> cluster_inv c \<Longrightarrow> applier_round (cl_node c i) = Some (Inr (es, rf')) \<Longrightarrow> safe (set_node i rf' c) h L A"
  using applier_result [of "cl_node c i" es rf']
  by (intro safe_node calm_applier node_safe_same [OF safeD(3)]) auto

lemma safe_replicator: "safe c h L A \<Longrightarrow> cluster_inv c \<Longrightarrow> safe (set_node i (replicator_step (cl_node c i)) c) h L A"
  by (intro safe_node calm_replicator node_safe_same [OF safeD(3)]) (auto simp: replicator_step_def)

text \<open>A vote: the candidate's log is up to date, so it has what the voter has stored.\<close>

lemma vote_safe:
  assumes S: "safe c h L A" and m: "VoteReq i j args \<in> cl_msgs c" and ne: "rf_log (cl_node c i) \<noteq> []"
    and g: "grants (cl_node c j) args" and cand: "rf_state (cl_node c i) = Candidate" "rf_currentTerm (cl_node c i) = rva_Term args"
    and a: "(j, t, n) \<in> A"
  shows "same_upto n (rf_log (cl_node c i)) (h t) \<or> passed_over c A t n"
proof (cases "passed_over c A t n")
  case False
  note D = safeD [OF S] and St = stored_safeD [OF safeD(5) [OF S] a]
  have "same_upto n (h u) (h t)" if u: "t < u" "h u \<noteq> []" for u
  proof -
    have "u \<noteq> 0" using St(1) u(1) by (simp add: own_entry_def)
    then obtain k where "(u, k) \<in> L" using trackedD(4) [OF D(1)] u(2) by blast
    with leaders_safeD [OF D(6) this u(1) St(1)] False show ?thesis by blast
  qed
  moreover have "rva_LastLogIndex args = int (length (rf_log (cl_node c i))) - 1"
    "rva_LastLogTerm args = le_Term (last (rf_log (cl_node c i)))"
    using D(8) m cand unfolding requests_safe_def by blast+
  moreover have "logOk (le_Term (last (rf_log (cl_node c j)))) (int (length (rf_log (cl_node c j))) - 1) args"
    using g by (simp add: grants_def)
  moreover have "same_upto n (rf_log (cl_node c j)) (h t)" using St(3) False by blast
  ultimately show ?thesis
    using up_to_date_has_entry [OF trackedD(1) [OF D(1), of j] trackedD(1) [OF D(1), of i] D(2) St(1) _ ne] by blast
qed simp

lemma safe_vote:
  assumes S: "safe c h L A" and inv: "cluster_inv c" and typed: "cluster_typed c" and m: "VoteReq i j args \<in> cl_msgs c"
    and e: "raft_RequestVote (cl_node c j) args now = Inr (reply, rf')"
    and c': "c' = (set_node j rf' c)\<lparr>
      cl_msgs := insert (VoteRep i j (rva_Term args) reply) (cl_msgs c - {VoteReq i j args}),
      cl_granted := (if rvr_VoteGranted reply then insert (j, rva_Term args, i) (cl_granted c) else cl_granted c)\<rparr>"
  shows "safe c' h L A"
proof -
  let ?rf = "cl_node c j"
  note D = safeD [OF S] and o = raft_RequestVote_result [OF e, unfolded vote_outcome_def]
  have R: "req_ok c i j args" by (rule cluster_invD(6) [OF inv m])
  have ij: "i \<noteq> j" using cluster_typedD(3) [OF typed m] by simp
  have T: "tracked c' h L" by (rule tracked_vote [OF D(1) e]) (auto simp: c')
  have keep: "\<not> grants ?rf args" if "rf_state ?rf = Leader" "rf_currentTerm rf' = rf_currentTerm ?rf"
  proof -
    have "rf_votedFor ?rf = int j"
      using cluster_typedD(1,2) [OF typed, of j] that(1) by (simp add: node_typed_def node_inv_def)
    moreover have "rva_CandidateId args = int i" using R by (simp add: req_ok_def)
    ultimately show ?thesis using ij that(2) o by (auto simp: grants_def)
  qed
  show ?thesis
  proof (rule safe_frame [OF S inv T, of j rf'])
    show "node_safe (cl_size c) h L A j rf'"
      by (rule node_safe_same [OF D(3)])
        (use o keep leader_term [OF D(1), of j "rf_currentTerm rf'"] in \<open>auto simp: max_def split: if_splits\<close>)
    show "rf_state ?rf = Candidate" if "rf_state rf' = Candidate" "rf_currentTerm rf' = rf_currentTerm ?rf"
      using o that by (auto split: if_splits)
    show "(v, u, k) \<in> cl_granted c \<or> u \<le> rf_currentTerm (cl_node c' k) \<and> (rf_state (cl_node c' k) = Candidate \<longrightarrow>
        rf_currentTerm (cl_node c' k) = u \<longrightarrow>
        (\<forall>t n. (v, t, n) \<in> A \<longrightarrow> t < u \<longrightarrow> same_upto n (rf_log (cl_node c k)) (h t) \<or> passed_over c A t n))"
      if "(v, u, k) \<in> cl_granted c'" for v u k
    proof (cases "(v, u, k) \<in> cl_granted c")
      case False
      with that have k: "v = j" "u = rva_Term args" "k = i" "grants ?rf args" using o by (auto simp: c' split: if_splits)
      have "rf_log (cl_node c i) \<noteq> []" using log_typed_nonempty cluster_typedD(1) [OF typed, of i] by (auto simp: node_typed_def)
      from vote_safe [OF S m this k(4)] k R ij show ?thesis by (auto simp: c' req_ok_def)
    qed simp
  qed (use o in \<open>auto simp: c'\<close>)
qed

text \<open>A request is a slice of the log of the leader of its term.\<close>

lemma safe_send:
  assumes S: "safe c h L A" and inv: "cluster_inv c" and typed: "cluster_typed c" and j: "j < cl_size c"
    and e: "heartbeat_args (cl_node c i) t (int j) = Inr (Some args)" and t: "t = rf_currentTerm (cl_node c i)"
  shows "safe (c\<lparr>cl_msgs := insert (AppReq i j args) (cl_msgs c)\<rparr>) h L A"
proof -
  let ?rf = "cl_node c i"
  note D = safeD [OF S] and T = trackedD [OF safeD(1) [OF S]]
  have l: "rf_state ?rf = Leader" using e by (auto simp: heartbeat_args_def split: if_splits)
  with cluster_typedD(1) [OF typed, of i] j obtain v where v: "rf_nextIndex ?rf (int j) = Some v" "1 \<le> v"
    by (fastforce simp: node_typed_def node_inv_def next_ok_def)
  define p where "p = nat (v - 1)"
  have p: "rf_nextIndex ?rf (int j) = Some (int (Suc p))" "1 \<le> Suc p" using v by (auto simp: p_def)
  have log: "rf_log ?rf = h t" "(t, i) \<in> L" using T(6,7) [OF l] by (simp_all add: t)
  have a: "aea_Term args = t" "aea_PrevLogIndex args = int p" "aea_Entries args = take 100 (drop (Suc p) (h t))"
    "aea_PrevLogTerm args = (if Suc p \<le> length (h t) then le_Term (h t ! p) else 0)" "aea_LeaderCommit args = rf_commitIndex ?rf"
    using heartbeat_args_leader [OF l p, of t] e log(1) by auto
  have tk: "take 100 l = take (length (take 100 l)) l" for l :: "log_entry list" by (simp add: min_def)
  have ne: "0 < length (h t)" using log_typed_nonempty cluster_typedD(1) [OF typed, of i] log(1) by (auto simp: node_typed_def)
  have ch: "chosen_upto (cl_size c) h A (h t) t (rf_commitIndex ?rf)" using D(3) [of i] log(1) by (simp add: node_safe_def t)
  have "req_safe (cl_size c) h A args"
  proof (cases "p < length (h t)")
    case True
    then have "p + length (aea_Entries args) < length (h t)" by (auto simp: a(3) min_def)
    moreover have "aea_PrevLogTerm args = le_Term (h t ! p)" using a(4) True by simp
    moreover have "aea_Entries args = take (length (aea_Entries args)) (drop (Suc p) (h t))" using tk a(3) by simp
    ultimately show ?thesis using ch unfolding req_safe_def Let_def a(1,2,5) nat_int by blast
  next
    case False
    then have "\<not> Suc p \<le> length (h t)" "0 < p" using ne by linarith+
    then show ?thesis using a(4) unfolding req_safe_def Let_def a(2) nat_int by simp
  qed
  then have "rpc_safe (cl_size c) h L A (AppReq i j args)" using a(1) log(2) by simp
  then show ?thesis
    by (intro safe_msgs [OF S inv] tracked_msgs [OF D(1)]) (use request_from_leader [OF D(1) typed j e] in auto)
qed

text \<open>A reply: the match indices stay within what the peers have stored, and the commit rule counts a majority.\<close>

lemma leader_safe_advance:
  assumes "leader_safe N h A i rf" and "rep_safe h A j args" and "aea_Term args = rf_currentTerm rf" and "0 \<le> aea_PrevLogIndex args"
  shows "leader_safe N h A i (advance_indices rf (int j) (aea_PrevLogIndex args + int (length (aea_Entries args))))"
proof (cases "aea_PrevLogIndex args + int (length (aea_Entries args)) > mget (rf_matchIndex rf) (int j)")
  case True
  let ?m = "nat (aea_PrevLogIndex args) + length (aea_Entries args)"
  have m: "aea_PrevLogIndex args + int (length (aea_Entries args)) = int ?m" using assms(4) by simp
  have "?m < length (h (rf_currentTerm rf))" "\<And>n. n \<le> ?m \<Longrightarrow> own_entry h (rf_currentTerm rf) n \<Longrightarrow> (j, rf_currentTerm rf, n) \<in> A"
    using assms(2,3) by (auto simp: rep_safe_def Let_def)
  with True assms(1) show ?thesis unfolding m advance_indices_def leader_safe_def by (auto simp: mget_def)
qed (use assms(1) in \<open>simp add: advance_indices_def\<close>)

lemma commit_chosen:
  assumes "leader_safe N h A i rf" and "committable rf M" and "0 \<le> M" and "rf_log rf = h (rf_currentTerm rf)"
    and "0 < rf_currentTerm rf" and "i < N" and "rf_me rf = int i" and "length (rf_peers rf) = N"
  shows "committed N h A (rf_currentTerm rf) (nat M)"
proof -
  let ?t = "rf_currentTerm rf" and ?P = "\<lambda>p. p \<noteq> i \<and> M \<le> mget (rf_matchIndex rf) (int p)"
  let ?Q = "insert i {p. p < N \<and> ?P p}"
  have own: "own_entry h ?t (nat M)"
    using assms(2-5) by (auto simp: committable_def log_get_def own_entry_def split: if_splits)
  have "length (filter ?P [0..<N]) = card {p. p < N \<and> ?P p}"
    by (subst distinct_length_filter) (auto intro!: arg_cong [where f = card])
  then have "match_count rf M = card ?Q" using assms(7,8) by (simp add: match_count_def)
  with assms(2,6,8) have "quorum N ?Q" by (auto simp: quorum_def committable_def)
  moreover have "(v, ?t, nat M) \<in> A" if "v \<in> ?Q" for v
    using that own assms(1,3) unfolding leader_safe_def by auto
  ultimately show ?thesis using own unfolding committed_def by blast
qed

lemma ack_node_safe:
  assumes S: "node_safe N h L A i rf" and l: "rf_state rf = Leader" and log: "rf_log rf = h (rf_currentTerm rf)" "0 < rf_currentTerm rf"
    and n: "i < N" "rf_me rf = int i" "length (rf_peers rf) = N" "0 \<le> rf_commitIndex rf"
    and r: "rep_safe h A j args" "aea_Term args = rf_currentTerm rf" "0 \<le> aea_PrevLogIndex args"
    and scan: "commit_scan (advance_indices rf (int j) (aea_PrevLogIndex args + int (length (aea_Entries args))))
      (int (length (rf_log rf)) - 1) = Inr rf'"
  shows "node_safe N h L A i rf'"
proof -
  define rf1 where "rf1 = advance_indices rf (int j) (aea_PrevLogIndex args + int (length (aea_Entries args)))"
  have f: "rf_log rf1 = rf_log rf" "rf_currentTerm rf1 = rf_currentTerm rf" "rf_commitIndex rf1 = rf_commitIndex rf"
    "rf_lastApplied rf1 = rf_lastApplied rf" "rf_me rf1 = rf_me rf" "rf_peers rf1 = rf_peers rf" "rf_state rf1 = rf_state rf"
    by (simp_all add: rf1_def advance_indices_def)
  have ls: "leader_safe N h A i rf1"
    using leader_safe_advance [OF _ r] S l by (simp add: rf1_def node_safe_def)
  have 1: "node_safe N h L A i rf1" using S ls f unfolding node_safe_def by simp
  have "-1 \<le> rf_commitIndex rf1" "int (length (rf_log rf)) - 1 < int (length (rf_log rf1))" using n(4) f by simp_all
  from commit_scan_spec [OF this] scan [folded rf1_def] consider "rf' = rf1"
    | M where "rf_commitIndex rf1 < M" "M \<le> int (length (rf_log rf)) - 1" "committable rf1 M"
      "rf' = rf1\<lparr>rf_commitIndex := M, rf_commitCh := True\<rparr>" by auto
  then show ?thesis
  proof cases
    case 2
    have "committed N h A (rf_currentTerm rf1) (nat M)"
      by (rule commit_chosen [OF ls 2(3)]) (use 2(1) n log f in auto)
    moreover have "same_upto (nat M) (rf_log rf1) (h (rf_currentTerm rf1))"
      using 2(1,2) n(4) f log(1) by (auto simp: same_upto_def)
    ultimately have "chosen_upto N h A (rf_log rf1) (rf_currentTerm rf1) M" unfolding chosen_upto_def by blast
    with 1 show ?thesis unfolding 2(4) node_safe_def leader_safe_def by simp
  qed (use 1 in simp)
qed

lemma safe_ack:
  assumes S: "safe c h L A" and inv: "cluster_inv c" and typed: "cluster_typed c" and m: "AppRep i j args reply \<in> cl_msgs c"
    and e: "handleAppendReply (cl_node c i) (int j) args reply = Inr rf'" and t: "aea_Term args = rf_currentTerm (cl_node c i)"
  shows "safe (set_node i rf' c) h L A"
proof (rule safe_node [OF S inv calm_ack [OF e] handleAppendReply_result(1) [OF e]])
  let ?rf = "cl_node c i"
  note D = safeD [OF S] and T = trackedD [OF safeD(1) [OF S]]
  have M: "(rf_currentTerm ?rf, i) \<in> L" "aer_Success reply \<Longrightarrow> rep_safe h A j args" using D(4) [OF m] t by auto
  have l: "rf_state ?rf = Leader" using D(3) [of i] M(1) by (simp add: node_safe_def)
  have ty: "i < cl_size c" "0 \<le> aea_PrevLogIndex args" "rf_me ?rf = int i" "length (rf_peers ?rf) = cl_size c" "0 \<le> rf_commitIndex ?rf"
    using cluster_typedD(1,2) [OF typed, of i] cluster_typedD(3) [OF typed m]
    by (auto simp: node_typed_def node_inv_def args_typed_def)
  show "node_safe (cl_size c) h L A i rf'"
    using e
  proof (cases rule: handleAppendReply_cases)
    case 1
    then show ?thesis
      by (intro node_safe_same [OF D(3)]) (use handleAppendReply_result [OF e] leader_term [OF D(1), of i "rf_currentTerm rf'"] in auto)
  next
    case 2
    then show ?thesis
      by (intro ack_node_safe [OF D(3) l T(6) [OF l] T(8) [OF M(1)] ty(1,3,4,5) M(2) t ty(2)])
  next
    case 3
    then show ?thesis by (intro node_safe_same [OF D(3)]) (use handleAppendReply_result [OF e] in auto)
  qed
qed

section \<open>A follower stores entries\<close>

lemma merged_same:
  assumes "same_upto (p + length es) l g" and "es = take m (drop (Suc p) g)"
  shows "merged l (Suc p) es = l"
proof -
  have "agree l (Suc p) es = length es"
  proof (rule agree_full)
    show "Suc p + length es \<le> length l" using assms(1) by (simp add: same_upto_def)
    fix k assume k: "k < length es"
    moreover have "Suc p \<le> length g" using assms(1) by (simp add: same_upto_def)
    ultimately have "es ! k = g ! (Suc p + k)" using assms(2) by simp
    then show "le_Term (l ! (Suc p + k)) = le_Term (es ! k)" using same_upto_nth [OF assms(1), of "Suc p + k"] k by simp
  qed
  then show ?thesis by (simp add: merged_def)
qed

text \<open>After a merge the log agrees with the sender's up to the last entry sent, and keeps what it shared with it.\<close>

lemma merged_keeps:
  assumes tr: "traced h l" "traced h g" and p: "p < length l" "p < length g" "le_Term (l ! p) = le_Term (g ! p)"
    and es: "es = take m (drop (Suc p) g)"
  shows "same_upto (p + length es) (merged l (Suc p) es) g"
    "same_upto n l x \<Longrightarrow> same_upto n g x \<Longrightarrow> same_upto n (merged l (Suc p) es) x"
    "merged l (Suc p) es = l \<or> (\<exists>k. merged l (Suc p) es = take k g)"
proof -
  note cases = merged_traced_cases [OF tr p es]
  have tk: "same_upto k (take (Suc p + length es) g) g" if "k \<le> p + length es" "p + length es < length g" for k
    using that by (intro same_upto_take) auto
  show "same_upto (p + length es) (merged l (Suc p) es) g" using cases tk by auto
  show "merged l (Suc p) es = l \<or> (\<exists>k. merged l (Suc p) es = take k g)" using cases by blast
  assume a: "same_upto n l x" "same_upto n g x"
  show "same_upto n (merged l (Suc p) es) x"
  proof (cases "n \<le> p + length es")
    case True
    from cases show ?thesis
    proof (elim disjE conjE)
      assume "merged l (Suc p) es = take (Suc p + length es) g" "p + length es < length g"
      with same_upto_trans [OF tk [OF True] a(2)] show ?thesis by simp
    qed (use a(1) in simp)
  next
    case False
    then have "same_upto (p + length es) l g"
      using same_upto_le [OF same_upto_trans [OF a(1) same_upto_sym [OF a(2)]]] by simp
    with merged_same [OF this es] a(1) show ?thesis by simp
  qed
qed

text \<open>An accepted request is not the dead kind, so it is a slice of the log of the leader of its term.\<close>

lemma accepted_live:
  assumes "tracked c h L" and "accepts (cl_node c j) args" and "0 \<le> aea_PrevLogIndex args" and "req_safe N h A args"
  shows "nat (aea_PrevLogIndex args) + length (aea_Entries args) < length (h (aea_Term args))"
    "aea_PrevLogTerm args = le_Term (h (aea_Term args) ! nat (aea_PrevLogIndex args))"
    "aea_Entries args = take (length (aea_Entries args)) (drop (Suc (nat (aea_PrevLogIndex args))) (h (aea_Term args)))"
    "chosen_upto N h A (h (aea_Term args)) (aea_Term args) (aea_LeaderCommit args)"
proof -
  let ?p = "nat (aea_PrevLogIndex args)"
  note T = trackedD [OF assms(1)]
  have p: "?p < length (rf_log (cl_node c j))" "le_Term (rf_log (cl_node c j) ! ?p) = aea_PrevLogTerm args"
    using assms(2,3) by (auto simp: accepts_def)
  have "\<not> (0 < ?p \<and> aea_PrevLogTerm args = 0)"
    using tracedD [OF T(1) p(1)] p(2) T(5) by (auto simp: same_upto_def fresh_log_def)
  with assms(4) show "?p + length (aea_Entries args) < length (h (aea_Term args))"
    "aea_PrevLogTerm args = le_Term (h (aea_Term args) ! ?p)"
    "aea_Entries args = take (length (aea_Entries args)) (drop (Suc ?p) (h (aea_Term args)))"
    "chosen_upto N h A (h (aea_Term args)) (aea_Term args) (aea_LeaderCommit args)"
    unfolding req_safe_def Let_def by blast+
qed

lemma accepted_log:
  assumes S: "safe c h L A" and m: "AppReq i j args \<in> cl_msgs c" and acc: "accepts (cl_node c j) args"
    and e: "raft_AppendEntries (cl_node c j) args now = Inr (reply, rf')"
  shows "same_upto (nat (aea_PrevLogIndex args) + length (aea_Entries args)) (rf_log rf') (h (aea_Term args))"
    "same_upto n (rf_log (cl_node c j)) x \<Longrightarrow> same_upto n (h (aea_Term args)) x \<Longrightarrow> same_upto n (rf_log rf') x"
    "n < length (rf_log rf') \<Longrightarrow> le_Term (rf_log rf' ! n) \<le> aea_Term args"
proof -
  let ?p = "nat (aea_PrevLogIndex args)" and ?es = "aea_Entries args" and ?l = "rf_log (cl_node c j)" and ?g = "h (aea_Term args)"
  note D = safeD [OF S] and T = trackedD [OF safeD(1) [OF S]]
  from raft_AppendEntries_success [OF e] acc have prev: "0 \<le> aea_PrevLogIndex args"
    and log: "rf_log rf' = merged ?l (Suc ?p) ?es" by (auto simp: append_outcome_def)
  have "req_safe (cl_size c) h A args" using D(4) [OF m] by simp
  note live = accepted_live [OF D(1) acc prev this]
  have p: "?p < length ?l" "le_Term (?l ! ?p) = aea_PrevLogTerm args" "rf_currentTerm (cl_node c j) \<le> aea_Term args"
    using acc prev by (auto simp: accepts_def)
  have "?p < length ?g" using live(1) by simp
  note keeps = merged_keeps [OF T(1) T(2) p(1) this _ live(3), unfolded p(2), OF live(2), folded log]
  show "same_upto (?p + length ?es) (rf_log rf') ?g" by (rule keeps(1))
  show "same_upto n ?l x \<Longrightarrow> same_upto n ?g x \<Longrightarrow> same_upto n (rf_log rf') x" by (rule keeps(2))
  show "le_Term (rf_log rf' ! n) \<le> aea_Term args" if n: "n < length (rf_log rf')"
    using keeps(3)
  proof
    assume "rf_log rf' = ?l"
    with D(3) [of j] n p(3) show ?thesis by (fastforce simp: node_safe_def)
  next
    assume "\<exists>k. rf_log rf' = take k ?g"
    with n sorted_logsD(2) [OF D(2), of n "aea_Term args"] show ?thesis by auto
  qed
qed

lemma leader_unique: "tracked c h L \<Longrightarrow> cluster_inv c \<Longrightarrow> (t, i) \<in> L \<Longrightarrow> (t, j) \<in> L \<Longrightarrow> i = j"
  using counted_once trackedD(9) by metis

lemma accepted_node:
  assumes S: "safe c h L A" and inv: "cluster_inv c" and typed: "cluster_typed c" and m: "AppReq i j args \<in> cl_msgs c"
    and acc: "accepts (cl_node c j) args" and e: "raft_AppendEntries (cl_node c j) args now = Inr (reply, rf')" and "A \<subseteq> A'"
  shows "node_safe (cl_size c) h L A' j rf'"
proof -
  let ?rf = "cl_node c j" and ?w = "aea_Term args" and ?m = "aea_PrevLogIndex args + int (length (aea_Entries args))"
  note D = safeD [OF S] and log = accepted_log [OF S m acc e]
  from raft_AppendEntries_success [OF e] acc have prev: "0 \<le> aea_PrevLogIndex args"
    and o: "rf_currentTerm rf' = ?w" "rf_state rf' = Follower" "rf_lastApplied rf' = rf_lastApplied ?rf"
    "rf_commitIndex rf' = (if aea_LeaderCommit args > rf_commitIndex ?rf then min (aea_LeaderCommit args) ?m else rf_commitIndex ?rf)"
    and le: "rf_currentTerm ?rf \<le> ?w"
    by (auto simp: append_outcome_def accepts_def)
  have M: "(?w, i) \<in> L" "req_safe (cl_size c) h A args" using D(4) [OF m] by auto
  have old: "chosen_upto (cl_size c) h A' (rf_log rf') ?w x" if "chosen_upto (cl_size c) h A (rf_log ?rf) (rf_currentTerm ?rf) x" for x
  proof (rule chosen_upto_grows [OF grows_refl \<open>A \<subseteq> A'\<close> that le])
    fix t n assume a: "t \<le> rf_currentTerm ?rf" "committed (cl_size c) h A t n" "same_upto (nat x) (rf_log ?rf) (h t)" "nat x \<le> n"
    have "t \<le> ?w" using a(1) le by simp
    from same_upto_le [OF committed_in_leader [OF S a(2) M(1) this] a(4)] show "same_upto (nat x) (rf_log rf') (h t)"
      by (rule log(2) [OF a(3)])
  qed
  have new: "chosen_upto (cl_size c) h A' (rf_log rf') ?w (min (aea_LeaderCommit args) ?m)"
  proof (rule chosen_upto_grows [OF grows_refl \<open>A \<subseteq> A'\<close> _ order_refl])
    let ?x = "min (aea_LeaderCommit args) ?m"
    have x: "nat ?x \<le> nat (aea_LeaderCommit args)" "nat ?x \<le> nat (aea_PrevLogIndex args) + length (aea_Entries args)"
      using prev by auto
    show "chosen_upto (cl_size c) h A (h ?w) ?w ?x"
      by (rule chosen_upto_le [OF accepted_live(4) [OF D(1) acc prev M(2)]]) simp
    show "same_upto (nat ?x) (rf_log rf') (h t)" if "same_upto (nat ?x) (h ?w) (h t)" for t
      using same_upto_trans [OF same_upto_le [OF log(1) x(2)] that] .
  qed
  have "(?w, j) \<notin> L" using leader_unique [OF D(1) inv M(1), of j] cluster_typedD(3) [OF typed m] by auto
  with old new log(3) D(3) [of j] o show ?thesis unfolding node_safe_def by auto
qed

lemma safe_append:
  assumes S: "safe c h L A" and inv: "cluster_inv c" and typed: "cluster_typed c" and m: "AppReq i j args \<in> cl_msgs c"
    and e: "raft_AppendEntries (cl_node c j) args now = Inr (reply, rf')"
    and c': "c' = (set_node j rf' c)\<lparr>cl_msgs := insert (AppRep i j args reply) (cl_msgs c)\<rparr>"
  shows "\<exists>A'. safe c' h L A'"
proof (cases "accepts (cl_node c j) args")
  case False
  let ?rf = "cl_node c j"
  note D = safeD [OF S] and T = tracked_append [OF safeD(1) [OF S] m e c']
  have o: "append_outcome ?rf args reply rf'" using raft_AppendEntries_success [OF e] by simp
  have M: "(aea_Term args, i) \<in> L" using D(4) [OF m] by simp
  have stay: "rf_state rf' = Leader" if l: "rf_state ?rf = Leader" "rf_currentTerm rf' = rf_currentTerm ?rf"
  proof (cases "rf_currentTerm ?rf \<le> aea_Term args")
    case True
    with o l(2) have "aea_Term args = rf_currentTerm ?rf" by (simp add: append_outcome_def)
    with leader_unique [OF D(1) inv M] trackedD(7) [OF D(1) l(1)] cluster_typedD(3) [OF typed m] show ?thesis by simp
  qed (use o l(1) in \<open>simp add: append_outcome_def\<close>)
  have "safe c' h L A"
  proof (rule safe_frame [OF S inv T, of j rf'])
    show "node_safe (cl_size c) h L A j rf'"
      by (rule node_safe_same [OF D(3)])
        (use o False stay leader_term [OF D(1), of j "rf_currentTerm rf'"] in \<open>auto simp: append_outcome_def split: if_splits\<close>)
  qed (use o False M in \<open>auto simp: c' append_outcome_def split: if_splits\<close>)
  then show ?thesis by blast
next
  case acc: True
  let ?rf = "cl_node c j" and ?w = "aea_Term args" and ?m = "nat (aea_PrevLogIndex args) + length (aea_Entries args)"
  define A' where "A' = A \<union> {(j, ?w, n) | n. n \<le> ?m \<and> own_entry h ?w n}"
  note D = safeD [OF S] and T = tracked_append [OF safeD(1) [OF S] m e c'] and log = accepted_log [OF S m acc e]
  from raft_AppendEntries_success [OF e] acc have prev: "0 \<le> aea_PrevLogIndex args"
    and o: "rf_currentTerm rf' = ?w" "rf_state rf' = Follower" "aer_Success reply" and le: "rf_currentTerm ?rf \<le> ?w"
    by (auto simp: append_outcome_def accepts_def)
  have M: "(?w, i) \<in> L" "req_safe (cl_size c) h A args" using D(4) [OF m] by auto
  have sub: "A \<subseteq> A'" by (simp add: A'_def)
  have ev: "evolves c h A c' h A'" using le o(1) by (auto simp: evolves_def c' A'_def)
  note pass = passed_over_evolves [OF ev]
  have cand: "cl_node c' k = cl_node c k" if "rf_state (cl_node c' k) = Candidate" for k
    using that o(2) by (cases "k = j") (auto simp: c')
  have "stored_safe c' h A'"
  proof (rule stored_evolves [OF D(5) ev])
    fix v t n assume v: "same_upto n (rf_log (cl_node c v)) (h t)" "own_entry h t n" "t \<le> rf_currentTerm (cl_node c v)"
    show "same_upto n (rf_log (cl_node c' v)) (h t) \<or> passed_over c' A' t n"
    proof (cases "v = j")
      case True
      have "same_upto n (h ?w) (h t) \<or> passed_over c A t n"
        using leaders_safeD [OF D(6) M(1) _ v(2)] v(2,3) le True
        by (cases "t = ?w") (auto simp: own_entry_def same_upto_refl)
      with log(2) v(1) pass True show ?thesis by (auto simp: c')
    qed (use v(1) in \<open>simp add: c'\<close>)
  qed (use same_upto_le [OF log(1)] o(1) in \<open>auto simp: A'_def c'\<close>)
  moreover have "leaders_safe c' h L A'" by (rule leaders_evolves [OF D(6) ev]) blast
  moreover have "votes_safe c' h A'" by (rule votes_evolves [OF D(7) inv ev _ cand]) (simp_all add: c')
  moreover have "requests_safe c'" by (rule requests_evolves [OF D(8) _ cand]) (auto simp: c')
  moreover have "node_safe (cl_size c) h L A' k (cl_node c k)" for k
    by (rule node_safe_grows [OF grows_refl sub D(3)])
  then have "node_safe (cl_size c') h L A' k (cl_node c' k)" for k
    using accepted_node [OF S inv typed m acc e sub] by (simp add: c')
  moreover have "rep_safe h A' j args"
    unfolding rep_safe_def Let_def using accepted_live(1) [OF D(1) acc prev M(2)] by (auto simp: A'_def)
  then have "rpc_safe (cl_size c') h L A' r" if "r \<in> cl_msgs c'" for r
    using that rpc_safe_grows [OF grows_refl sub order_refl D(4), of r] M(1) by (auto simp: c')
  ultimately have "safe c' h L A'" using T D(2) unfolding safe_def by blast
  then show ?thesis by blast
qed

section \<open>A leader appends and a candidate wins\<close>

lemma same_upto_longer: "same_upto n l x \<Longrightarrow> same_upto n (l @ l') x"
  using same_upto_trans [OF same_upto_sym [OF same_upto_append]] by (simp add: same_upto_def)

lemma voters_later:
  assumes "cluster_inv c" and "cl_size c < 2 * card (cl_counted c k u)" and "t < u"
    and "\<And>v. v \<in> cl_counted c k u \<Longrightarrow> (v, t, n) \<notin> A"
  shows "passed_over c A t n"
proof -
  have "quorum (cl_size c) (cl_counted c k u)" using counted_range [OF assms(1)] assms(2) by (simp add: quorum_def)
  moreover have "u \<le> rf_currentTerm (cl_node c v)" if "v \<in> cl_counted c k u" for v
    using cluster_invD(4,8) [OF assms(1)] that by blast
  ultimately show ?thesis using assms(3,4) unfolding passed_over_def by (meson order.strict_trans2)
qed

lemma sorted_extend:
  assumes "sorted_logs h" and "le_Term e = s"
  shows "sorted_logs (h(s := h s @ [e]))"
  using assms unfolding sorted_logs_def by (auto simp: nth_append less_Suc_eq)

lemma own_entry_extend: "own_entry (h(s := h s @ [e])) t n \<Longrightarrow> own_entry h t n \<or> t = s \<and> n = length (h s)"
  by (auto simp: own_entry_def nth_append less_Suc_eq split: if_splits)

lemma safe_client:
  assumes S: "safe c h L A" and inv: "cluster_inv c" and l: "rf_state (cl_node c i) = Leader" "rf_currentTerm (cl_node c i) = s"
    and r: "rf_state rf' = Leader" "rf_currentTerm rf' = s" "rf_log rf' = rf_log (cl_node c i) @ [e]" "le_Term e = s"
      "rf_commitIndex rf' = rf_commitIndex (cl_node c i)" "rf_lastApplied rf' = rf_lastApplied (cl_node c i)"
      "rf_matchIndex rf' = rf_matchIndex (cl_node c i)"
    and c': "c' = set_node i rf' c"
  shows "safe c' (h(s := rf_log rf')) L (insert (i, s, length (h s)) A)"
proof -
  let ?rf = "cl_node c i" and ?h = "h(s := rf_log rf')" and ?A = "insert (i, s, length (h s)) A"
  note D = safeD [OF S] and g = tracked_client [OF safeD(1) [OF S] inv l r(1-4) c']
  have log: "h s = rf_log ?rf" and L: "(s, i) \<in> L" using trackedD(6,7) [OF D(1) l(1)] l(2) by simp_all
  have h: "?h = h(s := h s @ [e])" using r(3) log by simp
  have s: "0 < s" by (rule trackedD(8) [OF D(1) L])
  have sub: "A \<subseteq> ?A" by blast
  have ev: "evolves c h A c' ?h ?A" using g(1) l(2) r(2) by (auto simp: evolves_def c')
  note pass = passed_over_evolves [OF ev] and up = grows_upto [OF g(1)]
  have own: "own_entry h t n \<or> t = s \<and> n = length (h s)" if "own_entry ?h t n" for t n
    using own_entry_extend that unfolding h by blast
  have new: "own_entry ?h s (length (h s))" using s r(3,4) by (simp add: own_entry_def log)
  have cand: "cl_node c' k = cl_node c k" if "rf_state (cl_node c' k) = Candidate" for k
    using that r(1) by (cases "k = i") (auto simp: c')
  have "stored_safe c' ?h ?A"
    by (rule stored_evolves [OF D(5) ev]) (use new r(2,3) log same_upto_longer in \<open>auto simp: c' same_upto_def\<close>)
  moreover have "leaders_safe c' ?h L ?A"
  proof (rule leaders_evolves [OF D(6) ev])
    fix u k t n assume a: "(u, k) \<in> L" "t < u" "own_entry ?h t n" "\<not> own_entry h t n"
    have "passed_over c A t n"
      by (rule voters_later [OF inv trackedD(9) [OF D(1) a(1)] a(2)]) (use stored_safeD(1) [OF D(5)] a(4) in blast)
    then show "passed_over c' ?A t n" by (rule pass)
  qed
  moreover have "votes_safe c' ?h ?A" by (rule votes_evolves [OF D(7) inv ev _ cand]) (simp_all add: c')
  moreover have "requests_safe c'" by (rule requests_evolves [OF D(8) _ cand]) (auto simp: c')
  moreover have "node_safe (cl_size c) ?h L ?A k (cl_node c k)" if "k \<noteq> i" for k
  proof (rule node_safe_grows [OF g(1) sub D(3)])
    fix n assume "rf_state (cl_node c k) = Leader" "own_entry ?h (rf_currentTerm (cl_node c k)) n"
    with own one_leader [OF inv _ l(1), of k] that l(2) show "own_entry h (rf_currentTerm (cl_node c k)) n" by blast
  qed
  moreover have "node_safe (cl_size c) ?h L ?A i rf'"
  proof -
    note N = D(3) [of i, unfolded node_safe_def]
    have "leader_safe (cl_size c) h A i rf'" using N l r(2,7) by (simp add: leader_safe_def)
    then have "leader_safe (cl_size c) ?h ?A i rf'" by (rule leader_safe_grows [OF g(1) sub]) (use own r(2) in auto)
    moreover have "chosen_upto (cl_size c) ?h ?A (rf_log rf') s x" if "chosen_upto (cl_size c) h A (rf_log ?rf) s x" for x
      by (rule chosen_upto_grows [OF g(1) sub that order_refl]) (simp add: r(3) same_upto_longer)
    ultimately show ?thesis using N l(2) r unfolding node_safe_def by (auto simp: nth_append less_Suc_eq)
  qed
  ultimately have "node_safe (cl_size c') ?h L ?A k (cl_node c' k)" for k by (simp add: c')
  moreover have "rpc_safe (cl_size c') ?h L ?A m" if "m \<in> cl_msgs c'" for m
    using rpc_safe_grows [OF g(1) sub order_refl D(4)] that by (simp add: c')
  ultimately show ?thesis using g(2) sorted_extend [OF D(2) r(4)] h \<open>stored_safe c' ?h ?A\<close> \<open>leaders_safe c' ?h L ?A\<close>
      \<open>votes_safe c' ?h ?A\<close> \<open>requests_safe c'\<close> unfolding safe_def by simp
qed

lemma safe_win:
  assumes S: "safe c h L A" and inv: "cluster_inv c" and inv': "cluster_inv c'"
    and i: "rf_state (cl_node c i) = Candidate" "rf_currentTerm (cl_node c i) = s" "rf_log (cl_node c i) \<noteq> []"
      "length (rf_peers (cl_node c i)) = cl_size c"
    and n: "cl_size c' = cl_size c" "cl_node c' = (cl_node c)(i := init_leader (cl_node c i))" "cl_granted c' = cl_granted c"
    and m: "cl_msgs c' \<subseteq> cl_msgs c" and v: "\<And>k t. card (cl_counted c k t) \<le> card (cl_counted c' k t)"
  shows "safe c' (h(s := rf_log (cl_node c i))) (insert (s, i) L) A"
proof -
  let ?rf = "cl_node c i" and ?h = "h(s := rf_log (cl_node c i))" and ?L = "insert (s, i) L"
  let ?ld = "init_leader ?rf"
  have f: "rf_state ?ld = Leader" "rf_currentTerm ?ld = s" "rf_log ?ld = rf_log ?rf" "rf_commitIndex ?ld = rf_commitIndex ?rf"
    "rf_lastApplied ?ld = rf_lastApplied ?rf" by (simp_all add: init_leader_eq i(2))
  note D = safeD [OF S]
  have app: "AppReq k j args \<in> cl_msgs c' \<Longrightarrow> AppReq k j args \<in> cl_msgs c" for k j args using m by blast
  note g = tracked_win [OF D(1) inv' i(1,2) f(1-3) n(1,2) app v, unfolded f(3)]
  have maj: "cl_size c' < 2 * card (cl_counted c' i s)" using cluster_invD(10) [OF inv', of i] f n by simp
  have hs: "h s = []" by (rule tracked_fresh_term(1) [OF D(1) inv' i(1,2) n(1) maj v])
  have none: "\<not> own_entry ?h s n" for n
    using traced_no_entry [OF trackedD(1) [OF D(1)] hs, of n i] by (auto simp: own_entry_def)
  have own: "own_entry h t n" if "own_entry ?h t n" for t n using that none by (cases "t = s") (auto simp: own_entry_def)
  have ev: "evolves c h A c' ?h A" using g(1) f(2) i(2) by (auto simp: evolves_def n)
  note pass = passed_over_evolves [OF ev]
  have cand: "cl_node c' k = cl_node c k" if "rf_state (cl_node c' k) = Candidate" for k
    using that f(1) by (cases "k = i") (auto simp: n)
  have logs: "rf_log (cl_node c' k) = rf_log (cl_node c k)" for k using f(3) by (simp add: n)
  have "sorted_logs ?h"
    using D(2) traced_sorted [OF trackedD(1) [OF D(1), of i] D(2)] D(3) [of i] i(2)
    unfolding sorted_logs_def node_safe_def by auto
  moreover have "stored_safe c' ?h A" by (rule stored_evolves [OF D(5) ev]) (simp_all add: logs)
  moreover have "leaders_safe c' ?h ?L A"
  proof -
    have "leaders_safe c' ?h L A" by (rule leaders_evolves [OF D(6) ev]) (use own in blast)
    moreover have "same_upto n (?h s) (?h t) \<or> passed_over c' A t n" if t: "t < s" "own_entry ?h t n" for t n
    proof (cases "\<exists>v \<in> cl_counted c' i s. (v, t, n) \<in> A")
      case True
      then obtain w where w: "(w, s, i) \<in> cl_granted c" "(w, t, n) \<in> A" using cluster_invD(8) [OF inv', of i s] n(3) by auto
      from votes_safeD(2) [OF D(7) w(1) i(1,2) w(2) t(1)] pass t(1) show ?thesis by auto
    qed (use voters_later [OF inv' maj t(1)] in blast)
    ultimately show ?thesis unfolding leaders_safe_def by blast
  qed
  moreover have "votes_safe c' ?h A" by (rule votes_evolves [OF D(7) inv ev n(3) cand])
  moreover have "requests_safe c'" by (rule requests_evolves [OF D(8) _ cand]) (use m in auto)
  moreover have "node_safe (cl_size c') ?h ?L A k (cl_node c' k)" for k
  proof (cases "k = i")
    case True
    have "leader_safe (cl_size c) ?h A i ?ld"
      using none i(3,4) f(2) by (auto simp: leader_safe_def init_leader_eq i(2) mget_def)
    moreover have "chosen_upto (cl_size c) ?h A (rf_log ?rf) s x" if "chosen_upto (cl_size c) h A (rf_log ?rf) s x" for x
      by (rule chosen_upto_same [OF g(1) order_refl that order_refl])
    ultimately show ?thesis using D(3) [of i] i(2) f True unfolding node_safe_def by (simp add: n)
  next
    case False
    then have "node_safe (cl_size c) ?h ?L A k (cl_node c k)"
      by (intro node_safe_grows [OF g(1) order_refl D(3)]) (use own in auto)
    with False show ?thesis by (simp add: n)
  qed
  moreover have "rpc_safe (cl_size c') ?h ?L A r" if "r \<in> cl_msgs c'" for r
    using rpc_safe_grows [OF g(1) order_refl _ D(4), of ?L r] that m n(1) by auto
  ultimately show ?thesis using g(2) unfolding safe_def by blast
qed

end
