(* ===== verification/Raft_Safety.thy ===== *)
theory Raft_Safety
  imports Raft_Safety_Steps
begin

text \<open>
  State machine safety of a new cluster: from the invariant \<open>safe\<close>, the logs of all nodes agree up to
  what is committed or applied, applied entries are never changed, and no applier reads past the end of a
  log.
\<close>

section \<open>State machine safety\<close>

lemma safe_new: "cluster_new c \<Longrightarrow> safe c (\<lambda>t. if t = 0 then fresh_log else []) {} {}"
  using tracked_new [of c]
  by (simp add: safe_def sorted_logs_def node_safe_def new_node_fields fresh_log_def chosen_upto_def stored_safe_def
      leaders_safe_def votes_safe_def requests_safe_def) (simp add: cluster_new_def)

lemma safe_step:
  assumes "cluster_step True True c c'" and inv: "cluster_inv c" and typed: "cluster_typed c" and S: "safe c h L A"
  shows "\<exists>h' L' A'. safe c' h' L' A'"
  using assms(1)
proof cases
  case (elect i now args rf')
  from safe_elect [OF S inv elect(3,1)] show ?thesis by blast
next
  case (vote i j args now reply rf')
  from safe_vote [OF S inv typed vote(2,3,1)] show ?thesis by blast
next
  case (count i j u reply n won rf')
  show ?thesis
  proof (cases won)
    case True
    note w = win_result [OF count(3) True]
    have "safe c' (h(u := rf_log (cl_node c i))) (insert (u, i) L) A"
      by (rule safe_win [OF S inv cluster_inv_step [OF assms(1) inv] w(2,3)])
        (use cluster_typedD(1) [OF typed, of i] log_typed_nonempty in \<open>auto simp: count(1) w(1) node_typed_def card_insert_le\<close>)
    then show ?thesis by blast
  next
    case False
    from safe_count [OF S inv count(3) False count(1)] show ?thesis by blast
  qed
next
  case (beat i u)
  have "safe c' h L A" unfolding beat(1) by (rule safe_msgs [OF S inv tracked_msgs [OF safeD(1) [OF S]]]) auto
  then show ?thesis by blast
next
  case (send i j u args)
  have "j < cl_size c" using cluster_typedD(3) [OF typed send(2)] by simp
  from safe_send [OF S inv typed this send(3)] send(1,4) show ?thesis by blast
next
  case (append i j args now reply rf')
  from safe_append [OF S inv typed append(2,3,1)] show ?thesis by blast
next
  case (ack i j args reply rf')
  from safe_ack [OF S inv typed ack(2,3)] ack(1,4) show ?thesis by blast
next
  case (client i cmd r rf')
  show ?thesis
    using client(2)
  proof (cases rule: client_cases)
    case 1
    with S show ?thesis by (auto simp: client(1))
  next
    case (2 e)
    from safe_client [OF S inv 2(1) refl 2(2-8) client(1)] show ?thesis by blast
  qed
next
  case (applier i es rf')
  from safe_applier [OF S inv applier(2)] applier(1) show ?thesis by blast
next
  case (replicator i)
  from safe_replicator [OF S inv] replicator show ?thesis by blast
next
  case (lose m)
  have "safe c' h L A" unfolding lose by (rule safe_msgs [OF S inv tracked_msgs [OF safeD(1) [OF S]]]) auto
  then show ?thesis by blast
qed

definition safety_inv :: "cluster \<Rightarrow> bool" where
  "safety_inv c \<longleftrightarrow> cluster_inv c \<and> cluster_typed c \<and> (\<exists>h L A. safe c h L A)"

interpretation sm: invariant_system cluster_new "cluster_step True True" safety_inv
proof
  show "safety_inv c" if "cluster_new c" for c
    using that cluster_inv_init [OF cluster_new_init] cluster_new_typed safe_new unfolding safety_inv_def by blast
  show "safety_inv c'" if "safety_inv c" "cluster_step True True c c'" for c c'
    using that cluster_inv_step cluster_typed_step safe_step unfolding safety_inv_def by blast
qed

text \<open>What is committed at a node, or has been applied there, is in the log and agrees with every other node.\<close>

lemma chosen_agree:
  assumes S: "safe c h L A" and "chosen_upto (cl_size c) h A l T m" and "chosen_upto (cl_size c) h A l' T' m'"
    and n: "0 < n" "int n \<le> m" "int n \<le> m'"
  shows "same_upto n l l'"
proof -
  have ex: "\<exists>t N k. (t, k) \<in> L \<and> committed (cl_size c) h A t N \<and> n \<le> N \<and> same_upto n x (h t)"
    if y: "chosen_upto (cl_size c) h A x U y" "int n \<le> y" for x U y
  proof -
    obtain t N where t: "committed (cl_size c) h A t N" "nat y \<le> N" "same_upto (nat y) x (h t)"
      using y n(1) by (auto simp: chosen_upto_def)
    have "t \<noteq> 0" "h t \<noteq> []" using t(1) by (auto simp: committed_def own_entry_def)
    with trackedD(4) [OF safeD(1) [OF S]] obtain k where "(t, k) \<in> L" by blast
    moreover have "n \<le> nat y" using y(2) by simp
    ultimately show ?thesis using t same_upto_le [OF t(3)] by (meson le_trans)
  qed
  obtain t N k where t: "(t, k) \<in> L" "committed (cl_size c) h A t N" "n \<le> N" "same_upto n l (h t)"
    using ex [OF assms(2) n(2)] by blast
  obtain t' N' k' where t': "(t', k') \<in> L" "committed (cl_size c) h A t' N'" "n \<le> N'" "same_upto n l' (h t')"
    using ex [OF assms(3) n(3)] by blast
  have "same_upto n (h t) (h t')"
  proof (cases "t \<le> t'")
    case True
    from same_upto_le [OF committed_in_leader [OF S t(2) t'(1) True] t(3)] show ?thesis by (rule same_upto_sym)
  next
    case False
    then have "t' \<le> t" by simp
    from same_upto_le [OF committed_in_leader [OF S t'(2) t(1) this] t'(3)] show ?thesis .
  qed
  from same_upto_trans [OF same_upto_trans [OF t(4) this] same_upto_sym [OF t'(4)]] show ?thesis .
qed

lemma step_log_cases:
  assumes "cluster_step strict timely c c'"
  shows "rf_lastApplied (cl_node c i) \<le> rf_lastApplied (cl_node c' i) \<and> ((\<exists>es. rf_log (cl_node c' i) = rf_log (cl_node c i) @ es) \<or>
    (\<exists>k args now reply. AppReq k i args \<in> cl_msgs c \<and> accepts (cl_node c i) args \<and>
       raft_AppendEntries (cl_node c i) args now = Inr (reply, cl_node c' i)))"
  using assms
proof cases
  case (elect j now args rf')
  then have "rf_log rf' = rf_log (cl_node c j)" "rf_lastApplied rf' = rf_lastApplied (cl_node c j)"
    by (auto simp: startElection_def Let_def split: option.splits)
  then show ?thesis by (simp add: elect(1))
next
  case (vote k j args now reply rf')
  then show ?thesis using raft_RequestVote_result [OF vote(3)] by (simp add: vote_outcome_def)
next
  case (count k j u reply n won rf')
  then have "rf_log rf' = rf_log (cl_node c k)" "rf_lastApplied rf' = rf_lastApplied (cl_node c k)"
    by (auto simp: handleVoteReply_def Let_def init_leader_eq split: if_splits)
  then show ?thesis by (simp add: count(1))
next
  case (append k j args now reply rf')
  have o: "append_outcome (cl_node c j) args reply rf'" using raft_AppendEntries_success [OF append(3)] by simp
  show ?thesis
  proof (cases "i = j \<and> accepts (cl_node c j) args")
    case True
    then show ?thesis using append o by (auto simp: append_outcome_def)
  qed (use append(1) o in \<open>auto simp: append_outcome_def\<close>)
next
  case (ack k j args reply rf')
  then show ?thesis using handleAppendReply_result(1,3) [OF ack(3)] by simp
next
  case (client k cmd r rf')
  then show ?thesis by (auto simp: raft_Start_def Let_def split: if_splits option.splits)
next
  case (applier k es rf')
  then show ?thesis by (auto dest!: applier_roundD(2) simp: applier_step_def Let_def split: if_splits option.splits)
qed (auto simp: replicator_step_def)

lemma chosen_kept:
  assumes "cluster_step True True c c'" and S: "safe c h L A" and "0 < n"
    and ch: "chosen_upto (cl_size c) h A (rf_log (cl_node c i)) (rf_currentTerm (cl_node c i)) (int n)"
  shows "same_upto n (rf_log (cl_node c' i)) (rf_log (cl_node c i))"
proof -
  let ?l = "rf_log (cl_node c i)"
  obtain t N where t: "t \<le> rf_currentTerm (cl_node c i)" "committed (cl_size c) h A t N" "n \<le> N" "same_upto n ?l (h t)"
    using ch \<open>0 < n\<close> by (auto simp: chosen_upto_def)
  then have n: "n < length ?l" by (simp add: same_upto_def)
  have "(\<exists>es. rf_log (cl_node c' i) = ?l @ es) \<or>
    (\<exists>k args now reply. AppReq k i args \<in> cl_msgs c \<and> accepts (cl_node c i) args \<and>
       raft_AppendEntries (cl_node c i) args now = Inr (reply, cl_node c' i))"
    using step_log_cases [OF assms(1)] by blast
  then show ?thesis
  proof (elim disjE exE conjE)
    fix es assume "rf_log (cl_node c' i) = ?l @ es"
    with same_upto_sym [OF same_upto_append [OF n]] show ?thesis by simp
  next
    fix k args now reply
    assume a: "AppReq k i args \<in> cl_msgs c" "accepts (cl_node c i) args"
      "raft_AppendEntries (cl_node c i) args now = Inr (reply, cl_node c' i)"
    have L: "(aea_Term args, k) \<in> L" using safeD(4) [OF S a(1)] by simp
    have "t \<le> aea_Term args" using t(1) a(2) by (simp add: accepts_def)
    from same_upto_le [OF committed_in_leader [OF S t(2) L this] t(3)] t(4)
    have "same_upto n (rf_log (cl_node c' i)) (h t)" by (intro accepted_log(2) [OF S a])
    then show ?thesis by (rule same_upto_trans [OF _ same_upto_sym [OF t(4)]])
  qed
qed

lemma safety_invD:
  assumes "safety_inv c"
  obtains h L A where "cluster_inv c" "cluster_typed c" "safe c h L A"
  using assms unfolding safety_inv_def by blast

lemma first_entry_same:
  assumes "cluster_typed c" and "cluster_typed c'"
  shows "same_upto 0 (rf_log (cl_node c i)) (rf_log (cl_node c' j))"
  using cluster_typedD(1) [OF assms(1), of i] cluster_typedD(1) [OF assms(2), of j]
    log_typed_nonempty [of "rf_log (cl_node c i)"] log_typed_nonempty [of "rf_log (cl_node c' j)"]
  by (simp add: node_typed_def log_typed_def same_upto_def)

lemma applied_kept:
  assumes "(cluster_step True True)\<^sup>*\<^sup>* c c'" and "safety_inv c" and "int n \<le> rf_lastApplied (cl_node c i)"
  shows "safety_inv c' \<and> int n \<le> rf_lastApplied (cl_node c' i) \<and> same_upto n (rf_log (cl_node c' i)) (rf_log (cl_node c i))"
  using assms(1)
proof (induction rule: rtranclp_induct)
  case base
  obtain h L A where S: "cluster_typed c" "safe c h L A" using assms(2) by (rule safety_invD)
  have "same_upto n (rf_log (cl_node c i)) (rf_log (cl_node c i))"
    using first_entry_same [OF S(1) S(1), of i i] chosen_agree [OF S(2) _ _ _ assms(3) assms(3)] safeD(3) [OF S(2), of i]
    by (cases "n = 0") (auto simp: node_safe_def)
  with assms(2,3) show ?case by blast
next
  case (step d e)
  then have d: "safety_inv d" "int n \<le> rf_lastApplied (cl_node d i)" "same_upto n (rf_log (cl_node d i)) (rf_log (cl_node c i))"
    by blast+
  obtain h L A where S: "cluster_typed d" "safe d h L A" using d(1) by (rule safety_invD)
  have e: "safety_inv e" using sm.step_inv [OF d(1) step(2)] .
  have "same_upto n (rf_log (cl_node e i)) (rf_log (cl_node d i))"
  proof (cases "n = 0")
    case True
    with first_entry_same [of e d] S(1) e show ?thesis by (simp add: safety_inv_def)
  next
    case False
    have "chosen_upto (cl_size d) h A (rf_log (cl_node d i)) (rf_currentTerm (cl_node d i)) (int n)"
      by (rule chosen_upto_le [OF _ d(2)]) (use safeD(3) [OF S(2), of i] in \<open>simp add: node_safe_def\<close>)
    with False show ?thesis by (intro chosen_kept [OF step(2) S(2)]) auto
  qed
  from same_upto_trans [OF this d(3)] e d(2) step_log_cases [OF step(2), of i] show ?case by linarith
qed

lemma applied_agree:
  assumes "reach cluster_new (cluster_step True True) c" and "(cluster_step True True)\<^sup>*\<^sup>* c c'"
    and "int n \<le> rf_lastApplied (cl_node c i)" and "int n \<le> rf_lastApplied (cl_node c' j)"
  shows "n < length (rf_log (cl_node c i)) \<and> take (Suc n) (rf_log (cl_node c i)) = take (Suc n) (rf_log (cl_node c' j))"
proof -
  have k: "safety_inv c'" "int n \<le> rf_lastApplied (cl_node c' i)" "same_upto n (rf_log (cl_node c' i)) (rf_log (cl_node c i))"
    using applied_kept [OF assms(2) sm.reach_inv [OF assms(1)] assms(3)] by blast+
  obtain h L A where S: "cluster_typed c'" "safe c' h L A" using k(1) by (rule safety_invD)
  have "same_upto n (rf_log (cl_node c' i)) (rf_log (cl_node c' j))"
    using first_entry_same [OF S(1) S(1), of i j] chosen_agree [OF S(2) _ _ _ k(2) assms(4)]
      safeD(3) [OF S(2), of i] safeD(3) [OF S(2), of j]
    by (cases "n = 0") (auto simp: node_safe_def)
  from same_upto_trans [OF same_upto_sym [OF k(3)] this] show ?thesis by (simp add: same_upto_def)
qed

lemma committed_agree:
  assumes "safety_inv c" and "int n \<le> rf_commitIndex (cl_node c i)" and "int n \<le> rf_commitIndex (cl_node c j)"
  shows "same_upto n (rf_log (cl_node c i)) (rf_log (cl_node c j))"
proof -
  obtain h L A where S: "cluster_typed c" "safe c h L A" using assms(1) by (rule safety_invD)
  have ch: "chosen_upto (cl_size c) h A (rf_log (cl_node c k)) (rf_currentTerm (cl_node c k)) (rf_commitIndex (cl_node c k))" for k
    using safeD(3) [OF S(2), of k] by (simp add: node_safe_def)
  show ?thesis
    using first_entry_same [OF S(1) S(1), of i j] chosen_agree [OF S(2) ch ch _ assms(2,3)] by (cases "n = 0") auto
qed

lemma commit_in_log:
  assumes "safety_inv c"
  shows "0 \<le> rf_commitIndex (cl_node c i)" "0 \<le> rf_lastApplied (cl_node c i)"
    "rf_commitIndex (cl_node c i) < int (length (rf_log (cl_node c i)))"
proof -
  have "cluster_typed c" using assms by (rule safety_invD)
  from cluster_typedD(1) [OF this, of i] show c: "0 \<le> rf_commitIndex (cl_node c i)" "0 \<le> rf_lastApplied (cl_node c i)"
    by (simp_all add: node_typed_def node_inv_def)
  show "rf_commitIndex (cl_node c i) < int (length (rf_log (cl_node c i)))"
    using committed_agree [OF assms, of "nat (rf_commitIndex (cl_node c i))" i i] c(1) by (auto simp: same_upto_def)
qed

section \<open>Properties\<close>

text \<open>
  C1: State machine safety: in a new cluster in which no node votes twice in a term and no goroutine of
  \<open>sendHeartBeats\<close> outlives its term, whatever messages are lost, repeated or reordered and whichever nodes
  time out, an entry that one node has applied is never changed, and every node that has
  applied that index, then or later, has the same entry there and the same entries before it.
\<close>

theorem state_machine_safety:
  assumes "reach cluster_new (cluster_step True True) c" and "(cluster_step True True)\<^sup>*\<^sup>* c c'"
    and "int n \<le> rf_lastApplied (cl_node c i)" and "int n \<le> rf_lastApplied (cl_node c' j)"
  shows "n < length (rf_log (cl_node c i)) \<and> take (Suc n) (rf_log (cl_node c i)) = take (Suc n) (rf_log (cl_node c' j))"
  using assms by (rule applied_agree)

theorem state_machine_safety_witness:
  "\<exists>c. reach cluster_new (cluster_step True True) c \<and> rf_lastApplied (cl_node c 0) = 1 \<and> rf_lastApplied (cl_node c 2) = 1 \<and>
     rf_log (cl_node c 0) ! 1 = rf_log (cl_node c 2) ! 1 \<and> le_Command (rf_log (cl_node c 0) ! 1) = [7]"
proof -
  obtain c where c: "reach cluster_new (cluster_step True True) c"
    "\<And>i. i \<in> {0, 2} \<Longrightarrow> rf_log (cl_node c i) = fresh_log @ [first_entry [7]] \<and> rf_lastApplied (cl_node c i) = 1"
    using first_applied_reach [of cluster_new, OF fresh_cluster_new] by blast
  from state_machine_safety [OF c(1) rtranclp.rtrancl_refl, of 1 0 2] c show ?thesis
    by (intro exI [of _ c]) (auto simp: fresh_log_def first_entry_def)
qed

text \<open>
  C31: Under the same conditions no applier ever reads past the end of its log: in every reachable state it
  hands out exactly the entries between the last applied and the commit index. The logs of any two
  nodes agree up to what both have committed.
\<close>

theorem applier_never_panics:
  assumes "reach cluster_new (cluster_step True True) c"
  shows "(\<exists>rf'. applier_step (cl_node c i) = Inr (take (nat (rf_commitIndex (cl_node c i) - rf_lastApplied (cl_node c i)))
      (drop (Suc (nat (rf_lastApplied (cl_node c i)))) (rf_log (cl_node c i))), rf')) \<and>
    (\<forall>n. int n \<le> rf_commitIndex (cl_node c i) \<longrightarrow> int n \<le> rf_commitIndex (cl_node c j) \<longrightarrow>
       take (Suc n) (rf_log (cl_node c i)) = take (Suc n) (rf_log (cl_node c j)))"
proof -
  note inv = sm.reach_inv [OF assms]
  from applier_slice [OF commit_in_log(2,3) [OF inv, of i]] committed_agree [OF inv, of _ i j] show ?thesis
    unfolding same_upto_def by blast
qed

theorem applier_never_panics_witness:
  "\<exists>c rf'. reach cluster_new (cluster_step True True) c \<and>
     applier_step (cl_node c 0) = Inr ([\<lparr>le_Index = 1, le_Term = 1, le_Command = [7]\<rparr>], rf')"
proof -
  obtain c where c: "reach cluster_new (cluster_step True True) c" "first_committed [7] c"
    using first_committed_reach [of cluster_new, OF fresh_cluster_new] by blast
  from applier_never_panics [OF c(1), of 0] c show ?thesis
    by (intro exI [of _ c]) (auto simp: first_committed_def leader_committed_fields fresh_log_def first_entry_def)
qed

end
