(* ===== verification/Store_Replicas.thy ===== *)
theory Store_Replicas
  imports Store_System Store_Json Raft_Safety
begin

text \<open>
  The replicated store: every node applies the entries of its Raft log to its own key-value store,
  while it flushes and compacts in its own time. The meaning of a log is a map; a store that has
  applied every entry without an error, and whose flushes and compactions are in order, reads as the meaning of what it has applied. With state
  machine safety, two nodes that have applied the same number of entries give the same answers.
  The last section shows that an error breaks this: a write that finds both memtables occupied is dropped by
  this node only.
\<close>

section \<open>The meaning of a log\<close>

definition cmd_effect :: "log_entry \<Rightarrow> (bytes \<rightharpoonup> bytes) \<Rightarrow> (bytes \<rightharpoonup> bytes)" where
  "cmd_effect e m = (case unmarshal_cmd (le_Command e) of
     None \<Rightarrow> m
   | Some cmd \<Rightarrow> if rc_Op cmd = kv_CmdPut then m(rc_Key cmd \<mapsto> rc_Value cmd)
                else if rc_Op cmd = kv_CmdDelete then m(rc_Key cmd := None) else m)"

definition kv_of_log :: "log_entry list \<Rightarrow> (bytes \<rightharpoonup> bytes)" where
  "kv_of_log es = fold cmd_effect es Map.empty"

text \<open>The entry is applied without an error.\<close>

definition applies :: "store \<Rightarrow> log_entry \<Rightarrow> bool" where
  "applies s e \<longleftrightarrow> (case unmarshal_cmd (le_Command e) of
     None \<Rightarrow> True
   | Some cmd \<Rightarrow> rc_Op cmd \<in> {kv_CmdPut, kv_CmdDelete} \<longrightarrow> length (rc_Key cmd) < 2 ^ 16 \<and>
       (\<exists>s'. applyInternal True s (rc_Key cmd) (if rc_Op cmd = kv_CmdPut then rc_Value cmd else [])
          (rc_Op cmd = kv_CmdDelete) = Inr (None, s')))"

section \<open>A replica\<close>

type_synonym replica = "store \<times> background \<times> log_entry list"

definition replica_init :: "replica \<Rightarrow> bool" where
  "replica_init p \<longleftrightarrow> (case p of (s, b, es) \<Rightarrow> es = [] \<and> system_init (s, b, Map.empty))"

inductive replica_step :: "(bytes \<Rightarrow> 64 word) \<Rightarrow> bytes set \<Rightarrow> replica \<Rightarrow> replica \<Rightarrow> bool" for sum64 K where
  rep_apply: "applies s e \<Longrightarrow> readAppliedLogs_step True s e = Inr s' \<Longrightarrow> replica_step sum64 K (s, b, es) (s', b, es @ [e])"
| rep_background: "background_step sum64 K (s, b) (s', b') \<Longrightarrow> replica_step sum64 K (s, b, es) (s', b', es)"

definition replica_inv :: "(bytes \<Rightarrow> 64 word) \<Rightarrow> bytes set \<Rightarrow> replica \<Rightarrow> bool" where
  "replica_inv sum64 K p \<longleftrightarrow> (case p of (s, b, es) \<Rightarrow> simulates sum64 K (s, b, kv_of_log es))"

text \<open>The channels of the waiting clients do not matter for the simulation.\<close>

lemma store_Get_chans: "store_Get sum64 (s\<lparr>st_chans := c, st_notifyChans := n\<rparr>) k = store_Get sum64 s k"
  by (simp add: store_Get_def Get_memory_def split_def cong: if_cong option.case_cong)

lemma simulates_chans: "simulates sum64 K (s\<lparr>st_chans := c, st_notifyChans := n\<rparr>, b, m) = simulates sum64 K (s, b, m)"
proof -
  let ?s = "s\<lparr>st_chans := c, st_notifyChans := n\<rparr>"
  have "mem_lookup ?s = mem_lookup s" by (simp add: mem_lookup_def fun_eq_iff cong: option.case_cong)
  then have "lasting ?s b = lasting s b" "coming ?s b = coming s b" "mem_lookup ?s = mem_lookup s" "store_wf ?s = store_wf s"
    by (simp_all add: lasting_def coming_def store_wf_def split: compaction.splits)
  then show ?thesis by (simp add: simulates_def)
qed

lemma apply_log_entry_simulates:
  assumes "apply_log_entry True s index cmd = Inr s'"
    and "(if rc_Op cmd = kv_CmdPut then applyInternal True s (rc_Key cmd) (rc_Value cmd) False
          else if rc_Op cmd = kv_CmdDelete then applyInternal True s (rc_Key cmd) [] True else Inr (None, s)) = Inr (err, s1)"
    and "simulates sum64 K (s1, b, m)"
  shows "simulates sum64 K (s', b, m)"
  using assms by (auto simp: apply_log_entry_def simulates_chans split: option.splits)

lemma replica_apply:
  assumes sim: "simulates sum64 K (s, b, m)" and a: "applies s e" and r: "readAppliedLogs_step True s e = Inr s'"
  shows "simulates sum64 K (s', b, cmd_effect e m)"
proof (cases "unmarshal_cmd (le_Command e)")
  case None
  with sim r show ?thesis by (simp add: readAppliedLogs_step_def cmd_effect_def)
next
  case (Some cmd)
  with r have e: "apply_log_entry True s (le_Index e) cmd = Inr s'" by (simp add: readAppliedLogs_step_def)
  have ops: "kv_CmdPut \<noteq> kv_CmdDelete" by (simp add: kv_CmdPut_def kv_CmdDelete_def)
  consider (put) "rc_Op cmd = kv_CmdPut" | (del) "rc_Op cmd = kv_CmdDelete" | (other) "rc_Op cmd \<notin> {kv_CmdPut, kv_CmdDelete}" by blast
  then show ?thesis
  proof cases
    case put
    with a Some ops obtain s1 where s1: "length (rc_Key cmd) < 2 ^ 16"
      "applyInternal True s (rc_Key cmd) (rc_Value cmd) False = Inr (None, s1)" by (auto simp: applies_def)
    from apply_log_entry_simulates [OF e _ simulates_apply [OF sim s1(1) _ s1(2)]] s1(2) put Some show ?thesis
      by (simp add: cmd_effect_def)
  next
    case del
    with a Some ops obtain s1 where s1: "length (rc_Key cmd) < 2 ^ 16"
      "applyInternal True s (rc_Key cmd) [] True = Inr (None, s1)" by (auto simp: applies_def)
    from apply_log_entry_simulates [OF e _ simulates_apply [OF sim s1(1) _ s1(2)]] s1(2) del Some ops show ?thesis
      by (simp add: cmd_effect_def)
  next
    case other
    with apply_log_entry_simulates [OF e _ sim] Some show ?thesis by (simp add: cmd_effect_def)
  qed
qed

interpretation rp: invariant_system replica_init "replica_step sum64 K" "replica_inv sum64 K" for sum64 K
proof
  show "replica_inv sum64 K p" if "replica_init p" for sum64 K p
    using that simulates_init by (auto simp: replica_init_def replica_inv_def kv_of_log_def)
  show "replica_inv sum64 K q" if "replica_inv sum64 K p" "replica_step sum64 K p q" for sum64 K p q
    using that(2,1)
    by cases (auto simp: replica_inv_def kv_of_log_def intro: replica_apply simulates_background)
qed

lemma replica_reads:
  assumes "reach replica_init (replica_step sum64 K) (s, b, es)" and "k \<in> K"
  shows "store_Get sum64 s k = Inr (reads_as (kv_of_log es k))"
proof -
  from rp.reach_inv [OF assms(1)] have "simulates sum64 K (s, b, kv_of_log es)" by (simp add: replica_inv_def)
  note S = simulatesD [OF this]
  from S(1) S(5) [of "st_SstDir s" "mem_lookup s" k] assms(2) show ?thesis by (simp add: store_Get_read)
qed

section \<open>Properties\<close>

text \<open>
  C2: The replicated store is one map, under these conditions. In a run of a new cluster in which no node votes again in a
  term in which its vote was erased and every goroutine of \<open>sendHeartBeats\<close> builds its request and handles the reply in the term in which it was started
  (the runs of \<open>state_machine_safety\<close>), let two nodes have both applied the first \<open>n\<close>
  commands of their logs, each to its own store, every command without an error, flushing and compacting in its own
  time, with flushes and merges in order and keys \<open>K\<close> as in \<open>store_refines_map\<close>. Then their
  stores give the same answers for the keys of \<open>K\<close>, namely those of the map that the commands describe. An error on one of
  them breaks this (\<open>write_stall_diverges\<close>), and so does a late reply (\<open>late_reply_diverges\<close>).
\<close>

theorem replicas_agree:
  assumes "reach cluster_new (cluster_step True True) c"
    and "int n \<le> rf_lastApplied (cl_node c i)" and "int n \<le> rf_lastApplied (cl_node c j)"
    and "reach replica_init (replica_step sum64 K) (s, b, drop 1 (take (Suc n) (rf_log (cl_node c i))))"
    and "reach replica_init (replica_step sum64 K) (s', b', drop 1 (take (Suc n) (rf_log (cl_node c j))))"
    and "k \<in> K"
  shows "store_Get sum64 s k = store_Get sum64 s' k \<and>
    store_Get sum64 s k = Inr (case kv_of_log (drop 1 (take (Suc n) (rf_log (cl_node c i)))) k of
      Some v \<Rightarrow> (v, True) | None \<Rightarrow> ([], False))"
  using applied_agree [OF assms(1) rtranclp.rtrancl_refl assms(2,3)] replica_reads [OF assms(4,6)] replica_reads [OF assms(5,6)]
  by (simp add: reads_as_def)

definition demo_put :: bytes where
  "demo_put = marshal_cmd (Put_command [97] [7] False)"

lemma demo_put_cmd: "unmarshal_cmd demo_put = Some (Put_command [97] [7] False)"
  unfolding demo_put_def
  by (rule command_roundtrip)
    (simp_all add: Put_command_def go_string_def valid_utf8.simps rune_ok_def DecodeRune_def rune_len_def RuneError_def)

lemma demo_replica: "\<exists>s b. reach replica_init (replica_step sum64 K) (s, b, [first_entry demo_put])"
proof -
  let ?e = "first_entry demo_put"
  have cmd: "unmarshal_cmd (le_Command ?e) = Some (Put_command [97] [7] False)" by (simp add: first_entry_def demo_put_cmd)
  obtain s where s: "applyInternal True empty_store [97] [7] False = Inr (None, s)"
    by (rule applyInternal_outcome [OF empty_store_wf, of "[97]" False "[7]"])
      (auto simp: empty_store_def NewMemTable_def mapLimit_def)
  have ap: "applies empty_store ?e"
    using s by (simp add: applies_def cmd Put_command_def kv_CmdPut_def kv_CmdDelete_def)
  have "st_notifyChans s = st_notifyChans empty_store" by (rule applyInternal_chans(1) [OF s])
  then have "readAppliedLogs_step True empty_store ?e = Inr s"
    using s by (simp add: readAppliedLogs_step_def cmd Put_command_def apply_log_entry_def empty_store_def)
  note step = rep_apply [OF ap this, of sum64 K "\<lparr>bg_flushed = False, bg_compaction = Idle\<rparr>" "[]"]
  have "replica_init (empty_store, \<lparr>bg_flushed = False, bg_compaction = Idle\<rparr>, [])"
    by (auto simp: replica_init_def system_init_def empty_store_def sst_files_def sort_reverse_def)
  then have "reach replica_init (replica_step sum64 K) (empty_store, \<lparr>bg_flushed = False, bg_compaction = Idle\<rparr>, [])"
    by (rule reach_init)
  from reach_step [OF this step] show ?thesis by auto
qed

theorem replicas_agree_witness:
  "\<exists>c s b. reach cluster_new (cluster_step True True) c \<and> rf_lastApplied (cl_node c 0) = 1 \<and> rf_lastApplied (cl_node c 2) = 1 \<and>
     reach replica_init (replica_step (\<lambda>k. 0) {[97]}) (s, b, drop 1 (take 2 (rf_log (cl_node c 0)))) \<and>
     reach replica_init (replica_step (\<lambda>k. 0) {[97]}) (s, b, drop 1 (take 2 (rf_log (cl_node c 2)))) \<and>
     store_Get (\<lambda>k. 0) s [97] = Inr ([7], True)"
proof -
  obtain c where c: "reach cluster_new (cluster_step True True) c"
    "\<And>i. i \<in> {0, 2} \<Longrightarrow> rf_log (cl_node c i) = fresh_log @ [first_entry demo_put] \<and> rf_lastApplied (cl_node c i) = 1"
    using first_applied_reach [of cluster_new, OF fresh_cluster_new] by blast
  obtain s b where s: "reach replica_init (replica_step (\<lambda>k. 0) {[97]}) (s, b, [first_entry demo_put])" using demo_replica by blast
  have l: "drop 1 (take (Suc 1) (rf_log (cl_node c i))) = [first_entry demo_put]" if "i \<in> {0, 2}" for i
    using c(2) [OF that] by (simp add: fresh_log_def)
  have "kv_of_log [first_entry demo_put] [97] = Some [7]"
    by (simp add: kv_of_log_def cmd_effect_def first_entry_def demo_put_cmd Put_command_def)
  with replicas_agree [OF c(1), of 1 0 2 "\<lambda>k. 0" "{[97]}" s b s b "[97]"] c s l [of 0] l [of 2] show ?thesis
    by (intro exI [of _ c] exI [of _ s] exI [of _ b]) (simp add: numeral_2_eq_2)
qed

section \<open>A write stall\<close>

text \<open>
  C33: An applied entry can be lost on one replica: a node whose active memtable is full while the frozen
  one waits to be flushed does not apply a committed put, and its reads stay as they were, while a node
  that has already flushed applies it and reads the new value. The first node does not
  try again.
\<close>

theorem write_stall_diverges:
  assumes "store_wf s" and "st_frozenMap s \<noteq> None" and "store_wf s'" and "st_frozenMap s' = None"
    and "unmarshal_cmd (le_Command e) = Some cmd" and "rc_Op cmd = kv_CmdPut" and "length (rc_Key cmd) < 2 ^ 16"
    and "7 + length (rc_Key cmd) + length (rc_Value cmd) \<le> mapLimit"
    and "mapLimit < unat (mt_Size (st_ActiveMap s)) + (7 + length (rc_Key cmd) + length (rc_Value cmd))"
  shows "\<exists>s1 s2. readAppliedLogs_step True s e = Inr s1 \<and> (\<forall>k. store_Get sum64 s1 k = store_Get sum64 s k) \<and>
    readAppliedLogs_step True s' e = Inr s2 \<and> store_Get sum64 s2 (rc_Key cmd) = Inr (rc_Value cmd, True)"
proof -
  let ?k = "rc_Key cmd" and ?v = "rc_Value cmd"
  have run: "\<exists>s1. readAppliedLogs_step True t e = Inr s1 \<and> (\<forall>k. store_Get sum64 s1 k = store_Get sum64 t1 k)"
    if "applyInternal True t ?k ?v False = Inr (err, t1)" for t t1 err
    using that assms(5,6) by (auto simp: readAppliedLogs_step_def apply_log_entry_def store_Get_chans split: option.splits)
  have "applyInternal True s ?k ?v False = Inr (Some (Errorf ''write stall: memTable flushing''), s)"
    using assms(2,9) by (simp add: applyInternal_def Let_def)
  from run [OF this] obtain s1 where s1: "readAppliedLogs_step True s e = Inr s1" "\<forall>k. store_Get sum64 s1 k = store_Get sum64 s k"
    by blast
  obtain t where t: "applyInternal True s' ?k ?v False = Inr (None, t)" "store_wf t" "mem_lookup t = (mem_lookup s')(?k \<mapsto> (?v, False))"
    by (rule applyInternal_outcome [OF assms(3,7), of False ?v]) (use assms(4,8) in auto)
  from run [OF t(1)] obtain s2 where s2: "readAppliedLogs_step True s' e = Inr s2" "\<forall>k. store_Get sum64 s2 k = store_Get sum64 t k"
    by blast
  have "store_Get sum64 t ?k = Inr (?v, True)" using t(3) by (simp add: store_Get_wf [OF t(2)] answer_def)
  with s1 s2 show ?thesis by auto
qed

text \<open>A store with a full active table and a frozen one: a large value has been written.\<close>

lemma full_store:
  "\<exists>s. store_wf s \<and> st_frozenMap s \<noteq> None \<and> unat (mt_Size (st_ActiveMap s)) = mapLimit"
proof -
  let ?t = "NewMemTable mapLimit None" and ?v = "replicate (mapLimit - 8) (0 :: byte)"
  have n: "7 + length [98 :: byte] + length ?v = mapLimit" by (simp add: mapLimit_def)
  obtain r t where p: "mt_put ?t [98] ?v False (7 + length [98 :: byte] + length ?v) = (r, t)" by fastforce
  have wf: "mt_wf ?t" "mt_sized ?t" by (rule mt_wf_New, rule mt_sized_New)
  have "unat (mt_Size ?t) = 0" by (simp add: NewMemTable_def)
  with mt_put_sized [OF wf _ p] n have r: "r = None" and sz: "mt_sized t" by simp_all
  have "length ?v < 2 ^ 32" by (simp add: mapLimit_def)
  from mt_put_wf [OF wf(1) p [unfolded r] _ this] have t: "mt_wf t" by simp
  have "unat (mt_Size t) = mapLimit"
  proof -
    have "mt_Size t = word_of_nat mapLimit"
      using p [unfolded n] r by (cases rule: mt_put_cases) (auto simp: NewMemTable_def)
    then show ?thesis by (simp add: mapLimit_def)
  qed
  with t sz wf(1) show ?thesis
    by (intro exI [of _ "empty_store\<lparr>st_ActiveMap := t, st_frozenMap := Some ?t\<rparr>"]) (simp add: store_wf_def)
qed

theorem write_stall_diverges_witness:
  "\<exists>s s1 s2. readAppliedLogs_step True s (first_entry demo_put) = Inr s1 \<and> store_Get (\<lambda>k. 0) s1 [97] = store_Get (\<lambda>k. 0) s [97] \<and>
     readAppliedLogs_step True empty_store (first_entry demo_put) = Inr s2 \<and> store_Get (\<lambda>k. 0) s2 [97] = Inr ([7], True)"
proof -
  obtain s where s: "store_wf s" "st_frozenMap s \<noteq> None" "unat (mt_Size (st_ActiveMap s)) = mapLimit" using full_store by blast
  have "st_frozenMap empty_store = None" by (simp add: empty_store_def)
  from write_stall_diverges [OF s(1,2) empty_store_wf this, of "first_entry demo_put" "Put_command [97] [7] False" "\<lambda>k. 0"] s(3)
  show ?thesis by (auto simp: first_entry_def demo_put_cmd Put_command_def mapLimit_def)
qed

end
