(* ===== verification/Store_Overwritten.thy ===== *)
theory Store_Overwritten
  imports Store_Replicas
begin

text \<open>
  A write that is overwritten: \<open>Put\<close> waits for an answer under the index of its entry alone. If the leader is
  replaced before the entry is committed, the new leader puts another entry at this index, and the
  waiting client is told the outcome of that one.
\<close>

section \<open>The entry is replaced\<close>

text \<open>The request of a new leader that has the log before the entry and another entry in its place.\<close>

definition replaces :: "raft \<Rightarrow> log_entry \<Rightarrow> AppendEntriesArgs \<Rightarrow> bool" where
  "replaces rf e args \<longleftrightarrow> rf_log rf \<noteq> [] \<and> rf_currentTerm rf < aea_Term args \<and>
     aea_PrevLogIndex args = int (length (rf_log rf)) - 1 \<and> aea_PrevLogTerm args = le_Term (last (rf_log rf)) \<and>
     aea_Entries args = [e] \<and> le_Term e = aea_Term args \<and> le_Index e = int (length (rf_log rf)) \<and>
     int (length (rf_log rf)) \<le> aea_LeaderCommit args"

lemma replaced_entry:
  assumes "replaces rf e args" and "rf_state rf = Leader" and "rf_commitIndex rf < int (length (rf_log rf))"
    and "rf_lastApplied rf = int (length (rf_log rf)) - 1" and "snd (raft_Start rf (Some bs)) = rf1"
  shows "\<exists>reply rf2 rf3. raft_AppendEntries rf1 args now = Inr (reply, rf2) \<and> aer_Success reply \<and>
    rf_log rf2 = rf_log rf @ [e] \<and> applier_round rf2 = Some (Inr ([e], rf3))"
proof -
  let ?l = "rf_log rf" and ?n = "length (rf_log rf)"
  define x where "x = \<lparr>le_Index = int ?n, le_Term = rf_currentTerm rf, le_Command = bs\<rparr>"
  have rf1: "rf1 = rf\<lparr>rf_log := ?l @ [x], rf_triggerCh := True\<rparr>"
    using assms(2,5) by (simp add: raft_Start_def Let_def x_def)
  have r: "?l \<noteq> []" "rf_currentTerm rf < aea_Term args" "aea_PrevLogIndex args = int ?n - 1"
    "aea_PrevLogTerm args = le_Term (last ?l)" "aea_Entries args = [e]" "le_Term e = aea_Term args"
    "int ?n \<le> aea_LeaderCommit args"
    using assms(1) by (auto simp: replaces_def)
  have prev: "log_get (?l @ [x]) (int ?n - 1) = Some (last ?l)"
    using r(1) by (cases ?l rule: rev_cases) (simp_all add: log_get_def nth_append)
  have merge: "log_merge (?l @ [x]) (int ?n) [e] = Inr (?l @ [e])"
    using r(2,6) by (simp add: log_get_def x_def)
  have "\<exists>reply rf2. raft_AppendEntries rf1 args now = Inr (reply, rf2) \<and> aer_Success reply \<and> rf_log rf2 = ?l @ [e] \<and>
      rf_commitIndex rf2 = int ?n \<and> rf_lastApplied rf2 = int ?n - 1 \<and> rf_commitCh rf2"
    using r prev merge assms(3,4) by (simp add: raft_AppendEntries_def rf1 Let_def update_commit_def)
  then obtain reply rf2 where rf2: "raft_AppendEntries rf1 args now = Inr (reply, rf2)" "aer_Success reply"
    "rf_log rf2 = ?l @ [e]" "rf_commitIndex rf2 = int ?n" "rf_lastApplied rf2 = int ?n - 1" "rf_commitCh rf2" by blast
  have "entries_between (?l @ [e]) (int ?n - 1) (Suc 0) = Some [e]" by (simp add: log_get_def)
  then have "\<exists>rf3. applier_round rf2 = Some (Inr ([e], rf3))" using rf2(3-6) by (simp add: applier_round_def applier_step_def Let_def)
  with rf2(1-3) show ?thesis by blast
qed

section \<open>The client is told that its write succeeded\<close>

text \<open>
  C40: A write that is lost is acknowledged: if a node accepts a write as the leader and another leader
  replaces the entry before it is committed, by a put of another key, then the node commits and applies the
  other entry, sends its outcome to the waiting client, which takes it for its own, and the value that
  the client wrote is in neither the log nor the store.
\<close>

theorem lost_write_acknowledged:
  assumes "store_wf s" and "Put_start s key val isDelete = (Inr index, s1)"
    and "replaces (st_Raft s) e args" and "rf_commitIndex (st_Raft s) < int (length (rf_log (st_Raft s)))"
    and "rf_lastApplied (st_Raft s) = int (length (rf_log (st_Raft s))) - 1"
    and "unmarshal_cmd (le_Command e) = Some cmd" and "rc_Op cmd = kv_CmdPut" and "rc_Key cmd \<noteq> key"
    and "length (rc_Key cmd) < 2 ^ 16" and "st_frozenMap s = None"
    and "7 + length (rc_Key cmd) + length (rc_Value cmd) \<le> mapLimit"
  shows "\<exists>reply rf2 rf3 s3 s4.
    raft_AppendEntries (st_Raft (Put_register s1 index ch)) args now = Inr (reply, rf2) \<and>
    rf_log rf2 = rf_log (st_Raft s) @ [e] \<and> applier_round rf2 = Some (Inr ([e], rf3)) \<and>
    readAppliedLogs_step True ((Put_register s1 index ch)\<lparr>st_Raft := rf3\<rparr>) e = Inr s3 \<and>
    Put_result s3 ch = Some (None, s4) \<and> store_Get sum64 s4 key = store_Get sum64 s key"
proof -
  let ?k = "rc_Key cmd" and ?v = "rc_Value cmd"
  define rf1 where "rf1 = snd (raft_Start (st_Raft s) (Some (marshal_cmd (Put_command key val isDelete))))"
  have lead: "rf_state (st_Raft s) = Leader" "index = int (length (rf_log (st_Raft s)))" "s1 = s\<lparr>st_Raft := rf1\<rparr>"
    using assms(2) by (auto simp: Put_start_def Put_propose_def raft_Start_def rf1_def Let_def split: if_splits)
  obtain reply rf2 rf3 where r: "raft_AppendEntries rf1 args now = Inr (reply, rf2)" "rf_log rf2 = rf_log (st_Raft s) @ [e]"
    "applier_round rf2 = Some (Inr ([e], rf3))"
    using replaced_entry [OF assms(3) lead(1) assms(4,5) rf1_def [symmetric]] by blast
  define t where "t = (Put_register s1 index ch)\<lparr>st_Raft := rf3\<rparr>"
  have t: "store_wf t" "mem_lookup t = mem_lookup s" "st_SstDir t = st_SstDir s" "st_frozenMap t = None" "st_notifyChans t index = Some ch"
    using assms(1,10) by (simp_all add: t_def lead(3) Put_register_def store_wf_def mem_lookup_def fun_eq_iff split: option.splits)
  obtain t1 where t1: "applyInternal True t ?k ?v False = Inr (None, t1)" "store_wf t1" "st_SstDir t1 = st_SstDir t"
    "mem_lookup t1 = (mem_lookup t)(?k \<mapsto> (?v, False))"
    by (rule applyInternal_outcome [OF t(1) assms(9), of False ?v]) (use t(4) assms(11) in auto)
  have idx: "le_Index e = index" using assms(3) lead(2) by (simp add: replaces_def)
  define s3 where "s3 = t1\<lparr>st_chans := (st_chans t1)(ch \<mapsto> \<lparr>or_Value = ?v, or_Err = None\<rparr>),
      st_notifyChans := (st_notifyChans t1)(index := None)\<rparr>"
  define s4 where "s4 = s3\<lparr>st_chans := (st_chans s3)(ch := None)\<rparr>"
  have "readAppliedLogs_step True t e = Inr s3"
    using applyInternal_chans [OF t1(1)] t1(1) t(5) assms(6,7) idx
    by (simp add: readAppliedLogs_step_def apply_log_entry_def s3_def)
  moreover have "Put_result s3 ch = Some (None, s4)" by (simp add: Put_result_def s3_def s4_def)
  moreover have "store_Get sum64 s4 key = store_Get sum64 s key"
  proof -
    have wf: "store_wf s4" using t1(2) by (simp add: store_wf_def s4_def s3_def)
    have "mem_lookup s4 = mem_lookup t1" "st_SstDir s4 = st_SstDir t1"
      by (simp_all add: mem_lookup_def s4_def s3_def fun_eq_iff split: option.splits)
    then show ?thesis using t1(3,4) t(2,3) assms(8) by (simp add: store_Get_wf [OF wf] store_Get_wf [OF assms(1)] split: option.splits)
  qed
  moreover have "st_Raft (Put_register s1 index ch) = rf1" by (simp add: Put_register_def lead(3))
  ultimately show ?thesis using r unfolding t_def by metis
qed

theorem lost_write_acknowledged_witness:
  "\<exists>s1 rf3 s3 s4. Put_start Store_Json.demo_leader [98] [1] False = (Inr 1, s1) \<and>
     readAppliedLogs_step True ((Put_register s1 1 5)\<lparr>st_Raft := rf3\<rparr>) \<lparr>le_Index = 1, le_Term = 2, le_Command = demo_put\<rparr> = Inr s3 \<and>
     Put_result s3 5 = Some (None, s4) \<and> store_Get (\<lambda>k. 0) s4 [98] = store_Get (\<lambda>k. 0) Store_Json.demo_leader [98]"
proof -
  let ?e = "\<lparr>le_Index = 1, le_Term = 2, le_Command = demo_put\<rparr>"
  let ?args = "\<lparr>aea_Term = 2, aea_LeaderId = 1, aea_PrevLogIndex = 0, aea_PrevLogTerm = 0, aea_Entries = [?e], aea_LeaderCommit = 1\<rparr>"
  have rf: "rf_log (st_Raft Store_Json.demo_leader) = fresh_log" "rf_currentTerm (st_Raft Store_Json.demo_leader) = 0"
    "rf_commitIndex (st_Raft Store_Json.demo_leader) = 0" "rf_lastApplied (st_Raft Store_Json.demo_leader) = 0"
    by (simp_all add: Store_Json.demo_leader_def empty_store_def raft_Make_def readPersist_def RecoverEntries_def createOrOpenRaftWAL_def
        recover_rrecs.simps fresh_log_def)
  have "rf_state (st_Raft Store_Json.demo_leader) = Leader" by (simp add: Store_Json.demo_leader_def)
  with rf(1) obtain s1 where p: "Put_start Store_Json.demo_leader [98] [1] False = (Inr 1, s1)"
    by (simp add: Put_start_def Put_propose_def raft_Start_def fresh_log_def Let_def)
  have wf: "store_wf Store_Json.demo_leader" using empty_store_wf by (simp add: store_wf_def Store_Json.demo_leader_def)
  have rep: "replaces (st_Raft Store_Json.demo_leader) ?e ?args" by (simp add: replaces_def rf fresh_log_def)
  have c: "unmarshal_cmd (le_Command ?e) = Some (Put_command [97] [7] False)" by (simp add: demo_put_cmd)
  have "st_frozenMap Store_Json.demo_leader = None" by (simp add: Store_Json.demo_leader_def empty_store_def)
  from lost_write_acknowledged [OF wf p rep _ _ c _ _ _ this, of 5 0 "\<lambda>k. 0"]
  have "\<exists>rf3 s3 s4. readAppliedLogs_step True ((Put_register s1 1 5)\<lparr>st_Raft := rf3\<rparr>) ?e = Inr s3 \<and>
      Put_result s3 5 = Some (None, s4) \<and> store_Get (\<lambda>k. 0) s4 [98] = store_Get (\<lambda>k. 0) Store_Json.demo_leader [98]"
    by (simp add: rf fresh_log_def Put_command_def mapLimit_def) blast
  with p show ?thesis by blast
qed

end
