(* ===== verification/Http_Server.thy ===== *)
theory Http_Server
  imports Store_Json
begin

text \<open>
  The HTTP layer (\<^verbatim>\<open>cmd/server\<close>): the handlers of \<^verbatim>\<open>/get\<close>, \<^verbatim>\<open>/put\<close> and \<^verbatim>\<open>/delete\<close>, the
  forwarding of writes to the leader, the two wrappers around every handler and the dispatch on the
  path. A handler yields the calls it makes on its
  \<open>ResponseWriter\<close>; response headers are left out. What
  \<open>store.Put\<close> returned (the text of the error), the format of peer URLs (a function from node ids)
  and the network (a function from method and URL) are arguments.
\<close>

record http_request =
  hr_Method :: string
  hr_Path :: string
  hr_RawQuery :: string

text \<open>The calls on a \<open>ResponseWriter\<close>, and what they send: the first status and all bodies.\<close>

datatype w_call = WriteHeader nat | Write bytes

type_synonym handler = "http_request \<Rightarrow> w_call list"

fun sent_status :: "w_call list \<Rightarrow> nat" where
  "sent_status (WriteHeader code # cs) = code"
| "sent_status _ = 200"

fun sent_body :: "w_call list \<Rightarrow> bytes" where
  "sent_body [] = []"
| "sent_body (WriteHeader code # cs) = sent_body cs"
| "sent_body (Write bs # cs) = bs @ sent_body cs"

definition http_Error :: "string \<Rightarrow> nat \<Rightarrow> w_call list" where
  "http_Error msg code = [WriteHeader code, Write (go_bytes (msg @ [CHR 0x0A]))]"

section \<open>Handlers (\<open>handlers.go\<close>)\<close>

definition query_param :: "http_request \<Rightarrow> string \<Rightarrow> string" where
  "query_param r name = Query_Get (hr_RawQuery r) name"

definition handleGet :: "(bytes \<Rightarrow> 64 word) \<Rightarrow> store \<Rightarrow> http_request \<Rightarrow> w_call list result" where
  "handleGet sum64 s r =
     (let key = query_param r ''key''
      in bindE (store_Get sum64 s (go_bytes key)) (\<lambda>(val, found).
         if \<not> found then Inr (http_Error ''Key not found'' 404) else Inr [Write val]))"

text \<open>
  What comes of a request to another node: it cannot be made, it fails, or there is an answer
  with a status and a body, which may break off (the flag tells whether it is complete).
\<close>

datatype http_outcome = RequestInvalid | SendFailed | Answer nat bytes bool

type_synonym network = "string \<Rightarrow> string \<Rightarrow> http_outcome"

definition forwardToLeader :: "network \<Rightarrow> http_request \<Rightarrow> string \<Rightarrow> w_call list" where
  "forwardToLeader net r leaderURL =
     (case net (hr_Method r) leaderURL of
        RequestInvalid \<Rightarrow> http_Error ''Failed to create forwarding request'' 500
      | SendFailed \<Rightarrow> http_Error ''Failed to forward request to leader'' 503
      | Answer code body complete \<Rightarrow> [WriteHeader code, Write body])"

text \<open>What both writing handlers do when \<open>store.Put\<close> returned an error.\<close>

definition put_failed :: "network \<Rightarrow> raft \<Rightarrow> int \<Rightarrow> (int \<Rightarrow> string) \<Rightarrow> http_request \<Rightarrow>
    string \<Rightarrow> string \<Rightarrow> w_call list" where
  "put_failed net rf nodeID peerTemplate r err path =
     (if err = ''not leader''
      then let leaderID = GetLeader rf in
           if leaderID = -1 then http_Error ''Leader not found'' 404
           else if leaderID = nodeID then http_Error ''Cluster in leadership transition'' 503
           else forwardToLeader net r (peerTemplate leaderID @ path)
      else http_Error err 500)"

definition handlePut :: "(bytes \<Rightarrow> bytes \<Rightarrow> bool \<Rightarrow> string option) \<Rightarrow> network \<Rightarrow> raft \<Rightarrow>
    int \<Rightarrow> (int \<Rightarrow> string) \<Rightarrow> handler" where
  "handlePut put net rf nodeID peerTemplate r =
     (let key = query_param r ''key''; val = query_param r ''val''
      in case put (go_bytes key) (go_bytes val) False of
           Some err \<Rightarrow> put_failed net rf nodeID peerTemplate r err (''/put?key='' @ key @ ''&val='' @ val)
         | None \<Rightarrow> [Write (go_bytes ''Success'')])"

definition handleDelete :: "(bytes \<Rightarrow> bytes \<Rightarrow> bool \<Rightarrow> string option) \<Rightarrow> network \<Rightarrow> raft \<Rightarrow>
    int \<Rightarrow> (int \<Rightarrow> string) \<Rightarrow> handler" where
  "handleDelete put net rf nodeID peerTemplate r =
     (let key = query_param r ''key''
      in if key = [] then http_Error ''key is required'' 400
         else case put (go_bytes key) [] True of
                Some err \<Rightarrow> put_failed net rf nodeID peerTemplate r err (''/delete?key='' @ key)
              | None \<Rightarrow> [WriteHeader 204])"

section \<open>Wrappers (\<open>middleware.go\<close>)\<close>

text \<open>The status that \<open>responseWriterWrapper\<close> records: 200 until a status is written, then the last one.\<close>

definition wrapper_status :: "w_call list \<Rightarrow> nat" where
  "wrapper_status cs = fold (\<lambda>c st. case c of WriteHeader code \<Rightarrow> code | Write _ \<Rightarrow> st) cs 200"

text \<open>
  The metrics of the HTTP layer (\<^verbatim>\<open>pkg/metrics/metrics.go\<close>) under their names and labels: a counter of requests
  and the observed durations, in nanoseconds and in order; the buckets of the histogram are left to
  the library. The clock is read before and after the inner handler.
\<close>

definition HttpRequestsTotal :: string where "HttpRequestsTotal = ''http_requests_total''"
definition HttpRequestDuration :: string where "HttpRequestDuration = ''http_request_duration_seconds''"

record http_metrics =
  hm_counters :: "string \<times> string list \<Rightarrow> nat"
  hm_observed :: "string \<times> string list \<Rightarrow> int list"

definition withMetrics :: "w_call list \<Rightarrow> string \<Rightarrow> string \<Rightarrow> int \<Rightarrow> int \<Rightarrow> http_metrics \<Rightarrow> w_call list \<times> http_metrics" where
  "withMetrics cs meth endpoint start stop m =
     (let duration = stop - start;
          d = (HttpRequestDuration, [meth, endpoint]);
          key = (HttpRequestsTotal, [meth, endpoint, decimal (wrapper_status cs)])
      in (cs, m\<lparr>hm_observed := (hm_observed m)(d := hm_observed m d @ [duration]),
               hm_counters := (hm_counters m)(key := hm_counters m key + 1)\<rparr>))"

text \<open>\<open>http.StatusText\<close>: the empty string for a number that is not a status.\<close>

definition StatusText :: "nat \<Rightarrow> string" where
  "StatusText n = (case map_of
     [(100, ''Continue''), (101, ''Switching Protocols''), (102, ''Processing''), (103, ''Early Hints''),
      (200, ''OK''), (201, ''Created''), (202, ''Accepted''), (203, ''Non-Authoritative Information''),
      (204, ''No Content''), (205, ''Reset Content''), (206, ''Partial Content''), (207, ''Multi-Status''),
      (208, ''Already Reported''), (226, ''IM Used''), (300, ''Multiple Choices''), (301, ''Moved Permanently''),
      (302, ''Found''), (303, ''See Other''), (304, ''Not Modified''), (305, ''Use Proxy''),
      (307, ''Temporary Redirect''), (308, ''Permanent Redirect''), (400, ''Bad Request''), (401, ''Unauthorized''),
      (402, ''Payment Required''), (403, ''Forbidden''), (404, ''Not Found''), (405, ''Method Not Allowed''),
      (406, ''Not Acceptable''), (407, ''Proxy Authentication Required''), (408, ''Request Timeout''),
      (409, ''Conflict''), (410, ''Gone''), (411, ''Length Required''), (412, ''Precondition Failed''),
      (413, ''Request Entity Too Large''), (414, ''Request URI Too Long''), (415, ''Unsupported Media Type''),
      (416, ''Requested Range Not Satisfiable''), (417, ''Expectation Failed''),
      (418, ''I'' @ [CHR 0x27] @ ''m a teapot''), (421, ''Misdirected Request''), (422, ''Unprocessable Entity''),
      (423, ''Locked''), (424, ''Failed Dependency''), (425, ''Too Early''), (426, ''Upgrade Required''),
      (428, ''Precondition Required''), (429, ''Too Many Requests''), (431, ''Request Header Fields Too Large''),
      (451, ''Unavailable For Legal Reasons''), (500, ''Internal Server Error''), (501, ''Not Implemented''),
      (502, ''Bad Gateway''), (503, ''Service Unavailable''), (504, ''Gateway Timeout''),
      (505, ''HTTP Version Not Supported''), (506, ''Variant Also Negotiates''), (507, ''Insufficient Storage''),
      (508, ''Loop Detected''), (510, ''Not Extended''), (511, ''Network Authentication Required'')] n of
     Some t \<Rightarrow> t | None \<Rightarrow> [])"

text \<open>The line of the log, without the date and time that \<open>log.Printf\<close> puts before it.\<close>

definition log_text :: "http_request \<Rightarrow> string \<Rightarrow> nat \<Rightarrow> int \<Rightarrow> string" where
  "log_text r fullPath status durationMs =
     ''[HTTP] '' @ hr_Method r @ '' '' @ fullPath @ '' '' @ decimal status @ '' '' @ StatusText status @ '' '' @
     show_int durationMs @ ''ms''"

definition httpLogger :: "w_call list \<Rightarrow> http_request \<Rightarrow> int \<Rightarrow> int \<Rightarrow> w_call list \<times> string" where
  "httpLogger cs r start stop =
     (let durationMs = (stop - start) div 10 ^ 6;
          fullPath = (if hr_RawQuery r \<noteq> [] then hr_Path r @ ''?'' @ hr_RawQuery r else hr_Path r)
      in (cs, log_text r fullPath (wrapper_status cs) durationMs))"

section \<open>Dispatch (\<open>main.go\<close>)\<close>

text \<open>
  One request: the readings of the clock are those of the logger, around those of the metrics. The page of
  \<^verbatim>\<open>/metrics\<close> comes from the Prometheus library. Paths are taken as they are: the redirection of paths that are not
  clean is left out.
\<close>

definition serve :: "(bytes \<Rightarrow> 64 word) \<Rightarrow> store \<Rightarrow> (bytes \<Rightarrow> bytes \<Rightarrow> bool \<Rightarrow> string option) \<Rightarrow>
    network \<Rightarrow> int \<Rightarrow> (int \<Rightarrow> string) \<Rightarrow> (http_request \<Rightarrow> w_call list) \<Rightarrow> int \<times> int \<times> int \<times> int \<Rightarrow> http_metrics \<Rightarrow>
    http_request \<Rightarrow> (w_call list \<times> string option \<times> http_metrics) result" where
  "serve sum64 s put net nodeID peerTemplate prom clock m r =
     (let (t0, t1, t2, t3) = clock;
          wrap = (\<lambda>cs meth endpoint.
            let (cs, m) = withMetrics cs meth endpoint t1 t2 m; (cs, line) = httpLogger cs r t0 t3 in (cs, Some line, m))
      in if hr_Path r = ''/get'' then bindE (handleGet sum64 s r) (\<lambda>cs. Inr (wrap cs ''GET'' ''/get''))
         else if hr_Path r = ''/put'' then Inr (wrap (handlePut put net (st_Raft s) nodeID peerTemplate r) ''PUT'' ''/put'')
         else if hr_Path r = ''/delete''
         then Inr (wrap (handleDelete put net (st_Raft s) nodeID peerTemplate r) ''DELETE'' ''/delete'')
         else if hr_Path r = ''/metrics'' then Inr (prom r, None, m)
         else Inr (http_Error ''404 page not found'' 404, None, m))"

section \<open>What the wrappers record\<close>

text \<open>A handler writes at most one status, and before any body.\<close>

definition well_behaved :: "w_call list \<Rightarrow> bool" where
  "well_behaved cs \<longleftrightarrow> (\<forall>c \<in> set (tl cs). \<exists>bs. c = Write bs)"

lemma wrapper_status_sent: "well_behaved cs \<Longrightarrow> wrapper_status cs = sent_status cs"
proof -
  have keep: "fold (\<lambda>c st. case c of WriteHeader code \<Rightarrow> code | Write _ \<Rightarrow> st) cs n = n"
    if "\<forall>c \<in> set cs. \<exists>bs. c = Write bs" for cs n
    using that by (induction cs) auto
  assume "well_behaved cs"
  then show ?thesis
    by (cases cs; cases "hd cs") (auto simp: wrapper_status_def well_behaved_def keep)
qed

lemma http_Error_simps [simp]:
  "well_behaved (http_Error msg code)" "sent_status (http_Error msg code) = code"
  by (simp_all add: http_Error_def well_behaved_def)

lemma forward_well_behaved [simp]: "well_behaved (forwardToLeader net r u)"
  by (simp add: forwardToLeader_def well_behaved_def [of "[_, _]"] split: http_outcome.splits)

lemma handler_well_behaved [simp]:
  "handleGet sum64 s r = Inr cs \<Longrightarrow> well_behaved cs"
  "well_behaved (handlePut put net rf n t r)" "well_behaved (handleDelete put net rf n t r)"
  by (auto simp: handleGet_def handlePut_def handleDelete_def put_failed_def Let_def bindE_Inr_iff
      well_behaved_def [of "[_]"] split: if_splits option.splits prod.splits)

section \<open>Forwarded requests\<close>

text \<open>The target URL of a forwarded put, and the request that the leader receives for it.\<close>

definition forwarded :: "http_request \<Rightarrow> string \<Rightarrow> http_request" where
  "forwarded r u = r\<lparr>hr_RawQuery := url_query u\<rparr>"

lemma forwarded_param: "query_param (forwarded r u) name = Query_Get (url_query u) name"
  by (simp add: query_param_def forwarded_def)

lemma url_query_put:
  assumes "CHR ''?'' \<notin> set base" and "CHR ''#'' \<notin> set base" and "CHR ''#'' \<notin> set q"
    and "CHR ''?'' \<notin> set path" and "CHR ''#'' \<notin> set path"
  shows "url_query (base @ path @ CHR ''?'' # q) = q"
proof -
  have "strings_Cut CHR ''#'' (base @ path @ CHR ''?'' # q) = (base @ path @ CHR ''?'' # q, [])"
    using assms by (intro strings_Cut_absent) auto
  moreover have "strings_Cut CHR ''?'' ((base @ path) @ CHR ''?'' # q) = (base @ path, q)"
    using assms by (intro strings_Cut_append) auto
  ultimately show ?thesis by (simp add: url_query_def)
qed

text \<open>Strings that mean themselves in a query.\<close>

definition plain :: "string \<Rightarrow> bool" where
  "plain s \<longleftrightarrow> (\<forall>c \<in> set s. query_safe c \<and> c \<noteq> CHR ''%'' \<and> c \<noteq> CHR ''+'')"

lemma plain_unescape: "plain s \<Longrightarrow> QueryUnescape s = Some s"
  by (induction s) (auto simp: plain_def)

lemma plain_notin: "plain s \<Longrightarrow> CHR ''&'' \<notin> set s \<and> CHR '';'' \<notin> set s \<and> CHR ''#'' \<notin> set s"
  unfolding plain_def using query_safe_neq by blast

lemma param_names: "\<forall>c \<in> set ''key''. query_safe c" "\<forall>c \<in> set ''val''. query_safe c"
  "QueryUnescape ''key'' = Some ''key''" "QueryUnescape ''val'' = Some ''val''"
  by (simp_all add: query_safe_def)

text \<open>The parameters of a query with a key and a value that unescape to \<open>k\<close> and \<open>v\<close>.\<close>

lemma query_key_val:
  assumes "QueryUnescape ek = Some k" and "QueryUnescape ev = Some v"
    and "CHR ''&'' \<notin> set ek \<and> CHR '';'' \<notin> set ek" and "CHR ''&'' \<notin> set ev \<and> CHR '';'' \<notin> set ev"
  shows "Query_Get (''key='' @ ek @ ''&val='' @ ev) ''key'' = k"
    and "Query_Get (''key='' @ ek @ ''&val='' @ ev) ''val'' = v"
    and "Query_Get (''key='' @ ek @ ''&val='' @ ev @ CHR ''&'' # rest) ''key'' = k"
    and "Query_Get (''key='' @ ek @ ''&val='' @ ev @ CHR ''&'' # rest) ''val'' = v"
    and "Query_Get (''key='' @ ek) ''key'' = k"
proof -
  note key = ParseQuery_pair [OF param_names(1) _ _ param_names(3) assms(1)]
  note val = ParseQuery_pair [OF param_names(2) _ _ param_names(4) assms(2)]
  have "ParseQuery (''key='' @ ek @ ''&val='' @ ev) = [(''key'', k), (''val'', v)]"
    "ParseQuery (''key='' @ ek @ ''&val='' @ ev @ CHR ''&'' # rest) = (''key'', k) # (''val'', v) # ParseQuery rest"
    "ParseQuery (''key='' @ ek) = [(''key'', k)]"
    using key(1) [of "''val='' @ ev"] key(1) [of "''val='' @ ev @ CHR ''&'' # rest"] key(2) val(1) [of rest] val(2) assms(3,4)
    by simp_all
  then show "Query_Get (''key='' @ ek @ ''&val='' @ ev) ''key'' = k"
    "Query_Get (''key='' @ ek @ ''&val='' @ ev) ''val'' = v"
    "Query_Get (''key='' @ ek @ ''&val='' @ ev @ CHR ''&'' # rest) ''key'' = k"
    "Query_Get (''key='' @ ek @ ''&val='' @ ev @ CHR ''&'' # rest) ''val'' = v"
    "Query_Get (''key='' @ ek) ''key'' = k"
    by (simp_all add: Query_Get_def del: append.simps)
qed

text \<open>Escaped parameters are read as they were.\<close>

lemma query_escaped:
  "Query_Get (''key='' @ QueryEscape k @ ''&val='' @ QueryEscape v) ''key'' = k"
  "Query_Get (''key='' @ QueryEscape k @ ''&val='' @ QueryEscape v) ''val'' = v"
  "Query_Get (''key='' @ QueryEscape k) ''key'' = k"
  by (rule query_key_val(1,2,5) [OF QueryUnescape_Escape QueryUnescape_Escape QueryEscape_notin(1) QueryEscape_notin(1)])+

text \<open>
  What is logged and counted is what is sent: for every request to a handler the status in the log
  line is the status that the client receives, exactly one counter, the one of this status,
  is incremented, by one, and one duration is observed.
\<close>

lemma recorded_status_is_sent:
  assumes "serve sum64 s put net nodeID peerTemplate prom (t0, t1, t2, t3) m r = Inr (cs, Some line, m')"
  shows "(\<exists>path. line = log_text r path (sent_status cs) ((t3 - t0) div 10 ^ 6)) \<and>
    (\<exists>meth. let key = (HttpRequestsTotal, [meth, hr_Path r, decimal (sent_status cs)]);
                d = (HttpRequestDuration, [meth, hr_Path r])
      in hm_counters m' = (hm_counters m)(key := hm_counters m key + 1) \<and>
         hm_observed m' = (hm_observed m)(d := hm_observed m d @ [t2 - t1]))"
proof -
  have rec: "(\<exists>path. line = log_text r path (sent_status cs) ((t3 - t0) div 10 ^ 6)) \<and>
      m' = snd (withMetrics cs meth ep t1 t2 m) \<and> wrapper_status cs = sent_status cs"
    if "(let (cs, m) = withMetrics cs0 meth ep t1 t2 m; (cs, line) = httpLogger cs r t0 t3 in (cs, Some line, m)) = (cs, Some line, m')"
      and "well_behaved cs0" for cs0 meth ep
    using that by (auto simp: withMetrics_def httpLogger_def Let_def wrapper_status_sent)
  from assms have "\<exists>meth cs0. well_behaved cs0 \<and>
      (let (cs, m) = withMetrics cs0 meth (hr_Path r) t1 t2 m; (cs, line) = httpLogger cs r t0 t3 in (cs, Some line, m)) = (cs, Some line, m')"
    by (auto simp: serve_def bindE_Inr_iff split: if_splits intro: handler_well_behaved)
  then obtain meth where "(\<exists>path. line = log_text r path (sent_status cs) ((t3 - t0) div 10 ^ 6))"
    "m' = snd (withMetrics cs meth (hr_Path r) t1 t2 m)" "wrapper_status cs = sent_status cs"
    using rec by blast
  then show ?thesis by (auto simp: withMetrics_def Let_def intro!: exI [of _ meth])
qed

section \<open>Properties\<close>

text \<open>
  A put on a follower reaches the leader as it was, for plain keys and values: if the store refuses
  the write because the node is not the leader and another node is known as the leader, the client
  gets what the leader answers to the forwarded request, and if neither the key nor the value has a
  character with a meaning in a query, the leader's handler writes this key and value.
\<close>

lemma forward_put_plain:
  assumes "put (go_bytes (query_param r ''key'')) (go_bytes (query_param r ''val'')) False = Some ''not leader''"
    and "GetLeader rf = leaderID" and "leaderID \<noteq> -1" and "leaderID \<noteq> nodeID"
    and "CHR ''?'' \<notin> set (peerTemplate leaderID)" and "CHR ''#'' \<notin> set (peerTemplate leaderID)"
    and "plain (query_param r ''key'')" and "plain (query_param r ''val'')"
    and "lput (go_bytes (query_param r ''key'')) (go_bytes (query_param r ''val'')) False = None"
  shows "\<exists>u. handlePut put net rf nodeID peerTemplate r = forwardToLeader net r u \<and>
    handlePut lput net' rf' leaderID peerTemplate (forwarded r u) = [Write (go_bytes ''Success'')]"
proof -
  let ?k = "query_param r ''key''" and ?v = "query_param r ''val''"
  let ?q = "''key='' @ ?k @ ''&val='' @ ?v" and ?base = "peerTemplate leaderID"
  define u where "u = ?base @ ''/put'' @ CHR ''?'' # ?q"
  have "CHR ''#'' \<notin> set ?q" using plain_notin [OF assms(7)] plain_notin [OF assms(8)] by auto
  then have "url_query u = ?q" unfolding u_def using assms(5,6) by (intro url_query_put) auto
  then have "query_param (forwarded r u) ''key'' = ?k" "query_param (forwarded r u) ''val'' = ?v"
    using query_key_val(1,2) [OF plain_unescape [OF assms(7)] plain_unescape [OF assms(8)]]
      plain_notin [OF assms(7)] plain_notin [OF assms(8)] by (simp_all only: forwarded_param simp_thms)
  then have "handlePut lput net' rf' leaderID peerTemplate (forwarded r u) = [Write (go_bytes ''Success'')]"
    using assms(9) by (simp add: handlePut_def Let_def)
  moreover have "handlePut put net rf nodeID peerTemplate r = forwardToLeader net r u"
    using assms(1-4) by (simp add: handlePut_def put_failed_def Let_def u_def)
  ultimately show ?thesis by blast
qed

definition demo_request :: "string \<Rightarrow> string \<Rightarrow> http_request" where
  "demo_request k v = \<lparr>hr_Method = ''PUT'', hr_Path = ''/put'', hr_RawQuery = ''key='' @ QueryEscape k @ ''&val='' @ QueryEscape v\<rparr>"

lemma demo_request_params:
  "query_param (demo_request k v) ''key'' = k" "query_param (demo_request k v) ''val'' = v"
  using query_escaped(1,2) by (simp_all add: query_param_def demo_request_def)

definition demo_template :: "int \<Rightarrow> string" where
  "demo_template i = ''http://kv-'' @ decimal (nat i)"

lemma demo_template_plain: "CHR ''?'' \<notin> set (demo_template i)" "CHR ''#'' \<notin> set (demo_template i)"
proof -
  have "\<not> is_digit CHR ''?''" "\<not> is_digit CHR ''#''" by (simp_all add: is_digit_def)
  then show "CHR ''?'' \<notin> set (demo_template i)" "CHR ''#'' \<notin> set (demo_template i)"
    using decimal_digits(1) [of "nat i"] by (auto simp: demo_template_def)
qed

definition demo_node :: "int \<Rightarrow> raft" where
  "demo_node l = (raft_Make [] 0 \<lparr>content = [], quota = 0\<rparr> 0)\<lparr>rf_leaderId := l\<rparr>"

lemma forward_put_plain_witness:
  "\<exists>u. handlePut (\<lambda>k v d. Some ''not leader'') (\<lambda>m u. SendFailed) (demo_node 1) 0 demo_template (demo_request ''k'' ''v'') =
       forwardToLeader (\<lambda>m u. SendFailed) (demo_request ''k'' ''v'') u \<and>
     handlePut (\<lambda>k v d. None) (\<lambda>m u. SendFailed) (demo_node 1) 1 demo_template (forwarded (demo_request ''k'' ''v'') u) =
       [Write (go_bytes ''Success'')]"
  by (rule forward_put_plain)
    (simp_all add: demo_request_params demo_template_plain plain_def query_safe_def GetLeader_def demo_node_def)

text \<open>
  A forwarded value is cut at an ampersand: the target URL is built without escaping, so that the
  leader takes the value \<open>v1 & v2\<close> for \<open>v1\<close> and writes this.
\<close>

lemma forward_put_cuts_value:
  assumes "query_param r ''val'' = v1 @ CHR ''&'' # v2" and "plain (query_param r ''key'')" and "plain v1" and "CHR ''#'' \<notin> set v2"
    and "put (go_bytes (query_param r ''key'')) (go_bytes (query_param r ''val'')) False = Some ''not leader''"
    and "GetLeader rf = leaderID" and "leaderID \<noteq> -1" and "leaderID \<noteq> nodeID"
    and "CHR ''?'' \<notin> set (peerTemplate leaderID)" and "CHR ''#'' \<notin> set (peerTemplate leaderID)"
  shows "\<exists>u. handlePut put net rf nodeID peerTemplate r = forwardToLeader net r u \<and>
    query_param (forwarded r u) ''key'' = query_param r ''key'' \<and> query_param (forwarded r u) ''val'' = v1"
proof -
  let ?k = "query_param r ''key''"
  let ?q = "''key='' @ ?k @ ''&val='' @ v1 @ CHR ''&'' # v2" and ?base = "peerTemplate leaderID"
  define u where "u = ?base @ ''/put'' @ CHR ''?'' # ?q"
  have "CHR ''#'' \<notin> set ?q" using plain_notin [OF assms(2)] plain_notin [OF assms(3)] assms(4) by auto
  then have "url_query u = ?q" unfolding u_def using assms(9,10) by (intro url_query_put) auto
  then have "query_param (forwarded r u) ''key'' = ?k" "query_param (forwarded r u) ''val'' = v1"
    using query_key_val(3,4) [OF plain_unescape [OF assms(2)] plain_unescape [OF assms(3)]]
      plain_notin [OF assms(2)] plain_notin [OF assms(3)] by (simp_all only: forwarded_param simp_thms)
  moreover have "handlePut put net rf nodeID peerTemplate r = forwardToLeader net r u"
    using assms(1,5-8) by (simp add: handlePut_def put_failed_def Let_def u_def)
  ultimately show ?thesis by blast
qed

lemma forward_put_cuts_value_witness:
  "\<exists>u. handlePut (\<lambda>k v d. Some ''not leader'') (\<lambda>m u. SendFailed) (demo_node 1) 0 demo_template (demo_request ''k'' ''a&b'') =
       forwardToLeader (\<lambda>m u. SendFailed) (demo_request ''k'' ''a&b'') u \<and>
     query_param (forwarded (demo_request ''k'' ''a&b'') u) ''val'' = ''a''"
proof -
  have "query_param (demo_request ''k'' ''a&b'') ''val'' = ''a'' @ CHR ''&'' # ''b''" by (simp add: demo_request_params)
  from forward_put_cuts_value [OF this, of "\<lambda>k v d. Some ''not leader''" "demo_node 1" 1 0 demo_template "\<lambda>m u. SendFailed"]
  show ?thesis by (auto simp: demo_request_params demo_template_plain plain_def query_safe_def GetLeader_def demo_node_def)
qed

end
