(* ===== verification/Go_Flag.thy ===== *)
theory Go_Flag
  imports Go_Strings
begin

text \<open>
  What \<^verbatim>\<open>cmd/server/main.go\<close> uses of Go's \<open>flag\<close>, \<open>strconv\<close> and \<open>fmt\<close>: \<open>ParseInt\<close> with base 0 and 64 bits (signs,
  prefixes for the base, underscores between digits), the loop of \<open>FlagSet.Parse\<close> over flags with
  \<open>int\<close> and \<open>string\<close> values, and \<open>Sprintf\<close> of one integer with a template. The lemmas show that a
  printed number is parsed back and that flags given in any of the accepted forms are read as they were
  meant.
\<close>

section \<open>Numbers (\<open>strconv\<close>)\<close>

definition digit_value :: "char \<Rightarrow> nat option" where
  "digit_value c =
     (let n = of_char c in
      if 48 \<le> n \<and> n \<le> 57 then Some (n - 48)
      else if 97 \<le> n \<and> n \<le> 122 then Some (n - 97 + 10)
      else if 65 \<le> n \<and> n \<le> 90 then Some (n - 65 + 10)
      else None)"

definition base_prefix :: "string \<Rightarrow> nat \<times> string" where
  "base_prefix s =
     (case s of
        z # b # t \<Rightarrow>
          if z \<noteq> CHR ''0'' then (10, s)
          else if t = [] then (8, b # t)
          else if b \<in> {CHR ''b'', CHR ''B''} then (2, t)
          else if b \<in> {CHR ''o'', CHR ''O''} then (8, t)
          else if b \<in> {CHR ''x'', CHR ''X''} then (16, t)
          else (8, b # t)
      | [z] \<Rightarrow> if z = CHR ''0'' then (8, []) else (10, s)
      | [] \<Rightarrow> (10, []))"

fun parse_digits :: "nat \<Rightarrow> string \<Rightarrow> nat \<Rightarrow> nat option" where
  "parse_digits base [] n = Some n"
| "parse_digits base (c # s) n =
     (if c = CHR ''_'' then parse_digits base s n
      else case digit_value c of
             None \<Rightarrow> None
           | Some d \<Rightarrow> if base \<le> d then None
                      else if 2 ^ 64 \<le> n * base + d then None
                      else parse_digits base s (n * base + d))"

text \<open>\<open>underscoreOK\<close>: the scan remembers the last character as a digit \<open>0\<close>, an underscore or something else.\<close>

fun underscore_scan :: "bool \<Rightarrow> char \<Rightarrow> string \<Rightarrow> bool" where
  "underscore_scan hex i [] \<longleftrightarrow> i \<noteq> CHR ''_''"
| "underscore_scan hex i (c # s) \<longleftrightarrow>
     (if is_digit c \<or> hex \<and> (case digit_value c of Some d \<Rightarrow> 10 \<le> d \<and> d < 16 | None \<Rightarrow> False)
      then underscore_scan hex CHR ''0'' s
      else if c = CHR ''_'' then i = CHR ''0'' \<and> underscore_scan hex CHR ''_'' s
      else i \<noteq> CHR ''_'' \<and> underscore_scan hex CHR ''!'' s)"

definition underscoreOK :: "string \<Rightarrow> bool" where
  "underscoreOK s =
     (let s = (if take 1 s \<in> {''-'', ''+''} then drop 1 s else s);
          b = (if 2 \<le> length s \<and> s ! 0 = CHR ''0'' then s ! 1 else CHR ''0'')
      in if b \<in> {CHR ''b'', CHR ''B'', CHR ''o'', CHR ''O'', CHR ''x'', CHR ''X''}
         then underscore_scan (b \<in> {CHR ''x'', CHR ''X''}) CHR ''0'' (drop 2 s)
         else underscore_scan False CHR ''^'' s)"

definition ParseUint0 :: "string \<Rightarrow> nat option" where
  "ParseUint0 s =
     (if s = [] then None
      else let (base, t) = base_prefix s
           in case parse_digits base t 0 of
                None \<Rightarrow> None
              | Some n \<Rightarrow> if CHR ''_'' \<in> set t \<and> \<not> underscoreOK s then None else Some n)"

definition ParseInt0 :: "string \<Rightarrow> int option" where
  "ParseInt0 s =
     (let neg = (take 1 s = ''-''); t = (if take 1 s \<in> {''-'', ''+''} then drop 1 s else s)
      in case ParseUint0 t of
           None \<Rightarrow> None
         | Some n \<Rightarrow> if neg then (if n \<le> 2 ^ 63 then Some (- int n) else None)
                    else (if n < 2 ^ 63 then Some (int n) else None))"

section \<open>Flags (\<open>flag\<close>)\<close>

datatype flag_kind = IntFlag | StringFlag
datatype flag_value = FInt int | FString string

datatype flag_error =
    BadSyntax string
  | NotDefined string
  | NeedsArgument string
  | InvalidValue string string
  | ErrHelp

definition set_flag :: "flag_kind \<Rightarrow> string \<Rightarrow> string \<Rightarrow> flag_error + flag_value" where
  "set_flag kind name v =
     (case kind of
        StringFlag \<Rightarrow> Inr (FString v)
      | IntFlag \<Rightarrow> (case ParseInt0 v of Some i \<Rightarrow> Inr (FInt i) | None \<Rightarrow> Inl (InvalidValue v name)))"

text \<open>The name behind one or two dashes, and the value behind an equals sign, which is not the first character.\<close>

definition cut_flag :: "string \<Rightarrow> string \<times> string option" where
  "cut_flag name =
     (let a = takeWhile (\<lambda>c. c \<noteq> CHR ''='') (tl name); b = dropWhile (\<lambda>c. c \<noteq> CHR ''='') (tl name)
      in (hd name # a, if b = [] then None else Some (tl b)))"

text \<open>The loop of \<open>Parse\<close>: the values in the order in which they are set, and the remaining arguments.\<close>

fun parse_flags :: "(string \<rightharpoonup> flag_kind) \<Rightarrow> string list \<Rightarrow> (string \<times> flag_value) list \<Rightarrow>
    flag_error + (string \<times> flag_value) list \<times> string list" where
  "parse_flags formal [] vs = Inr (vs, [])"
| "parse_flags formal (s # args) vs =
     (if length s < 2 \<or> hd s \<noteq> CHR ''-'' then Inr (vs, s # args)
      else if s = ''--'' then Inr (vs, args)
      else let name = (if s ! 1 = CHR ''-'' then drop 2 s else drop 1 s)
           in if name = [] \<or> hd name = CHR ''-'' \<or> hd name = CHR ''='' then Inl (BadSyntax s)
              else case cut_flag name of (name, eq) \<Rightarrow>
                (case formal name of
                   None \<Rightarrow> Inl (if name \<in> {''help'', ''h''} then ErrHelp else NotDefined name)
                 | Some kind \<Rightarrow>
                     (case eq of
                        Some v \<Rightarrow> (case set_flag kind name v of
                                    Inl err \<Rightarrow> Inl err
                                  | Inr x \<Rightarrow> parse_flags formal args (vs @ [(name, x)]))
                      | None \<Rightarrow>
                          (case args of
                             [] \<Rightarrow> Inl (NeedsArgument name)
                           | v # rest \<Rightarrow>
                               (case set_flag kind name v of
                                  Inl err \<Rightarrow> Inl err
                                | Inr x \<Rightarrow> parse_flags formal rest (vs @ [(name, x)]))))))"

text \<open>The value of a flag is the one set last, or its default.\<close>

definition flag_int :: "(string \<times> flag_value) list \<Rightarrow> string \<Rightarrow> int \<Rightarrow> int" where
  "flag_int vs name dflt = (case map_of (rev vs) name of Some (FInt i) \<Rightarrow> i | _ \<Rightarrow> dflt)"

definition flag_string :: "(string \<times> flag_value) list \<Rightarrow> string \<Rightarrow> string \<Rightarrow> string" where
  "flag_string vs name dflt = (case map_of (rev vs) name of Some (FString v) \<Rightarrow> v | _ \<Rightarrow> dflt)"

section \<open>Templates (\<open>fmt\<close>)\<close>

text \<open>
  \<open>Sprintf\<close> of a template and one integer: \<^verbatim>\<open>%d\<close> and \<^verbatim>\<open>%v\<close> print it, a second one and a missing one are
  marked. What other verbs, flags and widths give is the parameter \<open>other\<close>, a function of the rest of the
  template and the operand that is left.
\<close>

fun Sprintf1 :: "(string \<Rightarrow> int option \<Rightarrow> string) \<Rightarrow> string \<Rightarrow> int option \<Rightarrow> string" where
  "Sprintf1 other [] arg = (case arg of None \<Rightarrow> [] | Some i \<Rightarrow> ''%!(EXTRA int='' @ show_int i @ '')'')"
| "Sprintf1 other (c # t) arg =
     (if c \<noteq> CHR ''%'' then c # Sprintf1 other t arg
      else case t of
             [] \<Rightarrow> ''%!(NOVERB)'' @ Sprintf1 other [] arg
           | v # t \<Rightarrow>
               if v = CHR ''%'' then CHR ''%'' # Sprintf1 other t arg
               else if v = CHR ''d'' \<or> v = CHR ''v''
               then (case arg of
                       Some i \<Rightarrow> show_int i @ Sprintf1 other t None
                     | None \<Rightarrow> ''%!'' @ [v] @ ''(MISSING)'' @ Sprintf1 other t None)
               else other (c # v # t) arg)"

section \<open>Printed numbers are read back\<close>

lemma digit_value_digit: "n < 10 \<Longrightarrow> digit_value (digit n) = Some n"
  by (simp add: digit_value_def of_char_digit)

lemma digit_not: "n < 10 \<Longrightarrow> digit n \<noteq> CHR ''_''" "n < 10 \<Longrightarrow> digit n \<noteq> CHR ''-''" "n < 10 \<Longrightarrow> digit n \<noteq> CHR ''+''"
  "0 < n \<Longrightarrow> n < 10 \<Longrightarrow> digit n \<noteq> CHR ''0''"
  by (auto dest: arg_cong [of _ _ "of_char :: char \<Rightarrow> nat"] simp: of_char_digit)

lemma parse_digits_decimal: "n < 2 ^ 64 \<Longrightarrow> parse_digits 10 (decimal n @ t) 0 = parse_digits 10 t n"
proof (induction n arbitrary: t rule: decimal.induct)
  case (1 n)
  show ?case
  proof (cases "n < 10")
    case True
    with 1(2) show ?thesis by (subst decimal.simps) (simp add: digit_value_digit digit_not)
  next
    case False
    moreover have "n mod 10 < 10" by simp
    ultimately show ?thesis
      using 1 by (subst decimal.simps) (simp add: digit_value_digit digit_not not_le [symmetric] del: mod_less_divisor)
  qed
qed

lemma hd_decimal: "0 < n \<Longrightarrow> hd (decimal n) \<noteq> CHR ''0''"
proof (induction n rule: decimal.induct)
  case (1 n)
  show ?case
  proof (cases "n < 10")
    case True
    with 1(2) show ?thesis by (subst decimal.simps) (simp add: digit_not)
  next
    case False
    then have "decimal n = decimal (n div 10) @ [digit (n mod 10)]" by (subst decimal.simps) simp
    with 1(1) False show ?thesis using decimal_digits(2) [of "n div 10"] by simp
  qed
qed

lemma digit_0: "digit 0 = CHR ''0''"
  using char_code [of "CHR ''0''" 48 "digit 0"] by (simp add: of_char_digit)

lemma ParseUint0_decimal:
  assumes "n < 2 ^ 64"
  shows "ParseUint0 (decimal n) = Some n"
proof -
  have und: "CHR ''_'' \<notin> set (decimal n)" using decimal_digits(1) [of n] by (auto simp: is_digit_def)
  show ?thesis
  proof (cases "n = 0")
    case True
    have "decimal 0 = [digit 0]" by (subst decimal.simps) simp
    with True show ?thesis by (simp add: ParseUint0_def base_prefix_def digit_0)
  next
    case False
    then obtain c t where d: "decimal n = c # t" "c \<noteq> CHR ''0''"
      using hd_decimal [of n] decimal_digits(2) [of n] by (cases "decimal n") auto
    then have "base_prefix (decimal n) = (10, decimal n)" by (cases t) (simp_all add: base_prefix_def)
    with und decimal_digits(2) [of n] parse_digits_decimal [OF assms, of "[]"] show ?thesis
      by (simp add: ParseUint0_def)
  qed
qed

lemma ParseInt0_show_int:
  assumes "- (2 ^ 63) \<le> i" and "i < 2 ^ 63"
  shows "ParseInt0 (show_int i) = Some i"
proof (cases "i < 0")
  case True
  have "nat (- i) \<le> 2 ^ 63" using assms(1) by simp
  with True show ?thesis using ParseUint0_decimal [of "nat (- i)"] by (simp add: ParseInt0_def show_int_def)
next
  case False
  have "nat i < 2 ^ 63" using assms(2) False by simp
  moreover have "take 1 (decimal (nat i)) \<notin> {''-'', ''+''}"
    using decimal_digits [of "nat i"] by (cases "decimal (nat i)") (auto simp: is_digit_def)
  ultimately show ?thesis
    using False ParseUint0_decimal [of "nat i"] by (simp add: ParseInt0_def show_int_def)
qed

section \<open>Flags are read as they are given\<close>

text \<open>The four ways to give a flag: one or two dashes, the value behind an equals sign or in the next argument.\<close>

definition flag_args :: "bool \<Rightarrow> bool \<Rightarrow> string \<Rightarrow> string \<Rightarrow> string list" where
  "flag_args two eq name v =
     (let s = (if two then ''--'' else ''-'') @ name in if eq then [s @ ''='' @ v] else [s, v])"

definition flag_name :: "string \<Rightarrow> bool" where
  "flag_name name \<longleftrightarrow> name \<noteq> [] \<and> hd name \<noteq> CHR ''-'' \<and> CHR ''='' \<notin> set name"

lemma cut_flag_simps:
  assumes "flag_name name"
  shows "cut_flag name = (name, None)" and "cut_flag (name @ CHR ''='' # v) = (name, Some v)"
proof -
  obtain c w where n: "name = c # w" "\<forall>x \<in> set w. x \<noteq> CHR ''=''"
    using assms unfolding flag_name_def by (cases name) auto
  show "cut_flag name = (name, None)" using n by (simp add: cut_flag_def)
  show "cut_flag (name @ CHR ''='' # v) = (name, Some v)"
    using n by (simp add: cut_flag_def takeWhile_append2 dropWhile_append2)
qed

lemma parse_flag:
  assumes "flag_name name" and "formal name = Some kind" and "set_flag kind name v = Inr x"
  shows "parse_flags formal (flag_args two eq name v @ args) vs = parse_flags formal args (vs @ [(name, x)])"
proof -
  obtain c w where n: "name = c # w" "c \<noteq> CHR ''-''" "c \<noteq> CHR ''=''"
    using assms(1) unfolding flag_name_def by (cases name) auto
  note cut = cut_flag_simps [OF assms(1), unfolded n(1) append_Cons]
  from n assms(2,3) cut cut(2) [of v] show ?thesis by (cases two; cases eq) (simp_all add: flag_args_def)
qed

text \<open>A list of settings: the form, the name and the text of the value.\<close>

definition setting_ok :: "(string \<rightharpoonup> flag_kind) \<Rightarrow> (bool \<times> bool \<times> string \<times> string) \<times> flag_value \<Rightarrow> bool" where
  "setting_ok formal p = (case p of ((two, eq, name, v), x) \<Rightarrow>
     flag_name name \<and> (\<exists>kind. formal name = Some kind \<and> set_flag kind name v = Inr x))"

lemma parse_settings:
  "\<forall>p \<in> set ss. setting_ok formal p \<Longrightarrow>
   parse_flags formal (concat (map (\<lambda>((two, eq, name, v), x). flag_args two eq name v) ss)) vs =
     Inr (vs @ map (\<lambda>((two, eq, name, v), x). (name, x)) ss, [])"
proof (induction ss arbitrary: vs)
  case (Cons p ss)
  obtain two eq name v x where p: "p = ((two, eq, name, v), x)" by (metis prod.exhaust)
  from Cons.prems p obtain kind where "flag_name name" "formal name = Some kind" "set_flag kind name v = Inr x"
    by (auto simp: setting_ok_def)
  from parse_flag [of name formal, OF this] Cons show ?case by (simp add: p)
qed simp

section \<open>Templates\<close>

lemma Sprintf1_plain: "CHR ''%'' \<notin> set s \<Longrightarrow> Sprintf1 other (s @ t) arg = s @ Sprintf1 other t arg"
  by (induction s) auto

lemma Sprintf1_d:
  assumes "CHR ''%'' \<notin> set pre" and "CHR ''%'' \<notin> set post"
  shows "Sprintf1 other (pre @ ''%d'' @ post) (Some i) = pre @ show_int i @ post"
  using Sprintf1_plain [OF assms(1), of other "''%d'' @ post" "Some i"] Sprintf1_plain [OF assms(2), of other "[]" None] by simp

end
