(* ===== verification/Store_Startup.thy ===== *)
theory Store_Startup
  imports Store
begin

text \<open>
  The start of a store (\<open>NewKVStore\<close>): the last segment of the write-ahead log is found and replayed into
  the active table, the table files are opened, and the Raft node is made. The lemmas show what is read after
  it: the last entry of a key in the log, and otherwise what the files have.
\<close>

text \<open>What an entry of the log stands for.\<close>

definition wal_effect :: "wal_entry \<Rightarrow> bytes \<times> (bytes \<times> bool)" where
  "wal_effect e = (we_Key e, if we_Cmd e = wal_CmdDelete then ([], True) else (we_Value e, False))"

definition replayable :: "wal_entry \<Rightarrow> bool" where
  "replayable e \<longleftrightarrow> we_Cmd e \<in> {wal_CmdPut, wal_CmdDelete} \<and> length (we_Key e) < 2 ^ 16 \<and> length (we_Value e) < 2 ^ 32"

abbreviation wal_size :: "wal_entry \<Rightarrow> nat" where
  "wal_size e \<equiv> 7 + length (we_Key e) + length (we_Value e)"

lemma mt_put_fits:
  assumes "mt_wf t" and "length (arena_data (mt_Arena t)) + (7 + length k + length v) \<le> arena_cap (mt_Arena t)"
  obtains t' where "mt_put t k v d n = (None, t')" "arena_cap (mt_Arena t') = arena_cap (mt_Arena t)"
    "length (arena_data (mt_Arena t')) \<le> length (arena_data (mt_Arena t)) + (7 + length k + length v)"
proof -
  have wf: "arena_wf (mt_Arena t)" using assms(1) by (simp add: mt_wf_def)
  then obtain off a where p: "arena_Put (mt_Arena t) k v d = (Inr off, a)"
    using arena_Put_fits [OF wf, of k v d] assms(2) by (auto split: if_splits)
  have c: "arena_cap a = arena_cap (mt_Arena t)"
    "length (arena_data a) \<le> length (arena_data (mt_Arena t)) + (7 + length k + length v)"
    using p by (auto simp: arena_Put_def Let_def length_arena_entry split: if_splits)
  have "mt_put t k v d n = (None, t\<lparr>mt_Arena := a, mt_Index := AList.update k off (mt_Index t),
      mt_Size := mt_Size t + word_of_nat n\<rparr>)" using p by (simp add: mt_put_def)
  from that [OF this] c show thesis by simp
qed

lemma recover_memtable_spec:
  assumes "mt_wf t" and "\<forall>e \<in> set es. replayable e"
    and "length (arena_data (mt_Arena t)) + sum_list (map wal_size es) \<le> arena_cap (mt_Arena t)"
  shows "\<exists>t'. recover_memtable t es = Inr t' \<and> mt_wf t' \<and>
    (\<forall>k. mt_lookup t' k = (case map_of (rev (map wal_effect es)) k of Some x \<Rightarrow> Some x | None \<Rightarrow> mt_lookup t k))"
  using assms
proof (induction es arbitrary: t)
  case (Cons e es)
  let ?d = "we_Cmd e = wal_CmdDelete" and ?n = "length (we_Key e) + length (we_Value e)"
  obtain u where u: "mt_put t (we_Key e) (we_Value e) ?d ?n = (None, u)" "arena_cap (mt_Arena u) = arena_cap (mt_Arena t)"
    "length (arena_data (mt_Arena u)) \<le> length (arena_data (mt_Arena t)) + wal_size e"
    using mt_put_fits [OF Cons.prems(1), of "we_Key e" "we_Value e" ?d ?n] Cons.prems(3) by auto
  have len: "length (we_Key e) < 2 ^ 16" "length (we_Value e) < 2 ^ 32" "we_Cmd e \<in> {wal_CmdPut, wal_CmdDelete}"
    using Cons.prems(2) by (simp_all add: replayable_def)
  have wf: "mt_wf u" using mt_put_wf [OF Cons.prems(1) u(1) len(1,2)] .
  have "length (arena_data (mt_Arena u)) + sum_list (map wal_size es) \<le> arena_cap (mt_Arena u)"
    using Cons.prems(3) u(2,3) by simp
  then obtain t' where t': "recover_memtable u es = Inr t'" "mt_wf t'"
    "\<And>k. mt_lookup t' k = (case map_of (rev (map wal_effect es)) k of Some x \<Rightarrow> Some x | None \<Rightarrow> mt_lookup u k)"
    using Cons.IH [OF wf] Cons.prems(2) by auto
  have "recover_memtable t (e # es) = Inr t'" using u(1) t'(1) len(3) by (auto simp: Let_def)
  moreover have "mt_lookup t' k = (case map_of (rev (map wal_effect (e # es))) k of Some x \<Rightarrow> Some x | None \<Rightarrow> mt_lookup t k)" for k
    using t'(3) [of k] mt_put_lookup [OF Cons.prems(1) u(1) len(1,2), of k]
    by (auto simp: wal_effect_def map_add_def split: option.splits)
  ultimately show ?case using t'(2) by blast
qed simp

section \<open>The store that is started\<close>

lemma NewKVStore_start:
  assumes "mkdir_ok (''Storage/wal/wal_'' @ show_int me)" and "mkdir_ok (''Storage/data/data_'' @ show_int me)"
    and "(case FindActiveFile (Some (map fst walDir)) of Inr (_, i) \<Rightarrow> nat i | Inl _ \<Rightarrow> 0) = seqId"
    and "OpenWAL_id walDir seqId = (w, walDir')" and "wal_Recover w = (Inr es, w')"
    and "\<forall>e \<in> set es. replayable e" and "sum_list (map wal_size es) \<le> mapLimit"
    and "open_readers sstDir (sst_files sstDir) = Inr readers"
  shows "\<exists>s. NewKVStore mkdir_ok True True peers me raftFile now walDir sstDir = Inr s \<and>
    st_Raft s = raft_Make peers me raftFile now \<and>
    (\<forall>sum64 k. store_Get sum64 s k = (case map_of (rev (map wal_effect es)) k of
       Some x \<Rightarrow> Inr (answer x) | None \<Rightarrow> get_from_files sum64 sstDir (sst_files sstDir) k))"
proof -
  let ?t = "NewMemTable mapLimit (Some w')"
  obtain t where t: "recover_memtable ?t es = Inr t" "mt_wf t"
    "\<And>k. mt_lookup t k = (case map_of (rev (map wal_effect es)) k of Some x \<Rightarrow> Some x | None \<Rightarrow> mt_lookup ?t k)"
    using recover_memtable_spec [OF mt_wf_New assms(6), of mapLimit "Some w'"] assms(7)
    by (auto simp: NewMemTable_def NewArena_def)
  define s where "s = \<lparr>st_ActiveMap = t, st_frozenMap = None, st_ssTables = readers, st_WalDir = walDir',
    st_SstDir = sstDir, st_walSeq = 0, st_FlushChan = False,
    st_Raft = raft_Make peers me raftFile now, st_notifyChans = Map.empty, st_chans = Map.empty\<rparr>"
  have "NewKVStore mkdir_ok True True peers me raftFile now walDir sstDir = Inr s"
    using assms(1-5,8) t(1) by (simp add: NewKVStore_def refreshSSTables_def s_def)
  moreover have "store_Get sum64 s k = (case map_of (rev (map wal_effect es)) k of
      Some x \<Rightarrow> Inr (answer x) | None \<Rightarrow> get_from_files sum64 sstDir (sst_files sstDir) k)" for sum64 k
    using t(2,3) by (subst store_Get_tables) (auto simp: s_def mem_lookup_def split: option.splits)
  ultimately show ?thesis by (auto simp: s_def intro!: exI [of _ s])
qed

text \<open>A start in empty directories.\<close>

lemma NewKVStore_fresh:
  assumes "mkdir_ok (''Storage/wal/wal_'' @ show_int me)" and "mkdir_ok (''Storage/data/data_'' @ show_int me)"
  shows "\<exists>s. NewKVStore mkdir_ok True True peers me raftFile now [] [] = Inr s \<and> st_Raft s = raft_Make peers me raftFile now \<and>
    (\<forall>sum64 k. store_Get sum64 s k = Inr ([], False))"
proof -
  have seg: "(case FindActiveFile (Some (map fst ([] :: directory))) of Inr (_, i) \<Rightarrow> nat i | Inl _ \<Rightarrow> 0) = 0"
    by (simp add: FindActiveFile_def)
  have opened: "OpenWAL_id [] 0 = (OpenWAL (wal_name 0) [], [(wal_name 0, [])])" by (simp add: OpenWAL_id_def Let_def)
  have rec: "wal_Recover (OpenWAL (wal_name 0) []) = (Inr [], OpenWAL (wal_name 0) [])"
    by (simp add: wal_Recover_def OpenWAL_def)
  have "open_readers [] (sst_files []) = Inr []" by (simp add: sst_files_def sort_reverse_def)
  from NewKVStore_start [OF assms seg opened rec _ _ this, of peers raftFile now] show ?thesis
    by (simp add: sst_files_def sort_reverse_def)
qed

text \<open>The entry that a write to the log stands for.\<close>

definition op_effect :: "wal_op \<Rightarrow> bytes \<times> (bytes \<times> bool)" where
  "op_effect op = (case op of (now, key, val, cmd) \<Rightarrow> (key, if cmd = wal_CmdDelete then ([], True) else (val, False)))"

definition op_replayable :: "wal_op \<Rightarrow> bool" where
  "op_replayable op = (case op of (now, key, val, cmd) \<Rightarrow>
     cmd \<in> {wal_CmdPut, wal_CmdDelete} \<and> length key < 2 ^ 16 \<and> length val < 2 ^ 32)"

definition op_size :: "wal_op \<Rightarrow> nat" where
  "op_size op = (case op of (now, key, val, cmd) \<Rightarrow> 7 + length key + length val)"

lemma log_entries_map:
  "map wal_effect (log_entries lsn ops) = map op_effect ops"
  "sum_list (map wal_size (log_entries lsn ops)) = sum_list (map op_size ops)"
  "\<forall>op \<in> set ops. op_replayable op \<Longrightarrow> \<forall>e \<in> set (log_entries lsn ops). replayable e"
  by (induction ops arbitrary: lsn)
    (auto simp: op_entry_def wal_effect_def op_effect_def op_size_def op_replayable_def replayable_def)

text \<open>
  C19: A store that is started reads what the last segment of its write-ahead log holds: it opens the
  segment with the largest number, and for every sequence of puts and deletes that was written there and
  fits a memtable, a read returns the last one of its key, and for other keys what the table files
  have; the Raft node is made with the given peers from its own log. Other segments, such as the one of a memtable that was
  being flushed, are not read.
\<close>

theorem startup_recovers:
  assumes "mkdir_ok (''Storage/wal/wal_'' @ show_int me)" and "mkdir_ok (''Storage/data/data_'' @ show_int me)"
    and "filter is_wal_name (map fst walDir) = map wal_name ids" and "ids \<noteq> []" and "\<forall>i \<in> set ids. i < 10 ^ 5"
    and "map_of walDir (wal_name (Max (set ids))) = Some (w_content (wal_Writes (OpenWAL (wal_name (Max (set ids))) []) ops))"
    and "\<forall>op \<in> set ops. op_replayable op" and "sum_list (map op_size ops) \<le> mapLimit"
    and "open_readers sstDir (sst_files sstDir) = Inr readers"
  shows "\<exists>s. NewKVStore mkdir_ok True True peers me raftFile now walDir sstDir = Inr s \<and>
    st_Raft s = raft_Make peers me raftFile now \<and>
    (\<forall>k. store_Get sum64 s k = (case map_of (rev (map op_effect ops)) k of
       Some x \<Rightarrow> Inr (answer x) | None \<Rightarrow> get_from_files sum64 sstDir (sst_files sstDir) k))"
proof -
  let ?i = "Max (set ids)"
  let ?c = "w_content (wal_Writes (OpenWAL (wal_name ?i) []) ops)"
  have seg: "(case FindActiveFile (Some (map fst walDir)) of Inr (_, i) \<Rightarrow> nat i | Inl _ \<Rightarrow> 0) = ?i"
    by (simp add: find_active_last_segment [OF assms(5,4,3)])
  have opened: "OpenWAL_id walDir ?i = (OpenWAL (wal_name ?i) ?c, walDir)" by (simp add: OpenWAL_id_def assms(6) Let_def)
  have "\<forall>op \<in> set ops. wal_op_ok op" using assms(7) by (auto simp: op_replayable_def wal_op_ok_def)
  note rec = wal_Recover_Writes [OF this, of "wal_name ?i"]
  from NewKVStore_start [OF assms(1,2) seg opened rec log_entries_map(3) [OF assms(7)] _ assms(9)] assms(8)
  show ?thesis unfolding log_entries_map(1,2) by blast
qed

theorem startup_recovers_witness:
  "\<exists>s. NewKVStore (\<lambda>_. True) True True [False] 0 \<lparr>content = [], quota = 0\<rparr> 0
      [(wal_name 3, w_content (wal_Writes (OpenWAL (wal_name 3) []) [(0, [107], [118], 1), (1, [107], [119], 1)]))] [] = Inr s \<and>
    store_Get (\<lambda>k. 0) s [107] = Inr ([119], True)"
proof -
  let ?d = "[(wal_name 3, w_content (wal_Writes (OpenWAL (wal_name 3) []) [(0, [107], [118], 1), (1, [107], [119], 1)]))]"
  have "filter is_wal_name (map fst ?d) = map wal_name [3]" by simp
  from startup_recovers [of "\<lambda>_. True" 0, OF _ _ this, of "[(0, [107], [118], 1), (1, [107], [119], 1)]" "[]" "[]" "[False]"
      "\<lparr>content = [], quota = 0\<rparr>" 0 "\<lambda>k. 0"]
  obtain s where "NewKVStore (\<lambda>_. True) True True [False] 0 \<lparr>content = [], quota = 0\<rparr> 0 ?d [] = Inr s"
    "store_Get (\<lambda>k. 0) s [107] = (case map_of (rev (map op_effect [(0, [107], [118], 1), (1, [107], [119], 1)])) [107] of
       Some x \<Rightarrow> Inr (answer x) | None \<Rightarrow> get_from_files (\<lambda>k. 0) [] (sst_files []) [107])"
    by (auto simp: op_replayable_def op_size_def mapLimit_def wal_CmdPut_def sst_files_def sort_reverse_def simp del: wal_Writes.simps)
  then show ?thesis by (auto simp: op_effect_def wal_CmdDelete_def answer_def)
qed

end
