(* ===== verification/Server_Main.thy ===== *)
theory Server_Main
  imports Http_Server Go_Flag Store_Startup Raft_Cluster_Logs
begin

text \<open>
  The start of a server (\<^verbatim>\<open>cmd/server/main.go\<close>): flags, clients of the peers, the store, and the two listeners.
  The result is the exit status with the last message, or the server that is running. What the
  environment does is an argument: whether a client of an address can be made, whether the ports can be bound,
  what is on the disk. The lemmas connect the command lines of a cluster with the new cluster
  that \<open>Raft_Cluster_Logs\<close> and the theories after it are about.
\<close>

section \<open>Flags\<close>

record server_flags =
  sf_id :: int
  sf_peers :: string
  sf_port :: string
  sf_http :: string
  sf_peerTemplate :: string

definition server_formal :: "string \<rightharpoonup> flag_kind" where
  "server_formal = map_of [(''id'', IntFlag), (''peers'', StringFlag), (''port'', StringFlag), (''http'', StringFlag),
     (''peer-template'', StringFlag)]"

definition server_flags_of :: "(string \<times> flag_value) list \<Rightarrow> server_flags" where
  "server_flags_of vs =
     \<lparr>sf_id = flag_int vs ''id'' 0, sf_peers = flag_string vs ''peers'' [], sf_port = flag_string vs ''port'' ''5001'',
      sf_http = flag_string vs ''http'' ''8001'', sf_peerTemplate = flag_string vs ''peer-template'' ''http://kv-%d:8001''\<rparr>"

text \<open>\<open>flag.Parse\<close> exits with status 2 on an error, and with 0 after a call for help. Further arguments are ignored.\<close>

definition flag_Parse :: "string list \<Rightarrow> nat + server_flags" where
  "flag_Parse args =
     (case parse_flags server_formal args [] of
        Inl err \<Rightarrow> Inl (if err = ErrHelp then 0 else 2)
      | Inr (vs, _) \<Rightarrow> Inr (server_flags_of vs))"

section \<open>The start\<close>

text \<open>
  The loop over the addresses: a client for every position but the own one. \<open>dial\<close> is \<open>grpc.NewClient\<close>, the text of the
  error if there is one.
\<close>

fun raftClients :: "(string \<Rightarrow> string option) \<Rightarrow> int \<Rightarrow> nat \<Rightarrow> string list \<Rightarrow> string + bool list" where
  "raftClients dial me i [] = Inr []"
| "raftClients dial me i (addr # addrs) =
     (if int i = me then map_sum id (Cons False) (raftClients dial me (Suc i) addrs)
      else case dial addr of
             Some err \<Rightarrow> Inl (''Failed to connect to peer '' @ addr @ '': '' @ err)
           | None \<Rightarrow> map_sum id (Cons True) (raftClients dial me (Suc i) addrs))"

text \<open>
  The environment: dialling, directories, the segments of the log, the log of the Raft node, the listeners, and what a node finds on its
  disk, by its number.
\<close>

record server_env =
  se_dial :: "string \<Rightarrow> string option"
  se_mkdir :: "string \<Rightarrow> bool"
  se_open :: bool
  se_open_raft :: bool
  se_raft :: "int \<Rightarrow> gofile"
  se_wal :: "int \<Rightarrow> directory"
  se_sst :: "int \<Rightarrow> directory"
  se_listen_rpc :: "string \<Rightarrow> string option"
  se_listen_http :: "string \<Rightarrow> string option" \<comment> \<open>the error with which \<open>ListenAndServe\<close> returns, if it does\<close>
  se_serve_rpc :: "string option" \<comment> \<open>the error with which \<open>Serve\<close> returns, if it does\<close>

record server =
  sv_store :: store
  sv_flags :: server_flags

text \<open>\<open>startGRPCServer\<close>, a goroutine: the message with which it ends the program, if it does.\<close>

definition startGRPCServer :: "server_env \<Rightarrow> string \<Rightarrow> string option" where
  "startGRPCServer env port =
     (case se_listen_rpc env ('':'' @ port) of
        Some err \<Rightarrow> Some (''Failed to listen: '' @ err)
      | None \<Rightarrow> map_option (\<lambda>err. ''gRPC serve failed: '' @ err) (se_serve_rpc env))"

text \<open>
  Until the listeners: the program ends, after a flag error or a call for help, with \<open>log.Fatalf\<close> or with a
  panic; or the server is there.
\<close>

datatype exit = FlagExit nat | FatalPeer string | FatalStore go_error | Crashed

fun exit_status :: "exit \<Rightarrow> nat" where
  "exit_status (FlagExit n) = n"
| "exit_status (FatalPeer _) = 1"
| "exit_status (FatalStore _) = 1"
| "exit_status Crashed = 2"

definition server_start :: "server_env \<Rightarrow> int \<Rightarrow> string list \<Rightarrow> exit + server" where
  "server_start env now args =
     (case flag_Parse args of
        Inl code \<Rightarrow> Inl (FlagExit code)
      | Inr fl \<Rightarrow>
          (case raftClients (se_dial env) (sf_id fl) 0 (strings_Split CHR '','' (sf_peers fl)) of
             Inl msg \<Rightarrow> Inl (FatalPeer msg)
           | Inr peers \<Rightarrow>
               (case NewKVStore (se_mkdir env) (se_open env) (se_open_raft env) peers (sf_id fl) (se_raft env (sf_id fl)) now
                       (se_wal env (sf_id fl)) (se_sst env (sf_id fl)) of
                  Inl err \<Rightarrow> Inl (if err = Panic then Crashed else FatalStore err)
                | Inr s \<Rightarrow> Inr \<lparr>sv_store = s, sv_flags = fl\<rparr>)))"

text \<open>
  The end of the program, with the message of whatever ends it: the goroutine of the gRPC server or
  \<open>ListenAndServe\<close>, which returns with an error only. While neither returns, the server runs.
\<close>

definition server_ends :: "server_env \<Rightarrow> server \<Rightarrow> string set" where
  "server_ends env sv =
     set_option (startGRPCServer env (sf_port (sv_flags sv))) \<union>
     set_option (se_listen_http env ('':'' @ sf_http (sv_flags sv)))"

text \<open>A request to the running server. \<open>other\<close> is what \<open>Sprintf\<close> makes of other verbs in the template.\<close>

definition server_request :: "(bytes \<Rightarrow> 64 word) \<Rightarrow> (bytes \<Rightarrow> bytes \<Rightarrow> bool \<Rightarrow> string option) \<Rightarrow> network \<Rightarrow>
    (string \<Rightarrow> int option \<Rightarrow> string) \<Rightarrow> (http_request \<Rightarrow> w_call list) \<Rightarrow> int \<times> int \<times> int \<times> int \<Rightarrow> http_metrics \<Rightarrow>
    server \<Rightarrow> http_request \<Rightarrow> (w_call list \<times> string option \<times> http_metrics) result" where
  "server_request sum64 put net other prom clock m sv r =
     serve sum64 (sv_store sv) put net (sf_id (sv_flags sv))
       (\<lambda>i. Sprintf1 other (sf_peerTemplate (sv_flags sv)) (Some i)) prom clock m r"

section \<open>Clients\<close>

lemma raftClients_map:
  assumes "\<forall>a \<in> set addrs. dial a = None"
  shows "raftClients dial me i addrs = Inr (map (\<lambda>j. int j \<noteq> me) [i..<i + length addrs])"
  using assms
proof (induction addrs arbitrary: i)
  case (Cons a addrs)
  have "[i..<i + length (a # addrs)] = i # [Suc i..<Suc i + length addrs]" by (subst upt_conv_Cons) simp_all
  with Cons show ?case by (simp del: upt.simps)
qed simp

lemma map_sum_InlE: "map_sum id f x = Inl a \<Longrightarrow> x = Inl a"
  by (cases x) simp_all

lemma raftClients_fails:
  assumes "raftClients dial me i addrs = Inl msg"
  shows "\<exists>n < length addrs. \<exists>err. int (i + n) \<noteq> me \<and> dial (addrs ! n) = Some err \<and>
    msg = ''Failed to connect to peer '' @ addrs ! n @ '': '' @ err"
  using assms
proof (induction addrs arbitrary: i)
  case (Cons a addrs)
  show ?case
  proof (cases "int i \<noteq> me \<and> dial a \<noteq> None")
    case True
    then show ?thesis using Cons.prems by (intro exI [of _ 0]) (auto simp del: append.simps)
  next
    case False
    then have "raftClients dial me (Suc i) addrs = Inl msg"
      using Cons.prems by (auto split: if_splits simp del: append.simps dest: map_sum_InlE)
    from Cons.IH [OF this] obtain n err where "n < length addrs" "int (Suc i + n) \<noteq> me" "dial (addrs ! n) = Some err"
      "msg = ''Failed to connect to peer '' @ addrs ! n @ '': '' @ err" by blast
    then show ?thesis by (intro exI [of _ "Suc n"]) (simp del: append.simps)
  qed
qed simp

section \<open>Flags are read as they are given\<close>

text \<open>The command line of a node, with each flag in any of its forms.\<close>

definition node_args :: "(string \<Rightarrow> bool \<times> bool) \<Rightarrow> server_flags \<Rightarrow> string list" where
  "node_args form fl = concat (map (\<lambda>(name, v). flag_args (fst (form name)) (snd (form name)) name v)
     [(''id'', show_int (sf_id fl)), (''peers'', sf_peers fl), (''port'', sf_port fl), (''http'', sf_http fl),
      (''peer-template'', sf_peerTemplate fl)])"

lemma flag_Parse_args:
  assumes "- (2 ^ 63) \<le> sf_id fl" and "sf_id fl < 2 ^ 63"
  shows "flag_Parse (node_args form fl) = Inr fl"
proof -
  let ?ss = "[((fst (form ''id''), snd (form ''id''), ''id'', show_int (sf_id fl)), FInt (sf_id fl)),
    ((fst (form ''peers''), snd (form ''peers''), ''peers'', sf_peers fl), FString (sf_peers fl)),
    ((fst (form ''port''), snd (form ''port''), ''port'', sf_port fl), FString (sf_port fl)),
    ((fst (form ''http''), snd (form ''http''), ''http'', sf_http fl), FString (sf_http fl)),
    ((fst (form ''peer-template''), snd (form ''peer-template''), ''peer-template'', sf_peerTemplate fl), FString (sf_peerTemplate fl))]"
  have "\<forall>p \<in> set ?ss. setting_ok server_formal p"
    by (simp add: setting_ok_def flag_name_def server_formal_def set_flag_def ParseInt0_show_int [OF assms])
  from parse_settings [OF this, of "[]"]
  have "parse_flags server_formal (node_args form fl) [] = Inr (map (\<lambda>((two, eq, name, v), x). (name, x)) ?ss, [])"
    by (simp add: node_args_def)
  then show ?thesis by (simp add: flag_Parse_def server_flags_of_def flag_int_def flag_string_def)
qed

lemma flag_Parse_none: "flag_Parse [] = Inr (server_flags_of [])"
  by (simp add: flag_Parse_def)

section \<open>A cluster of servers\<close>

text \<open>The environment of a new node: every call succeeds, and its disk is empty.\<close>

definition fresh_env :: "server_env \<Rightarrow> bool" where
  "fresh_env env \<longleftrightarrow> (\<forall>a. se_dial env a = None) \<and> (\<forall>d. se_mkdir env d) \<and> se_open env \<and> se_open_raft env \<and>
     (\<forall>i. content (se_raft env i) = [] \<and> se_wal env i = [] \<and> se_sst env i = [])"

lemma server_start_fresh:
  assumes "fresh_env env" and "flag_Parse args = Inr fl"
  shows "\<exists>s q. server_start env now args = Inr \<lparr>sv_store = s, sv_flags = fl\<rparr> \<and>
    st_Raft s = raft_Make (map (\<lambda>j. int j \<noteq> sf_id fl) [0..<length (strings_Split CHR '','' (sf_peers fl))]) (sf_id fl)
      \<lparr>content = [], quota = q\<rparr> now \<and>
    (\<forall>sum64 k. store_Get sum64 s k = Inr ([], False))"
proof -
  let ?ps = "strings_Split CHR '','' (sf_peers fl)" and ?f = "se_raft env (sf_id fl)"
  have e: "\<forall>a \<in> set ?ps. se_dial env a = None" "se_mkdir env (''Storage/wal/wal_'' @ show_int (sf_id fl))"
    "se_mkdir env (''Storage/data/data_'' @ show_int (sf_id fl))" "se_open env \<and> se_open_raft env" "content ?f = []"
    "se_wal env (sf_id fl) = []" "se_sst env (sf_id fl) = []"
    using assms(1) by (simp_all add: fresh_env_def)
  obtain s where s: "NewKVStore (se_mkdir env) True True (map (\<lambda>j. int j \<noteq> sf_id fl) [0..<length ?ps]) (sf_id fl) ?f now [] [] = Inr s"
    "st_Raft s = raft_Make (map (\<lambda>j. int j \<noteq> sf_id fl) [0..<length ?ps]) (sf_id fl) ?f now"
    "\<And>sum64 k. store_Get sum64 s k = Inr ([], False)"
    using NewKVStore_fresh [OF e(2,3)] by blast
  have "?f = \<lparr>content = [], quota = quota ?f\<rparr>" using e(5) by (cases ?f) simp
  moreover have "server_start env now args = Inr \<lparr>sv_store = s, sv_flags = fl\<rparr>"
    using s(1) raftClients_map [OF e(1), of "sf_id fl" 0] e(4,6,7) by (simp add: server_start_def assms(2))
  ultimately show ?thesis using s(2,3) by metis
qed

text \<open>A server whose Raft log cannot be opened crashes, even if everything else is in order.\<close>

lemma server_start_no_raft_log:
  assumes "flag_Parse args = Inr fl" and "\<not> se_open_raft env"
  shows "\<exists>e. server_start env now args = Inl e"
  using assms by (auto simp: server_start_def NewKVStore_def Let_def bindE_Inr_iff split: sum.splits prod.splits if_splits)

lemma server_start_no_raft_log_crashes:
  assumes "fresh_env (env\<lparr>se_open_raft := True\<rparr>)" and "flag_Parse args = Inr fl" and "\<not> se_open_raft env"
  shows "server_start env now args = Inl Crashed"
proof -
  obtain s where "server_start (env\<lparr>se_open_raft := True\<rparr>) now args = Inr s" using server_start_fresh [OF assms(1,2), of now] by blast
  then show ?thesis using assms(2,3)
    by (auto simp: server_start_def NewKVStore_def Let_def bindE_def split: sum.splits prod.splits if_splits)
qed

text \<open>The flags of node \<open>i\<close> of a cluster with the addresses \<open>ps\<close>.\<close>

definition node_flags :: "string list \<Rightarrow> string \<Rightarrow> string \<Rightarrow> string \<Rightarrow> nat \<Rightarrow> server_flags" where
  "node_flags ps port http tmpl i =
     \<lparr>sf_id = int i, sf_peers = Join ps '','', sf_port = port, sf_http = http, sf_peerTemplate = tmpl\<rparr>"

lemma server_start_node:
  assumes "fresh_env env" and "ps \<noteq> []" and "\<forall>a \<in> set ps. CHR '','' \<notin> set a" and "length ps < 2 ^ 63" and "i < length ps"
  shows "\<exists>s q. server_start env now (node_args form (node_flags ps port http tmpl i)) =
      Inr \<lparr>sv_store = s, sv_flags = node_flags ps port http tmpl i\<rparr> \<and>
    st_Raft s = raft_Make (map (\<lambda>j. j \<noteq> i) [0..<length ps]) (int i) \<lparr>content = [], quota = q\<rparr> now \<and>
    (\<forall>sum64 k. store_Get sum64 s k = Inr ([], False))"
proof -
  have "flag_Parse (node_args form (node_flags ps port http tmpl i)) = Inr (node_flags ps port http tmpl i)"
    using assms(4,5) by (intro flag_Parse_args) (simp_all add: node_flags_def)
  from server_start_fresh [OF assms(1) this, of now] show ?thesis
    using strings_Split_Join [OF assms(2,3)] by (simp add: node_flags_def)
qed

lemma form_cluster:
  assumes "\<forall>i. fresh_env (env i)" and "ps \<noteq> []" and "\<forall>a \<in> set ps. CHR '','' \<notin> set a" and "length ps < 2 ^ 63"
  shows "\<exists>c. cluster_new c \<and> cl_size c = length ps \<and>
    (\<forall>i < length ps. \<exists>sv. server_start (env i) (now i) (node_args (form i) (node_flags ps (port i) (http i) tmpl i)) = Inr sv \<and>
       sv_flags sv = node_flags ps (port i) (http i) tmpl i \<and> st_Raft (sv_store sv) = cl_node c i \<and>
       rf_peers (cl_node c i) = map (\<lambda>j. j \<noteq> i) [0..<length ps] \<and> (\<forall>k. store_Get sum64 (sv_store sv) k = Inr ([], False)))"
proof -
  let ?n = "length ps" and ?fl = "\<lambda>i. node_flags ps (port i) (http i) tmpl i"
  let ?mk = "\<lambda>i q. raft_Make (map (\<lambda>j. j \<noteq> i) [0..<?n]) (int i) \<lparr>content = [], quota = q\<rparr> (now i)"
  let ?ok = "\<lambda>i q. \<exists>s. server_start (env i) (now i) (node_args (form i) (?fl i)) = Inr \<lparr>sv_store = s, sv_flags = ?fl i\<rparr> \<and>
    st_Raft s = ?mk i q \<and> (\<forall>k. store_Get sum64 s k = Inr ([], False))"
  have "\<exists>q. ?ok i q" if "i < ?n" for i
    using server_start_node [OF _ assms(2-4) that, of "env i" "now i" "form i" "port i" "http i" tmpl] assms(1) by blast
  then have "\<forall>i. \<exists>q. i < ?n \<longrightarrow> ?ok i q" by blast
  from choice [OF this] obtain q where q: "\<And>i. i < ?n \<Longrightarrow> ?ok i (q i)" by blast
  define c where "c = \<lparr>cl_size = ?n, cl_node = \<lambda>i. ?mk i (q i), cl_msgs = {}, cl_votes = \<lambda>_ _. 0, cl_granted = {},
    cl_counted = \<lambda>_ _. {}\<rparr>"
  show ?thesis
  proof (intro exI [of _ c] conjI allI impI)
    show "cluster_new c" unfolding cluster_new_def c_def by (auto intro!: exI)
    show "cl_size c = ?n" by (simp add: c_def)
    fix i assume "i < ?n"
    from q [OF this] obtain s where "server_start (env i) (now i) (node_args (form i) (?fl i)) = Inr \<lparr>sv_store = s, sv_flags = ?fl i\<rparr>"
      "st_Raft s = ?mk i (q i)" "\<forall>k. store_Get sum64 s k = Inr ([], False)" by blast
    then show "\<exists>sv. server_start (env i) (now i) (node_args (form i) (?fl i)) = Inr sv \<and> sv_flags sv = ?fl i \<and>
       st_Raft (sv_store sv) = cl_node c i \<and> rf_peers (cl_node c i) = map (\<lambda>j. j \<noteq> i) [0..<?n] \<and>
       (\<forall>k. store_Get sum64 (sv_store sv) k = Inr ([], False))"
      by (intro exI [of _ "\<lparr>sv_store = s, sv_flags = ?fl i\<rparr>"]) (simp add: c_def raft_Make_fields)
  qed
qed

text \<open>
  C10: Servers started with the command lines of a cluster are a new cluster of the Raft theorems: if
  every node \<open>i\<close> is started on an empty disk with its number, the same list of addresses, and
  its ports, each flag in any of its forms, then every server starts with an empty store, has
  clients for all nodes but itself, and their Raft nodes together are an initial state of the cluster;
  and node \<open>j\<close> is reached under the template with its number.
\<close>

theorem servers_form_cluster:
  assumes "\<forall>i. fresh_env (env i)" and "ps \<noteq> []" and "\<forall>a \<in> set ps. CHR '','' \<notin> set a" and "length ps < 2 ^ 63"
  shows "\<exists>c. cluster_new c \<and> cl_size c = length ps \<and>
    (\<forall>i < length ps. \<exists>sv. server_start (env i) (now i) (node_args (form i) (node_flags ps (port i) (http i) (pre @ ''%d'' @ post) i)) = Inr sv \<and>
       st_Raft (sv_store sv) = cl_node c i \<and> rf_peers (cl_node c i) = map (\<lambda>j. j \<noteq> i) [0..<length ps] \<and>
       (\<forall>k. store_Get sum64 (sv_store sv) k = Inr ([], False)) \<and>
       (CHR ''%'' \<notin> set pre \<longrightarrow> CHR ''%'' \<notin> set post \<longrightarrow>
         (\<forall>j. Sprintf1 other (sf_peerTemplate (sv_flags sv)) (Some j) = pre @ show_int j @ post)))"
proof -
  obtain c where c: "cluster_new c" "cl_size c = length ps"
    "\<forall>i < length ps. \<exists>sv. server_start (env i) (now i) (node_args (form i) (node_flags ps (port i) (http i) (pre @ ''%d'' @ post) i)) = Inr sv \<and>
       sv_flags sv = node_flags ps (port i) (http i) (pre @ ''%d'' @ post) i \<and> st_Raft (sv_store sv) = cl_node c i \<and>
       rf_peers (cl_node c i) = map (\<lambda>j. j \<noteq> i) [0..<length ps] \<and> (\<forall>k. store_Get sum64 (sv_store sv) k = Inr ([], False))"
    using form_cluster [OF assms, of now form port http "pre @ ''%d'' @ post" sum64] by blast
  have "sf_peerTemplate (node_flags ps (port i) (http i) (pre @ ''%d'' @ post) i) = pre @ ''%d'' @ post" for i by (simp add: node_flags_def)
  with c Sprintf1_d [of pre post other] show ?thesis by (intro exI [of _ c]) fastforce
qed

definition demo_env :: server_env where
  "demo_env = \<lparr>se_dial = \<lambda>_. None, se_mkdir = \<lambda>_. True, se_open = True, se_open_raft = True, se_raft = \<lambda>_. \<lparr>content = [], quota = 0\<rparr>, se_wal = \<lambda>_. [],
     se_sst = \<lambda>_. [], se_listen_rpc = \<lambda>_. None, se_listen_http = \<lambda>_. None, se_serve_rpc = None\<rparr>"

lemma fresh_demo_env: "fresh_env demo_env"
  by (simp add: fresh_env_def demo_env_def)

theorem servers_form_cluster_witness:
  "\<exists>c sv. cluster_new c \<and> cl_size c = 2 \<and>
     server_start demo_env 0 (node_args (\<lambda>_. (True, False)) (node_flags [''a'', ''b''] ''5001'' ''8001'' (''kv-'' @ ''%d'' @ '':1'') 1)) = Inr sv \<and>
     st_Raft (sv_store sv) = cl_node c 1 \<and> rf_peers (cl_node c 1) = [True, False]"
proof -
  let ?args = "node_args (\<lambda>_. (True, False)) (node_flags [''a'', ''b''] ''5001'' ''8001'' (''kv-'' @ ''%d'' @ '':1'') 1)"
  have "\<forall>i. fresh_env demo_env" "[''a'', ''b''] \<noteq> []" "\<forall>a \<in> set [''a'', ''b'']. CHR '','' \<notin> set a"
    "length [''a'', ''b''] < 2 ^ 63" "1 < length [''a'', ''b'']"
    by (simp_all add: fresh_demo_env)
  note this(5) servers_form_cluster [OF this(1-4), where ?now = "\<lambda>_. 0" and ?form = "\<lambda>_ _. (True, False)" and ?port = "\<lambda>_. ''5001''"
      and ?http = "\<lambda>_. ''8001''" and ?pre = "''kv-''" and ?post = "'':1''"]
  then obtain c sv where "cluster_new c" "cl_size c = length [''a'', ''b'']" "server_start demo_env 0 ?args = Inr sv"
    "st_Raft (sv_store sv) = cl_node c 1" "rf_peers (cl_node c 1) = map (\<lambda>j. j \<noteq> 1) [0..<length [''a'', ''b'']]"
    by blast
  then show ?thesis by (intro exI [of _ c] exI [of _ sv]) (simp add: upt_rec)
qed

section \<open>A single server\<close>

text \<open>A cluster of one node: it never gets a message, so it never becomes the leader, and it knows of none.\<close>

definition lonely :: "cluster \<Rightarrow> bool" where
  "lonely c \<longleftrightarrow> cl_size c = 1 \<and> cl_msgs c = {} \<and> rf_state (cl_node c 0) \<noteq> Leader \<and> rf_leaderId (cl_node c 0) = -1"

lemma lonely_step:
  assumes "lonely c" and "cluster_step strict timely c c'"
  shows "lonely c'"
  using assms(2,1)
proof cases
  case (elect i now args rf')
  with assms(1) show ?thesis
    by (auto simp: lonely_def startElection_def Let_def split: option.splits)
next
  case (client i cmd r rf')
  with assms(1) show ?thesis by (cases "i = 0") (auto simp: lonely_def raft_Start_def)
next
  case (applier i es rf')
  with assms(1) show ?thesis
    by (cases "i = 0") (auto dest!: applier_roundD(2) simp: lonely_def applier_step_def Let_def split: if_splits option.splits)
next
  case (replicator i)
  with assms(1) show ?thesis by (cases "i = 0") (auto simp: lonely_def replicator_step_def)
qed (auto simp: lonely_def sendHeartBeats_term_def)

interpretation lone: invariant_system "\<lambda>c. cluster_new c \<and> cl_size c = 1" "cluster_step strict timely" lonely for strict timely
proof unfold_locales
  fix c assume c: "cluster_new c \<and> cl_size c = 1"
  then obtain peers f now where "cl_node c 0 = raft_Make peers (int 0) f now" unfolding cluster_new_def by blast
  with c show "lonely c" by (simp add: lonely_def cluster_new_def raft_Make_fields)
qed (rule lonely_step)

text \<open>
  C35: A server that is started with its default flags never accepts a write: its list of addresses has one
  element, which is the node itself, and such a node never becomes the leader, since votes are
  counted on replies only. In every state that it reaches, \<open>Put\<close> fails, and the answer to
  every put request is that no leader was found.
\<close>

theorem default_server_rejects_writes:
  assumes "fresh_env env"
  shows "\<exists>sv c0. server_start env now [] = Inr sv \<and> cluster_new c0 \<and> cl_size c0 = 1 \<and> cl_node c0 0 = st_Raft (sv_store sv) \<and>
    (\<forall>c s put. (cluster_step strict timely)\<^sup>*\<^sup>* c0 c \<longrightarrow> st_Raft s = cl_node c 0 \<longrightarrow>
       (\<forall>key val d. fst (Put_start s key val d) = Inl (Errorf ''not leader'')) \<and>
       ((\<forall>key val d. put key val d = Some ''not leader'') \<longrightarrow>
          handlePut put net (cl_node c 0) (sf_id (sv_flags sv)) tmpl r = http_Error ''Leader not found'' 404))"
proof -
  obtain s q where s: "server_start env now [] = Inr \<lparr>sv_store = s, sv_flags = server_flags_of []\<rparr>"
    "st_Raft s = raft_Make [False] 0 \<lparr>content = [], quota = q\<rparr> now"
    using server_start_fresh [OF assms flag_Parse_none, of now]
    by (auto simp: server_flags_of_def flag_int_def flag_string_def)
  define c0 where "c0 = \<lparr>cl_size = 1, cl_node = \<lambda>i. raft_Make [False] (int i) \<lparr>content = [], quota = q\<rparr> now, cl_msgs = {},
    cl_votes = \<lambda>_ _. 0, cl_granted = {}, cl_counted = \<lambda>_ _. {}\<rparr>"
  have c0: "cluster_new c0" "cl_size c0 = 1" "cl_node c0 0 = st_Raft s"
    unfolding cluster_new_def by (auto simp: c0_def s(2) intro!: exI)
  have "lonely c" if "(cluster_step strict timely)\<^sup>*\<^sup>* c0 c" for c
    using lone.steps_inv [OF that] lone.init_inv c0(1,2) by blast
  then have "fst (Put_start t key val d) = Inl (Errorf ''not leader'')"
      "(\<forall>key val d. put key val d = Some ''not leader'') \<Longrightarrow>
        handlePut put net (cl_node c 0) (sf_id (server_flags_of [])) tmpl r = http_Error ''Leader not found'' 404"
    if "(cluster_step strict timely)\<^sup>*\<^sup>* c0 c" "st_Raft t = cl_node c 0" for c t put key val d
    using that by (auto simp: lonely_def Put_start_def Put_propose_def raft_Start_def handlePut_def put_failed_def GetLeader_def)
  with s(1) c0 show ?thesis by (intro exI [of _ "\<lparr>sv_store = s, sv_flags = server_flags_of []\<rparr>"] exI [of _ c0]) auto
qed

theorem default_server_rejects_writes_witness:
  "\<exists>sv. server_start demo_env 5 [] = Inr sv \<and> fst (Put_start (sv_store sv) [107] [118] False) = Inl (Errorf ''not leader'')"
proof -
  obtain sv c0 where "server_start demo_env 5 [] = Inr sv" "cl_node c0 0 = st_Raft (sv_store sv)"
    "\<forall>c s put. (cluster_step True True)\<^sup>*\<^sup>* c0 c \<longrightarrow> st_Raft s = cl_node c 0 \<longrightarrow>
       (\<forall>key val d. fst (Put_start s key val d) = Inl (Errorf ''not leader'')) \<and>
       ((\<forall>key val d. put key val d = Some ''not leader'') \<longrightarrow>
          handlePut put (\<lambda>m u. SendFailed) (cl_node c 0) (sf_id (sv_flags sv)) demo_template (Http_Server.demo_request ''k'' ''v'') =
            http_Error ''Leader not found'' 404)"
    using default_server_rejects_writes [OF fresh_demo_env, of 5 True True "\<lambda>m u. SendFailed" demo_template "Http_Server.demo_request ''k'' ''v''"] by blast
  then show ?thesis by (metis rtranclp.rtrancl_refl)
qed

end
