(* ===== verification/Chaos_Cluster.thy ===== *)
theory Chaos_Cluster
  imports Server_Main
begin

text \<open>
  The cluster of the chaos tests (\<^verbatim>\<open>tests/chaos/cluster.go\<close>): server processes that are started with their command lines,
  killed, and asked over HTTP. Whether a process can be started or signalled, and what a request brings back, are arguments. The
  lemmas connect the command lines with \<open>Server_Main\<close>, and show where the requests of these servers to each other go.
\<close>

section \<open>Processes\<close>

record chaos_node =
  cn_ID :: int
  cn_Process :: bool \<comment> \<open>the process has been started and not been killed\<close>
  cn_HTTPPort :: string
  cn_RPCPort :: string

text \<open>The nodes; a missing one is \<open>nil\<close>.\<close>

record chaos =
  cc_Nodes :: "chaos_node option list"
  cc_BinaryPath :: string

definition NewCluster :: "string \<Rightarrow> chaos" where
  "NewCluster binaryPath = \<lparr>cc_Nodes = [], cc_BinaryPath = binaryPath\<rparr>"

definition peerStr :: "nat \<Rightarrow> string" where
  "peerStr n = Join (map (\<lambda>i. ''localhost:'' @ show_int (5001 + int i)) [0..<n]) '',''"

text \<open>The arguments of node \<open>i\<close>.\<close>

definition node_command :: "nat \<Rightarrow> nat \<Rightarrow> string list" where
  "node_command n i =
     [''-id'', show_int (int i), ''-peers'', peerStr n, ''-port'', show_int (5001 + int i), ''-http'', show_int (8001 + int i),
      ''-peer-template'', ''http://localhost:%d'']"

text \<open>The loop: \<open>spawn\<close> starts a program with arguments and gives the text of the error, if there is one.\<close>

fun start_nodes :: "(string \<Rightarrow> string list \<Rightarrow> string option) \<Rightarrow> nat \<Rightarrow> nat list \<Rightarrow> chaos \<Rightarrow> string option \<times> chaos" where
  "start_nodes spawn n [] c = (None, c)"
| "start_nodes spawn n (i # is) c =
     (case spawn (cc_BinaryPath c) (node_command n i) of
        Some err \<Rightarrow> (Some (''failed to start node '' @ show_int (int i) @ '': '' @ err), c)
      | None \<Rightarrow> start_nodes spawn n is (c\<lparr>cc_Nodes := cc_Nodes c @
          [Some \<lparr>cn_ID = int i, cn_Process = True, cn_HTTPPort = show_int (8001 + int i), cn_RPCPort = show_int (5001 + int i)\<rparr>]\<rparr>))"

definition cluster_Start :: "(string \<Rightarrow> string list \<Rightarrow> string option) \<Rightarrow> nat \<Rightarrow> chaos \<Rightarrow> string option \<times> chaos" where
  "cluster_Start spawn n c = start_nodes spawn n [0..<n] c"

definition running :: "chaos_node option \<Rightarrow> bool" where
  "running nd \<longleftrightarrow> (case nd of None \<Rightarrow> False | Some x \<Rightarrow> cn_Process x)"

text \<open>An index below zero is out of range.\<close>

definition KillNode :: "(chaos_node \<Rightarrow> string option) \<Rightarrow> int \<Rightarrow> chaos \<Rightarrow> (string option \<times> chaos) result" where
  "KillNode signal nodeID c =
     (if nodeID \<ge> int (length (cc_Nodes c)) then Inr (Some (''node '' @ show_int nodeID @ '' not found''), c)
      else if nodeID < 0 then Inl Panic
      else case cc_Nodes c ! nat nodeID of
             None \<Rightarrow> Inr (Some (''node '' @ show_int nodeID @ '' not found''), c)
           | Some nd \<Rightarrow>
               if \<not> cn_Process nd then Inr (Some (''node '' @ show_int nodeID @ '' not running''), c)
               else case signal nd of
                      Some err \<Rightarrow> Inr (Some (''failed to kill node '' @ show_int nodeID @ '': '' @ err), c)
                    | None \<Rightarrow> Inr (None, c\<lparr>cc_Nodes := (cc_Nodes c)[nat nodeID := Some (nd\<lparr>cn_Process := False\<rparr>)]\<rparr>))"

text \<open>The processes that \<open>Shutdown\<close> ends, in order; the records of the nodes stay as they are.\<close>

definition Shutdown :: "chaos \<Rightarrow> chaos_node list" where
  "Shutdown c = map the (filter running (cc_Nodes c))"

definition LiveNodes :: "chaos \<Rightarrow> nat" where
  "LiveNodes c = length (filter running (cc_Nodes c))"

section \<open>Requests\<close>

definition chaos_put_url :: "chaos_node \<Rightarrow> string \<Rightarrow> string \<Rightarrow> string" where
  "chaos_put_url nd key val = ''http://localhost:'' @ cn_HTTPPort nd @ ''/put?key='' @ key @ ''&val='' @ val"

definition chaos_get_url :: "chaos_node \<Rightarrow> string \<Rightarrow> string" where
  "chaos_get_url nd key = ''http://localhost:'' @ cn_HTTPPort nd @ ''/get?key='' @ key"

text \<open>The loop of \<open>GetLeader\<close> and \<open>WriteKey\<close>: the first running node that answers a put with 200.\<close>

fun first_accepting :: "network \<Rightarrow> string \<Rightarrow> string \<Rightarrow> chaos_node option list \<Rightarrow> chaos_node option" where
  "first_accepting net key val [] = None"
| "first_accepting net key val (nd # nds) =
     (case nd of
        None \<Rightarrow> first_accepting net key val nds
      | Some x \<Rightarrow>
          if \<not> cn_Process x then first_accepting net key val nds
          else case net ''GET'' (chaos_put_url x key val) of
                 Answer code body complete \<Rightarrow> if code = 200 then Some x else first_accepting net key val nds
               | _ \<Rightarrow> first_accepting net key val nds)"

definition chaos_GetLeader :: "network \<Rightarrow> chaos \<Rightarrow> int" where
  "chaos_GetLeader net c = (case first_accepting net ''__leader_check__'' ''1'' (cc_Nodes c) of None \<Rightarrow> -1 | Some x \<Rightarrow> cn_ID x)"

definition WriteKey :: "network \<Rightarrow> string \<Rightarrow> string \<Rightarrow> chaos \<Rightarrow> string option" where
  "WriteKey net key val c =
     (case first_accepting net key val (cc_Nodes c) of None \<Rightarrow> Some (''no node accepted write for key '' @ key) | Some x \<Rightarrow> None)"

text \<open>
  The node of a request to one node; the result is the error or the node. A request that cannot be made or sent is an error,
  whose text the network leaves open.
\<close>

definition chaos_node_at :: "int \<Rightarrow> chaos \<Rightarrow> (string + chaos_node) result" where
  "chaos_node_at nodeID c =
     (if nodeID \<ge> int (length (cc_Nodes c)) then Inr (Inl (''node '' @ show_int nodeID @ '' not available''))
      else if nodeID < 0 then Inl Panic
      else case cc_Nodes c ! nat nodeID of
             None \<Rightarrow> Inr (Inl (''node '' @ show_int nodeID @ '' not available''))
           | Some x \<Rightarrow> if cn_Process x then Inr (Inr x) else Inr (Inl (''node '' @ show_int nodeID @ '' not available'')))"

datatype chaos_error = NotAvailable string | RequestFailed

definition WriteKeyToNode :: "network \<Rightarrow> int \<Rightarrow> string \<Rightarrow> string \<Rightarrow> chaos \<Rightarrow> (bool \<times> chaos_error option) result" where
  "WriteKeyToNode net nodeID key val c =
     bindE (chaos_node_at nodeID c) (\<lambda>r. Inr (case r of
       Inl msg \<Rightarrow> (False, Some (NotAvailable msg))
     | Inr x \<Rightarrow> (case net ''GET'' (chaos_put_url x key val) of
                   Answer code body complete \<Rightarrow> (code = 200, None)
                 | _ \<Rightarrow> (False, Some RequestFailed))))"

text \<open>The value is what \<open>io.ReadAll\<close> has read, also if the body breaks off. \<open>ReadKey\<close> stops at the first 200 or 404.\<close>

fun read_key :: "network \<Rightarrow> string \<Rightarrow> chaos_node option list \<Rightarrow> bytes \<times> bool" where
  "read_key net key [] = ([], False)"
| "read_key net key (nd # nds) =
     (case nd of
        None \<Rightarrow> read_key net key nds
      | Some x \<Rightarrow>
          if \<not> cn_Process x then read_key net key nds
          else case net ''GET'' (chaos_get_url x key) of
                 Answer code body complete \<Rightarrow>
                   if code = 200 then (body, True) else if code = 404 then ([], False) else read_key net key nds
               | _ \<Rightarrow> read_key net key nds)"

definition ReadKey :: "network \<Rightarrow> string \<Rightarrow> chaos \<Rightarrow> bytes \<times> bool" where
  "ReadKey net key c = read_key net key (cc_Nodes c)"

definition ReadKeyFromNode :: "network \<Rightarrow> int \<Rightarrow> string \<Rightarrow> chaos \<Rightarrow> (bytes \<times> bool \<times> chaos_error option) result" where
  "ReadKeyFromNode net nodeID key c =
     bindE (chaos_node_at nodeID c) (\<lambda>r. Inr (case r of
       Inl msg \<Rightarrow> ([], False, Some (NotAvailable msg))
     | Inr x \<Rightarrow> (case net ''GET'' (chaos_get_url x key) of
                   Answer code body complete \<Rightarrow> if code = 200 then (body, True, None) else ([], False, None)
                 | _ \<Rightarrow> ([], False, Some RequestFailed))))"

text \<open>
  The polling loop of \<open>WaitForLeader\<close>, with times in nanoseconds: \<open>nets k\<close> is the network at the \<open>k\<close>-th poll, and \<open>took k\<close> the
  time that the poll takes; between two polls it sleeps for 200 ms. \<open>None\<close> is the error that no leader was elected in time.
\<close>

function wait_for_leader :: "(nat \<Rightarrow> network) \<Rightarrow> (nat \<Rightarrow> nat) \<Rightarrow> chaos \<Rightarrow> int \<Rightarrow> int \<Rightarrow> nat \<Rightarrow> int option" where
  "wait_for_leader nets took c deadline now k =
     (if now < deadline
      then let leader = chaos_GetLeader (nets k) c
           in if leader \<ge> 0 then Some leader
              else wait_for_leader nets took c deadline (now + int (took k) + 200 * 10 ^ 6) (Suc k)
      else None)"
  by pat_completeness auto
termination
  by (relation "measure (\<lambda>(nets, took, c, deadline, now, k). nat (deadline - now))") auto

declare wait_for_leader.simps [simp del]

definition WaitForLeader :: "(nat \<Rightarrow> network) \<Rightarrow> (nat \<Rightarrow> nat) \<Rightarrow> int \<Rightarrow> int \<Rightarrow> chaos \<Rightarrow> int option" where
  "WaitForLeader nets took now timeout c = wait_for_leader nets took c (now + timeout) now 0"


section \<open>What is started\<close>

definition started_node :: "nat \<Rightarrow> chaos_node" where
  "started_node i = \<lparr>cn_ID = int i, cn_Process = True, cn_HTTPPort = show_int (8001 + int i), cn_RPCPort = show_int (5001 + int i)\<rparr>"

lemma start_nodes_ok:
  assumes "\<forall>a. spawn (cc_BinaryPath c) a = None"
  shows "start_nodes spawn n is c = (None, c\<lparr>cc_Nodes := cc_Nodes c @ map (Some \<circ> started_node) is\<rparr>)"
  using assms by (induction "is" arbitrary: c) (simp_all add: started_node_def)

text \<open>A process that cannot be started: those before it run, and those after it are not started.\<close>

lemma start_nodes_fails:
  assumes "spawn (cc_BinaryPath c) (node_command n i) = Some err" and "\<forall>j \<in> set is. spawn (cc_BinaryPath c) (node_command n j) = None"
  shows "start_nodes spawn n (is @ i # js) c =
    (Some (''failed to start node '' @ show_int (int i) @ '': '' @ err), c\<lparr>cc_Nodes := cc_Nodes c @ map (Some \<circ> started_node) is\<rparr>)"
  using assms by (induction "is" arbitrary: c) (simp_all add: started_node_def)

lemma node_command_args:
  "node_command n i = node_args (\<lambda>_. (False, False)) (node_flags (map (\<lambda>i. ''localhost:'' @ show_int (5001 + int i)) [0..<n])
     (show_int (5001 + int i)) (show_int (8001 + int i)) (''http://localhost:'' @ ''%d'' @ []) i)"
  by (simp add: node_command_def node_args_def node_flags_def flag_args_def peerStr_def)

lemma decimal_no: "\<not> is_digit ch \<Longrightarrow> ch \<notin> set (decimal n)"
  using decimal_digits [of n] by auto

lemma port_digits: "ch = CHR '','' \<or> ch = CHR ''/'' \<Longrightarrow> ch \<notin> set (show_int (int n))"
  using decimal_no [of ch n] by (auto simp: show_int_def is_digit_def)

lemma chaos_peers:
  "\<forall>a \<in> set (map (\<lambda>i. ''localhost:'' @ show_int (5001 + int i)) [0..<n]). CHR '','' \<notin> set a"
  using port_digits [of "CHR '',''" "5001 + _"] by auto

text \<open>
  C38: The chaos tests start a cluster of the Raft theorems: with a program that can be started and empty disks, \<open>Start\<close> runs
  \<open>n\<close> nodes; the servers read from their command lines the numbers, addresses and ports that are meant, have empty
  stores, and together are an initial state of a cluster of \<open>n\<close> nodes. But the address under which they ask each
  other is not the one under which they are asked: node \<open>j\<close> listens for HTTP at port 8001 + \<open>j\<close>, and the others ask port \<open>j\<close>.
\<close>

theorem chaos_cluster_started:
  assumes "\<forall>i. fresh_env (env i)" and "\<forall>a. spawn binary a = None" and "0 < n" and "n < 2 ^ 63"
  shows "\<exists>cc c. cluster_Start spawn n (NewCluster binary) = (None, cc) \<and> LiveNodes cc = n \<and> cluster_new c \<and> cl_size c = n \<and>
    (\<forall>i < n. \<exists>sv. server_start (env i) (now i) (node_command n i) = Inr sv \<and> st_Raft (sv_store sv) = cl_node c i \<and>
       rf_peers (cl_node c i) = map (\<lambda>j. j \<noteq> i) [0..<n] \<and> (\<forall>k. store_Get sum64 (sv_store sv) k = Inr ([], False)) \<and>
       cc_Nodes cc ! i = Some \<lparr>cn_ID = sf_id (sv_flags sv), cn_Process = True, cn_HTTPPort = sf_http (sv_flags sv),
         cn_RPCPort = sf_port (sv_flags sv)\<rparr> \<and> sf_http (sv_flags sv) = show_int (8001 + int i) \<and>
       (\<forall>j. Sprintf1 other (sf_peerTemplate (sv_flags sv)) (Some j) = ''http://localhost:'' @ show_int j))"
proof -
  let ?ps = "map (\<lambda>i. ''localhost:'' @ show_int (5001 + int i)) [0..<n]"
  have ps: "?ps \<noteq> []" "length ?ps < 2 ^ 63" using assms(3,4) by simp_all
  let ?fl = "\<lambda>i. node_flags ?ps (show_int (5001 + int i)) (show_int (8001 + int i)) (''http://localhost:'' @ ''%d'' @ []) i"
  obtain c where c: "cluster_new c" "cl_size c = length ?ps"
    "\<forall>i < length ?ps. \<exists>sv. server_start (env i) (now i) (node_args (\<lambda>_. (False, False)) (?fl i)) = Inr sv \<and> sv_flags sv = ?fl i \<and>
       st_Raft (sv_store sv) = cl_node c i \<and> rf_peers (cl_node c i) = map (\<lambda>j. j \<noteq> i) [0..<length ?ps] \<and>
       (\<forall>k. store_Get sum64 (sv_store sv) k = Inr ([], False))"
    using form_cluster [OF assms(1) ps(1) chaos_peers ps(2), of now "\<lambda>_ _. (False, False)" "\<lambda>i. show_int (5001 + int i)"
        "\<lambda>i. show_int (8001 + int i)" "''http://localhost:'' @ ''%d'' @ []" sum64] by blast
  have start: "cluster_Start spawn n (NewCluster binary) = (None, \<lparr>cc_Nodes = map (Some \<circ> started_node) [0..<n], cc_BinaryPath = binary\<rparr>)"
    using start_nodes_ok [of spawn "NewCluster binary"] assms(2) by (simp add: cluster_Start_def NewCluster_def)
  have "filter running (map (Some \<circ> started_node) [0..<n]) = map (Some \<circ> started_node) [0..<n]"
    by (rule filter_True) (auto simp: running_def started_node_def)
  then have "LiveNodes \<lparr>cc_Nodes = map (Some \<circ> started_node) [0..<n], cc_BinaryPath = binary\<rparr> = n" by (simp add: LiveNodes_def)
  moreover have "\<exists>sv. server_start (env i) (now i) (node_command n i) = Inr sv \<and> st_Raft (sv_store sv) = cl_node c i \<and>
       rf_peers (cl_node c i) = map (\<lambda>j. j \<noteq> i) [0..<n] \<and> (\<forall>k. store_Get sum64 (sv_store sv) k = Inr ([], False)) \<and>
       map (Some \<circ> started_node) [0..<n] ! i = Some \<lparr>cn_ID = sf_id (sv_flags sv), cn_Process = True, cn_HTTPPort = sf_http (sv_flags sv),
         cn_RPCPort = sf_port (sv_flags sv)\<rparr> \<and> sf_http (sv_flags sv) = show_int (8001 + int i) \<and>
       (\<forall>j. Sprintf1 other (sf_peerTemplate (sv_flags sv)) (Some j) = ''http://localhost:'' @ show_int j)" if i: "i < n" for i
  proof -
    obtain sv where sv: "server_start (env i) (now i) (node_command n i) = Inr sv" "sv_flags sv = ?fl i" "st_Raft (sv_store sv) = cl_node c i"
      "rf_peers (cl_node c i) = map (\<lambda>j. j \<noteq> i) [0..<n]" "\<forall>k. store_Get sum64 (sv_store sv) k = Inr ([], False)"
      using c(3) i unfolding node_command_args by auto
    have "Sprintf1 other (sf_peerTemplate (?fl i)) (Some j) = ''http://localhost:'' @ show_int j" for j
      using Sprintf1_d [of "''http://localhost:''" "[]" other j] by (simp add: node_flags_def)
    with sv i show ?thesis by (intro exI [of _ sv]) (simp add: started_node_def node_flags_def)
  qed
  ultimately show ?thesis using start c(1,2) by (intro exI conjI) auto
qed

theorem chaos_cluster_started_witness:
  "\<exists>cc c. cluster_Start (\<lambda>_ _. None) 3 (NewCluster ''kv-server'') = (None, cc) \<and> LiveNodes cc = 3 \<and> cluster_new c \<and> cl_size c = 3 \<and>
     (\<exists>sv. server_start demo_env 0 (node_command 3 2) = Inr sv \<and> st_Raft (sv_store sv) = cl_node c 2 \<and>
        Sprintf1 (\<lambda>_ _. []) (sf_peerTemplate (sv_flags sv)) (Some 2) = ''http://localhost:'' @ show_int 2)"
proof -
  have "2 < (3 :: nat)" by simp
  then show ?thesis
    using chaos_cluster_started [of "\<lambda>_. demo_env" "\<lambda>_ _. None" "''kv-server''" 3 "\<lambda>_. 0" "\<lambda>_. 0" "\<lambda>_ _. []"] fresh_demo_env by fastforce
qed

section \<open>Requests to the leader\<close>

text \<open>The servers of the cluster are asked under their ports; requests to other ports fail, or cannot be made.\<close>

definition cluster_ports :: "nat \<Rightarrow> string set" where
  "cluster_ports n = (\<Union>i \<in> {..<n}. {show_int (5001 + int i), show_int (8001 + int i)})"

definition only_cluster :: "nat \<Rightarrow> network \<Rightarrow> bool" where
  "only_cluster n net \<longleftrightarrow> (\<forall>m port path. CHR ''/'' \<notin> set port \<longrightarrow> port \<notin> cluster_ports n \<longrightarrow>
     net m (''http://localhost:'' @ port @ ''/'' @ path) \<in> {SendFailed, RequestInvalid})"

text \<open>
  C39: In a chaos cluster of at most 5001 nodes no write reaches the leader through another node: the servers ask port \<open>j\<close> for
  node \<open>j\<close>, which is a port of none of the nodes. So a node that knows another node as the leader, and whose store refuses the write
  with \<open>not leader\<close>, answers every put with 503, or with 500 if no request can be made with the key and the value in its URL.
  The other ports of the machine are closed.
\<close>

theorem chaos_forward_fails:
  assumes "fresh_env env" and "i < n" and "n \<le> 5001" and "server_start env now (node_command n i) = Inr sv"
    and "only_cluster n net" and "GetLeader rf = int j" and "j < n" and "j \<noteq> i"
    and "\<forall>key val d. put key val d = Some ''not leader''"
  shows "handlePut put net rf (sf_id (sv_flags sv)) (\<lambda>k. Sprintf1 other (sf_peerTemplate (sv_flags sv)) (Some k)) r =
    (if net (hr_Method r) (''http://localhost:'' @ show_int (int j) @ ''/put?key='' @ query_param r ''key'' @ ''&val='' @ query_param r ''val'') = RequestInvalid
     then http_Error ''Failed to create forwarding request'' 500 else http_Error ''Failed to forward request to leader'' 503)"
proof -
  let ?ps = "map (\<lambda>i. ''localhost:'' @ show_int (5001 + int i)) [0..<n]"
  have fl: "sv_flags sv = node_flags ?ps (show_int (5001 + int i)) (show_int (8001 + int i)) (''http://localhost:'' @ ''%d'' @ []) i"
    using server_start_node [OF assms(1) _ chaos_peers _ _, of n i now "\<lambda>_. (False, False)" "show_int (5001 + int i)" "show_int (8001 + int i)"
      "''http://localhost:'' @ ''%d'' @ []"] assms(2-4) unfolding node_command_args by auto
  have "Sprintf1 other (sf_peerTemplate (sv_flags sv)) (Some k) = ''http://localhost:'' @ show_int k" for k
    using Sprintf1_d [of "''http://localhost:''" "[]" other k] by (simp add: fl node_flags_def)
  moreover have "show_int (int j) \<notin> cluster_ports n" using assms(3,7) by (auto simp: cluster_ports_def)
  then have "net m (''http://localhost:'' @ show_int (int j) @ ''/'' @ path) \<in> {SendFailed, RequestInvalid}" for m path
    using assms(5) port_digits [of "CHR ''/''" j] by (simp add: only_cluster_def)
  then have "net m (''http://localhost:'' @ show_int (int j) @ ''/put?key='' @ path) \<in> {SendFailed, RequestInvalid}" for m path
    by (metis append_Cons append_Nil)
  ultimately show ?thesis
    using assms(6,8,9) by (simp add: handlePut_def put_failed_def forwardToLeader_def fl node_flags_def Let_def split: http_outcome.split)
      (metis http_outcome.distinct insertE singletonD)
qed

lemma chaos_server:
  assumes "0 < n" and "n < 2 ^ 63" and "i < n" and "fresh_env env"
  shows "\<exists>sv. server_start env now (node_command n i) = Inr sv"
proof -
  let ?ps = "map (\<lambda>i. ''localhost:'' @ show_int (5001 + int i)) [0..<n]"
  have "?ps \<noteq> []" "length ?ps < 2 ^ 63" "i < length ?ps" using assms(1-3) by auto
  from server_start_node [OF assms(4) this(1) chaos_peers this(2,3)] show ?thesis unfolding node_command_args by blast
qed

theorem chaos_forward_fails_witness:
  "\<exists>sv. server_start demo_env 0 (node_command 3 0) = Inr sv \<and>
     handlePut (\<lambda>_ _ _. Some ''not leader'') (\<lambda>_ _. SendFailed) (Http_Server.demo_node 1) (sf_id (sv_flags sv))
       (\<lambda>k. Sprintf1 (\<lambda>_ _. []) (sf_peerTemplate (sv_flags sv)) (Some k)) (Http_Server.demo_request ''k'' ''v'') =
     http_Error ''Failed to forward request to leader'' 503"
proof -
  obtain sv where sv: "server_start demo_env 0 (node_command 3 0) = Inr sv"
    using chaos_server [of 3 0 demo_env 0] fresh_demo_env by auto
  have "only_cluster 3 (\<lambda>_ _. SendFailed)" "GetLeader (Http_Server.demo_node 1) = int 1" by (simp_all add: only_cluster_def Http_Server.demo_node_def GetLeader_def)
  from chaos_forward_fails [OF fresh_demo_env _ _ sv this] show ?thesis using sv by auto
qed

section \<open>Killed nodes and polls\<close>

lemma KillNode_running:
  assumes "KillNode signal nodeID c = Inr (None, c')"
  shows "running (cc_Nodes c ! nat nodeID) \<and> \<not> running (cc_Nodes c' ! nat nodeID) \<and> LiveNodes c = Suc (LiveNodes c') \<and>
    (\<forall>j. j \<noteq> nat nodeID \<longrightarrow> cc_Nodes c' ! j = cc_Nodes c ! j)"
proof -
  obtain nd where nd: "nodeID < int (length (cc_Nodes c))" "0 \<le> nodeID" "cc_Nodes c ! nat nodeID = Some nd" "cn_Process nd"
    "c' = c\<lparr>cc_Nodes := (cc_Nodes c)[nat nodeID := Some (nd\<lparr>cn_Process := False\<rparr>)]\<rparr>"
    using assms by (auto simp: KillNode_def split: if_splits option.splits)
  let ?xs = "cc_Nodes c" and ?i = "nat nodeID"
  have i: "?i < length ?xs" using nd(1,2) by linarith
  have "length (filter running ?xs) = Suc (length (filter running (?xs[?i := Some (nd\<lparr>cn_Process := False\<rparr>)])))"
    using nd(3,4) by (subst id_take_nth_drop [OF i]) (simp add: upd_conv_take_nth_drop [OF i] running_def)
  then show ?thesis using nd i by (simp add: running_def LiveNodes_def)
qed

text \<open>The polls end; they give a leader that one of them has found, and no leader only if every poll before the deadline found none.\<close>

lemma wait_for_leader_Some:
  "wait_for_leader nets took c deadline now k = Some l \<Longrightarrow> \<exists>k' \<ge> k. chaos_GetLeader (nets k') c = l \<and> 0 \<le> l"
proof (induction nets took c deadline now k rule: wait_for_leader.induct)
  case (1 nets took c deadline now k)
  then show ?case
    by (subst (asm) (2) wait_for_leader.simps) (auto simp: Let_def split: if_splits dest: Suc_leD)
qed

lemma wait_for_leader_None:
  assumes "wait_for_leader nets took c deadline now k = None" and "now < deadline"
  shows "chaos_GetLeader (nets k) c < 0"
  using assms by (subst (asm) wait_for_leader.simps) (auto simp: Let_def split: if_splits)

text \<open>The leader that is found is a running node that has taken the write of \<open>__leader_check__\<close>.\<close>

lemma first_accepting_Some:
  "first_accepting net key val nds = Some x \<Longrightarrow>
     Some x \<in> set nds \<and> cn_Process x \<and> (\<exists>body complete. net ''GET'' (chaos_put_url x key val) = Answer 200 body complete)"
  by (induction net key val nds rule: first_accepting.induct) (auto split: option.splits if_splits http_outcome.splits)

lemma first_accepting_None:
  "first_accepting net key val nds = None \<longleftrightarrow>
     (\<forall>x. Some x \<in> set nds \<longrightarrow> cn_Process x \<longrightarrow> (\<forall>body complete. net ''GET'' (chaos_put_url x key val) \<noteq> Answer 200 body complete))"
  by (induction net key val nds rule: first_accepting.induct) (auto split: option.splits if_splits http_outcome.splits)

end
