(* ===== verification/Metrics.thy ===== *)
theory Metrics
  imports Compaction
begin

text \<open>
  The gauges of \<^verbatim>\<open>pkg/metrics\<close> and the two functions that set them: \<open>reportMetrics\<close> of the Raft
  node and \<open>reportLevelMetrics\<close> of the store. A gauge vector is a map from its name and the
  values of its labels to the value last set; the values are counts and sizes, exact in
  \<open>float64\<close> below \<open>2 ^ 53\<close>. The lemma shows that the level gauges count the files that the compaction
  of the level would take.
\<close>

type_synonym gauges = "string \<times> string list \<rightharpoonup> int"

section \<open>Gauge names (\<open>metrics.go\<close>)\<close>

definition TermGauge :: string where "TermGauge = ''raft_current_term''"
definition CommitIndexGauge :: string where "CommitIndexGauge = ''raft_commit_index''"
definition StateGauge :: string where "StateGauge = ''raft_state''"
definition LeaderGauge :: string where "LeaderGauge = ''raft_leader''"
definition LevelFileCount :: string where "LevelFileCount = ''kv_level_file_count''"
definition LevelSize :: string where "LevelSize = ''kv_level_size_bytes''"

section \<open>The Raft node (\<open>raft.go\<close>)\<close>

fun state_number :: "raft_state \<Rightarrow> int" where
  "state_number Follower = 0"
| "state_number Candidate = 1"
| "state_number Leader = 2"

definition reportMetrics :: "raft \<Rightarrow> gauges \<Rightarrow> gauges" where
  "reportMetrics rf g =
     (let id = show_int (rf_me rf)
      in g((TermGauge, [id]) \<mapsto> rf_currentTerm rf, (CommitIndexGauge, [id]) \<mapsto> rf_commitIndex rf,
           (StateGauge, [id]) \<mapsto> state_number (rf_state rf), (LeaderGauge, [id]) \<mapsto> rf_leaderId rf))"

section \<open>The store (\<open>compact.go\<close>)\<close>

text \<open>
  \<open>Sscanf\<close> with \<^verbatim>\<open>L%d_\<close>, whose errors are ignored: the number behind the \<^verbatim>\<open>L\<close>, or 0 if there is none. File
  names have no blanks; numbers are below \<open>2 ^ 63\<close>.
\<close>

definition scan_level :: "string \<Rightarrow> int" where
  "scan_level f =
     (if \<not> HasPrefix f ''L'' then 0
      else let s = drop 1 f; sign = (s \<noteq> [] \<and> hd s \<in> {CHR ''+'', CHR ''-''});
               n = int (nat_of_digits (takeWhile is_digit (if sign then tl s else s)) 0)
           in if sign \<and> hd s = CHR ''-'' then - n else n)"

text \<open>The loop over the directory: the number of the files of each level and their sizes, as Go maps.\<close>

definition aget :: "(int \<times> int) list \<Rightarrow> int \<Rightarrow> int" where
  "aget m k = (case map_of m k of Some v \<Rightarrow> v | None \<Rightarrow> 0)"

fun level_stats :: "directory \<Rightarrow> (int \<times> int) list \<Rightarrow> (int \<times> int) list \<Rightarrow> (int \<times> int) list \<times> (int \<times> int) list" where
  "level_stats [] levelCounts levelSizes = (levelCounts, levelSizes)"
| "level_stats ((f, c) # fs) levelCounts levelSizes =
     (if HasSuffix f ''.sst''
      then let level = scan_level f
           in level_stats fs (AList.update level (aget levelCounts level + 1) levelCounts)
                (AList.update level (aget levelSizes level + int (length c)) levelSizes)
      else level_stats fs levelCounts levelSizes)"

definition set_level :: "string \<Rightarrow> (int \<times> int) list \<Rightarrow> int \<times> int \<Rightarrow> gauges \<Rightarrow> gauges" where
  "set_level idStr levelSizes lc g =
     (case lc of (lvl, cnt) \<Rightarrow>
      let lvlStr = show_int lvl
      in g((LevelFileCount, [idStr, lvlStr]) \<mapsto> cnt, (LevelSize, [idStr, lvlStr]) \<mapsto> aget levelSizes lvl))"

definition reportLevelMetrics :: "store \<Rightarrow> int \<Rightarrow> gauges \<Rightarrow> gauges" where
  "reportLevelMetrics s me g =
     (let (levelCounts, levelSizes) = level_stats (st_SstDir s) [] []
      in fold (set_level (show_int me) levelSizes) levelCounts g)"

section \<open>What the level gauges say\<close>

definition level_files :: "int \<Rightarrow> directory \<Rightarrow> (string \<times> bytes) list" where
  "level_files lvl dir = filter (\<lambda>(f, c). HasSuffix f ''.sst'' \<and> scan_level f = lvl) dir"

definition level_bytes :: "int \<Rightarrow> directory \<Rightarrow> int" where
  "level_bytes lvl dir = sum_list (map (\<lambda>(f, c). int (length c)) (level_files lvl dir))"

lemma aget_update: "aget (AList.update a x m) k = (if k = a then x else aget m k)"
  by (simp add: aget_def update_conv')

lemma level_stats_spec:
  "level_stats dir cs zs = (cs', zs') \<Longrightarrow> distinct (map fst cs) \<Longrightarrow>
     distinct (map fst cs') \<and> aget cs' lvl = aget cs lvl + int (length (level_files lvl dir)) \<and>
     aget zs' lvl = aget zs lvl + level_bytes lvl dir \<and>
     (lvl \<in> fst ` set cs' \<longleftrightarrow> lvl \<in> fst ` set cs \<or> level_files lvl dir \<noteq> [])"
proof (induction dir cs zs rule: level_stats.induct)
  case (2 f c fs cs zs)
  show ?case
  proof (cases "HasSuffix f ''.sst''")
    case True
    let ?l = "scan_level f"
    from 2(3) True have "level_stats fs (AList.update ?l (aget cs ?l + 1) cs) (AList.update ?l (aget zs ?l + int (length c)) zs) = (cs', zs')"
      by (simp add: Let_def)
    from 2(1) [OF True refl this distinct_update [OF 2(4)]] True show ?thesis
      by (auto simp: aget_update level_files_def level_bytes_def dom_update)
  next
    case False
    with 2 show ?thesis by (simp add: level_files_def level_bytes_def)
  qed
qed (simp add: level_files_def level_bytes_def)

lemma set_level_get:
  "set_level i zs (l, n) g (LevelFileCount, [i, show_int lvl]) = (if l = lvl then Some n else g (LevelFileCount, [i, show_int lvl]))"
  "set_level i zs (l, n) g (LevelSize, [i, show_int lvl]) = (if l = lvl then Some (aget zs l) else g (LevelSize, [i, show_int lvl]))"
proof -
  have "LevelFileCount \<noteq> LevelSize" by (simp add: LevelFileCount_def LevelSize_def)
  then show "set_level i zs (l, n) g (LevelFileCount, [i, show_int lvl]) = (if l = lvl then Some n else g (LevelFileCount, [i, show_int lvl]))"
    "set_level i zs (l, n) g (LevelSize, [i, show_int lvl]) = (if l = lvl then Some (aget zs l) else g (LevelSize, [i, show_int lvl]))"
    by (auto simp: set_level_def Let_def)
qed

lemma set_levels_count:
  "distinct (map fst cs) \<Longrightarrow> fold (set_level i zs) cs g (LevelFileCount, [i, show_int lvl]) =
     (case map_of cs lvl of Some n \<Rightarrow> Some n | None \<Rightarrow> g (LevelFileCount, [i, show_int lvl]))"
proof (induction cs arbitrary: g)
  case (Cons c cs)
  then have "map_of cs (fst c) = None" by (simp add: map_of_eq_None_iff)
  with Cons show ?case by (cases c) (simp add: set_level_get split: option.splits)
qed simp

lemma set_levels_size:
  "distinct (map fst cs) \<Longrightarrow> fold (set_level i zs) cs g (LevelSize, [i, show_int lvl]) =
     (case map_of cs lvl of Some n \<Rightarrow> Some (aget zs lvl) | None \<Rightarrow> g (LevelSize, [i, show_int lvl]))"
proof (induction cs arbitrary: g)
  case (Cons c cs)
  then have "map_of cs (fst c) = None" by (simp add: map_of_eq_None_iff)
  with Cons show ?case by (cases c) (simp add: set_level_get split: option.splits)
qed simp

text \<open>
  After a report the gauges of every level that has files are the number of its files and their total
  size; the gauges of other levels are untouched, so a level that has lost its last file keeps its
  old numbers.
\<close>

lemma level_gauges:
  "reportLevelMetrics s me g (LevelFileCount, [show_int me, show_int lvl]) =
     (if level_files lvl (st_SstDir s) \<noteq> [] then Some (int (length (level_files lvl (st_SstDir s))))
      else g (LevelFileCount, [show_int me, show_int lvl]))"
  "reportLevelMetrics s me g (LevelSize, [show_int me, show_int lvl]) =
     (if level_files lvl (st_SstDir s) \<noteq> [] then Some (level_bytes lvl (st_SstDir s))
      else g (LevelSize, [show_int me, show_int lvl]))"
proof -
  obtain cs zs where st: "level_stats (st_SstDir s) [] [] = (cs, zs)" by (cases "level_stats (st_SstDir s) [] []")
  note spec = level_stats_spec [OF st, of lvl]
  have "map_of cs lvl = (if level_files lvl (st_SstDir s) \<noteq> [] then Some (int (length (level_files lvl (st_SstDir s)))) else None)"
  proof (cases "map_of cs lvl")
    case None
    then show ?thesis using spec by (simp add: map_of_eq_None_iff)
  next
    case (Some n)
    then have "lvl \<in> fst ` set cs" by (metis image_eqI fst_conv map_of_SomeD)
    moreover have "aget cs lvl = n" using Some by (simp add: aget_def)
    moreover have "aget [] lvl = 0" by (simp add: aget_def)
    ultimately show ?thesis using Some spec by simp
  qed
  with spec show "reportLevelMetrics s me g (LevelFileCount, [show_int me, show_int lvl]) =
     (if level_files lvl (st_SstDir s) \<noteq> [] then Some (int (length (level_files lvl (st_SstDir s))))
      else g (LevelFileCount, [show_int me, show_int lvl]))"
    "reportLevelMetrics s me g (LevelSize, [show_int me, show_int lvl]) =
     (if level_files lvl (st_SstDir s) \<noteq> [] then Some (level_bytes lvl (st_SstDir s))
      else g (LevelSize, [show_int me, show_int lvl]))"
    by (simp_all add: reportLevelMetrics_def st set_levels_count set_levels_size aget_def [of "[]"])
qed

text \<open>The level scanned from a name that the store makes, and the agreement with the choice of a compaction.\<close>

lemma scan_level_decimal: "scan_level (''L'' @ decimal level @ CHR ''_'' # w) = int level"
proof -
  have t: "takeWhile is_digit (decimal level @ CHR ''_'' # w) = decimal level"
    using decimal_digits(1) [of level] by (simp add: takeWhile_append takeWhile_eq_all_conv is_digit_def)
  have "is_digit (hd (decimal level))" using decimal_digits [of level] by simp
  then have "hd (decimal level) \<noteq> CHR ''+''" "hd (decimal level) \<noteq> CHR ''-''" using not_digit(2,3) by metis+
  then show ?thesis
    using t decimal_digits(2) [of level] by (simp add: scan_level_def HasPrefix_def Let_def)
qed

lemma scan_level_sst_name: "scan_level (sst_name level now) = int level"
  using scan_level_decimal [of level "decimal now @ ''.sst''"] by (simp add: sst_name_def)

lemma level_files_compacted:
  assumes "\<forall>f \<in> set (map fst dir). \<exists>l now. f = sst_name l now"
  shows "length (level_files (int level) dir) = length (getFilesForLevel level dir)"
proof -
  have "HasPrefix (sst_name l now) (''L'' @ decimal level @ ''_'') \<longleftrightarrow> l = level" for l now
  proof
    assume "HasPrefix (sst_name l now) (''L'' @ decimal level @ ''_'')"
    then obtain w where "sst_name l now = (''L'' @ decimal level @ ''_'') @ w"
      unfolding HasPrefix_def by (metis append_take_drop_id)
    then have "scan_level (sst_name l now) = int level" using scan_level_decimal [of level w] by simp
    then show "l = level" by (simp add: scan_level_sst_name)
  qed (simp add: sst_name_def HasPrefix_def)
  then have "(HasSuffix f ''.sst'' \<and> scan_level f = int level) = (HasPrefix f (''L'' @ decimal level @ ''_'') \<and> HasSuffix f ''.sst'')"
    if f: "x \<in> set dir" "f = fst x" for f x
  proof -
    have "f \<in> set (map fst dir)" using f by simp
    with assms obtain l now where "f = sst_name l now" by blast
    then show ?thesis using \<open>\<And>l now. HasPrefix (sst_name l now) (''L'' @ decimal level @ ''_'') \<longleftrightarrow> l = level\<close>
      by (auto simp: scan_level_sst_name)
  qed
  then have "map fst (level_files (int level) dir) = filter (\<lambda>f. HasPrefix f (''L'' @ decimal level @ ''_'') \<and> HasSuffix f ''.sst'') (map fst dir)"
    unfolding level_files_def filter_map comp_def by (intro arg_cong [of _ _ "map fst"] filter_cong) (simp_all only: split_beta)
  from arg_cong [OF this, of length] show ?thesis by (simp add: getFilesForLevel_def sort_reverse_def)
qed

end
