(* ===== verification/Go_Path.thy ===== *)
theory Go_Path
  imports Go_Strings
begin

text \<open>
  The functions of Go's \<open>path/filepath\<close> that the client uses for its configuration file, on a system
  with slashes: \<open>Clean\<close> as one pass over the components with a stack, \<open>Join\<close> of two elements, and \<open>Dir\<close>.
  The lemmas show that \<open>Clean\<close> is idempotent and that the directory of a file joined to a directory is
  that directory.
\<close>

text \<open>One component: empty and \<^verbatim>\<open>.\<close> are dropped, \<^verbatim>\<open>..\<close> takes back the component before it, if there is one.\<close>

definition clean_step :: "bool \<Rightarrow> string \<Rightarrow> string list \<Rightarrow> string list" where
  "clean_step rooted w st =
     (if w = [] \<or> w = ''.'' then st
      else if w = ''..''
      then (case st of
              [] \<Rightarrow> if rooted then [] else [''..'']
            | v # vs \<Rightarrow> if v = ''..'' then ''..'' # st else vs)
      else w # st)"

definition is_rooted :: "string \<Rightarrow> bool" where
  "is_rooted p \<longleftrightarrow> take 1 p = ''/''"

definition clean_stack :: "string \<Rightarrow> string list" where
  "clean_stack p = fold (clean_step (is_rooted p)) (strings_Split CHR ''/'' p) []"

definition unstack :: "bool \<Rightarrow> string list \<Rightarrow> string" where
  "unstack rooted st =
     (let out = (if rooted then ''/'' else []) @ Join (rev st) ''/'' in if out = [] then ''.'' else out)"

definition filepath_Clean :: "string \<Rightarrow> string" where
  "filepath_Clean p = unstack (is_rooted p) (clean_stack p)"

definition filepath_Join2 :: "string \<Rightarrow> string \<Rightarrow> string" where
  "filepath_Join2 a b =
     (if a \<noteq> [] then filepath_Clean (a @ ''/'' @ b) else if b \<noteq> [] then filepath_Clean b else [])"

definition filepath_Dir :: "string \<Rightarrow> string" where
  "filepath_Dir p = filepath_Clean (rev (dropWhile (\<lambda>c. c \<noteq> CHR ''/'') (rev p)))"

section \<open>Clean paths\<close>

text \<open>The stacks that \<open>Clean\<close> builds: \<^verbatim>\<open>..\<close> only at the bottom, and not at all below the root.\<close>

fun stack_ok :: "bool \<Rightarrow> string list \<Rightarrow> bool" where
  "stack_ok rooted [] = True"
| "stack_ok rooted (w # st) =
     (w \<noteq> [] \<and> w \<noteq> ''.'' \<and> CHR ''/'' \<notin> set w \<and> stack_ok rooted st \<and> (w = ''..'' \<longrightarrow> \<not> rooted \<and> set st \<subseteq> {''..''}))"

lemma stack_ok_comps: "stack_ok rooted st \<Longrightarrow> w \<in> set st \<Longrightarrow> w \<noteq> [] \<and> CHR ''/'' \<notin> set w"
  by (induction st) auto

lemma strings_Split_notin: "w \<in> set (strings_Split c s) \<Longrightarrow> c \<notin> set w"
  by (induction s arbitrary: w) (auto split: list.splits if_splits)

lemma clean_step_ok:
  assumes "stack_ok rooted st" and "CHR ''/'' \<notin> set w"
  shows "stack_ok rooted (clean_step rooted w st)"
  using assms by (auto simp: clean_step_def split: list.splits)

lemma clean_steps_ok:
  "stack_ok rooted st \<Longrightarrow> \<forall>w \<in> set ws. CHR ''/'' \<notin> set w \<Longrightarrow> stack_ok rooted (fold (clean_step rooted) ws st)"
  by (induction ws arbitrary: st) (simp_all add: clean_step_ok)

lemma clean_stack_ok: "stack_ok (is_rooted p) (clean_stack p)"
  unfolding clean_stack_def by (rule clean_steps_ok) (auto dest: strings_Split_notin)

text \<open>The components of a clean path are taken as they are.\<close>

lemma clean_step_push: "stack_ok rooted (w # st) \<Longrightarrow> clean_step rooted w st = w # st"
  by (cases st) (auto simp: clean_step_def)

lemma clean_stack_again: "stack_ok rooted st \<Longrightarrow> fold (clean_step rooted) (rev st) [] = st"
proof (induction st)
  case (Cons w st)
  then show ?case using clean_step_push [OF Cons.prems] by simp
qed simp

lemma clean_step_Nil [simp]: "clean_step rooted [] st = st"
  by (simp add: clean_step_def)

lemma is_rooted_append [simp]: "p \<noteq> [] \<Longrightarrow> is_rooted (p @ q) = is_rooted p"
  by (cases p) (simp_all add: is_rooted_def)

lemma clean_trailing: "p \<noteq> [] \<Longrightarrow> filepath_Clean (p @ ''/'') = filepath_Clean p"
  by (simp add: filepath_Clean_def clean_stack_def strings_Split_trailing)

lemma unstack_rooted: "stack_ok rooted st \<Longrightarrow> is_rooted (unstack rooted st) = rooted"
proof (cases st rule: rev_cases)
  case (snoc vs v)
  assume "stack_ok rooted st"
  then have "v \<noteq> []" "CHR ''/'' \<notin> set v" using stack_ok_comps [of rooted st v] snoc by auto
  then show ?thesis
    by (cases v; cases "vs = []") (auto simp: snoc unstack_def Let_def is_rooted_def Join_Cons)
qed (simp add: unstack_def is_rooted_def)

lemma Join_stack:
  assumes "stack_ok rooted st" and "st \<noteq> []"
  shows "Join (rev st) ''/'' \<noteq> []"
proof (cases st rule: rev_cases)
  case (snoc vs v)
  then have "v \<noteq> []" using stack_ok_comps [OF assms(1), of v] by simp
  then show ?thesis by (cases "vs = []") (simp_all add: snoc Join_Cons)
qed (use assms(2) in simp)

lemma unstack_stack:
  assumes "stack_ok rooted st"
  shows "clean_stack (unstack rooted st) = st"
proof (cases "st = []")
  case True
  then show ?thesis by (cases rooted) (simp_all add: unstack_def clean_stack_def is_rooted_def clean_step_def)
next
  case False
  have split: "strings_Split CHR ''/'' (Join (rev st) ''/'') = rev st"
    using stack_ok_comps [OF assms] False by (intro strings_Split_Join) auto
  have "Join (rev st) ''/'' \<noteq> []" by (rule Join_stack [OF assms False])
  then have "strings_Split CHR ''/'' (unstack rooted st) = (if rooted then [[]] else []) @ rev st"
    using split by (simp add: unstack_def Let_def)
  then show ?thesis
    unfolding clean_stack_def unstack_rooted [OF assms] using clean_stack_again [OF assms] by (cases rooted) simp_all
qed

lemma Clean_unstack: "stack_ok rooted st \<Longrightarrow> filepath_Clean (unstack rooted st) = unstack rooted st"
  by (simp add: filepath_Clean_def unstack_stack unstack_rooted)

lemma Clean_idem: "filepath_Clean (filepath_Clean p) = filepath_Clean p"
  unfolding filepath_Clean_def [of p] by (rule Clean_unstack [OF clean_stack_ok])

section \<open>The directory of a file\<close>

definition file_name :: "string \<Rightarrow> bool" where
  "file_name n \<longleftrightarrow> n \<notin> {[], ''.'', ''..''} \<and> CHR ''/'' \<notin> set n"

lemma Join2_stack:
  assumes "h \<noteq> []" and "file_name n"
  shows "filepath_Join2 h n = unstack (is_rooted h) (n # clean_stack h)"
  using assms by (simp add: filepath_Join2_def filepath_Clean_def clean_stack_def strings_Split_snoc file_name_def clean_step_def)

lemma dir_part:
  assumes "CHR ''/'' \<notin> set n"
  shows "rev (dropWhile (\<lambda>c. c \<noteq> CHR ''/'') (rev (p @ CHR ''/'' # n))) = p @ ''/''"
    and "rev (dropWhile (\<lambda>c. c \<noteq> CHR ''/'') (rev n)) = []"
proof -
  have a: "\<forall>c \<in> set (rev n). c \<noteq> CHR ''/''" using assms by auto
  then show "rev (dropWhile (\<lambda>c. c \<noteq> CHR ''/'') (rev (p @ CHR ''/'' # n))) = p @ ''/''"
    using dropWhile_append2 [of "rev n" "\<lambda>c. c \<noteq> CHR ''/''" "CHR ''/'' # rev p"] by simp
  from a show "rev (dropWhile (\<lambda>c. c \<noteq> CHR ''/'') (rev n)) = []" by (simp add: dropWhile_eq_Nil_conv)
qed

lemma Dir_Join2:
  assumes "h \<noteq> []" and "file_name n"
  shows "filepath_Dir (filepath_Join2 h n) = filepath_Clean h"
proof -
  let ?r = "is_rooted h" and ?st = "clean_stack h"
  have n: "CHR ''/'' \<notin> set n" "n \<noteq> []" using assms(2) by (auto simp: file_name_def)
  have c: "filepath_Clean h = unstack ?r ?st" by (simp add: filepath_Clean_def)
  show ?thesis
  proof (cases "?st = []")
    case True
    have clean: "filepath_Clean ''/'' = unstack True []" "filepath_Clean [] = unstack False []"
      by (simp_all add: filepath_Clean_def clean_stack_def is_rooted_def)
    have "filepath_Join2 h n = (if ?r then [] @ CHR ''/'' # n else n)"
      using n(2) by (simp add: Join2_stack [OF assms] True unstack_def)
    then have "filepath_Dir (filepath_Join2 h n) = filepath_Clean (if ?r then [] @ ''/'' else [])"
      using dir_part(1) [OF n(1), of "[]"] dir_part(2) [OF n(1)] by (cases ?r) (simp_all only: filepath_Dir_def if_True if_False)
    then show ?thesis using clean by (simp add: c True)
  next
    case False
    let ?x = "(if ?r then ''/'' else []) @ Join (rev ?st) ''/''"
    have x: "?x \<noteq> []" "unstack ?r ?st = ?x"
      using Join_stack [OF clean_stack_ok False] by (simp_all add: unstack_def Let_def)
    have "filepath_Join2 h n = ?x @ CHR ''/'' # n"
      using False by (simp add: Join2_stack [OF assms] unstack_def Let_def Join_snoc)
    then have "filepath_Dir (filepath_Join2 h n) = filepath_Clean (?x @ ''/'')"
      by (simp only: filepath_Dir_def dir_part(1) [OF n(1)])
    also have "\<dots> = filepath_Clean h" using clean_trailing [OF x(1)] Clean_idem [of h] x(2) c by simp
    finally show ?thesis .
  qed
qed

end
