(* ===== verification/Cli.thy ===== *)
theory Cli
  imports Http_Server Go_Path
begin

text \<open>
  The command line client (\<^verbatim>\<open>cmd/cli/cmd\<close>): the commands \<open>put\<close>, \<open>get\<close> and \<open>delete\<close>, the HTTP
  request behind them, and the configuration file. The network is a function from method and URL
  to the outcome; the configuration file is its contents, or nothing if it cannot be read. What a
  command prints is its result. The lemmas compose the client with the server.
\<close>

section \<open>Configuration (\<open>sicliConfig.go\<close>)\<close>

record Config =
  cfg_ServerURL :: string
  cfg_Timeout :: int \<comment> \<open>nanoseconds\<close>

definition default_config :: Config where
  "default_config = \<lparr>cfg_ServerURL = ''http://localhost:8080'', cfg_Timeout = 30 * 10 ^ 9\<rparr>"

text \<open>\<open>json.MarshalIndent\<close> with two blanks.\<close>

definition marshal_config :: "Config \<Rightarrow> string" where
  "marshal_config c =
     (let nl = [CHR 0x0A] in
      ''{'' @ nl @ ''  '' @ json_string ''server_url'' @ '': '' @ json_string (cfg_ServerURL c) @ '','' @
      nl @ ''  '' @ json_string ''timeout'' @ '': '' @ json_int (cfg_Timeout c) @ nl @ ''}'')"

definition set_config_field :: "string \<Rightarrow> json \<Rightarrow> Config \<Rightarrow> Config option" where
  "set_config_field f v c =
     (if f = ''server_url''
      then (case v of JStr s \<Rightarrow> Some (c\<lparr>cfg_ServerURL := s\<rparr>) | _ \<Rightarrow> None)
      else (case v of
              JNum l \<Rightarrow> (case int_literal l of
                           Some i \<Rightarrow> if - (2 ^ 63) \<le> i \<and> i < 2 ^ 63 then Some (c\<lparr>cfg_Timeout := i\<rparr>) else None
                         | None \<Rightarrow> None)
            | _ \<Rightarrow> None))"

text \<open>
  The path of the file: no command sets the variable \<open>configFile\<close>, which is passed as it is. \<open>home\<close> is the
  value of \<^verbatim>\<open>HOME\<close>, without which \<open>os.UserHomeDir\<close> fails.
\<close>

definition getConfigPath :: "string \<Rightarrow> string \<Rightarrow> string" where
  "getConfigPath configFile home =
     (if configFile \<noteq> [] then configFile
      else if home = [] then ''.sicli-config.json''
      else filepath_Join2 home ''.sicli-config.json'')"

text \<open>The files that can be read, by path.\<close>

type_synonym files = "string \<rightharpoonup> string"

definition loadConfig :: "string \<Rightarrow> files \<Rightarrow> Config option" where
  "loadConfig home fs =
     (case fs (getConfigPath [] home) of
        None \<Rightarrow> None
      | Some data \<Rightarrow> unmarshal_struct [''server_url'', ''timeout''] set_config_field
          \<lparr>cfg_ServerURL = [], cfg_Timeout = 0\<rparr> data)"

text \<open>
  What comes of writing a file: it cannot be opened, the write breaks off after some characters of the
  truncated file, or it succeeds. \<open>mkdir_ok\<close> tells for which directories \<open>os.MkdirAll\<close> succeeds.
\<close>

datatype write_outcome = OpenFails | BreaksOff nat | Written

definition saveConfig :: "(string \<Rightarrow> bool) \<Rightarrow> write_outcome \<Rightarrow> string \<Rightarrow> files \<Rightarrow> Config \<Rightarrow> go_error option \<times> files" where
  "saveConfig mkdir_ok out home fs c =
     (let configPath = getConfigPath [] home; dir = filepath_Dir configPath
      in if \<not> mkdir_ok dir then (Some ErrOS, fs)
         else let data = marshal_config c
              in case out of
                   OpenFails \<Rightarrow> (Some ErrOS, fs)
                 | BreaksOff n \<Rightarrow> (Some ErrOS, fs(configPath \<mapsto> take n data))
                 | Written \<Rightarrow> (None, fs(configPath \<mapsto> data)))"

text \<open>The flags of \<open>config set\<close> when they are not given.\<close>

definition config_set_flags :: "string \<times> int" where
  "config_set_flags = ([], 0)"

definition configSet :: "(string \<Rightarrow> bool) \<Rightarrow> write_outcome \<Rightarrow> string \<Rightarrow> files \<Rightarrow> string \<times> int \<Rightarrow> string result \<times> files" where
  "configSet mkdir_ok out home fs flags =
     (let (setServerURL, setTimeout) = flags;
          config = (case loadConfig home fs of Some c \<Rightarrow> c | None \<Rightarrow> default_config);
          config = (if setServerURL \<noteq> [] then config\<lparr>cfg_ServerURL := setServerURL\<rparr> else config);
          config = (if setTimeout > 0 then config\<lparr>cfg_Timeout := setTimeout\<rparr> else config)
      in case saveConfig mkdir_ok out home fs config of
           (Some err, fs) \<Rightarrow> (Inl (Errorf ''failed to save config''), fs)
         | (None, fs) \<Rightarrow> (Inr ''Configuration updated'', fs))"

text \<open>
  \<open>Duration.String\<close>, for a number of nanoseconds: the fraction without trailing zeros (\<open>fmtFrac\<close>), small
  durations in the largest unit below a second, others in hours, minutes and seconds.
\<close>

fun fmtFrac :: "nat \<Rightarrow> nat \<Rightarrow> bool \<Rightarrow> string \<Rightarrow> string \<times> nat" where
  "fmtFrac v 0 print s = (if print then CHR ''.'' # s else s, v)"
| "fmtFrac v (Suc prec) print s =
     (let print = (print \<or> v mod 10 \<noteq> 0)
      in fmtFrac (v div 10) prec print (if print then digit (v mod 10) # s else s))"

definition duration_String :: "int \<Rightarrow> string" where
  "duration_String d =
     (let u = nat \<bar>d\<bar>; sign = (if d < 0 then ''-'' else []) in
      if u = 0 then ''0s''
      else if u < 10 ^ 9
      then let (prec, unit) = (if u < 10 ^ 3 then (0, ''ns'') else if u < 10 ^ 6 then (3, [CHR 0xC2, CHR 0xB5, CHR ''s'']) else (6, ''ms''));
               (frac, u) = fmtFrac u prec False []
           in sign @ decimal u @ frac @ unit
      else let (frac, u) = fmtFrac u 9 False [];
               secs = decimal (u mod 60) @ frac @ ''s''; m = u div 60; h = m div 60
           in sign @ (if m = 0 then secs
                      else (if h = 0 then [] else decimal h @ ''h'') @ decimal (m mod 60) @ ''m'' @ secs))"

text \<open>The lines that \<open>config show\<close> prints.\<close>

definition configShow :: "string \<Rightarrow> files \<Rightarrow> string list" where
  "configShow home fs =
     (let (first, config) = (case loadConfig home fs of
                               Some c \<Rightarrow> ([], c)
                             | None \<Rightarrow> ([''No configuration found, using defaults:''], default_config))
      in first @ [''Server URL: '' @ cfg_ServerURL config, ''Timeout: '' @ duration_String (cfg_Timeout config),
                  ''Config file: '' @ getConfigPath [] home])"

section \<open>Requests (\<open>root.go\<close>)\<close>

text \<open>The server address and the timeout of a command, given the values and presence of the flags.\<close>

definition persistentPreRun :: "bool \<Rightarrow> bool \<Rightarrow> string \<Rightarrow> files \<Rightarrow> string \<times> int \<Rightarrow> string \<times> int" where
  "persistentPreRun addrChanged timeoutChanged home fs flags =
     (case flags of (baseURL, timeout) \<Rightarrow>
      (if addrChanged then baseURL else (case loadConfig home fs of Some c \<Rightarrow> cfg_ServerURL c | None \<Rightarrow> baseURL),
       if timeoutChanged then timeout else (case loadConfig home fs of Some c \<Rightarrow> cfg_Timeout c | None \<Rightarrow> timeout)))"

text \<open>The flags of all commands when they are not given, and the exit status of the program.\<close>

definition persistent_flags :: "string \<times> int" where
  "persistent_flags = (''http://localhost:8080'', 30 * 10 ^ 9)"

definition Execute :: "'a result \<Rightarrow> nat" where
  "Execute r = (case r of Inl _ \<Rightarrow> 1 | Inr _ \<Rightarrow> 0)"

definition doRequest :: "network \<Rightarrow> string \<Rightarrow> string \<Rightarrow> string result" where
  "doRequest net meth url =
     (case net meth url of
        RequestInvalid \<Rightarrow> Inl (Errorf ''failed to create request'')
      | SendFailed \<Rightarrow> Inl (Errorf ''request failed'')
      | Answer code body complete \<Rightarrow>
          if \<not> complete then Inl (Errorf ''failed to read response'')
          else if code \<ge> 400 then Inl (Errorf (''server error ('' @ decimal code @ ''): '' @ go_string body))
          else Inr (go_string body))"

definition putCmd :: "network \<Rightarrow> string \<Rightarrow> string \<Rightarrow> string \<Rightarrow> string result" where
  "putCmd net baseURL key val =
     bindE (doRequest net ''POST'' (baseURL @ ''/put?key='' @ QueryEscape key @ ''&val='' @ QueryEscape val)) (\<lambda>_.
     Inr ''---Success---'')"

definition getCmd :: "network \<Rightarrow> string \<Rightarrow> string \<Rightarrow> string result" where
  "getCmd net baseURL key = doRequest net ''GET'' (baseURL @ ''/get?key='' @ QueryEscape key)"

definition deleteCmd :: "network \<Rightarrow> string \<Rightarrow> string \<Rightarrow> string result" where
  "deleteCmd net baseURL key =
     bindE (doRequest net ''DELETE'' (baseURL @ ''/delete?key='' @ QueryEscape key)) (\<lambda>_. Inr ''----Deleted---'')"

section \<open>The configuration is read back\<close>

lemma config_ws: "is_ws [CHR 0x0A, CHR '' '', CHR '' '']" "is_ws [CHR 0x0A]" "is_ws '' ''" "is_ws []"
  by (simp_all add: is_ws_def)

lemma parse_config:
  "parse_json (marshal_config c) = Some (JObj [(''server_url'', JStr (sanitize (cfg_ServerURL c))), (''timeout'', JNum (json_int (cfg_Timeout c)))])"
proof -
  let ?u = "json_string (cfg_ServerURL c)" and ?t = "json_int (cfg_Timeout c)"
  let ?w = "[CHR 0x0A, CHR '' '', CHR '' '']"
  let ?t2 = "?w @ json_string ''timeout'' @ CHR '':'' # ('' '' @ ?t) @ [CHR 0x0A] @ CHR ''}'' # []"
  let ?t1 = "?w @ json_string ''server_url'' @ CHR '':'' # ('' '' @ ?u) @ [] @ CHR '','' # ?t2"
  have tx: "marshal_config c = CHR ''{'' # ?t1" by (simp add: marshal_config_def)
  have "4 \<le> 2 * length (CHR ''{'' # ?t1) + 1" by simp
  then obtain n where n: "2 * length (CHR ''{'' # ?t1) + 1 = 4 + n" using le_Suc_ex by blast
  have "ends_number ([CHR 0x0A] @ CHR ''}'' # [])" by (simp add: ends_number_def is_digit_def)
  from parse_value_int [OF config_ws(3) this]
  have "parse_value (Suc n) (('' '' @ ?t) @ [CHR 0x0A] @ CHR ''}'' # []) = Some (JNum ?t, [CHR 0x0A] @ CHR ''}'' # [])"
    by (simp del: parse_value.simps)
  note m2 = parse_member(2) [OF config_ws(1,2) this refl, of "''timeout''"]
  have "parse_value (Suc (Suc n)) (('' '' @ ?u) @ [] @ CHR '','' # ?t2) = Some (JStr (sanitize (cfg_ServerURL c)), [] @ CHR '','' # ?t2)"
    using parse_value_string [OF config_ws(3)] by (simp del: parse_value.simps)
  note m1 = parse_member(1) [OF config_ws(1,4) this refl, of "''server_url''"]
  have "parse_members (Suc (Suc (Suc n))) ?t1 = Some ([(''server_url'', JStr (sanitize (cfg_ServerURL c))), (''timeout'', JNum ?t)], [])"
    using m1 m2 by (simp add: sanitize_ascii del: parse_members.simps)
  moreover have "skip_ws ?t1 = dquote # quote_body ''server_url'' @ dquote # CHR '':'' # ('' '' @ ?u) @ CHR '','' # ?t2"
    by (simp only: skip_ws_append [OF config_ws(1)]) (simp add: json_string_def)
  ultimately have "parse_value (4 + n) (CHR ''{'' # ?t1) =
      Some (JObj [(''server_url'', JStr (sanitize (cfg_ServerURL c))), (''timeout'', JNum ?t)], [])"
    by (simp add: numeral_eq_Suc del: parse_members.simps)
  then show ?thesis unfolding parse_json_def tx n by (simp add: skip_ws_def)
qed

lemma config_roundtrip:
  assumes "valid_utf8 (cfg_ServerURL c)" and "- (2 ^ 63) \<le> cfg_Timeout c" and "cfg_Timeout c < 2 ^ 63"
    and "fs (getConfigPath [] home) = Some (marshal_config c)"
  shows "loadConfig home fs = Some c"
  unfolding loadConfig_def assms(4) option.case unmarshal_struct_def parse_config
  using assms(1-3) by (simp add: struct_field_def set_config_field_def int_literal_json sanitize_valid)

section \<open>Client and server\<close>

text \<open>
  The request that a URL \<^verbatim>\<open>http://host/path?query\<close> stands for, and the network of one server: a handler
  that panics makes the request fail. Escapes in the path are not decoded; the client uses none.
\<close>

definition url_request :: "string \<Rightarrow> string \<Rightarrow> http_request" where
  "url_request meth url =
     (let u = fst (strings_Cut CHR ''?'' (fst (strings_Cut CHR ''#'' url)))
      in \<lparr>hr_Method = meth, hr_Path = dropWhile (\<lambda>c. c \<noteq> CHR ''/'') (drop (length ''http://'') u), hr_RawQuery = url_query url\<rparr>)"

definition server_net :: "(http_request \<Rightarrow> (w_call list \<times> string option \<times> http_metrics) result) \<Rightarrow> network" where
  "server_net server meth url =
     (case server (url_request meth url) of
        Inl _ \<Rightarrow> SendFailed
      | Inr (cs, _, _) \<Rightarrow> Answer (sent_status cs) (sent_body cs) True)"

definition host_ok :: "string \<Rightarrow> bool" where
  "host_ok h \<longleftrightarrow> (\<forall>c \<in> set h. c \<notin> {CHR ''/'', CHR ''?'', CHR ''#''})"

lemma url_request_simps:
  assumes "host_ok h" and "CHR ''?'' \<notin> set p" and "CHR ''#'' \<notin> set p" and "CHR ''#'' \<notin> set q"
  shows "url_request meth (''http://'' @ h @ CHR ''/'' # p @ CHR ''?'' # q) =
    \<lparr>hr_Method = meth, hr_Path = CHR ''/'' # p, hr_RawQuery = q\<rparr>"
proof -
  let ?b = "''http://'' @ h" and ?p = "CHR ''/'' # p"
  have h: "CHR ''?'' \<notin> set h" "CHR ''#'' \<notin> set h" "\<forall>c \<in> set h. c \<noteq> CHR ''/''" using assms(1) by (auto simp: host_ok_def)
  have "strings_Cut CHR ''#'' (?b @ ?p @ CHR ''?'' # q) = (?b @ ?p @ CHR ''?'' # q, [])"
    using h assms by (intro strings_Cut_absent) auto
  moreover have "strings_Cut CHR ''?'' ((?b @ ?p) @ CHR ''?'' # q) = (?b @ ?p, q)"
    using h assms by (intro strings_Cut_append) auto
  moreover have "dropWhile (\<lambda>c. c \<noteq> CHR ''/'') (h @ ?p) = ?p" using h(3) by (simp add: dropWhile_append2)
  ultimately show ?thesis by (simp add: url_request_def url_query_def)
qed

lemma client_requests:
  assumes "host_ok h"
  shows "url_request ''POST'' ((''http://'' @ h) @ ''/put?key='' @ QueryEscape k @ ''&val='' @ QueryEscape v) =
      \<lparr>hr_Method = ''POST'', hr_Path = ''/put'', hr_RawQuery = ''key='' @ QueryEscape k @ ''&val='' @ QueryEscape v\<rparr>"
    and "url_request ''GET'' ((''http://'' @ h) @ ''/get?key='' @ QueryEscape k) =
      \<lparr>hr_Method = ''GET'', hr_Path = ''/get'', hr_RawQuery = ''key='' @ QueryEscape k\<rparr>"
    and "url_request ''DELETE'' ((''http://'' @ h) @ ''/delete?key='' @ QueryEscape k) =
      \<lparr>hr_Method = ''DELETE'', hr_Path = ''/delete'', hr_RawQuery = ''key='' @ QueryEscape k\<rparr>"
  using url_request_simps [OF assms, of "''put''" "''key='' @ QueryEscape k @ ''&val='' @ QueryEscape v" "''POST''"]
    url_request_simps [OF assms, of "''get''" "''key='' @ QueryEscape k" "''GET''"]
    url_request_simps [OF assms, of "''delete''" "''key='' @ QueryEscape k" "''DELETE''"]
    QueryEscape_notin(2) [of k] QueryEscape_notin(2) [of v] by simp_all

text \<open>
  What a writing command prints, given what \<open>store.Put\<close> returned: its success message, or the error that the
  server answers; a server that is not the leader passes on what the leader answers to the forwarded request.
\<close>

definition server_error :: "nat \<Rightarrow> string \<Rightarrow> string result" where
  "server_error code msg = Inl (Errorf (''server error ('' @ decimal code @ ''): '' @ msg))"

definition write_answer :: "network \<Rightarrow> raft \<Rightarrow> int \<Rightarrow> (int \<Rightarrow> string) \<Rightarrow> string \<Rightarrow> string \<Rightarrow> string \<Rightarrow> string option \<Rightarrow> string result" where
  "write_answer net rf nodeID tmpl meth path success result =
     (case result of
        None \<Rightarrow> Inr success
      | Some err \<Rightarrow>
          if err \<noteq> ''not leader'' then server_error 500 (err @ [CHR 0x0A])
          else if GetLeader rf = -1 then server_error 404 (''Leader not found'' @ [CHR 0x0A])
          else if GetLeader rf = nodeID then server_error 503 (''Cluster in leadership transition'' @ [CHR 0x0A])
          else case net meth (tmpl (GetLeader rf) @ path) of
                 RequestInvalid \<Rightarrow> server_error 500 (''Failed to create forwarding request'' @ [CHR 0x0A])
               | SendFailed \<Rightarrow> server_error 503 (''Failed to forward request to leader'' @ [CHR 0x0A])
               | Answer code body complete \<Rightarrow> if code \<ge> 400 then server_error code (go_string body) else Inr success)"

text \<open>What the client makes of the calls of a handler.\<close>

definition client_result :: "string \<Rightarrow> w_call list \<Rightarrow> string result" where
  "client_result success cs =
     (if sent_status cs \<ge> 400 then server_error (sent_status cs) (go_string (sent_body cs)) else Inr success)"

lemma client_result_Error: "400 \<le> code \<Longrightarrow> client_result success (http_Error msg code) = server_error code (msg @ [CHR 0x0A])"
  by (simp add: client_result_def http_Error_def)

lemma client_result_failed:
  "client_result success (put_failed net rf nodeID tmpl r err path) = write_answer net rf nodeID tmpl (hr_Method r) path success (Some err)"
  by (simp add: put_failed_def write_answer_def forwardToLeader_def client_result_Error Let_def split: http_outcome.split)
    (simp add: client_result_def)

lemma served_write:
  assumes "serve sum64 s put net nodeID tmpl prom clock m (url_request meth url) = Inr (cs, l, m')"
  shows "bindE (doRequest (server_net (serve sum64 s put net nodeID tmpl prom clock m)) meth url) (\<lambda>_. Inr success) = client_result success cs"
  by (simp add: doRequest_def server_net_def assms client_result_def server_error_def)

section \<open>Properties\<close>

text \<open>
  C13: The client commands reach the store with every key and value, and report what came of it. \<open>sicli put\<close> makes the
  server call \<open>store.Put\<close> with exactly this key and value, for all strings, and \<open>sicli delete\<close> with exactly this key and as a
  deletion, unless the key is empty, which is refused; the command prints success if \<open>Put\<close> returns no error, the error if it
  returns one, and on a server that is not the leader the outcome of forwarding the request (\<open>write_answer\<close>). \<open>sicli get\<close> prints
  the value that the store has for the key, and an error if there is none. \<open>Put\<close> is any function of key, value and kind.
\<close>

theorem client_reaches_store:
  assumes "host_ok h" and "n = server_net (serve sum64 s put net nodeID tmpl prom clock m)"
  shows "putCmd n (''http://'' @ h) k v =
      write_answer net (st_Raft s) nodeID tmpl ''POST'' (''/put?key='' @ k @ ''&val='' @ v) ''---Success---'' (put (go_bytes k) (go_bytes v) False) \<and>
    deleteCmd n (''http://'' @ h) k =
      (if k = [] then server_error 400 (''key is required'' @ [CHR 0x0A])
       else write_answer net (st_Raft s) nodeID tmpl ''DELETE'' (''/delete?key='' @ k) ''----Deleted---'' (put (go_bytes k) [] True)) \<and>
    getCmd n (''http://'' @ h) k =
      (case store_Get sum64 s (go_bytes k) of
         Inl _ \<Rightarrow> Inl (Errorf ''request failed'')
       | Inr (val, found) \<Rightarrow> if found then Inr (go_string val) else server_error 404 (''Key not found'' @ [CHR 0x0A]))"
proof (intro conjI)
  obtain t0 t1 t2 t3 where clock [simp]: "clock = (t0, t1, t2, t3)" by (cases clock)
  note wrappers = serve_def withMetrics_def httpLogger_def query_param_def
  show "putCmd n (''http://'' @ h) k v =
      write_answer net (st_Raft s) nodeID tmpl ''POST'' (''/put?key='' @ k @ ''&val='' @ v) ''---Success---'' (put (go_bytes k) (go_bytes v) False)"
    using query_escaped(1,2) [of k v]
    by (simp add: putCmd_def assms(2) served_write wrappers client_requests(1) [OF assms(1), simplified] handlePut_def Let_def
        client_result_failed write_answer_def [of _ _ _ _ _ _ _ None] split: option.split)
      (simp add: client_result_def)
  show "deleteCmd n (''http://'' @ h) k =
      (if k = [] then server_error 400 (''key is required'' @ [CHR 0x0A])
       else write_answer net (st_Raft s) nodeID tmpl ''DELETE'' (''/delete?key='' @ k) ''----Deleted---'' (put (go_bytes k) [] True))"
    using query_escaped(3) [of k]
    by (simp add: deleteCmd_def assms(2) served_write wrappers client_requests(3) [OF assms(1), simplified] handleDelete_def Let_def
        client_result_failed client_result_Error write_answer_def [of _ _ _ _ _ _ _ None] split: option.split)
      (simp add: client_result_def)
  show "getCmd n (''http://'' @ h) k =
      (case store_Get sum64 s (go_bytes k) of
         Inl _ \<Rightarrow> Inl (Errorf ''request failed'')
       | Inr (val, found) \<Rightarrow> if found then Inr (go_string val) else server_error 404 (''Key not found'' @ [CHR 0x0A]))"
    using query_escaped(3) [of k]
    by (simp add: getCmd_def doRequest_def assms(2) server_net_def client_requests(2) [OF assms(1), simplified]
        wrappers handleGet_def Let_def http_Error_def server_error_def split: sum.splits prod.splits)
qed

definition demo_metrics :: http_metrics where
  "demo_metrics = \<lparr>hm_counters = \<lambda>_. 0, hm_observed = \<lambda>_. []\<rparr>"

theorem client_reaches_store_witness:
  "\<exists>n. putCmd n (''http://'' @ ''localhost:8001'') ''a&b'' ''1'' = server_error 500 (''timeout'' @ [CHR 0x0A]) \<and>
     deleteCmd n (''http://'' @ ''localhost:8001'') ''a&b'' = Inr ''----Deleted---'' \<and>
     getCmd n (''http://'' @ ''localhost:8001'') ''a&b'' = server_error 404 (''Key not found'' @ [CHR 0x0A])"
proof -
  let ?put = "\<lambda>k v d. if d \<and> k = go_bytes ''a&b'' then None else Some ''timeout''"
  let ?n = "server_net (serve (\<lambda>k. 0) empty_store ?put (\<lambda>m u. SendFailed) 0 demo_template (\<lambda>_. []) (0, 0, 0, 0) demo_metrics)"
  have "store_Get (\<lambda>k. 0) empty_store (go_bytes ''a&b'') = Inr ([], False)"
    by (simp add: store_Get_wf [OF empty_store_wf] mem_lookup_def) (simp add: empty_store_def sst_files_def sort_reverse_def)
  moreover have "host_ok ''localhost:8001''" by (simp add: host_ok_def)
  moreover note client_reaches_store [OF this refl, of "\<lambda>k. 0" empty_store ?put "\<lambda>m u. SendFailed" 0 demo_template
      "\<lambda>_. []" "(0, 0, 0, 0)" demo_metrics "''a&b''" "''1''"]
  ultimately show ?thesis by (intro exI [of _ ?n]) (simp add: write_answer_def)
qed

text \<open>
  The configuration that is set is the one that is used: \<open>config set\<close> of a server address in valid UTF-8
  and a positive timeout makes the home directory, if need be, and writes one file in it; afterwards a
  command without the corresponding flags uses exactly this address and timeout.
\<close>

lemma config_set_used:
  assumes "valid_utf8 url" and "url \<noteq> []" and "0 < timeout" and "timeout < 2 ^ 63"
    and "home \<noteq> []" and "mkdir_ok (filepath_Clean home)"
    and "configSet mkdir_ok Written home fs (url, timeout) = (r, fs')"
  shows "r = Inr ''Configuration updated'' \<and> persistentPreRun False False home fs' flags = (url, timeout) \<and>
    (\<forall>p. p \<noteq> getConfigPath [] home \<longrightarrow> fs' p = fs p)"
proof -
  define c where "c = \<lparr>cfg_ServerURL = url, cfg_Timeout = timeout\<rparr>"
  let ?fs = "fs(getConfigPath [] home \<mapsto> marshal_config c)"
  have l: "loadConfig home ?fs = Some c" by (rule config_roundtrip) (use assms in \<open>simp_all add: c_def\<close>)
  have "x\<lparr>cfg_ServerURL := url, cfg_Timeout := timeout\<rparr> = c" for x :: Config
    by (cases x) (simp add: c_def)
  moreover have "filepath_Dir (getConfigPath [] home) = filepath_Clean home"
    using Dir_Join2 [OF assms(5), of "''.sicli-config.json''"] assms(5) by (simp add: getConfigPath_def file_name_def)
  ultimately have "configSet mkdir_ok Written home fs (url, timeout) = (Inr ''Configuration updated'', ?fs)"
    using assms(2,3,6) by (simp add: configSet_def saveConfig_def)
  with l assms(7) show ?thesis by (auto simp: persistentPreRun_def c_def split: prod.splits)
qed

lemma config_set_used_witness:
  "\<exists>r fs'. configSet (\<lambda>_. True) Written ''/root/'' Map.empty (''http://kv:1'', 5) = (r, fs') \<and>
     persistentPreRun False False ''/root/'' fs' persistent_flags = (''http://kv:1'', 5)"
proof -
  obtain r fs' where c: "configSet (\<lambda>_. True) Written ''/root/'' Map.empty (''http://kv:1'', 5) = (r, fs')" by fastforce
  have "valid_utf8 ''http://kv:1''" by (simp add: valid_utf8.simps rune_ok_def DecodeRune_def rune_len_def RuneError_def)
  from config_set_used [OF this _ _ _ _ _ c] c show ?thesis by auto
qed

text \<open>
  A write that breaks off loses the configuration: the file is truncated before it is written, and a later
  command, which cannot decode what is left of it, uses the defaults of its flags.
\<close>

lemma config_set_breaks_off:
  assumes "mkdir_ok (filepath_Dir (getConfigPath [] home))"
    and "configSet mkdir_ok (BreaksOff 0) home fs (url, timeout) = (r, fs')"
  shows "persistentPreRun False False home fs' flags = flags"
proof -
  have "fs' (getConfigPath [] home) = Some []"
    using assms by (auto simp: configSet_def saveConfig_def split: prod.splits)
  moreover have "parse_json [] = None" by (simp add: parse_json_def skip_ws_def)
  ultimately have "loadConfig home fs' = None" by (simp add: loadConfig_def unmarshal_struct_def)
  then show ?thesis by (simp add: persistentPreRun_def split: prod.splits)
qed

end
