(* ===== verification/Cli_Metrics.thy ===== *)
theory Cli_Metrics
  imports Cli
begin

text \<open>
  The command \<open>metrics\<close> of the command line client (\<^verbatim>\<open>sicliMetrics.go\<close>): the page of the server is printed as
  it is, filtered, or sorted into four groups. Texts are ASCII. Go visits the groups of the map
  in an unspecified order: the order is an argument. The lemmas show that each sample of the page is
  printed in one group, in the order of the page.
\<close>

section \<open>String functions\<close>

definition is_space :: "char \<Rightarrow> bool" where
  "is_space c \<longleftrightarrow> c \<in> set [CHR 0x09, CHR 0x0A, CHR 0x0B, CHR 0x0C, CHR 0x0D, CHR '' '']"

definition TrimSpace :: "string \<Rightarrow> string" where
  "TrimSpace s = rev (dropWhile is_space (rev (dropWhile is_space s)))"

fun Contains :: "string \<Rightarrow> string \<Rightarrow> bool" where
  "Contains [] p \<longleftrightarrow> p = []"
| "Contains (c # s) p \<longleftrightarrow> HasPrefix (c # s) p \<or> Contains s p"

function Fields :: "string \<Rightarrow> string list" where
  "Fields [] = []"
| "Fields (c # s) =
     (if is_space c then Fields s
      else (c # takeWhile (\<lambda>x. \<not> is_space x) s) # Fields (dropWhile (\<lambda>x. \<not> is_space x) s))"
  by pat_completeness auto
termination
  by (relation "measure length") (simp_all add: less_Suc_eq_le length_dropWhile_le)

section \<open>The command\<close>

abbreviation newline :: char where "newline \<equiv> CHR 0x0A"

definition raw_metrics :: "string \<Rightarrow> string \<Rightarrow> string" where
  "raw_metrics page fltr =
     (if fltr \<noteq> [] then Join (filter (\<lambda>line. Contains line fltr) (strings_Split newline page)) [newline] else page)"

definition category_of :: "string \<Rightarrow> string" where
  "category_of line =
     (if Contains line ''raft_'' then ''Raft Metrics''
      else if Contains line ''kv_'' then ''KV Store Metrics''
      else if Contains line ''http_'' then ''HTTP Metrics''
      else ''System Metrics'')"

definition skipped :: "string \<Rightarrow> string \<Rightarrow> bool" where
  "skipped fltr line \<longleftrightarrow> line = [] \<or> HasPrefix line ''#'' \<or> fltr \<noteq> [] \<and> \<not> Contains line fltr"

fun categorise :: "string \<Rightarrow> string list \<Rightarrow> (string \<Rightarrow> string list) \<Rightarrow> string \<Rightarrow> string list" where
  "categorise fltr [] categories = categories"
| "categorise fltr (line # ls) categories =
     (let line = TrimSpace line
      in if skipped fltr line then categorise fltr ls categories
         else categorise fltr ls (categories(category_of line := categories (category_of line) @ [line])))"

text \<open>\<^verbatim>\<open>%-30s\<close>: padded to 30 characters on the right.\<close>

definition pad30 :: "string \<Rightarrow> string" where
  "pad30 s = s @ replicate (30 - length s) CHR '' ''"

definition format_metric :: "string \<Rightarrow> string list" where
  "format_metric metric =
     (let parts = Fields metric in if 2 \<le> length parts then [''  '' @ pad30 (parts ! 0) @ '' '' @ parts ! 1] else [])"

definition displayFormattedMetrics :: "string list \<Rightarrow> string \<Rightarrow> string \<Rightarrow> string list" where
  "displayFormattedMetrics order page fltr =
     (let categories = categorise fltr (strings_Split newline page) (\<lambda>_. [])
      in ''=== KV-Store Cluster Metrics ==='' # [] #
         concat (map (\<lambda>c. if categories c \<noteq> [] then (c @ '':'') # concat (map format_metric (categories c)) @ [[]] else []) order))"

definition metricsCmd :: "network \<Rightarrow> string list \<Rightarrow> string \<Rightarrow> string \<Rightarrow> string \<Rightarrow> string list result" where
  "metricsCmd net order baseURL metricsFormat metricsFilter =
     bindE (doRequest net ''GET'' (baseURL @ ''/metrics'')) (\<lambda>metrics.
     if metricsFormat = ''raw'' then Inr [raw_metrics metrics metricsFilter]
     else Inr (displayFormattedMetrics order metrics metricsFilter))"

section \<open>What is printed\<close>

lemma categorise_eq:
  "categorise fltr ls cs c = cs c @ filter (\<lambda>l. \<not> skipped fltr l \<and> category_of l = c) (map TrimSpace ls)"
  by (induction ls arbitrary: cs) (simp_all add: Let_def)

definition group_names :: "string list" where
  "group_names = [''Raft Metrics'', ''KV Store Metrics'', ''HTTP Metrics'', ''System Metrics'']"

lemma category_known: "category_of l \<in> set group_names"
  by (simp add: category_of_def group_names_def)

text \<open>Sorting into groups loses and repeats nothing.\<close>

lemma filter_groups:
  "distinct gs \<Longrightarrow> \<forall>x \<in> set xs. f x \<in> set gs \<Longrightarrow> mset (concat (map (\<lambda>g. filter (\<lambda>x. f x = g) xs) gs)) = mset xs"
proof (induction xs)
  case (Cons x xs)
  have "mset (concat (map (\<lambda>g. filter (\<lambda>y. f y = g) (x # xs)) gs)) =
      mset (concat (map (\<lambda>g. filter (\<lambda>y. f y = g) xs) gs)) + mset (concat (map (\<lambda>g. if f x = g then [x] else []) gs))"
    by (induction gs) simp_all
  also have "mset (concat (map (\<lambda>g. if f x = g then [x] else []) gs)) = {#x#}" if "distinct gs" "f x \<in> set gs" for gs
    using that by (induction gs) (auto simp: filter_empty_conv)
  finally show ?case using Cons by simp
qed simp

text \<open>
  Every line of the page that is neither empty nor a comment and that matches the filter is in one
  group, once, and no other line is in a group.
\<close>

lemma groups_complete:
  assumes "mset order = mset group_names"
  shows "mset (concat (map (categorise fltr ls (\<lambda>_. [])) order)) = mset (filter (\<lambda>l. \<not> skipped fltr l) (map TrimSpace ls))"
proof -
  have "distinct order" "set order = set group_names"
    using assms mset_eq_imp_distinct_iff [OF assms] mset_eq_setD [OF assms] by (simp_all add: group_names_def)
  then have "mset (concat (map (\<lambda>g. filter (\<lambda>x. category_of x = g) (filter (\<lambda>l. \<not> skipped fltr l) (map TrimSpace ls))) order)) =
      mset (filter (\<lambda>l. \<not> skipped fltr l) (map TrimSpace ls))"
    using category_known by (intro filter_groups) auto
  moreover have "categorise fltr ls (\<lambda>_. []) = (\<lambda>g. filter (\<lambda>x. category_of x = g) (filter (\<lambda>l. \<not> skipped fltr l) (map TrimSpace ls)))"
    by (simp add: fun_eq_iff categorise_eq)
  ultimately show ?thesis by simp
qed

end
