(* ===== verification/Cli_Test.thy ===== *)
theory Cli_Test
  imports Cli
begin

text \<open>
  The test runner of the client (\<^verbatim>\<open>cmd/cli/cmd/test.go\<close>): the load test, which pipes one vegeta process into
  another, and the chaos test, which builds a test binary if it is missing and runs it. The outcomes
  of the calls into \<open>os/exec\<close> and the programs that are started are arguments: the text of the error, if
  any. A command yields its result and the processes it started and waited for, in order.
\<close>

section \<open>The load test\<close>

definition vegeta_target :: "string \<Rightarrow> string \<Rightarrow> string \<times> string" where
  "vegeta_target baseURL testType =
     (if testType = ''get'' then (''GET'', baseURL @ ''/get?key=testkey'')
      else if testType = ''put'' then (''PUT'', baseURL @ ''/put?key=testkey&val=testvalue'')
      else if testType = ''delete'' then (''DELETE'', baseURL @ ''/delete?key=testkey'')
      else (''GET'', baseURL @ ''/get?key=testkey''))"

text \<open>A process: its arguments and, if the program provides it, its input.\<close>

datatype proc_event = Started "string list" "string option" | Waited "string list"

definition attack_args :: "string \<Rightarrow> string \<Rightarrow> string list" where
  "attack_args testDuration testRate =
     [''vegeta'', ''attack'', ''-duration'', testDuration, ''-rate'', testRate, ''-targets'', ''-'']"

definition attack_input :: "string \<times> string \<Rightarrow> string" where
  "attack_input target = fst target @ '' '' @ snd target @ [CHR 0x0A]"

text \<open>What the calls of the command return, in the order in which they are made.\<close>

record vegeta_env =
  ve_LookPath :: "string option"
  ve_StdoutPipe :: "string option"
  ve_attack_Start :: "string option"
  ve_report_Start :: "string option"
  ve_attack_Wait :: "string option"
  ve_report_Wait :: "string option"

definition vegetaCmd :: "vegeta_env \<Rightarrow> string \<Rightarrow> string \<Rightarrow> string \<Rightarrow> string \<Rightarrow> unit result \<times> proc_event list" where
  "vegetaCmd env baseURL testType testDuration testRate =
     (if ve_LookPath env \<noteq> None
      then (Inl (Errorf (''vegeta is not installed. Please install it first: go install github.com/tsenart/vegeta/v12@latest'')), [])
      else let target = vegeta_target baseURL testType;
               attack = attack_args testDuration testRate; report = [''vegeta'', ''report''];
               s1 = [Started attack (Some (attack_input target))]; s2 = s1 @ [Started report None];
               s3 = s2 @ [Waited attack]; s4 = s3 @ [Waited report]
           in case ve_StdoutPipe env of Some e \<Rightarrow> (Inl (Errorf (''failed to create pipe: '' @ e)), []) | None \<Rightarrow>
             (case ve_attack_Start env of Some e \<Rightarrow> (Inl (Errorf (''failed to start attack: '' @ e)), []) | None \<Rightarrow>
             (case ve_report_Start env of Some e \<Rightarrow> (Inl (Errorf (''failed to start report: '' @ e)), s1) | None \<Rightarrow>
             (case ve_attack_Wait env of Some e \<Rightarrow> (Inl (Errorf (''attack failed: '' @ e)), s3) | None \<Rightarrow>
             (case ve_report_Wait env of Some e \<Rightarrow> (Inl (Errorf (''report failed: '' @ e)), s4) | None \<Rightarrow> (Inr (), s4))))))"

text \<open>The flags when they are not given: duration, rate and type of the load test, workers of the chaos test.\<close>

definition test_flags :: "string \<times> string \<times> string \<times> int" where
  "test_flags = (''30s'', ''50'', ''get'', 3)"

section \<open>The chaos test\<close>

text \<open>
  The files that exist, by clean path relative to the working directory. \<open>stat\<close> tells whether \<open>os.Stat\<close> reports
  that a missing file does not exist, and not another error. A build turns the files into new ones or fails. Only a file that exists
  can be run; \<open>prog\<close> is what the test binary returns on its arguments.
\<close>

definition exists_path :: "string set \<Rightarrow> string \<Rightarrow> bool" where
  "exists_path files p \<longleftrightarrow> filepath_Clean p \<in> files"

definition run_path :: "string set \<Rightarrow> (string list \<Rightarrow> string option) \<Rightarrow> string \<Rightarrow> string list \<Rightarrow> string option" where
  "run_path files prog p args =
     (if exists_path files p then prog args else Some (''fork/exec '' @ p @ '': no such file or directory''))"

type_synonym go_tool = "string list \<Rightarrow> string set \<Rightarrow> string + string set"

definition chaos_args :: "int \<Rightarrow> string \<Rightarrow> string list" where
  "chaos_args testWorkers baseURL = [''-test.v'', ''-workers'', show_int testWorkers, ''-addr'', baseURL]"

definition chaosCmd :: "bool \<Rightarrow> go_tool \<Rightarrow> (string list \<Rightarrow> string option) \<Rightarrow> int \<Rightarrow> string \<Rightarrow> string set \<Rightarrow>
    unit result \<times> string set" where
  "chaosCmd stat go prog testWorkers baseURL files =
     (let built = (if \<not> exists_path files ''tests/chaos/chaos.test'' \<and> stat
                   then go [''test'', ''-c'', ''./tests/chaos''] files else Inr files)
      in case built of
           Inl e \<Rightarrow> (Inl (Errorf (''failed to build chaos test: '' @ e)), files)
         | Inr files \<Rightarrow>
             (case run_path files prog ''./tests/chaos/chaos.test'' (chaos_args testWorkers baseURL) of
                Some e \<Rightarrow> (Inl (Errorf (''chaos test failed: '' @ e)), files)
              | None \<Rightarrow> (Inr (), files)))"

section \<open>What the load test sends\<close>

text \<open>The line that vegeta reads is a request that the server's handlers take as it is meant.\<close>

lemma vegeta_requests:
  assumes "host_ok h"
  shows "url_request ''PUT'' (snd (vegeta_target (''http://'' @ h) ''put'')) =
      \<lparr>hr_Method = ''PUT'', hr_Path = ''/put'', hr_RawQuery = ''key=testkey&val=testvalue''\<rparr>"
    and "url_request ''GET'' (snd (vegeta_target (''http://'' @ h) ''get'')) =
      \<lparr>hr_Method = ''GET'', hr_Path = ''/get'', hr_RawQuery = ''key=testkey''\<rparr>"
    and "url_request ''DELETE'' (snd (vegeta_target (''http://'' @ h) ''delete'')) =
      \<lparr>hr_Method = ''DELETE'', hr_Path = ''/delete'', hr_RawQuery = ''key=testkey''\<rparr>"
  using url_request_simps [OF assms, of "''put''" "''key=testkey&val=testvalue''" "''PUT''"]
    url_request_simps [OF assms, of "''get''" "''key=testkey''" "''GET''"]
    url_request_simps [OF assms, of "''delete''" "''key=testkey''" "''DELETE''"]
  by (simp_all add: vegeta_target_def)

lemma test_query:
  "query_param (r\<lparr>hr_RawQuery := ''key=testkey&val=testvalue''\<rparr>) ''key'' = ''testkey''"
  "query_param (r\<lparr>hr_RawQuery := ''key=testkey&val=testvalue''\<rparr>) ''val'' = ''testvalue''"
  "query_param (r\<lparr>hr_RawQuery := ''key=testkey''\<rparr>) ''key'' = ''testkey''"
proof -
  have "QueryUnescape ''testkey'' = Some ''testkey''" "QueryUnescape ''testvalue'' = Some ''testvalue''" by simp_all
  note q = query_key_val [OF this]
  show "query_param (r\<lparr>hr_RawQuery := ''key=testkey&val=testvalue''\<rparr>) ''key'' = ''testkey''"
    "query_param (r\<lparr>hr_RawQuery := ''key=testkey&val=testvalue''\<rparr>) ''val'' = ''testvalue''"
    "query_param (r\<lparr>hr_RawQuery := ''key=testkey''\<rparr>) ''key'' = ''testkey''"
    using q(1,2,5) by (simp_all add: query_param_def)
qed

lemma load_test_put:
  assumes "host_ok h" and "put (go_bytes ''testkey'') (go_bytes ''testvalue'') False = None"
  shows "server_net (serve sum64 s put net nodeID tmpl prom clock m) ''PUT'' (snd (vegeta_target (''http://'' @ h) ''put'')) =
    Answer 200 (go_bytes ''Success'') True"
proof -
  obtain t0 t1 t2 t3 where [simp]: "clock = (t0, t1, t2, t3)" by (cases clock)
  show ?thesis
    using assms(2) test_query(1,2) [of "\<lparr>hr_Method = ''PUT'', hr_Path = ''/put'', hr_RawQuery = []\<rparr>"]
    by (simp add: server_net_def vegeta_requests(1) [OF assms(1), simplified] serve_def handlePut_def withMetrics_def httpLogger_def Let_def)
qed

text \<open>
  The result is the error of the first call that fails; every process that was started has been waited
  for, except when the second one cannot be started or the first one fails: then the one that is running is left behind.
\<close>

definition left_running :: "proc_event list \<Rightarrow> string list list" where
  "left_running events =
     filter (\<lambda>p. Waited p \<notin> set events) (concat (map (\<lambda>e. case e of Started p _ \<Rightarrow> [p] | Waited _ \<Rightarrow> []) events))"

lemma vegeta_left_running:
  assumes "vegetaCmd env baseURL testType testDuration testRate = (r, events)"
  shows "left_running events =
    (if ve_LookPath env \<noteq> None \<or> ve_StdoutPipe env \<noteq> None \<or> ve_attack_Start env \<noteq> None then []
     else if ve_report_Start env \<noteq> None then [attack_args testDuration testRate]
     else if ve_attack_Wait env \<noteq> None then [[''vegeta'', ''report'']] else [])"
  using assms by (auto simp: vegetaCmd_def attack_args_def left_running_def Let_def split: if_splits option.splits)

section \<open>The chaos test binary\<close>

lemma chaos_paths:
  "filepath_Clean ''tests/chaos/chaos.test'' = ''tests/chaos/chaos.test''"
  "filepath_Clean ''./tests/chaos/chaos.test'' = ''tests/chaos/chaos.test''"
  by (simp_all add: filepath_Clean_def clean_stack_def is_rooted_def clean_step_def unstack_def)

text \<open>A binary that exists is run with the workers and the address, and its verdict is the result.\<close>

lemma chaos_runs_binary:
  assumes "''tests/chaos/chaos.test'' \<in> files"
  shows "chaosCmd stat go prog testWorkers baseURL files =
    ((case prog (chaos_args testWorkers baseURL) of None \<Rightarrow> Inr () | Some e \<Rightarrow> Inl (Errorf (''chaos test failed: '' @ e))), files)"
  using assms by (simp add: chaosCmd_def run_path_def exists_path_def chaos_paths Let_def split: option.splits)

text \<open>
  The chaos test never runs the binary it builds: \<open>go test -c\<close> writes the binary of a package into the
  working directory, and the command looks for it in the directory of the package, so that after a
  successful build it fails, and so does every later call.
\<close>

lemma chaos_build_not_found:
  assumes "''tests/chaos/chaos.test'' \<notin> files"
    and "\<And>files. go [''test'', ''-c'', ''./tests/chaos''] files = Inr (insert ''chaos.test'' files)"
    and "chaosCmd stat go prog testWorkers baseURL files = (r, files')"
  shows "(\<exists>e. r = Inl (Errorf (''chaos test failed: '' @ e))) \<and>
    (\<exists>e. fst (chaosCmd stat' go prog' testWorkers' baseURL' files') = Inl (Errorf (''chaos test failed: '' @ e)))"
proof -
  have fail: "\<exists>e. chaosCmd st go pr w u fs = (Inl (Errorf (''chaos test failed: '' @ e)), if st then insert ''chaos.test'' fs else fs)"
    if "''tests/chaos/chaos.test'' \<notin> fs" for st pr w u fs
    using that by (simp add: chaosCmd_def run_path_def exists_path_def chaos_paths Let_def assms(2))
  obtain e where "chaosCmd stat go prog testWorkers baseURL files =
      (Inl (Errorf (''chaos test failed: '' @ e)), if stat then insert ''chaos.test'' files else files)"
    using fail [OF assms(1)] by blast
  with assms(3) have r: "r = Inl (Errorf (''chaos test failed: '' @ e))"
    and f: "files' = (if stat then insert ''chaos.test'' files else files)" by (simp_all del: append.simps)
  from f assms(1) have "''tests/chaos/chaos.test'' \<notin> files'" by auto
  from fail [OF this] r show ?thesis by (metis fst_conv)
qed

lemma chaos_build_not_found_witness:
  "\<exists>r files'. chaosCmd True (\<lambda>args files. Inr (insert ''chaos.test'' files)) (\<lambda>args. None) 3 ''http://localhost:8080'' {''go.mod''} = (r, files') \<and>
     (\<exists>e. r = Inl (Errorf (''chaos test failed: '' @ e)))"
proof -
  let ?go = "\<lambda>(args :: string list) (files :: string set). Inr (insert ''chaos.test'' files) :: string + string set"
  obtain r files' where c: "chaosCmd True ?go (\<lambda>args. None) 3 ''http://localhost:8080'' {''go.mod''} = (r, files')" by fastforce
  from chaos_build_not_found [of "{''go.mod''}" ?go, OF _ _ c] c show ?thesis by auto
qed

end
