(* ===== verification/Raft_Recovery.thy ===== *)
theory Raft_Recovery
  imports Raft_Node
begin

text \<open>
  Persistence and restart of a Raft node: \<open>persist\<close> and \<open>persistState\<close> (\<^verbatim>\<open>raft/persist.go\<close>)
  through the write-ahead log, and the state \<open>Make\<close> rebuilds from the file. The hard state
  survives, up to the conversion to 32 bits; of the log everything survives but the sentinel
  at index 0.
\<close>

lemma raft_Make_holds:
  assumes "content f = concat (map enc_rrec rs)" and "\<forall>r \<in> set rs. rrec_ok r"
  shows "rf_log (raft_Make peers me f now) = (if log_recs rs = []
      then [\<lparr>le_Index = 0, le_Term = 0, le_Command = []\<rparr>] else map from_wal_rec (log_recs rs))"
    and "hs_Term (last_hard \<lparr>hs_Term = 0, hs_Vote = 0, hs_Commit = 0\<rparr> rs) > 0 \<Longrightarrow>
      rf_currentTerm (raft_Make peers me f now) = uint (hs_Term (last_hard \<lparr>hs_Term = 0, hs_Vote = 0, hs_Commit = 0\<rparr> rs)) \<and>
      rf_votedFor (raft_Make peers me f now) = uint (hs_Vote (last_hard \<lparr>hs_Term = 0, hs_Vote = 0, hs_Commit = 0\<rparr> rs)) \<and>
      rf_commitIndex (raft_Make peers me f now) = uint (hs_Commit (last_hard \<lparr>hs_Term = 0, hs_Vote = 0, hs_Commit = 0\<rparr> rs))"
proof -
  have holds: "rwal_holds (createOrOpenRaftWAL f) rs"
    using assms by (simp add: rwal_holds_def createOrOpenRaftWAL_def)
  have types: "\<forall>e \<in> set (log_recs rs). wr_RecordType e = RecordTypeLog"
    using assms(2) by (induction rs rule: log_recs.induct) auto
  show "rf_log (raft_Make peers me f now) = (if log_recs rs = []
      then [\<lparr>le_Index = 0, le_Term = 0, le_Command = []\<rparr>] else map from_wal_rec (log_recs rs))"
    using types by (simp add: raft_Make_def readPersist_def RecoverEntries_holds [OF holds] Let_def filter_id_conv)
  assume "hs_Term (last_hard \<lparr>hs_Term = 0, hs_Vote = 0, hs_Commit = 0\<rparr> rs) > 0"
  then show "rf_currentTerm (raft_Make peers me f now) = uint (hs_Term (last_hard \<lparr>hs_Term = 0, hs_Vote = 0, hs_Commit = 0\<rparr> rs)) \<and>
      rf_votedFor (raft_Make peers me f now) = uint (hs_Vote (last_hard \<lparr>hs_Term = 0, hs_Vote = 0, hs_Commit = 0\<rparr> rs)) \<and>
      rf_commitIndex (raft_Make peers me f now) = uint (hs_Commit (last_hard \<lparr>hs_Term = 0, hs_Vote = 0, hs_Commit = 0\<rparr> rs))"
    by (simp add: raft_Make_def readPersist_def RecoverEntries_holds [OF holds] Let_def)
qed

lemma uint_32: "0 \<le> x \<Longrightarrow> x < 2 ^ 32 \<Longrightarrow> uint (word_of_int x :: 32 word) = x"
  by (simp add: uint_word_of_int)

text \<open>A log whose entries are at their indices and fit the record format.\<close>

definition log_ok :: "log_entry list \<Rightarrow> bool" where
  "log_ok l \<longleftrightarrow> length l < 2 ^ 32 \<and> (\<forall>i < length l. le_Index (l ! i) = int i \<and>
     0 \<le> le_Term (l ! i) \<and> le_Term (l ! i) < 2 ^ 32 \<and> length (le_Command (l ! i)) < 2 ^ 32)"

lemma log_ok_recs: "log_ok l \<Longrightarrow> recs_indexed (map to_wal_rec l)"
  by (simp add: log_ok_def recs_indexed_def to_wal_rec_def)

lemma from_to_wal_rec:
  assumes "log_ok l" and "e \<in> set l"
  shows "from_wal_rec (to_wal_rec e) = e"
proof -
  from assms obtain i where "i < length l" "e = l ! i" by (auto simp: in_set_conv_nth)
  with assms(1) have "0 \<le> le_Index e" "le_Index e < 2 ^ 32" "0 \<le> le_Term e" "le_Term e < 2 ^ 32"
    by (auto simp: log_ok_def)
  then show ?thesis by (simp add: from_wal_rec_def to_wal_rec_def uint_32)
qed

lemma persist_wal:
  "rf_wal rf = Some w \<Longrightarrow> rf_log rf \<noteq> [] \<Longrightarrow>
     rf_wal (persist rf) = Some (snd (rwal_AppendEntries w (map to_wal_rec (rf_log rf)) 0))"
  by (simp add: persist_def)

section \<open>Properties\<close>

text \<open>
  C27: The hard state survives a restart: after \<open>persistState\<close> on a log with room, a node made
  from the same file has the term and the commit index that were saved, and the vote; but a
  vote of -1 (no vote) comes back as 4294967295.
\<close>

theorem hard_state_survives:
  assumes "rf_wal rf = Some w" and "rwal_holds w rs" and "13 \<le> quota (rw_file w)"
    and "0 < rf_currentTerm rf" and "rf_currentTerm rf < 2 ^ 32"
    and "-1 \<le> rf_votedFor rf" and "rf_votedFor rf < 2 ^ 32"
    and "0 \<le> rf_commitIndex rf" and "rf_commitIndex rf < 2 ^ 32"
    and "rf_wal (persistState rf) = Some w'"
  shows "rf_currentTerm (raft_Make peers me (rw_file w') now) = rf_currentTerm rf \<and>
    rf_commitIndex (raft_Make peers me (rw_file w') now) = rf_commitIndex rf \<and>
    rf_votedFor (raft_Make peers me (rw_file w') now) =
      (if rf_votedFor rf = -1 then 4294967295 else rf_votedFor rf)"
proof -
  let ?hs = "\<lparr>hs_Term = word_of_int (rf_currentTerm rf), hs_Vote = word_of_int (rf_votedFor rf),
    hs_Commit = word_of_int (rf_commitIndex rf)\<rparr> :: hard_state"
  obtain w1 where "PersistHardState w ?hs = (None, w1)" "rwal_holds w1 (rs @ [HardRec ?hs])"
    using PersistHardState_holds [OF assms(2,3), of ?hs] by blast
  with assms(1,10) have "rwal_holds w' (rs @ [HardRec ?hs])" by (simp add: persistState_def)
  then have f: "content (rw_file w') = concat (map enc_rrec (rs @ [HardRec ?hs]))"
    "\<forall>r \<in> set (rs @ [HardRec ?hs]). rrec_ok r" by (simp_all add: rwal_holds_def)
  have "uint (word_of_int (rf_currentTerm rf) :: 32 word) = rf_currentTerm rf"
    using assms(4,5) by (intro uint_32) simp_all
  moreover from this have "(0 :: 32 word) < word_of_int (rf_currentTerm rf)"
    using assms(4) by (simp add: word_less_def)
  moreover have "uint (word_of_int (rf_votedFor rf) :: 32 word) =
      (if rf_votedFor rf = -1 then 4294967295 else rf_votedFor rf)"
    using assms(6,7) by (simp add: uint_32 unsigned_minus_1_eq_mask mask_eq_exp_minus_1)
  ultimately show ?thesis
    using raft_Make_holds(2) [OF f, of peers me now] uint_32 [OF assms(8,9)] by simp
qed

lemma demo_wal: "rf_wal demo_node = Some (createOrOpenRaftWAL \<lparr>content = [], quota = 1000\<rparr>)"
  "rwal_holds (createOrOpenRaftWAL \<lparr>content = [], quota = 1000\<rparr>) []"
  by (simp_all add: demo_node_eq rwal_holds_def createOrOpenRaftWAL_def)

theorem hard_state_survives_witness:
  "\<exists>w'. rf_wal (persistState (demo_node\<lparr>rf_currentTerm := 7\<rparr>)) = Some w' \<and>
     rf_currentTerm (raft_Make [True] 0 (rw_file w') 9) = 7 \<and>
     rf_votedFor (raft_Make [True] 0 (rw_file w') 9) = 4294967295"
proof -
  let ?n = "demo_node\<lparr>rf_currentTerm := 7\<rparr>"
  have "rf_wal ?n = Some (createOrOpenRaftWAL \<lparr>content = [], quota = 1000\<rparr>)" by (simp add: demo_wal)
  moreover from this obtain w' where "rf_wal (persistState ?n) = Some w'" by (simp add: persistState_def)
  ultimately show ?thesis
    using hard_state_survives [of ?n _ "[]" w' "[True]" 0 9] demo_wal(2)
    by (simp add: demo_node_eq createOrOpenRaftWAL_def)
qed

text \<open>
  The log after a restart: when a node that started on an empty file persists its log and
  is restarted from that file, the recovered log is the old one without the sentinel at index
  0, so every entry is one position below its index.
\<close>

lemma persist_holds:
  assumes "rf_wal rf = Some w" and "rwal_holds w []" and "rw_lastPersisted w = 0"
    and "log_ok (rf_log rf)" and "2 \<le> length (rf_log rf)"
    and "length (concat (map (enc_log_rec \<circ> to_wal_rec) (tl (rf_log rf)))) \<le> quota (rw_file w)"
    and "rf_wal (persist rf) = Some w'"
  shows "rwal_holds w' (map LogRec (map to_wal_rec (tl (rf_log rf))))"
proof -
  let ?es = "map to_wal_rec (rf_log rf)"
  have d: "drop (Suc (unat (rw_lastPersisted w))) ?es = map to_wal_rec (tl (rf_log rf))"
    by (simp add: assms(3) drop_Suc map_tl)
  have "\<exists>w1. rwal_AppendEntries w ?es 0 = (None, w1) \<and>
      rwal_holds w1 ([] @ map LogRec (drop (Suc (unat (rw_lastPersisted w))) ?es)) \<and>
      rw_lastPersisted w1 = word_of_nat (length ?es - 1)"
    by (rule rwal_AppendEntries_new [OF assms(2) log_ok_recs [OF assms(4)]])
      (use assms(3,5,6) in \<open>simp_all add: drop_Suc map_tl comp_def\<close>)
  moreover have "rf_log rf \<noteq> []" using assms(5) by auto
  ultimately show ?thesis using assms(1,7) by (auto simp: persist_wal d)
qed


lemma restart_log:
  assumes "log_ok (rf_log rf)" and "2 \<le> length (rf_log rf)"
    and "rwal_holds w (map LogRec (map to_wal_rec (tl (rf_log rf))) @ hs)" and "log_recs hs = []"
  shows "rf_log (raft_Make peers me (rw_file w) now) = tl (rf_log rf)"
proof -
  have f: "content (rw_file w) = concat (map enc_rrec (map LogRec (map to_wal_rec (tl (rf_log rf))) @ hs))"
    "\<forall>r \<in> set (map LogRec (map to_wal_rec (tl (rf_log rf))) @ hs). rrec_ok r"
    using assms(3) by (simp_all add: rwal_holds_def)
  have ne: "tl (rf_log rf) \<noteq> []" "rf_log rf \<noteq> []" using assms(2) by (cases "rf_log rf"; auto)+
  have "map (from_wal_rec \<circ> to_wal_rec) (tl (rf_log rf)) = tl (rf_log rf)"
    using from_to_wal_rec [OF assms(1)] ne(2) by (intro map_idI) (auto dest: list.set_sel(2) [rotated])
  with raft_Make_holds(1) [OF f, of peers me now, unfolded log_recs_append log_recs_map_LogRec] ne assms(4) show ?thesis by (simp add: comp_def)
qed

lemma restart_loses_sentinel:
  assumes "rf_wal rf = Some w" and "rwal_holds w []" and "rw_lastPersisted w = 0"
    and "log_ok (rf_log rf)" and "2 \<le> length (rf_log rf)"
    and "length (concat (map (enc_log_rec \<circ> to_wal_rec) (tl (rf_log rf)))) \<le> quota (rw_file w)"
    and "rf_wal (persist rf) = Some w'"
  shows "rf_log (raft_Make peers me (rw_file w') now) = tl (rf_log rf) \<and>
    (\<forall>i < length (rf_log rf) - 1. le_Index (rf_log (raft_Make peers me (rw_file w') now) ! i) = int i + 1)"
proof -
  have "rf_log (raft_Make peers me (rw_file w') now) = tl (rf_log rf)"
    by (rule restart_log [OF assms(4,5), of _ "[]"]) (use persist_holds [OF assms] in simp_all)
  moreover have "le_Index (tl (rf_log rf) ! i) = int i + 1" if "i < length (rf_log rf) - 1" for i
    using that assms(4) by (simp add: nth_tl log_ok_def)
  ultimately show ?thesis by simp
qed

lemma restart_loses_sentinel_witness:
  "\<exists>w'. rf_wal (persist (demo_leader)) = Some w' \<and>
     rf_log (raft_Make [True] 0 (rw_file w') 9) = [\<lparr>le_Index = 1, le_Term = 1, le_Command = [7]\<rparr>]"
proof -
  have w: "rf_wal demo_leader = Some (createOrOpenRaftWAL \<lparr>content = [], quota = 1000\<rparr>)"
    by (simp add: demo_leader_def demo_wal)
  moreover from this obtain w' where "rf_wal (persist demo_leader) = Some w'"
    using persist_wal [OF w] by (simp add: demo_leader_def)
  moreover have "log_ok (rf_log demo_leader)"
    by (auto simp: log_ok_def demo_leader_def less_Suc_eq)
  ultimately show ?thesis
    using restart_loses_sentinel [of demo_leader _ w' "[True]" 0 9] demo_wal(2)
    by (simp add: demo_leader_def createOrOpenRaftWAL_def enc_log_rec_def to_wal_rec_def)
qed




text \<open>
  Replaced entries are not persisted: if the log is not longer than what was persisted
  before, as after a conflict that replaces a suffix, \<open>persist\<close> writes nothing, whatever the
  entries are.
\<close>

lemma replaced_entries_not_persisted:
  assumes "rf_wal rf = Some w" and "log_ok (rf_log rf)"
    and "length (rf_log rf) \<le> Suc (unat (rw_lastPersisted w))"
  shows "persist rf = rf"
  using rwal_AppendEntries_nothing_new [OF log_ok_recs [OF assms(2)], of w] assms
  by (simp add: persist_def)

lemma replaced_entries_not_persisted_witness:
  "persist (demo_leader\<lparr>rf_wal := Some ((createOrOpenRaftWAL \<lparr>content = [], quota = 1000\<rparr>)\<lparr>rw_lastPersisted := 1\<rparr>)\<rparr>) =
   demo_leader\<lparr>rf_wal := Some ((createOrOpenRaftWAL \<lparr>content = [], quota = 1000\<rparr>)\<lparr>rw_lastPersisted := 1\<rparr>)\<rparr>"
  by (rule replaced_entries_not_persisted
      [where w = "(createOrOpenRaftWAL \<lparr>content = [], quota = 1000\<rparr>)\<lparr>rw_lastPersisted := 1\<rparr>"])
    (simp_all add: log_ok_def demo_leader_def less_Suc_eq all_conj_distrib createOrOpenRaftWAL_def)

end
