(* ===== verification/Raft_Disk.thy ===== *)
theory Raft_Disk
  imports Raft_Recovery
begin

text \<open>
  What the disk of a Raft node holds while it runs: as long as no write fails, the file is a list of whole records, and
  the hard state that a restart would find is the one of the last \<open>persistState\<close>. The buffered writer keeps its
  first error, so that no write has failed is a condition on the state.
\<close>

section \<open>Writes that fail\<close>

definition wal_healthy :: "raft_wal \<Rightarrow> bool" where
  "wal_healthy w \<longleftrightarrow> rw_werr w = None"

lemma write_flush_fails:
  assumes "rw_pending w = []" and "rw_werr w = None" and "\<not> length p \<le> quota (rw_file w)"
  obtains w1 e where "writer_Write w p = (Some e, w1)" "rw_werr w1 \<noteq> None"
  | w1 where "writer_Write w p = (None, w1)" "\<And>i. \<exists>e w2. writer_Flush (w1\<lparr>rw_lastPersisted := i\<rparr>) = (Some e, w2) \<and> rw_werr w2 \<noteq> None"
    "\<exists>e w2. writer_Flush w1 = (Some e, w2) \<and> rw_werr w2 \<noteq> None"
proof (cases "length p > 64 * 1024")
  case True
  with assms show thesis by (intro that(1)) (auto simp: writer_Write_def file_Write_def)
next
  case False
  with assms show thesis
    by (intro that(2) [of "w\<lparr>rw_pending := p\<rparr>"]) (auto simp: writer_Write_def writer_Flush_def file_Write_def)
qed

lemma PersistHardState_healthy:
  assumes "rwal_holds w rs" and "wal_healthy (snd (PersistHardState w s))"
  shows "rwal_holds (snd (PersistHardState w s)) (rs @ [HardRec s])"
proof (cases "13 \<le> quota (rw_file w)")
  case True
  from PersistHardState_holds [OF assms(1) this, of s] show ?thesis by auto
next
  case False
  have l: "\<not> length (enc_hard_state s) \<le> quota (rw_file w)" using False by (simp add: enc_hard_state_def)
  have p: "rw_pending w = []" "rw_werr w = None" using assms(1) by (simp_all add: rwal_holds_def)
  from write_flush_fails [OF p l] have "\<not> wal_healthy (snd (PersistHardState w s))"
    by (cases rule: write_flush_fails [OF p l]) (auto simp: PersistHardState_def wal_healthy_def)
  with assms(2) show ?thesis by simp
qed

lemma encode_new_records:
  "\<exists>ls. set ls \<subseteq> set es \<and> fst (encode_new p es (buf, h)) = buf @ concat (map enc_log_rec ls)"
proof (induction es arbitrary: buf h)
  case (Cons e es)
  show ?case
  proof (cases "wr_Index e \<le> p")
    case True
    from Cons.IH [of buf h] True show ?thesis by auto
  next
    case False
    from Cons.IH [of "buf @ enc_log_rec e" "wr_Index e"] obtain ls where
      "set ls \<subseteq> set es" "fst (encode_new p es (buf @ enc_log_rec e, wr_Index e)) = buf @ concat (map enc_log_rec (e # ls))" by auto
    with False show ?thesis by (intro exI [of _ "e # ls"]) auto
  qed
qed (auto intro: exI [of _ "[]"])

lemma rwal_AppendEntries_healthy:
  assumes holds: "rwal_holds w rs" and ok: "\<forall>e \<in> set es. rrec_ok (LogRec e)" and "wal_healthy (snd (rwal_AppendEntries w es i))"
  shows "\<exists>ls. rwal_holds (snd (rwal_AppendEntries w es i)) (rs @ map LogRec ls)"
proof -
  define k where "k = (if word_of_int i \<le> rw_lastPersisted w then unat (rw_lastPersisted w - word_of_int i + 1) else 0)"
  obtain buf h where b: "encode_new (rw_lastPersisted w) (drop k es) ([], rw_lastPersisted w) = (buf, h)" by fastforce
  obtain ls where ls: "set ls \<subseteq> set (drop k es)" "buf = concat (map enc_log_rec ls)"
    using encode_new_records [of "drop k es" "rw_lastPersisted w" "[]" "rw_lastPersisted w"] b by auto
  have p: "rw_pending w = []" "rw_werr w = None" using holds by (simp_all add: rwal_holds_def)
  define out where "out = (case writer_Write w buf of (Some e, w) \<Rightarrow> (Some e, w)
    | (None, w) \<Rightarrow> (case writer_Flush (w\<lparr>rw_lastPersisted := h\<rparr>) of (Some e, w) \<Rightarrow> (Some e, w)
        | (None, w) \<Rightarrow> (None, w\<lparr>rw_lastPersisted := h, rw_trigger := True\<rparr>)))"
  have "rwal_AppendEntries w es i = (if word_of_int (i + int (length es) - 1) \<le> rw_lastPersisted w \<or> es = [] then (None, w)
      else if k > length es then (Some Panic, w) else if buf = [] then (None, w) else out)"
    unfolding rwal_AppendEntries_def Let_def k_def [symmetric] b out_def by (simp only: prod.case)
  then consider "snd (rwal_AppendEntries w es i) = w" | "rwal_AppendEntries w es i = out" by (auto split: if_splits)
  then show ?thesis
  proof cases
    case 1
    with holds show ?thesis by (intro exI [of _ "[]"]) simp
  next
    case out: 2
    show ?thesis
    proof (cases "length buf \<le> quota (rw_file w)")
      case True
      obtain w1 where "writer_Write w buf = (None, w1)" "writer_Flush (w1\<lparr>rw_lastPersisted := h\<rparr>) = (None, w\<lparr>rw_file :=
          \<lparr>content = content (rw_file w) @ buf, quota = quota (rw_file w) - length buf\<rparr>, rw_lastPersisted := h\<rparr>)"
        using write_flush [OF p True] by blast
      moreover have "\<forall>e \<in> set ls. rrec_ok (LogRec e)" using ls(1) ok by (blast dest: in_set_dropD)
      ultimately have "rwal_holds (snd (rwal_AppendEntries w es i)) (rs @ map LogRec ls)"
        using out holds by (auto simp: out_def rwal_holds_def ls(2) comp_def)
      then show ?thesis by blast
    next
      case False
      have "\<not> wal_healthy (snd (rwal_AppendEntries w es i))"
        using write_flush_fails [OF p False]
      proof cases
        case (2 w1)
        from 2(2) [of h] obtain e w2 where "writer_Flush (w1\<lparr>rw_lastPersisted := h\<rparr>) = (Some e, w2)" "rw_werr w2 \<noteq> None" by blast
        with 2(1) out show ?thesis by (simp add: out_def wal_healthy_def)
      qed (simp add: out out_def wal_healthy_def)
      with assms(3) show ?thesis by simp
    qed
  qed
qed

text \<open>An error stays.\<close>

lemma wal_error_stays:
  "wal_healthy (snd (PersistHardState w s)) \<Longrightarrow> wal_healthy w" "wal_healthy (snd (rwal_AppendEntries w es i)) \<Longrightarrow> wal_healthy w"
  by (auto simp: wal_healthy_def PersistHardState_def rwal_AppendEntries_def writer_Write_def Let_def split: option.splits if_splits prod.splits)


section \<open>The hard state on the disk\<close>

definition good_wal :: "raft \<Rightarrow> bool" where
  "good_wal rf \<longleftrightarrow> (\<exists>w rs. rf_wal rf = Some w \<and> rwal_holds w rs)"

definition node_healthy :: "raft \<Rightarrow> bool" where
  "node_healthy rf \<longleftrightarrow> (\<exists>w. rf_wal rf = Some w \<and> wal_healthy w) \<and> rf_currentTerm rf < 2 ^ 32 \<and>
     (\<forall>e \<in> set (rf_log rf). length (le_Command e) < 2 ^ 32)"

definition disk_hs :: "raft \<Rightarrow> hard_state" where
  "disk_hs rf = (case rf_wal rf of None \<Rightarrow> \<lparr>hs_Term = 0, hs_Vote = 0, hs_Commit = 0\<rparr> | Some w \<Rightarrow> fst (snd (fst (RecoverEntries w))))"

lemma disk_hs_holds:
  "rf_wal rf = Some w \<Longrightarrow> rwal_holds w rs \<Longrightarrow> disk_hs rf = last_hard \<lparr>hs_Term = 0, hs_Vote = 0, hs_Commit = 0\<rparr> rs"
  by (simp add: disk_hs_def RecoverEntries_holds)

lemma disk_hs_wal: "rf_wal rf' = rf_wal rf \<Longrightarrow> disk_hs rf' = disk_hs rf" "rf_wal rf' = rf_wal rf \<Longrightarrow> good_wal rf' = good_wal rf"
  by (simp_all add: disk_hs_def good_wal_def)

definition hard_of :: "raft \<Rightarrow> hard_state" where
  "hard_of rf = \<lparr>hs_Term = word_of_int (rf_currentTerm rf), hs_Vote = word_of_int (rf_votedFor rf),
     hs_Commit = word_of_int (rf_commitIndex rf)\<rparr>"

lemma persistState_disk:
  assumes "good_wal rf" and "rf_wal (persistState rf) = Some w'" and "wal_healthy w'"
  shows "good_wal (persistState rf) \<and> disk_hs (persistState rf) = hard_of rf"
proof -
  from assms(1) obtain w rs where w: "rf_wal rf = Some w" "rwal_holds w rs" by (auto simp: good_wal_def)
  then have w': "w' = snd (PersistHardState w (hard_of rf))" using assms(2) by (simp add: persistState_def hard_of_def)
  with PersistHardState_healthy [OF w(2), of "hard_of rf"] assms(3) have "rwal_holds w' (rs @ [HardRec (hard_of rf)])" by simp
  with assms(2) show ?thesis by (auto simp: good_wal_def disk_hs_holds)
qed

lemma persist_disk:
  assumes "good_wal rf" and "rf_wal (persist rf) = Some w'" and "wal_healthy w'" and "\<forall>e \<in> set (rf_log rf). length (le_Command e) < 2 ^ 32"
  shows "good_wal (persist rf) \<and> disk_hs (persist rf) = disk_hs rf"
proof -
  from assms(1) obtain w rs where w: "rf_wal rf = Some w" "rwal_holds w rs" by (auto simp: good_wal_def)
  show ?thesis
  proof (cases "rf_log rf = []")
    case True
    then have "persist rf = rf" using w(1) by (simp add: persist_def)
    with assms(1) show ?thesis by simp
  next
    case False
    then have w': "w' = snd (rwal_AppendEntries w (map to_wal_rec (rf_log rf)) 0)" using w(1) assms(2) by (simp add: persist_def)
    have "\<forall>e \<in> set (map to_wal_rec (rf_log rf)). rrec_ok (LogRec e)" using assms(4) by (simp add: to_wal_rec_def)
    from rwal_AppendEntries_healthy [OF w(2) this, of 0] assms(3) w' obtain ls where "rwal_holds w' (rs @ map LogRec ls)" by auto
    with assms(2) w show ?thesis by (auto simp: good_wal_def disk_hs_holds)
  qed
qed

lemma persist_wal_healthy:
  assumes "rf_wal (persist rf) = Some w'" and "wal_healthy w'" shows "\<exists>w. rf_wal rf = Some w \<and> wal_healthy w"
  using assms by (auto simp: persist_def split: option.splits if_splits dest: wal_error_stays)

lemma persistState_wal_healthy:
  assumes "rf_wal (persistState rf) = Some w'" and "wal_healthy w'" shows "\<exists>w. rf_wal rf = Some w \<and> wal_healthy w"
  using assms by (auto simp: persistState_def split: option.splits dest: wal_error_stays)

text \<open>What an operation does to the disk: it saves the term and the vote that the node has afterwards, or keeps the hard state.\<close>

definition saved :: "raft \<Rightarrow> bool" where
  "saved rf \<longleftrightarrow> good_wal rf \<and> hs_Term (disk_hs rf) = word_of_int (rf_currentTerm rf) \<and> hs_Vote (disk_hs rf) = word_of_int (rf_votedFor rf)"

lemma persistState_saved:
  assumes "good_wal rf" and "rf_wal rf' = rf_wal (persistState rf)" and "rf_currentTerm rf' = rf_currentTerm rf"
    and "rf_votedFor rf' = rf_votedFor rf" and "rf_wal rf' = Some w" and "wal_healthy w"
  shows "saved rf'"
proof -
  have "good_wal (persistState rf) \<and> disk_hs (persistState rf) = hard_of rf" using assms by (intro persistState_disk) simp_all
  moreover have "disk_hs rf' = disk_hs (persistState rf)" "good_wal rf' = good_wal (persistState rf)"
    using disk_hs_wal [OF assms(2)] by simp_all
  ultimately show ?thesis using assms(3,4) by (simp add: saved_def hard_of_def)
qed

definition kept :: "raft \<Rightarrow> raft \<Rightarrow> bool" where
  "kept rf rf' \<longleftrightarrow> good_wal rf' \<and> disk_hs rf' = disk_hs rf"

lemma kept_wal: "good_wal rf \<Longrightarrow> rf_wal rf' = rf_wal rf \<Longrightarrow> kept rf rf'"
  using disk_hs_wal [of rf' rf] by (simp add: kept_def)

lemma disk_Start: "good_wal rf \<Longrightarrow> raft_Start rf cmd = (r, rf') \<Longrightarrow> kept rf rf'"
  by (rule kept_wal) (auto simp: raft_Start_def Let_def split: if_splits option.splits)

lemma disk_applier: "good_wal rf \<Longrightarrow> applier_round rf = Some (Inr (es, rf')) \<Longrightarrow> kept rf rf'"
  by (rule kept_wal) (auto dest!: applier_roundD(2) simp: applier_step_def Let_def split: if_splits option.splits)

lemma disk_replicator:
  assumes "good_wal rf" and "node_healthy (replicator_step rf)"
  shows "kept rf (replicator_step rf)"
proof -
  let ?rf = "rf\<lparr>rf_triggerCh := False\<rparr>"
  have "good_wal ?rf" "disk_hs ?rf = disk_hs rf" using assms(1) disk_hs_wal [of ?rf rf] by simp_all
  with persist_disk [of ?rf] assms(2) show ?thesis by (auto simp: replicator_step_def node_healthy_def kept_def)
qed

lemma commit_scan_wal: "commit_scan rf N = Inr rf' \<Longrightarrow> rf_wal rf' = rf_wal rf"
  using commit_scan_result by fastforce

lemma disk_ack: "good_wal rf \<Longrightarrow> handleAppendReply rf j args reply = Inr rf' \<Longrightarrow> kept rf rf'"
  by (rule kept_wal) (auto simp: handleAppendReply_def advance_indices_def Let_def dest!: commit_scan_wal split: if_splits)

lemma disk_election:
  assumes "good_wal rf" and "startElection rf now = Inr (args, rf')" and "node_healthy rf'"
  shows "saved rf'"
proof -
  let ?rf = "rf\<lparr>rf_state := Candidate, rf_currentTerm := rf_currentTerm rf + 1, rf_votedFor := rf_me rf, rf_lastResetTime := now\<rparr>"
  have rf': "rf' = persistState ?rf" using assms(2) by (auto simp: startElection_def Let_def split: option.splits)
  have "good_wal ?rf" using assms(1) disk_hs_wal(2) [of ?rf rf] by simp
  from persistState_saved [OF this, of rf'] assms(3) show ?thesis by (auto simp: rf' node_healthy_def)
qed

lemma disk_count:
  assumes "good_wal rf" and "handleVoteReply rf t n reply = (n', won, rf')" and "node_healthy rf'"
  shows "kept rf rf' \<or> saved rf' \<and> rf_votedFor rf' = -1"
proof (cases "rf_state rf = Candidate \<and> rf_currentTerm rf = t \<and> rvr_Term reply > rf_currentTerm rf")
  case True
  let ?rf = "rf\<lparr>rf_currentTerm := rvr_Term reply, rf_state := Follower, rf_votedFor := -1, rf_leaderId := -1\<rparr>"
  have rf': "rf' = persistState ?rf" using assms(2) True by (auto simp: handleVoteReply_def)
  have "good_wal ?rf" using assms(1) disk_hs_wal(2) [of ?rf rf] by simp
  from persistState_saved [OF this, of rf'] assms(3) show ?thesis by (auto simp: rf' node_healthy_def)
next
  case False
  with assms(2) have "rf_wal rf' = rf_wal rf" by (auto simp: handleVoteReply_def Let_def init_leader_eq split: if_splits)
  with kept_wal [OF assms(1)] show ?thesis by blast
qed

lemma disk_vote:
  assumes g: "good_wal rf" and e: "raft_RequestVote rf args now = Inr (reply, rf')" and h: "node_healthy rf'"
  shows "if rvr_VoteGranted reply then saved rf' else kept rf rf' \<or> saved rf' \<and> rf_votedFor rf' = -1"
proof -
  let ?up = "rf\<lparr>rf_currentTerm := rva_Term args, rf_state := Follower, rf_votedFor := -1, rf_leaderId := -1\<rparr>"
  let ?rf = "if rva_Term args > rf_currentTerm rf then persistState ?up else rf"
  let ?yes = "?rf\<lparr>rf_votedFor := rva_CandidateId args, rf_state := Follower\<rparr>"
  obtain w where w: "rf_wal rf' = Some w" "wal_healthy w" using h by (auto simp: node_healthy_def)
  consider "rva_Term args < rf_currentTerm rf" "\<not> rvr_VoteGranted reply" "rf' = rf"
    | "\<not> rva_Term args < rf_currentTerm rf" "\<not> rvr_VoteGranted reply" "rf' = ?rf"
    | "\<not> rva_Term args < rf_currentTerm rf" "rvr_VoteGranted reply" "rf' = (persistState ?yes)\<lparr>rf_lastResetTime := now\<rparr>"
    using e by (auto simp: raft_RequestVote_def Let_def split: if_splits option.splits)
  then show ?thesis
  proof cases
    case 1
    then show ?thesis using kept_wal [OF g] by simp
  next
    case 2
    have "good_wal ?up" using g disk_hs_wal(2) [of ?up rf] by simp
    from persistState_saved [OF this, of rf'] 2 w kept_wal [OF g] show ?thesis by auto
  next
    case 3
    then have w1: "rf_wal (persistState ?yes) = Some w" using w by simp
    from persistState_wal_healthy [OF this w(2)] obtain w2 where w2: "rf_wal ?rf = Some w2" "wal_healthy w2" by auto
    have "good_wal ?up" using g disk_hs_wal(2) [of ?up rf] by simp
    with persistState_disk [of ?up] w2 g have "good_wal ?rf" by (auto split: if_splits)
    then have "good_wal ?yes" using disk_hs_wal(2) [of ?yes ?rf] by simp
    from persistState_saved [OF this, of rf' w] w w1 3 show ?thesis by simp
  qed
qed

lemma disk_append:
  assumes g: "good_wal rf" and e: "raft_AppendEntries rf args now = Inr (reply, rf')" and h: "node_healthy rf'"
  shows "rf' = rf \<or> saved rf' \<and> rf_votedFor rf' = -1"
proof (cases "aea_Term args < rf_currentTerm rf")
  case True
  with e show ?thesis by (auto simp: raft_AppendEntries_def)
next
  case False
  let ?rf = "rf\<lparr>rf_currentTerm := aea_Term args, rf_state := Follower, rf_votedFor := -1, rf_leaderId := aea_LeaderId args, rf_lastResetTime := now\<rparr>"
  obtain w where w: "rf_wal rf' = Some w" "wal_healthy w" and s: "\<forall>e \<in> set (rf_log rf'). length (le_Command e) < 2 ^ 32"
    using h by (auto simp: node_healthy_def)
  have gr: "good_wal ?rf" using g disk_hs_wal(2) [of ?rf rf] by simp
  have f: "rf_currentTerm rf' = aea_Term args" "rf_votedFor rf' = -1"
    using raft_AppendEntries_success [OF e] False by (auto simp: append_outcome_def)
  consider "rf_wal rf' = rf_wal (persistState ?rf)"
    | l where "rf_wal rf' = rf_wal (persist ((persistState ?rf)\<lparr>rf_log := l\<rparr>))" "rf_log rf' = l"
    using e False by (auto simp: raft_AppendEntries_def Let_def bindE_def update_commit_def split: if_splits option.splits sum.splits)
  then show ?thesis
  proof cases
    case 1
    from persistState_saved [OF gr 1 _ _ w] f show ?thesis by simp
  next
    case (2 l)
    let ?l = "(persistState ?rf)\<lparr>rf_log := l\<rparr>"
    have w1: "rf_wal (persist ?l) = Some w" using 2 w by simp
    from persist_wal_healthy [OF this w(2)] obtain w2 where w2: "rf_wal (persistState ?rf) = Some w2" "wal_healthy w2" by auto
    have "saved (persistState ?rf)" by (rule persistState_saved [OF gr refl _ _ w2]) simp_all
    then have sl: "saved ?l" using disk_hs_wal [of ?l "persistState ?rf"] by (simp add: saved_def)
    from persist_disk [OF _ w1 w(2)] s 2 sl have "good_wal (persist ?l) \<and> disk_hs (persist ?l) = disk_hs ?l" by (simp add: saved_def)
    then have "saved rf'" using sl f disk_hs_wal [of rf' "persist ?l"] 2 by (simp add: saved_def)
    with f show ?thesis by simp
  qed
qed

end
