(* ===== verification/Raft_Restarts.thy ===== *)
theory Raft_Restarts
  imports Raft_Disk Raft_Cluster_Logs
begin

text \<open>
  A cluster whose nodes are killed and started again on their files. A restart is \<open>Make\<close> on what is left of the file: all of it
  after the end of a process, and what the last \<open>Sync\<close> covered, or more, after a loss of power. The goroutines of the node are
  gone, and with them the replies it waits for; its requests that are on the way still arrive. The lemmas show that the
  votes on the disk protect elections across restarts of processes, and the last theorem that they do not across a loss of power.
\<close>

section \<open>Steps\<close>

fun caller :: "rpc \<Rightarrow> nat" where
  "caller (VoteReq i j args) = i"
| "caller (VoteRep i j t reply) = i"
| "caller (Heartbeat i j t) = i"
| "caller (AppReq i j args) = i"
| "caller (AppRep i j args reply) = i"

fun is_request :: "rpc \<Rightarrow> bool" where
  "is_request (VoteReq i j args) \<longleftrightarrow> True"
| "is_request (AppReq i j args) \<longleftrightarrow> True"
| "is_request m \<longleftrightarrow> False"

definition healthy :: "cluster \<Rightarrow> bool" where
  "healthy c \<longleftrightarrow> (\<forall>i. node_healthy (cl_node c i))"

text \<open>
  A state is a cluster and the requests of callers that have been killed. With \<open>outage\<close>, a restart may lose what was not
  synced. No write to a log fails, and terms and commands fit their fields.
\<close>

inductive restart_step :: "bool \<Rightarrow> bool \<Rightarrow> bool \<Rightarrow> cluster \<times> rpc set \<Rightarrow> cluster \<times> rpc set \<Rightarrow> bool" for strict timely outage where
  live: "cluster_step strict timely c c' \<Longrightarrow> healthy c' \<Longrightarrow> restart_step strict timely outage (c, left) (c', left)"
| syncer: "rf_wal (cl_node c i) = Some w \<Longrightarrow>
    restart_step strict timely outage (c, left) (set_node i ((cl_node c i)\<lparr>rf_wal := Some (backgroundSyncer w)\<rparr>) c, left)"
| restart: "rf_wal (cl_node c i) = Some w \<Longrightarrow> (if outage then rw_synced w \<le> n else n = length (content (rw_file w))) \<Longrightarrow>
    rf' = raft_Make (rf_peers (cl_node c i)) (rf_me (cl_node c i)) \<lparr>content = take n (content (rw_file w)), quota = q\<rparr> now \<Longrightarrow>
    restart_step strict timely outage (c, left)
      ((set_node i rf' c)\<lparr>cl_msgs := {m \<in> cl_msgs c. caller m \<noteq> i}\<rparr>, left \<union> {m \<in> cl_msgs c. caller m = i \<and> is_request m})"
| late_vote: "VoteReq i j args \<in> left \<Longrightarrow> raft_RequestVote (cl_node c j) args now = Inr (reply, rf') \<Longrightarrow>
    (strict \<longrightarrow> \<not> vote_erased c j args) \<Longrightarrow> node_healthy rf' \<Longrightarrow>
    restart_step strict timely outage (c, left)
      ((set_node j rf' c)\<lparr>cl_granted := (if rvr_VoteGranted reply then insert (j, rva_Term args, i) (cl_granted c) else cl_granted c)\<rparr>,
       left - {VoteReq i j args})"
| late_append: "AppReq i j args \<in> left \<Longrightarrow> raft_AppendEntries (cl_node c j) args now = Inr (reply, rf') \<Longrightarrow> node_healthy rf' \<Longrightarrow>
    restart_step strict timely outage (c, left) (set_node j rf' c, left)"
| late_lost: "restart_step strict timely outage (c, left) (c, left - {m})"

definition restart_init :: "cluster \<times> rpc set \<Rightarrow> bool" where
  "restart_init s \<longleftrightarrow> cluster_new (fst s) \<and> snd s = {} \<and> int (cl_size (fst s)) < 2 ^ 32 - 1"

section \<open>The term and the vote of the disk\<close>

definition dterm :: "raft \<Rightarrow> int" where
  "dterm rf = uint (hs_Term (disk_hs rf))"

text \<open>No vote is -1, which the file holds as the largest number; a file without a hard state is read as term 0.\<close>

definition no_vote :: "int \<Rightarrow> int" where
  "no_vote v = (if v = 2 ^ 32 - 1 then -1 else v)"

lemma no_vote_id: "v \<noteq> 2 ^ 32 - 1 \<Longrightarrow> no_vote v = v"
  by (simp add: no_vote_def)

definition dvote :: "raft \<Rightarrow> int" where
  "dvote rf = (if hs_Term (disk_hs rf) = 0 then -1 else no_vote (uint (hs_Vote (disk_hs rf))))"

text \<open>The memory of a node is not behind its disk; they agree for candidates and leaders, and on the vote of one term.\<close>

definition node_disk :: "raft \<Rightarrow> bool" where
  "node_disk rf \<longleftrightarrow> good_wal rf \<and> dterm rf \<le> rf_currentTerm rf \<and> (rf_state rf \<noteq> Follower \<longrightarrow> dterm rf = rf_currentTerm rf) \<and>
     (dterm rf = rf_currentTerm rf \<longrightarrow> dvote rf = no_vote (rf_votedFor rf))"

lemma dterm_nonneg [simp]: "0 \<le> dterm rf"
  by (simp add: dterm_def)

lemma node_disk_term: "node_disk rf \<Longrightarrow> 0 \<le> rf_currentTerm rf"
  by (meson dterm_nonneg node_disk_def order_trans)

lemma uint_vote: "-1 \<le> v \<Longrightarrow> v < 2 ^ 32 - 1 \<Longrightarrow> no_vote (uint (word_of_int v :: 32 word)) = v"
proof (cases "v = -1")
  case True
  then show ?thesis by (simp add: no_vote_def unsigned_minus_1_eq_mask mask_eq_exp_minus_1)
next
  case False
  assume "-1 \<le> v" "v < 2 ^ 32 - 1"
  with False uint_32 [of v] show ?thesis by (simp add: no_vote_def)
qed

lemma saved_disk:
  assumes "saved rf" and "0 \<le> rf_currentTerm rf" and "rf_currentTerm rf < 2 ^ 32" and "-1 \<le> rf_votedFor rf"
    and "rf_votedFor rf < 2 ^ 32 - 1" and "rf_currentTerm rf = 0 \<longrightarrow> rf_votedFor rf = -1"
  shows "dterm rf = rf_currentTerm rf" "dvote rf = rf_votedFor rf" "node_disk rf"
proof -
  show t: "dterm rf = rf_currentTerm rf" using assms(1-3) uint_32 by (simp add: saved_def dterm_def)
  have "hs_Term (disk_hs rf) = 0 \<longleftrightarrow> rf_currentTerm rf = 0" using t by (simp add: dterm_def word_uint_eq_iff)
  with assms(1,6) uint_vote [OF assms(4,5)] show v: "dvote rf = rf_votedFor rf" by (simp add: dvote_def saved_def)
  have "no_vote (rf_votedFor rf) = rf_votedFor rf" using assms(5) by (simp add: no_vote_def)
  with t v assms(1) show "node_disk rf" by (simp add: node_disk_def saved_def)
qed

lemma kept_disk:
  assumes "node_disk rf" and "kept rf rf'" and "rf_currentTerm rf \<le> rf_currentTerm rf'"
    and "rf_currentTerm rf' = rf_currentTerm rf \<longrightarrow> rf_votedFor rf' = rf_votedFor rf"
    and "rf_state rf' \<noteq> Follower \<longrightarrow> rf_state rf \<noteq> Follower \<and> rf_currentTerm rf' = rf_currentTerm rf"
  shows "dterm rf' = dterm rf" "dvote rf' = dvote rf" "node_disk rf'"
proof -
  show "dterm rf' = dterm rf" "dvote rf' = dvote rf" using assms(2) by (simp_all add: kept_def dterm_def dvote_def)
  then show "node_disk rf'" using assms by (auto simp: node_disk_def kept_def)
qed

text \<open>A restart finds the term and the vote of the disk.\<close>

lemma raft_Make_disk:
  assumes "good_wal rf" and "rf_wal rf = Some w" and "content f = content (rw_file w)"
  shows "kept rf (raft_Make peers me f now)" "rf_currentTerm (raft_Make peers me f now) = dterm rf"
    "no_vote (rf_votedFor (raft_Make peers me f now)) = dvote rf"
proof -
  from assms obtain rs where h: "rwal_holds w rs" by (auto simp: good_wal_def)
  then have f: "rwal_holds (createOrOpenRaftWAL f) rs" using assms(3) by (simp add: rwal_holds_def createOrOpenRaftWAL_def)
  let ?hs = "last_hard \<lparr>hs_Term = 0, hs_Vote = 0, hs_Commit = 0\<rparr> rs"
  have d: "disk_hs rf = ?hs" by (rule disk_hs_holds [OF assms(2) h])
  let ?w = "if log_recs rs \<noteq> [] then (createOrOpenRaftWAL f)\<lparr>rw_lastPersisted := wr_Index (last (log_recs rs))\<rparr> else createOrOpenRaftWAL f"
  have "rf_wal (raft_Make peers me f now) = Some ?w"
    by (simp add: raft_Make_def readPersist_def RecoverEntries_holds [OF f] Let_def)
  moreover have "rwal_holds ?w rs" using f by (simp add: rwal_holds_def)
  ultimately show "kept rf (raft_Make peers me f now)" by (auto simp: kept_def good_wal_def d disk_hs_holds)
  have "0 < hs_Term ?hs \<longleftrightarrow> hs_Term ?hs \<noteq> 0" by (simp add: word_neq_0_conv)
  then show "rf_currentTerm (raft_Make peers me f now) = dterm rf" "no_vote (rf_votedFor (raft_Make peers me f now)) = dvote rf"
    by (auto simp: raft_Make_def readPersist_def RecoverEntries_holds [OF f] Let_def dterm_def dvote_def d no_vote_def)
qed

section \<open>The view of the disks\<close>

definition dview :: "raft \<Rightarrow> raft" where
  "dview rf = rf\<lparr>rf_currentTerm := dterm rf, rf_votedFor := dvote rf\<rparr>"

lemma dview_fields [simp]:
  "rf_currentTerm (dview rf) = dterm rf" "rf_votedFor (dview rf) = dvote rf" "rf_state (dview rf) = rf_state rf"
  "rf_me (dview rf) = rf_me rf" "rf_peers (dview rf) = rf_peers rf"
  by (simp_all add: dview_def)

definition cview :: "cluster \<Rightarrow> rpc set \<Rightarrow> cluster" where
  "cview c left = c\<lparr>cl_node := \<lambda>i. dview (cl_node c i), cl_msgs := cl_msgs c \<union> left\<rparr>"

lemma cview_fields [simp]:
  "cl_size (cview c left) = cl_size c" "cl_node (cview c left) i = dview (cl_node c i)" "cl_msgs (cview c left) = cl_msgs c \<union> left"
  "cl_votes (cview c left) = cl_votes c" "cl_granted (cview c left) = cl_granted c" "cl_counted (cview c left) = cl_counted c"
  by (simp_all add: cview_def)

lemma cview_set: "cview (set_node i rf c) left = set_node i (dview rf) (cview c left)"
  by (simp add: cview_def fun_eq_iff fun_upd_def)

lemma quiet_kept:
  assumes "node_disk rf" and "kept rf rf'" and "quiet rf rf'" and "node_disk rf'"
  shows "quiet (dview rf) (dview rf')"
  using assms by (auto simp: quiet_def node_disk_def kept_def dterm_def dvote_def)

lemma quiet_saved:
  assumes "node_disk rf" and "dterm rf' = rf_currentTerm rf'" and "dvote rf' = -1" and "quiet rf rf'"
  shows "quiet (dview rf) (dview rf')"
  using assms by (auto simp: quiet_def node_disk_def)


section \<open>Nodes and their disks\<close>

text \<open>A step of a node that neither votes nor wins, in memory and on the disk.\<close>

definition steady :: "raft \<Rightarrow> raft \<Rightarrow> bool" where
  "steady rf rf' \<longleftrightarrow> node_disk rf' \<and> quiet (dview rf) (dview rf')"

lemma steady_kept:
  assumes "node_disk rf" and "kept rf rf'" and "quiet rf rf'" and "rf_currentTerm rf' = rf_currentTerm rf \<longrightarrow> rf_votedFor rf' = rf_votedFor rf"
    and "rf_state rf' \<noteq> Follower \<longrightarrow> rf_state rf \<noteq> Follower \<and> rf_currentTerm rf' = rf_currentTerm rf"
  shows "steady rf rf'"
  using quiet_kept [OF assms(1-3)] kept_disk(3) [OF assms(1,2) _ assms(4,5)] assms(3) by (simp add: steady_def quiet_def)

lemma steady_saved:
  assumes "node_disk rf" and "saved rf'" and "rf_votedFor rf' = -1" and "quiet rf rf'" and "node_healthy rf'"
  shows "steady rf rf'"
proof -
  have t: "0 \<le> rf_currentTerm rf'" "rf_currentTerm rf' < 2 ^ 32" using node_disk_term [OF assms(1)] assms(4,5) by (auto simp: quiet_def node_healthy_def)
  from saved_disk [OF assms(2) this] assms(3) quiet_saved [OF assms(1) _ _ assms(4)] show ?thesis by (simp add: steady_def)
qed

lemma node_disk_good: "node_disk rf \<Longrightarrow> good_wal rf"
  by (simp add: node_disk_def)

lemma steady_Start: "node_disk rf \<Longrightarrow> raft_Start rf cmd = (r, rf') \<Longrightarrow> steady rf rf'"
  by (rule steady_kept [OF _ disk_Start [OF node_disk_good] quiet_Start])
    (auto simp: raft_Start_def Let_def split: if_splits option.splits)

lemma steady_applier: "node_disk rf \<Longrightarrow> applier_round rf = Some (Inr (es, rf')) \<Longrightarrow> steady rf rf'"
  by (rule steady_kept [OF _ disk_applier [OF node_disk_good] quiet_applier])
    (auto dest!: applier_roundD(2) simp: applier_step_def Let_def split: if_splits option.splits)

lemma steady_replicator: "node_disk rf \<Longrightarrow> node_healthy (replicator_step rf) \<Longrightarrow> steady rf (replicator_step rf)"
  by (rule steady_kept [OF _ disk_replicator [OF node_disk_good] quiet_replicator]) (simp_all add: replicator_step_def)

lemma ack_fields:
  assumes "handleAppendReply rf j args reply = Inr rf'"
  shows "rf_currentTerm rf' > rf_currentTerm rf \<and> rf_state rf' = Follower \<or>
    rf_currentTerm rf' = rf_currentTerm rf \<and> rf_votedFor rf' = rf_votedFor rf \<and> rf_state rf' = rf_state rf"
proof -
  have c: "commit_scan x N = Inr y \<Longrightarrow> rf_currentTerm y = rf_currentTerm x \<and> rf_votedFor y = rf_votedFor x \<and> rf_state y = rf_state x" for x y N
    using commit_scan_result [of x N y] by auto
  show ?thesis using assms by (auto simp: handleAppendReply_def advance_indices_def Let_def dest!: c split: if_splits)
qed

lemma steady_ack: "node_disk rf \<Longrightarrow> handleAppendReply rf j args reply = Inr rf' \<Longrightarrow> steady rf rf'"
  by (rule steady_kept [OF _ disk_ack [OF node_disk_good] quiet_ack]) (auto dest: ack_fields)

lemma steady_append:
  assumes "node_disk rf" and e: "raft_AppendEntries rf args now = Inr (reply, rf')" and "node_healthy rf'"
  shows "steady rf rf'"
  using disk_append [OF node_disk_good [OF assms(1)] e assms(3)] steady_saved [OF assms(1) _ _ quiet_append [OF e] assms(3)] assms(1)
  by (auto simp: steady_def)

lemma steady_count:
  assumes "node_disk rf" and e: "handleVoteReply rf t n reply = (n, won, rf')" and "node_healthy rf'"
  shows "steady rf rf'"
proof (rule disjE [OF disk_count [OF node_disk_good [OF assms(1)] e assms(3)]])
  assume "kept rf rf'"
  from steady_kept [OF assms(1) this quiet_count [OF e]] e show ?thesis
    by (auto simp: handleVoteReply_def Let_def split: if_splits)
qed (use steady_saved [OF assms(1) _ _ quiet_count [OF e] assms(3)] in blast)

lemma steady_refused:
  assumes "node_disk rf" and e: "raft_RequestVote rf args now = Inr (reply, rf')" and "\<not> rvr_VoteGranted reply" and "node_healthy rf'"
  shows "steady rf rf'"
proof -
  have o: "rf_currentTerm rf' = max (rf_currentTerm rf) (rva_Term args)"
    "rf_votedFor rf' = (if rf_currentTerm rf < rva_Term args then -1 else rf_votedFor rf)"
    "rf_state rf' = (if rf_currentTerm rf < rva_Term args then Follower else rf_state rf)" "rf_me rf' = rf_me rf" "rf_peers rf' = rf_peers rf"
    using raft_RequestVote_result [OF e] assms(3) by (auto simp: vote_outcome_def)
  then have q: "quiet rf rf'" by (auto simp: quiet_def max_def split: if_splits)
  from disk_vote [OF node_disk_good [OF assms(1)] e assms(4)] assms(3) consider "kept rf rf'" | "saved rf'" "rf_votedFor rf' = -1" by auto
  then show ?thesis
  proof cases
    case 1
    from steady_kept [OF assms(1) 1 q] o show ?thesis by (auto simp: max_def split: if_splits)
  qed (use steady_saved [OF assms(1) _ _ q assms(4)] in blast)
qed

lemma steady_sync: "node_disk rf \<Longrightarrow> rf_wal rf = Some w \<Longrightarrow> steady rf (rf\<lparr>rf_wal := Some (backgroundSyncer w)\<rparr>)"
proof -
  assume n: "node_disk rf" and w: "rf_wal rf = Some w"
  let ?rf = "rf\<lparr>rf_wal := Some (backgroundSyncer w)\<rparr>"
  obtain rs where rs: "rwal_holds w rs" using node_disk_good [OF n] w by (auto simp: good_wal_def)
  then have "rwal_holds (backgroundSyncer w) rs" by (simp add: rwal_holds_def backgroundSyncer_def)
  then have "kept rf ?rf" using disk_hs_holds [OF w rs] disk_hs_holds [of ?rf] by (auto simp: kept_def good_wal_def)
  from steady_kept [OF n this] show ?thesis by (simp add: quiet_def)
qed

lemma node_disk_Make:
  assumes "good_wal rf" and "rf_wal rf = Some w" and "content f = content (rw_file w)"
  shows "dterm (raft_Make peers me f now) = dterm rf" "dvote (raft_Make peers me f now) = dvote rf" "node_disk (raft_Make peers me f now)"
proof -
  note M = raft_Make_disk [OF assms, of peers me now]
  show "dterm (raft_Make peers me f now) = dterm rf" "dvote (raft_Make peers me f now) = dvote rf"
    using M(1) by (simp_all add: kept_def dterm_def dvote_def)
  with M show "node_disk (raft_Make peers me f now)" by (simp add: node_disk_def kept_def raft_Make_fields)
qed

lemma steady_restart:
  assumes "node_disk rf" and "rf_wal rf = Some w" and "content f = content (rw_file w)"
  shows "steady rf (raft_Make (rf_peers rf) (rf_me rf) f now)"
  using node_disk_Make [OF node_disk_good [OF assms(1)] assms(2,3)] by (simp add: steady_def quiet_def raft_Make_fields)

section \<open>The invariant\<close>

definition rinv :: "cluster \<times> rpc set \<Rightarrow> bool" where
  "rinv s \<longleftrightarrow> (case s of (c, left) \<Rightarrow> cluster_inv (cview c left) \<and> (\<forall>i. node_disk (cl_node c i)) \<and> int (cl_size c) < 2 ^ 32 - 1 \<and>
     (\<forall>i j a. VoteReq i j a \<in> cl_msgs c \<union> left \<longrightarrow> 1 \<le> rva_Term a) \<and>
     (\<forall>i j a. VoteReq i j a \<in> cl_msgs c \<longrightarrow> VoteReq i j a \<notin> left) \<and> (\<forall>i j t x. VoteRep i j t x \<notin> left))"

lemma rinvD:
  assumes "rinv (c, left)"
  shows "cluster_inv (cview c left)" "node_disk (cl_node c i)" "int (cl_size c) < 2 ^ 32 - 1"
    "VoteReq i j a \<in> cl_msgs c \<union> left \<Longrightarrow> 1 \<le> rva_Term a" "VoteReq i j a \<in> cl_msgs c \<Longrightarrow> VoteReq i j a \<notin> left"
    "VoteRep i j t x \<notin> left"
  using assms by (auto simp: rinv_def)

lemma rinvI:
  assumes "cluster_inv (cview c left)" and "\<And>i. node_disk (cl_node c i)" and "int (cl_size c) < 2 ^ 32 - 1"
    and "\<And>i j a. VoteReq i j a \<in> cl_msgs c \<union> left \<Longrightarrow> 1 \<le> rva_Term a"
    and "\<And>i j a. VoteReq i j a \<in> cl_msgs c \<Longrightarrow> VoteReq i j a \<notin> left" and "\<And>i j t x. VoteRep i j t x \<notin> left"
  shows "rinv (c, left)"
  using assms by (auto simp: rinv_def)

text \<open>A step that sends no vote request.\<close>

lemma rinv_steady:
  assumes r: "rinv (c, left)" and steady: "steady (cl_node c i) rf'" and M: "votes_within M (cl_msgs c)" and L: "votes_within left' (cl_msgs c \<union> left)"
    and disj: "\<And>i j a. VoteReq i j a \<in> M \<Longrightarrow> VoteReq i j a \<notin> left'" and reps: "\<And>i j t x. VoteRep i j t x \<notin> left'"
  shows "rinv ((set_node i rf' c)\<lparr>cl_msgs := M\<rparr>, left')"
proof -
  have "cluster_inv ((set_node i (dview rf') (cview c left))\<lparr>cl_msgs := M \<union> left'\<rparr>)"
    using steady M L by (intro cluster_inv_quiet [OF rinvD(1) [OF r]]) (auto simp: steady_def votes_within_def)
  moreover have "(set_node i (dview rf') (cview c left))\<lparr>cl_msgs := M \<union> left'\<rparr> = cview ((set_node i rf' c)\<lparr>cl_msgs := M\<rparr>) left'"
    by (simp add: cview_def fun_eq_iff)
  moreover have "1 \<le> rva_Term a" if "VoteReq k j a \<in> M \<union> left'" for k j a using that M L rinvD(4) [OF r, of k j a] by (auto simp: votes_within_def)
  ultimately show ?thesis using rinvD(2,3) [OF r] steady disj reps by (auto simp: rinv_def steady_def)
qed

lemma rinv_node: "rinv (c, left) \<Longrightarrow> steady (cl_node c i) rf' \<Longrightarrow> rinv (set_node i rf' c, left)"
  using rinv_steady [of c left i rf' "cl_msgs c" left] rinvD(5,6) [of c left] by (auto simp: votes_within_def)

lemma steady_refl: "node_disk rf \<Longrightarrow> steady rf rf"
  by (simp add: steady_def)

lemma rinv_msgs:
  assumes "rinv (c, left)" and "votes_within M (cl_msgs c)" and "votes_within left' left"
  shows "rinv (c\<lparr>cl_msgs := M\<rparr>, left')"
proof -
  have disj: "VoteReq i j a \<notin> left'" if "VoteReq i j a \<in> M" for i j a
    using that assms(2,3) rinvD(5) [OF assms(1), of i j a] by (auto simp: votes_within_def)
  have "votes_within left' (cl_msgs c \<union> left)" using assms(3) by (auto simp: votes_within_def)
  moreover have "VoteRep i j t x \<notin> left'" for i j t x using assms(3) rinvD(6) [OF assms(1)] by (auto simp: votes_within_def)
  ultimately
  have "rinv ((set_node 0 (cl_node c 0) c)\<lparr>cl_msgs := M\<rparr>, left')"
    using rinv_steady [OF assms(1) steady_refl [OF rinvD(2) [OF assms(1)]] assms(2) _ disj] by blast
  then show ?thesis by simp
qed

lemma vote_disk:
  assumes r: "rinv (c, left)" and m: "VoteReq i j args \<in> cl_msgs c \<union> left"
    and e: "raft_RequestVote (cl_node c j) args now = Inr (reply, rf')" and s: "\<not> vote_erased c j args" and h: "node_healthy rf'"
  shows "node_disk rf'" "cluster_inv ((set_node j (dview rf') (cview c left))\<lparr>
      cl_msgs := insert (VoteRep i j (rva_Term args) reply) (cl_msgs c \<union> left - {VoteReq i j args}),
      cl_granted := (if rvr_VoteGranted reply then insert (j, rva_Term args, i) (cl_granted c) else cl_granted c)\<rparr>)"
proof -
  let ?rf = "cl_node c j" and ?c = "cview c left"
  note I = cluster_invD [OF rinvD(1) [OF r]] and n = rinvD(2) [OF r, of j] and o = raft_RequestVote_result [OF e, unfolded vote_outcome_def]
  have R: "i < cl_size c" "rva_CandidateId args = int i" using I(6) [of i j args] m by (simp_all add: req_ok_def)
  have v: "int i < 2 ^ 32 - 1" using R(1) rinvD(3) [OF r] by linarith
  have yes: "node_disk rf' \<and> dterm rf' = rva_Term args \<and> dvote rf' = int i \<and> rf_currentTerm ?rf \<le> rva_Term args \<and> rf_state rf' = Follower"
    if g: "rvr_VoteGranted reply"
  proof -
    have t: "rf_currentTerm rf' = rva_Term args" "rf_votedFor rf' = int i" "rf_currentTerm ?rf \<le> rva_Term args" "rf_state rf' = Follower"
      using o g R(2) by (auto simp: grants_def)
    have "saved rf'" using disk_vote [OF node_disk_good [OF n] e h] g by simp
    moreover have "rf_currentTerm rf' < 2 ^ 32" using h by (simp add: node_healthy_def)
    ultimately have "dterm rf' = rf_currentTerm rf'" "dvote rf' = rf_votedFor rf'" "node_disk rf'"
      using saved_disk [of rf'] rinvD(4) [OF r m] v t(1,2) by simp_all
    with t show ?thesis by simp
  qed
  have no: "steady ?rf rf'" if "\<not> rvr_VoteGranted reply" by (rule steady_refused [OF n e that h])
  show "node_disk rf'" using yes no by (cases "rvr_VoteGranted reply") (auto simp: steady_def)
  have le: "dterm ?rf \<le> rf_currentTerm ?rf" using n by (simp add: node_disk_def)
  have same: "k = i" if g: "rvr_VoteGranted reply" and k: "(j, rva_Term args, k) \<in> cl_granted c" for k
  proof -
    have "rva_Term args \<le> dterm ?rf" using I(4) [of j "rva_Term args" k] k by simp
    then have t: "dterm ?rf = rva_Term args" "rf_currentTerm ?rf = rva_Term args" using le yes [OF g] by auto
    have "rf_votedFor ?rf = -1 \<or> rf_votedFor ?rf = int i" using o g t R(2) by (auto simp: grants_def)
    moreover have "rf_votedFor ?rf \<noteq> -1" using s k t by (auto simp: vote_erased_def)
    moreover have "int i \<noteq> 2 ^ 32 - 1" using v by simp
    ultimately have "no_vote (rf_votedFor ?rf) = int i" by (metis no_vote_id)
    moreover have "dvote ?rf = no_vote (rf_votedFor ?rf)" using n t by (simp add: node_disk_def)
    moreover have "rf_votedFor (cl_node ?c j) \<in> {int k, -1}" by (rule I(5) [of j "rva_Term args"]) (use k t(1) in simp_all)
    ultimately show ?thesis by simp
  qed
  show "cluster_inv ((set_node j (dview rf') (cview c left))\<lparr>
      cl_msgs := insert (VoteRep i j (rva_Term args) reply) (cl_msgs c \<union> left - {VoteReq i j args}),
      cl_granted := (if rvr_VoteGranted reply then insert (j, rva_Term args, i) (cl_granted c) else cl_granted c)\<rparr>)"
  proof (rule cluster_inv_voter [OF rinvD(1) [OF r], of i j args "dview rf'" reply])
    show "VoteReq i j args \<in> cl_msgs ?c" using m by simp
    show "rf_me (dview rf') = rf_me (cl_node ?c j)" "rf_peers (dview rf') = rf_peers (cl_node ?c j)" using o by simp_all
    show "rf_currentTerm (cl_node ?c j) \<le> rf_currentTerm (dview rf')"
      using yes no le by (cases "rvr_VoteGranted reply") (auto simp: steady_def quiet_def)
    show "rf_state (cl_node ?c j) = Leader \<and> rf_currentTerm (dview rf') = rf_currentTerm (cl_node ?c j)" if "rf_state (dview rf') = Leader"
      using yes no that by (cases "rvr_VoteGranted reply") (auto simp: steady_def quiet_def)
    show "rf_currentTerm (dview rf') = rva_Term args \<and> rf_votedFor (dview rf') = int i" if "rvr_VoteGranted reply" using yes [OF that] by simp
    show "rf_votedFor (dview rf') \<in> {rf_votedFor (cl_node ?c j), -1}"
      if "\<not> rvr_VoteGranted reply" "rf_currentTerm (dview rf') = rf_currentTerm (cl_node ?c j)" using no [OF that(1)] that(2) by (simp add: steady_def quiet_def)
  qed (use same in simp_all)
qed

lemma rinv_elect:
  assumes r: "rinv (c, left)" and i: "i < cl_size c" and e: "startElection (cl_node c i) now = Inr (args, rf')" and hn: "node_healthy rf'"
    and c': "c' = (set_node i rf' c)\<lparr>
      cl_msgs := cl_msgs c \<union> {VoteReq i j args | j. j < cl_size c \<and> j \<noteq> i},
      cl_votes := upd2 (cl_votes c) i (rf_currentTerm rf') 1,
      cl_granted := insert (i, rf_currentTerm rf', i) (cl_granted c),
      cl_counted := upd2 (cl_counted c) i (rf_currentTerm rf') {i}\<rparr>"
  shows "rinv (c', left)"
proof -
  note I = cluster_invD [OF rinvD(1) [OF r]]
  have S: "rva_Term args = rf_currentTerm (cl_node c i) + 1" "rva_CandidateId args = rf_me (cl_node c i)"
    "rf_currentTerm rf' = rf_currentTerm (cl_node c i) + 1" "rf_votedFor rf' = rf_me (cl_node c i)" "rf_state rf' = Candidate"
    "rf_me rf' = rf_me (cl_node c i)" "rf_peers rf' = rf_peers (cl_node c i)" using startElection_result [OF e] by simp_all
  have me: "rf_me (cl_node c i) = int i" "length (rf_peers (cl_node c i)) = cl_size c" using I(1,2) [of i] by simp_all
  have n: "0 \<le> rf_currentTerm (cl_node c i)" "dterm (cl_node c i) \<le> rf_currentTerm (cl_node c i)"
    using rinvD(2) [OF r, of i] node_disk_term by (auto simp: node_disk_def)
  have d: "dterm rf' = rf_currentTerm rf'" "dvote rf' = int i" "node_disk rf'"
    using saved_disk [OF disk_election [OF node_disk_good [OF rinvD(2) [OF r]] e hn]] S n me i rinvD(3) [OF r] hn
    by (simp_all add: node_healthy_def)
  have v: "cview c' left = (set_node i (dview rf') (cview c left))\<lparr>
      cl_msgs := cl_msgs (cview c left) \<union> {VoteReq i j args | j. j < cl_size (cview c left) \<and> j \<noteq> i},
      cl_votes := upd2 (cl_votes (cview c left)) i (rf_currentTerm (dview rf')) 1,
      cl_granted := insert (i, rf_currentTerm (dview rf'), i) (cl_granted (cview c left)),
      cl_counted := upd2 (cl_counted (cview c left)) i (rf_currentTerm (dview rf')) {i}\<rparr>"
    by (rule cluster.equality) (auto simp: c' cview_def fun_eq_iff d)
  have "cluster_inv (cview c' left)"
    by (rule cluster_inv_candidate [OF rinvD(1) [OF r] _ _ _ _ _ _ _ _ v]) (use S n me d i in simp_all)
  moreover have "VoteReq i j args \<notin> left" for j
    using I(6) [of i j args] S(1) n by (auto simp: req_ok_def)
  ultimately show ?thesis
    by (rule_tac rinvI) (use rinvD(2,3) [OF r] rinvD(5,6) [OF r] d(3) S(1) n(1) in \<open>auto simp: c' intro: rinvD(4) [OF r]\<close>)
qed

lemma rinv_vote:
  assumes r: "rinv (c, left)" and m: "VoteReq i j args \<in> cl_msgs c"
    and e: "raft_RequestVote (cl_node c j) args now = Inr (reply, rf')" and s: "\<not> vote_erased c j args" and hn: "node_healthy rf'"
    and c': "c' = (set_node j rf' c)\<lparr>
      cl_msgs := insert (VoteRep i j (rva_Term args) reply) (cl_msgs c - {VoteReq i j args}),
      cl_granted := (if rvr_VoteGranted reply then insert (j, rva_Term args, i) (cl_granted c) else cl_granted c)\<rparr>"
  shows "rinv (c', left)"
proof -
  have m': "VoteReq i j args \<in> cl_msgs c \<union> left" "VoteReq i j args \<notin> left" using m rinvD(5) [OF r] by auto
  note V = vote_disk [OF r m'(1) e]
  have "cview c' left = (set_node j (dview rf') (cview c left))\<lparr>
    cl_msgs := insert (VoteRep i j (rva_Term args) reply) (cl_msgs c \<union> left - {VoteReq i j args}),
    cl_granted := (if rvr_VoteGranted reply then insert (j, rva_Term args, i) (cl_granted c) else cl_granted c)\<rparr>"
    using m'(2) by (intro cluster.equality) (auto simp: c' cview_def fun_eq_iff)
  with V(2) s hn have "cluster_inv (cview c' left)" by simp
  then show ?thesis
    by (rule rinvI) (use V(1) s hn rinvD(2,3) [OF r] rinvD(4-6) [OF r] in \<open>auto simp: c'\<close>)
qed

lemma rinv_count:
  assumes r: "rinv (c, left)" and m: "VoteRep i j t reply \<in> cl_msgs c"
    and e: "handleVoteReply (cl_node c i) t (cl_votes c i t) reply = (n, won, rf')" and n: "n \<noteq> cl_votes c i t"
    and c': "c' = (set_node i rf' c)\<lparr>
      cl_msgs := cl_msgs c - {VoteRep i j t reply},
      cl_votes := upd2 (cl_votes c) i t n,
      cl_counted := upd2 (cl_counted c) i t (insert j (cl_counted c i t))\<rparr>"
  shows "rinv (c', left)"
proof -
  note I = cluster_invD [OF rinvD(1) [OF r]]
  let ?rf = "cl_node c i"
  have g: "rf_state ?rf = Candidate" "rf_currentTerm ?rf = t" "rvr_VoteGranted reply" "n = cl_votes c i t + 1"
    "rf' = (if n = votesRequired ?rf then init_leader ?rf else ?rf)"
    using e n by (auto simp: handleVoteReply_def Let_def split: if_splits)
  have k: "kept ?rf rf'" by (rule kept_wal [OF node_disk_good [OF rinvD(2) [OF r]]]) (simp add: g(5) init_leader_eq)
  have f: "rf_currentTerm rf' = t" "rf_votedFor rf' = rf_votedFor ?rf" "rf_me rf' = rf_me ?rf" "rf_peers rf' = rf_peers ?rf"
    using g by (auto simp: init_leader_eq)
  have d: "dterm rf' = t" "dvote rf' = dvote ?rf" "dterm ?rf = t" "node_disk rf'"
    using k f g(1,2) rinvD(2) [OF r, of i] by (auto simp: node_disk_def kept_def dterm_def dvote_def)
  have v: "cview c' left = (set_node i (dview rf') (cview c left))\<lparr>
      cl_msgs := cl_msgs (cview c left) - {VoteRep i j t reply},
      cl_votes := upd2 (cl_votes (cview c left)) i t n,
      cl_counted := upd2 (cl_counted (cview c left)) i t (insert j (cl_counted (cview c left) i t))\<rparr>"
    using rinvD(6) [OF r] by (intro cluster.equality) (auto simp: c' cview_def fun_eq_iff n)
  have "cluster_inv (cview c' left)"
    by (rule cluster_inv_counter [OF rinvD(1) [OF r] _ _ _ _ _ _ _ _ _ v])
      (use m g d f I(2) [of i] in \<open>auto simp: votesRequired_def init_leader_eq split: if_splits\<close>)
  then show ?thesis
    by (rule rinvI) (use d(4) rinvD(2,3) [OF r] rinvD(4-6) [OF r] in \<open>auto simp: c'\<close>)
qed

lemma rinv_live:
  assumes r: "rinv (c, left)" and step: "cluster_step True timely c c'" and h: "\<And>i. node_healthy (cl_node c' i)"
  shows "rinv (c', left)"
  using step
proof cases
  case (elect i now args rf')
  show ?thesis by (rule rinv_elect [OF r elect(2,3) _ elect(1)]) (use h [of i] in \<open>simp add: elect(1)\<close>)
next
  case (vote i j args now reply rf')
  show ?thesis by (rule rinv_vote [OF r vote(2,3) _ _ vote(1)]) (use vote(4) h [of j] in \<open>simp_all add: vote(1)\<close>)
next
  case (count i j t reply n won rf')
  show ?thesis
  proof (cases "n = cl_votes c i t")
    case True
    have "rinv ((set_node i rf' c)\<lparr>cl_msgs := cl_msgs c - {VoteRep i j t reply}\<rparr>, left)"
      by (rule rinv_steady [OF r steady_count [OF rinvD(2) [OF r]]])
        (use count(3) True h [of i] rinvD(5,6) [OF r] in \<open>auto simp: votes_within_def count(1)\<close>)
    with True show ?thesis by (simp add: count(1))
  next
    case False
    from rinv_count [OF r count(2,3) this] count(1) False show ?thesis by simp
  qed
next
  case (append i j args now reply rf')
  have "steady (cl_node c j) rf'" using steady_append [OF rinvD(2) [OF r] append(3)] h [of j] by (simp add: append(1))
  then show ?thesis unfolding append(1)
    by (rule rinv_steady [OF r]) (use rinvD(5,6) [OF r] in \<open>auto simp: votes_within_def\<close>)
next
  case (ack i j args reply rf')
  then show ?thesis by (auto intro: rinv_node [OF r steady_ack [OF rinvD(2) [OF r]]])
next
  case (client i cmd x rf')
  then show ?thesis by (auto intro: rinv_node [OF r steady_Start [OF rinvD(2) [OF r]]])
next
  case (applier i es rf')
  then show ?thesis by (auto intro: rinv_node [OF r steady_applier [OF rinvD(2) [OF r]]])
next
  case (replicator i)
  then show ?thesis using h [of i] by (auto intro: rinv_node [OF r steady_replicator [OF rinvD(2) [OF r]]])
qed (auto intro!: rinv_msgs [OF r] simp: votes_within_def)

lemma rinv_step:
  assumes step: "restart_step True timely False s s'" and inv: "rinv s"
  shows "rinv s'"
  using step
proof cases
  case (live c c' left)
  then show ?thesis using rinv_live [of c left timely c'] inv by (simp add: healthy_def)
next
  case (syncer c i w left)
  then have r: "rinv (c, left)" using inv by simp
  show ?thesis unfolding syncer(2) by (rule rinv_node [OF r steady_sync [OF rinvD(2) [OF r] syncer(3)]])
next
  case (restart c i w n rf' q now left)
  then have r: "rinv (c, left)" using inv by simp
  have "steady (cl_node c i) rf'" unfolding restart(5) by (rule steady_restart [OF rinvD(2) [OF r] restart(3)]) (use restart(4) in simp)
  then show ?thesis unfolding restart(2)
    by (rule rinv_steady [OF r]) (use rinvD(5,6) [OF r] in \<open>auto simp: votes_within_def\<close>)
next
  case (late_vote i j args left c now reply rf')
  have r: "rinv (c, left)" using inv late_vote by simp
  have m: "VoteReq i j args \<in> cl_msgs c \<union> left" "VoteReq i j args \<notin> cl_msgs c" using late_vote(3) rinvD(5) [OF r] by auto
  note V = vote_disk [OF r m(1) late_vote(4) _ late_vote(6)]
  let ?c = "(set_node j rf' c)\<lparr>cl_granted := (if rvr_VoteGranted reply then insert (j, rva_Term args, i) (cl_granted c) else cl_granted c)\<rparr>"
  let ?d = "(set_node j (dview rf') (cview c left))\<lparr>
      cl_msgs := insert (VoteRep i j (rva_Term args) reply) (cl_msgs c \<union> left - {VoteReq i j args}),
      cl_granted := (if rvr_VoteGranted reply then insert (j, rva_Term args, i) (cl_granted c) else cl_granted c)\<rparr>"
  have "cluster_inv (?d\<lparr>cl_msgs := cl_msgs c \<union> (left - {VoteReq i j args})\<rparr>)"
    by (rule cluster_inv_msgs) (use V(2) late_vote(5) m(2) in \<open>auto simp: votes_within_def\<close>)
  moreover have "?d\<lparr>cl_msgs := cl_msgs c \<union> (left - {VoteReq i j args})\<rparr> = cview ?c (left - {VoteReq i j args})"
    by (simp add: cview_def fun_eq_iff)
  ultimately show ?thesis unfolding late_vote(2)
    by (rule_tac rinvI) (use V(1) late_vote(5) rinvD(2,3) [OF r] rinvD(4-6) [OF r] in auto)
next
  case (late_append i j args left c now reply rf')
  then have r: "rinv (c, left)" using inv by simp
  show ?thesis unfolding late_append(2) by (rule rinv_node [OF r steady_append [OF rinvD(2) [OF r] late_append(4,5)]])
next
  case (late_lost c left m)
  then have r: "rinv (c, left)" using inv by simp
  from rinv_msgs [OF r, of "cl_msgs c" "left - {m}"] show ?thesis by (simp add: late_lost(2) votes_within_def)
qed


lemma rinv_init: "restart_init s \<Longrightarrow> rinv s"
proof -
  assume i: "restart_init s"
  obtain c where s: "s = (c, {})" "cluster_new c" "int (cl_size c) < 2 ^ 32 - 1" using i by (cases s) (auto simp: restart_init_def)
  have n: "node_disk (cl_node c i)" for i
  proof -
    obtain peers f now where m: "cl_node c i = raft_Make peers (int i) f now" "content f = []"
      using s(2) unfolding cluster_new_def by (metis gofile.select_convs(1))
    let ?rf = "(cl_node c i)\<lparr>rf_wal := Some (createOrOpenRaftWAL f)\<rparr>"
    have g: "rwal_holds (createOrOpenRaftWAL f) []" using m(2) by (simp add: rwal_holds_def createOrOpenRaftWAL_def)
    then have "good_wal ?rf" by (auto simp: good_wal_def)
    then have "node_disk (raft_Make peers (int i) f now)" by (rule node_disk_Make(3) [where w = "createOrOpenRaftWAL f"]) (simp_all add: createOrOpenRaftWAL_def)
    then show ?thesis by (simp only: m(1))
  qed
  have "rf_me (cl_node c i) = int i \<and> length (rf_peers (cl_node c i)) = cl_size c \<and> rf_state (cl_node c i) = Follower" for i
  proof -
    from s(2) obtain peers q now where "cl_node c i = raft_Make peers (int i) \<lparr>content = [], quota = q\<rparr> now" "length peers = cl_size c"
      unfolding cluster_new_def by blast
    then show ?thesis by (simp add: raft_Make_fields)
  qed
  with s(2) have "cluster_inv (cview c {})"
    by (simp add: cluster_new_def cluster_inv_def inv_nodes_def inv_granted_def inv_once_def inv_reqs_def inv_reps_def inv_counts_def inv_leader_def)
  with n s show ?thesis by (auto intro!: rinvI simp: cluster_new_def)
qed

interpretation rs: invariant_system restart_init "restart_step True timely False" rinv for timely
  by unfold_locales (auto intro: rinv_init rinv_step)


section \<open>A voter that is killed\<close>

text \<open>Node 2, new, after its vote for node \<open>k\<close> in term 1.\<close>

definition first_voter :: "nat \<Rightarrow> raft" where
  "first_voter k = (persistState ((persistState ((fresh_node 2)\<lparr>rf_currentTerm := 1, rf_state := Follower, rf_votedFor := -1, rf_leaderId := -1\<rparr>))
     \<lparr>rf_votedFor := int k, rf_state := Follower\<rparr>))\<lparr>rf_lastResetTime := 0\<rparr>"

lemma fresh_wal: "rf_wal (fresh_node i) = Some (createOrOpenRaftWAL \<lparr>content = [], quota = 1000\<rparr>)"
  by (simp add: fresh_node_def raft_Make_def readPersist_def RecoverEntries_def recover_rrecs.simps createOrOpenRaftWAL_def)

lemma persistState_room:
  assumes "rf_wal rf = Some w" and "rw_pending w = []" and "rw_werr w = None" and "13 \<le> quota (rw_file w)"
  shows "\<exists>w'. rf_wal (persistState rf) = Some w' \<and> rw_pending w' = [] \<and> rw_werr w' = None \<and>
    quota (rw_file w') = quota (rw_file w) - 13 \<and> rw_synced w' = rw_synced w"
proof -
  have "length (enc_hard_state s) = 13" for s by (simp add: enc_hard_state_def)
  then have "\<exists>w1. writer_Write w (enc_hard_state s) = (None, w1) \<and> writer_Flush w1 = (None, w\<lparr>rw_file :=
      \<lparr>content = content (rw_file w) @ enc_hard_state s, quota = quota (rw_file w) - 13\<rparr>\<rparr>)" for s
    using write_flush [OF assms(2,3), of "enc_hard_state s"] assms(4) by metis
  then obtain w1 where "writer_Write w (enc_hard_state (hard_of rf)) = (None, w1)" "writer_Flush w1 = (None, w\<lparr>rw_file :=
      \<lparr>content = content (rw_file w) @ enc_hard_state (hard_of rf), quota = quota (rw_file w) - 13\<rparr>\<rparr>)" by blast
  with assms show ?thesis by (simp add: persistState_def PersistHardState_def hard_of_def)
qed

lemma first_voter_vote: "raft_RequestVote (fresh_node 2) (first_request k) 0 = Inr (\<lparr>rvr_Term = 1, rvr_VoteGranted = True\<rparr>, first_voter k)"
  by (simp add: raft_RequestVote_def first_request_def fresh_node_fields fresh_log_def Let_def log_get_def logOk_def first_voter_def)

lemma first_voter_wal: "\<exists>w. rf_wal (first_voter k) = Some w \<and> wal_healthy w \<and> rw_synced w = 0"
proof -
  let ?a = "(fresh_node 2)\<lparr>rf_currentTerm := 1, rf_state := Follower, rf_votedFor := -1, rf_leaderId := -1\<rparr>"
  obtain w where w: "rf_wal (persistState ?a) = Some w" "rw_pending w = []" "rw_werr w = None" "quota (rw_file w) = 987" "rw_synced w = 0"
    using persistState_room [of ?a] by (auto simp: fresh_wal createOrOpenRaftWAL_def)
  then have "rf_wal ((persistState ?a)\<lparr>rf_votedFor := int k, rf_state := Follower\<rparr>) = Some w" by simp
  from persistState_room [OF this w(2,3)] w(4,5) show ?thesis by (auto simp: first_voter_def wal_healthy_def)
qed

lemma run_healthy:
  "node_healthy (fresh_node i)" "node_healthy (first_candidate i)" "node_healthy (init_leader (first_candidate i))" "node_healthy (first_voter k)"
proof -
  show "node_healthy (fresh_node i)" by (simp add: node_healthy_def fresh_wal fresh_node_fields fresh_log_def wal_healthy_def createOrOpenRaftWAL_def)
  let ?a = "(fresh_node i)\<lparr>rf_state := Candidate, rf_currentTerm := 1, rf_votedFor := int i, rf_lastResetTime := 0\<rparr>"
  have "\<exists>w. rf_wal (first_candidate i) = Some w \<and> wal_healthy w"
    using persistState_room [of ?a] by (auto simp: first_candidate_def fresh_wal createOrOpenRaftWAL_def wal_healthy_def)
  then show "node_healthy (first_candidate i)" "node_healthy (init_leader (first_candidate i))"
    by (auto simp: node_healthy_def init_leader_eq first_candidate_def fresh_node_fields fresh_log_def)
  show "node_healthy (first_voter k)"
    using first_voter_wal by (auto simp: node_healthy_def first_voter_def fresh_node_fields fresh_log_def)
qed

text \<open>Nodes 0 and 1 time out, node 2 votes for node 0, which becomes the leader.\<close>

definition voted :: "cluster \<Rightarrow> bool" where
  "voted c \<longleftrightarrow> cl_size c = 3 \<and> cl_node c = fresh_node(0 := init_leader (first_candidate 0), 1 := first_candidate 1, 2 := first_voter 0) \<and>
     VoteReq 1 2 (first_request 1) \<in> cl_msgs c \<and> cl_votes c 1 1 = 1 \<and> cl_granted c = {(0, 1, 0), (1, 1, 1), (2, 1, 0)}"

lemma live_reach:
  "reach init (restart_step strict timely outage) (c, left) \<Longrightarrow> cluster_step strict timely c c' \<Longrightarrow> healthy c' \<Longrightarrow>
     reach init (restart_step strict timely outage) (c', left)"
  by (rule reach_step, assumption, rule live)

lemma voted_reach: "\<exists>c. reach restart_init (restart_step strict timely outage) (c, {}) \<and> voted c"
proof -
  let ?r = "reach restart_init (restart_step strict timely outage)"
  have f: "rf_currentTerm (first_candidate i) = 1" for i by (simp add: first_candidate_def)
  have r0: "?r (fresh_cluster, {})"
    by (rule reach_init) (simp add: restart_init_def fresh_cluster_new, simp add: fresh_cluster_def)
  have e0: "startElection (cl_node fresh_cluster 0) 0 = Inr (first_request 0, first_candidate 0)" by (simp add: fresh_cluster_def fresh_election)
  obtain c1 where c1: "?r (c1, {})" "cl_size c1 = 3" "cl_node c1 = fresh_node(0 := first_candidate 0)" "cl_votes c1 0 1 = 1"
    "VoteReq 0 2 (first_request 0) \<in> cl_msgs c1" "cl_granted c1 = {(0, 1, 0)}"
    using live_reach [OF r0 elect [OF _ e0]]
    by (rule that) (auto simp: fresh_cluster_def f healthy_def run_healthy)
  have e1: "startElection (cl_node c1 1) 0 = Inr (first_request 1, first_candidate 1)" by (simp add: c1 fresh_election)
  obtain c2 where c2: "?r (c2, {})" "cl_size c2 = 3" "cl_node c2 = (cl_node c1)(1 := first_candidate 1)" "cl_votes c2 0 1 = 1"
    "cl_votes c2 1 1 = 1" "VoteReq 0 2 (first_request 0) \<in> cl_msgs c2" "VoteReq 1 2 (first_request 1) \<in> cl_msgs c2"
    "cl_granted c2 = {(0, 1, 0), (1, 1, 1)}"
    using live_reach [OF c1(1) elect [OF _ e1]]
    by (rule that) (use c1 in \<open>auto simp: f healthy_def run_healthy\<close>)
  have v: "raft_RequestVote (cl_node c2 2) (first_request 0) 0 = Inr (\<lparr>rvr_Term = 1, rvr_VoteGranted = True\<rparr>, first_voter 0)"
    by (simp add: c1 c2 first_voter_vote)
  obtain c3 where c3: "?r (c3, {})" "cl_size c3 = 3" "cl_node c3 = (cl_node c2)(2 := first_voter 0)" "cl_votes c3 = cl_votes c2"
    "VoteRep 0 2 1 \<lparr>rvr_Term = 1, rvr_VoteGranted = True\<rparr> \<in> cl_msgs c3" "VoteReq 1 2 (first_request 1) \<in> cl_msgs c3"
    "cl_granted c3 = {(0, 1, 0), (1, 1, 1), (2, 1, 0)}"
    using live_reach [OF c2(1) vote [OF c2(6) v]]
    by (rule that) (use c1 c2 in \<open>auto simp: vote_erased_def first_request_def fresh_node_fields healthy_def run_healthy\<close>)
  have e3: "handleVoteReply (cl_node c3 0) 1 (cl_votes c3 0 1) \<lparr>rvr_Term = 1, rvr_VoteGranted = True\<rparr> = (2, True, init_leader (first_candidate 0))"
    by (simp add: c1 c2 c3 first_win)
  obtain c where "?r (c, {})" "voted c"
    using live_reach [OF c3(1) count [OF c3(5) e3]]
    by (rule that) (use c1 c2 c3 in \<open>auto simp: voted_def healthy_def run_healthy fun_eq_iff\<close>)
  then show ?thesis by blast
qed


section \<open>Properties\<close>

text \<open>
  C6: Election safety with restarts: if nodes are killed at any time and started again on their files, while messages are
  lost, delayed and reordered and requests of killed nodes still arrive, there is at most one leader per term, provided that
  no write to a log fails, terms fit 32 bits and no node votes again in a term in which an AppendEntries request has erased
  its vote.
\<close>

theorem election_safety_restarts:
  assumes "reach restart_init (restart_step True timely False) (c, left)"
    and "rf_state (cl_node c i) = Leader" and "rf_state (cl_node c j) = Leader"
    and "rf_currentTerm (cl_node c i) = rf_currentTerm (cl_node c j)"
  shows "i = j"
proof -
  have r: "rinv (c, left)" by (rule rs.reach_inv [OF assms(1)])
  have "dterm (cl_node c k) = rf_currentTerm (cl_node c k)" if "k = i \<or> k = j" for k
    using that assms(2,3) rinvD(2) [OF r, of k] by (auto simp: node_disk_def)
  with one_leader [OF rinvD(1) [OF r], of i j] assms(2-4) show ?thesis by simp
qed

theorem election_safety_restarts_witness:
  "\<exists>c left. reach restart_init (restart_step True True False) (c, left) \<and> rf_state (cl_node c 0) = Leader \<and>
     rf_lastResetTime (cl_node c 2) = 7 \<and>
     \<not> (rf_state (cl_node c 1) = Leader \<and> rf_currentTerm (cl_node c 1) = rf_currentTerm (cl_node c 0))"
proof -
  obtain c where c: "reach restart_init (restart_step True True False) (c, {})" "voted c" using voted_reach by blast
  obtain w where w: "rf_wal (cl_node c 2) = Some w" using first_voter_wal c(2) by (auto simp: voted_def)
  obtain c' left where r: "reach restart_init (restart_step True True False) (c', left)" "cl_node c' 0 = cl_node c 0" "rf_lastResetTime (cl_node c' 2) = 7"
    using reach_step [OF c(1), OF restart [OF w _ refl, of False "length (content (rw_file w))" True True "{}" 0 7]]
    by (rule that) (simp_all add: raft_Make_def)
  then have l: "rf_state (cl_node c' 0) = Leader" using c(2) by (simp add: voted_def init_leader_eq)
  from election_safety_restarts [OF r(1) l, of 1] r l show ?thesis by (intro exI [of _ c'] exI [of _ left]) auto
qed

text \<open>
  C37: Votes do not survive a loss of power: the answer to a vote request leaves before the file is synced, so a node that has
  voted, loses its power and starts again votes for another candidate of the same term, and the cluster has two leaders
  in term 1.
\<close>

theorem power_loss_two_leaders:
  "\<exists>c left. reach restart_init (restart_step True True True) (c, left) \<and> cl_size c = 3 \<and>
     rf_state (cl_node c 0) = Leader \<and> rf_state (cl_node c 1) = Leader \<and>
     rf_currentTerm (cl_node c 0) = 1 \<and> rf_currentTerm (cl_node c 1) = 1"
proof -
  let ?r = "reach restart_init (restart_step True True True)" and ?a = "first_request 1"
  obtain c where c: "?r (c, {})" "voted c" using voted_reach by blast
  obtain w where w: "rf_wal (cl_node c 2) = Some w" "rw_synced w = 0" using first_voter_wal c(2) by (auto simp: voted_def)
  have make: "raft_Make (rf_peers (cl_node c 2)) (rf_me (cl_node c 2)) \<lparr>content = take 0 (content (rw_file w)), quota = 1000\<rparr> 0 = fresh_node 2"
    using c(2) by (simp add: voted_def first_voter_def fresh_node_fields) (simp add: fresh_node_def)
  obtain c1 left where c1: "?r (c1, left)" "cl_size c1 = 3" "cl_node c1 = (cl_node c)(2 := fresh_node 2)" "VoteReq 1 2 ?a \<in> cl_msgs c1"
    "cl_votes c1 1 1 = 1" "cl_node c1 1 = first_candidate 1" "cl_node c1 0 = init_leader (first_candidate 0)"
    using reach_step [OF c(1), OF restart [OF w(1) _ make [symmetric]]]
    by (rule that) (use c(2) w(2) in \<open>auto simp: voted_def\<close>)
  let ?reply = "\<lparr>rvr_Term = 1, rvr_VoteGranted = True\<rparr>"
  have v: "raft_RequestVote (cl_node c1 2) ?a 0 = Inr (?reply, first_voter 1)" by (simp add: c1 first_voter_vote)
  obtain c2 where c2: "?r (c2, left)" "cl_size c2 = 3" "cl_node c2 0 = cl_node c1 0" "cl_node c2 1 = first_candidate 1" "VoteRep 1 2 1 ?reply \<in> cl_msgs c2"
    "cl_votes c2 1 1 = 1" "healthy c2"
    using live_reach [OF c1(1) vote [OF c1(4) v]]
    by (rule that) (use c(2) c1 in \<open>auto simp: vote_erased_def first_request_def fresh_node_fields healthy_def run_healthy voted_def\<close>)
  have e: "handleVoteReply (cl_node c2 1) 1 (cl_votes c2 1 1) ?reply = (2, True, init_leader (first_candidate 1))"
    using first_win [of ?reply 1] by (simp add: c2 del: One_nat_def)
  obtain c3 where "?r (c3, left)" "cl_size c3 = 3" "cl_node c3 0 = init_leader (first_candidate 0)" "cl_node c3 1 = init_leader (first_candidate 1)"
    using live_reach [OF c2(1) count [OF c2(5) e]]
    by (rule that) (use c1 c2 in \<open>auto simp: healthy_def run_healthy\<close>)
  then show ?thesis by (intro exI [of _ c3] exI [of _ left]) (simp add: init_leader_eq first_candidate_def)
qed

end
