(* ===== verification/Raft_Schedule.thy ===== *)
theory Raft_Schedule
  imports Raft_Cluster
begin

text \<open>
  Runs of a cluster by evaluation: a cluster whose nodes and messages are lists, the next step as
  a function of an event, and the lemma that what it computes is reached by \<open>cluster_step\<close>. The theorems that show a run
  give it as a list of events.
\<close>

record exec_cluster =
  ec_nodes :: "raft list"
  ec_msgs :: "rpc list" \<comment> \<open>the newest first\<close>
  ec_votes :: "((nat \<times> int) \<times> int) list" \<comment> \<open>the newest first\<close>
  ec_granted :: "(nat \<times> int \<times> nat) list"


definition votes_of :: "((nat \<times> int) \<times> int) list \<Rightarrow> nat \<Rightarrow> int \<Rightarrow> int" where
  "votes_of vs i t = (case map_of vs (i, t) of Some n \<Rightarrow> n | None \<Rightarrow> 0)"

lemma votes_of_simps [simp]: "votes_of [] = (\<lambda>_ _. 0)" "votes_of (((i, t), n) # vs) = upd2 (votes_of vs) i t n"
  by (auto simp: votes_of_def fun_eq_iff)

abbreviation set_ec :: "nat \<Rightarrow> raft \<Rightarrow> exec_cluster \<Rightarrow> exec_cluster" where
  "set_ec i rf ec \<equiv> ec\<lparr>ec_nodes := (ec_nodes ec)[i := rf]\<rparr>"

definition erased_ec :: "exec_cluster \<Rightarrow> nat \<Rightarrow> RequestVoteArgs \<Rightarrow> bool" where
  "erased_ec ec j args \<longleftrightarrow> rva_Term args = rf_currentTerm (ec_nodes ec ! j) \<and> rf_votedFor (ec_nodes ec ! j) = -1 \<and>
     (\<exists>(v, t, k) \<in> set (ec_granted ec). v = j \<and> t = rva_Term args)"

text \<open>The indices of a node that is not the leader are set before they are used, so they are dropped.\<close>

definition tidy :: "raft \<Rightarrow> raft" where
  "tidy rf = (if rf_state rf = Leader then rf else rf\<lparr>rf_nextIndex := Map.empty, rf_matchIndex := Map.empty\<rparr>)"

definition exec_elect :: "nat \<Rightarrow> exec_cluster \<Rightarrow> exec_cluster option" where
  "exec_elect i ec =
     (if i < length (ec_nodes ec)
      then case startElection (ec_nodes ec ! i) 0 of
             Inl _ \<Rightarrow> None
           | Inr (args, rf) \<Rightarrow> Some ((set_ec i (tidy rf) ec)\<lparr>
               ec_msgs := map (\<lambda>j. VoteReq i j args) (filter (\<lambda>j. j \<noteq> i) [0..<length (ec_nodes ec)]) @ ec_msgs ec,
               ec_votes := ((i, rf_currentTerm rf), 1) # ec_votes ec,
               ec_granted := (i, rf_currentTerm rf, i) # ec_granted ec\<rparr>)
      else None)"

fun exec_deliver :: "bool \<Rightarrow> bool \<Rightarrow> rpc \<Rightarrow> exec_cluster \<Rightarrow> exec_cluster option" where
  "exec_deliver strict timely (VoteReq i j args) ec =
     (if j < length (ec_nodes ec) \<and> \<not> (strict \<and> erased_ec ec j args)
      then case raft_RequestVote (ec_nodes ec ! j) args 0 of
             Inl _ \<Rightarrow> None
           | Inr (reply, rf) \<Rightarrow> Some ((set_ec j (tidy rf) ec)\<lparr>
               ec_msgs := VoteRep i j (rva_Term args) reply # removeAll (VoteReq i j args) (ec_msgs ec),
               ec_granted := (if rvr_VoteGranted reply then (j, rva_Term args, i) # ec_granted ec else ec_granted ec)\<rparr>)
      else None)"
| "exec_deliver strict timely (VoteRep i j t reply) ec =
     (if i < length (ec_nodes ec)
      then case handleVoteReply (ec_nodes ec ! i) t (votes_of (ec_votes ec) i t) reply of
             (n, won, rf) \<Rightarrow> Some ((set_ec i (tidy rf) ec)\<lparr>
               ec_msgs := removeAll (VoteRep i j t reply) (ec_msgs ec),
               ec_votes := ((i, t), n) # ec_votes ec\<rparr>)
      else None)"
| "exec_deliver strict timely (Heartbeat i j t) ec =
     (if i < length (ec_nodes ec) \<and> j < length (rf_peers (ec_nodes ec ! i)) \<and> \<not> (timely \<and> t \<noteq> rf_currentTerm (ec_nodes ec ! i))
      then case heartbeat_args (ec_nodes ec ! i) t (int j) of
             Inr (Some args) \<Rightarrow> Some (ec\<lparr>ec_msgs := AppReq i j args # ec_msgs ec\<rparr>)
           | _ \<Rightarrow> None
      else None)"
| "exec_deliver strict timely (AppReq i j args) ec =
     (if j < length (ec_nodes ec)
      then case raft_AppendEntries (ec_nodes ec ! j) args 0 of
             Inl _ \<Rightarrow> None
           | Inr (reply, rf) \<Rightarrow> Some ((set_ec j (tidy rf) ec)\<lparr>ec_msgs := AppRep i j args reply # ec_msgs ec\<rparr>)
      else None)"
| "exec_deliver strict timely (AppRep i j args reply) ec =
     (if i < length (ec_nodes ec) \<and> j < length (rf_peers (ec_nodes ec ! i)) \<and> rf_state (ec_nodes ec ! i) = Leader \<and>
        \<not> (timely \<and> aea_Term args \<noteq> rf_currentTerm (ec_nodes ec ! i))
      then case handleAppendReply (ec_nodes ec ! i) (int j) args reply of
             Inl _ \<Rightarrow> None
           | Inr rf \<Rightarrow> Some (set_ec i (tidy rf) ec)
      else None)"

datatype rpc_kind = KVoteReq | KVoteRep | KHeartbeat | KAppReq | KAppRep

fun of_kind :: "rpc_kind \<Rightarrow> nat \<Rightarrow> nat \<Rightarrow> rpc \<Rightarrow> bool" where
  "of_kind k a b (VoteReq i j args) \<longleftrightarrow> k = KVoteReq \<and> i = a \<and> j = b"
| "of_kind k a b (VoteRep i j t reply) \<longleftrightarrow> k = KVoteRep \<and> i = a \<and> j = b"
| "of_kind k a b (Heartbeat i j t) \<longleftrightarrow> k = KHeartbeat \<and> i = a \<and> j = b"
| "of_kind k a b (AppReq i j args) \<longleftrightarrow> k = KAppReq \<and> i = a \<and> j = b"
| "of_kind k a b (AppRep i j args reply) \<longleftrightarrow> k = KAppRep \<and> i = a \<and> j = b"

text \<open>\<open>Deliver k i j n\<close>: of the messages of kind \<open>k\<close> that belong to the call of \<open>j\<close> by \<open>i\<close>, the one with \<open>n\<close> newer ones.\<close>

datatype event = Elect nat | Deliver rpc_kind nat nat nat | Beat nat | Client nat bytes | Apply nat | Replicate nat
  | Keep rpc_kind nat nat \<comment> \<open>all other messages are lost\<close>

fun exec :: "bool \<Rightarrow> bool \<Rightarrow> event \<Rightarrow> exec_cluster \<Rightarrow> exec_cluster option" where
  "exec strict timely (Elect i) ec = exec_elect i ec"
| "exec strict timely (Deliver k i j n) ec =
     (let ms = filter (of_kind k i j) (ec_msgs ec)
      in if n < length ms then exec_deliver strict timely (ms ! n) ec else None)"
| "exec strict timely (Beat i) ec =
     (if i < length (ec_nodes ec)
      then case sendHeartBeats_term (ec_nodes ec ! i) of
             None \<Rightarrow> None
           | Some t \<Rightarrow> Some (ec\<lparr>ec_msgs := map (\<lambda>j. Heartbeat i (nat j) t) (heartbeat_peers (ec_nodes ec ! i)) @ ec_msgs ec\<rparr>)
      else None)"
| "exec strict timely (Client i cmd) ec =
     (if i < length (ec_nodes ec) then Some (set_ec i (tidy (snd (raft_Start (ec_nodes ec ! i) (Some cmd)))) ec) else None)"
| "exec strict timely (Apply i) ec =
     (if i < length (ec_nodes ec)
      then case applier_round (ec_nodes ec ! i) of Some (Inr (es, rf)) \<Rightarrow> Some (set_ec i (tidy rf) ec) | _ \<Rightarrow> None
      else None)"
| "exec strict timely (Replicate i) ec =
     (if i < length (ec_nodes ec) then Some (set_ec i (tidy (replicator_step (ec_nodes ec ! i))) ec) else None)"
| "exec strict timely (Keep k i j) ec = Some (ec\<lparr>ec_msgs := filter (of_kind k i j) (ec_msgs ec)\<rparr>)"

fun exec_run :: "bool \<Rightarrow> bool \<Rightarrow> event list \<Rightarrow> exec_cluster \<Rightarrow> exec_cluster option" where
  "exec_run strict timely [] ec = Some ec"
| "exec_run strict timely (e # es) ec =
     (case exec strict timely e ec of None \<Rightarrow> None | Some ec' \<Rightarrow> exec_run strict timely es ec')"

definition plain_node :: "nat \<Rightarrow> raft" where
  "plain_node i = \<lparr>rf_peers = [True, True, True], rf_me = int i, rf_leaderId = -1, rf_triggerCh = False, rf_commitCh = False,
     rf_currentTerm = 0, rf_votedFor = -1, rf_log = [\<lparr>le_Index = 0, le_Term = 0, le_Command = []\<rparr>], rf_wal = None,
     rf_commitIndex = 0, rf_lastApplied = 0, rf_nextIndex = Map.empty, rf_matchIndex = Map.empty, rf_state = Follower,
     rf_lastResetTime = 0\<rparr>"

definition fresh_exec :: exec_cluster where
  "fresh_exec = \<lparr>ec_nodes = map plain_node [0..<3], ec_msgs = [], ec_votes = [], ec_granted = []\<rparr>"


section \<open>Nodes without what is not looked at\<close>

text \<open>
  No operation reads the write-ahead log, and only a leader reads its indices of the peers, so each operation gives
  the same result without them.
\<close>

definition restr :: "raft \<Rightarrow> (int \<rightharpoonup> int) \<Rightarrow> int \<rightharpoonup> int" where
  "restr rf m = (if rf_state rf = Leader then m |` {0..<int (length (rf_peers rf))} else Map.empty)"

definition plain :: "raft \<Rightarrow> raft" where
  "plain rf = rf\<lparr>rf_wal := None, rf_nextIndex := restr rf (rf_nextIndex rf), rf_matchIndex := restr rf (rf_matchIndex rf)\<rparr>"

lemma plain_fields [simp]:
  "rf_peers (plain rf) = rf_peers rf" "rf_me (plain rf) = rf_me rf" "rf_leaderId (plain rf) = rf_leaderId rf"
  "rf_triggerCh (plain rf) = rf_triggerCh rf" "rf_commitCh (plain rf) = rf_commitCh rf"
  "rf_currentTerm (plain rf) = rf_currentTerm rf" "rf_votedFor (plain rf) = rf_votedFor rf"
  "rf_log (plain rf) = rf_log rf" "rf_wal (plain rf) = None" "rf_commitIndex (plain rf) = rf_commitIndex rf"
  "rf_lastApplied (plain rf) = rf_lastApplied rf" "rf_state (plain rf) = rf_state rf"
  "rf_nextIndex (plain rf) = restr rf (rf_nextIndex rf)" "rf_matchIndex (plain rf) = restr rf (rf_matchIndex rf)"
  "rf_lastResetTime (plain rf) = rf_lastResetTime rf"
  by (simp_all add: plain_def)

text \<open>The result of an operation is right if all the fields are.\<close>

lemma tidy_eqI:
  assumes "rf_peers rf = rf_peers rf'" "rf_me rf = rf_me rf'" "rf_leaderId rf = rf_leaderId rf'"
    "rf_triggerCh rf = rf_triggerCh rf'" "rf_commitCh rf = rf_commitCh rf'" "rf_currentTerm rf = rf_currentTerm rf'"
    "rf_votedFor rf = rf_votedFor rf'" "rf_log rf = rf_log rf'" "rf_wal rf = None" "rf_commitIndex rf = rf_commitIndex rf'"
    "rf_lastApplied rf = rf_lastApplied rf'" "rf_state rf = rf_state rf'" "rf_lastResetTime rf = rf_lastResetTime rf'"
    "rf_state rf' = Leader \<Longrightarrow> rf_nextIndex rf = restr rf' (rf_nextIndex rf')"
    "rf_state rf' = Leader \<Longrightarrow> rf_matchIndex rf = restr rf' (rf_matchIndex rf')"
  shows "tidy rf = plain rf'"
  using assms by (cases rf; cases rf') (auto simp: plain_def tidy_def restr_def)

lemma tidy_plain [simp]: "tidy (plain rf) = plain rf"
  by (rule tidy_eqI) simp_all

lemma tidy_plainD: "tidy rf = plain rf' \<Longrightarrow> rf_currentTerm rf = rf_currentTerm rf'"
proof -
  have "rf_currentTerm (tidy rf) = rf_currentTerm rf" by (simp add: tidy_def)
  then show "tidy rf = plain rf' \<Longrightarrow> rf_currentTerm rf = rf_currentTerm rf'" by simp
qed

lemma restr_apply: "rf_state rf = Leader \<Longrightarrow> 0 \<le> j \<Longrightarrow> j < int (length (rf_peers rf)) \<Longrightarrow> restr rf m j = m j"
  by (simp add: restr_def)

lemma persist_None [simp]: "rf_wal rf = None \<Longrightarrow> persistState rf = rf" "rf_wal rf = None \<Longrightarrow> persist rf = rf"
  by (simp_all add: persistState_def persist_def)

lemma plain_startElection:
  "map_sum id (apsnd tidy) (startElection (plain rf) now) = map_sum id (apsnd plain) (startElection rf now)"
  by (auto simp: startElection_def Let_def intro!: tidy_eqI split: option.splits)

lemma plain_RequestVote:
  "map_sum id (apsnd tidy) (raft_RequestVote (plain rf) args now) = map_sum id (apsnd plain) (raft_RequestVote rf args now)"
  by (auto simp: raft_RequestVote_def Let_def restr_def intro!: tidy_eqI split: option.splits)

lemma plain_handleVoteReply:
  "apsnd (apsnd tidy) (handleVoteReply (plain rf) t n reply) = apsnd (apsnd plain) (handleVoteReply rf t n reply)"
  by (auto simp: handleVoteReply_def Let_def init_leader_eq votesRequired_def restr_def fun_eq_iff restrict_map_def
      intro!: tidy_eqI)

lemma plain_heartbeat:
  "sendHeartBeats_term (plain rf) = sendHeartBeats_term rf" "heartbeat_peers (plain rf) = heartbeat_peers rf"
  "j < length (rf_peers rf) \<Longrightarrow> heartbeat_args (plain rf) t (int j) = heartbeat_args rf t (int j)"
  by (simp_all add: sendHeartBeats_term_def heartbeat_peers_def heartbeat_args_def Let_def mget_def restr_apply)

lemma plain_update_commit:
  assumes "tidy rf = plain rf'" and "rf_state rf' \<noteq> Leader"
  shows "tidy (update_commit rf args) = plain (update_commit rf' args)"
proof -
  have "tidy rf = rf\<lparr>rf_nextIndex := Map.empty, rf_matchIndex := Map.empty\<rparr>"
    using assms by (metis plain_fields(12) tidy_def)
  with assms show ?thesis by (cases rf; cases rf') (auto simp: update_commit_def tidy_def plain_def restr_def Let_def)
qed

lemma plain_AppendEntries:
  "map_sum id (apsnd tidy) (raft_AppendEntries (plain rf) args now) = map_sum id (apsnd plain) (raft_AppendEntries rf args now)"
proof (cases "aea_Term args < rf_currentTerm rf")
  case True
  then show ?thesis by (simp add: raft_AppendEntries_def)
next
  case False
  let ?f = "\<lambda>rf. rf\<lparr>rf_currentTerm := aea_Term args, rf_state := Follower, rf_votedFor := -1, rf_leaderId := aea_LeaderId args,
    rf_lastResetTime := now\<rparr>"
  let ?m = "log_merge (rf_log rf) (aea_PrevLogIndex args + 1) (aea_Entries args)"
  have t: "tidy (?f (plain rf)) = plain (persistState (?f rf))" by (rule tidy_eqI) simp_all
  have n: "tidy (update_commit ((?f (plain rf))\<lparr>rf_log := l\<rparr>) args) = plain (update_commit ((persistState (?f rf))\<lparr>rf_log := l\<rparr>) args)"
    "tidy (update_commit ((?f (plain rf))\<lparr>rf_log := l\<rparr>) args) = plain (update_commit (persist ((persistState (?f rf))\<lparr>rf_log := l\<rparr>)) args)" for l
    by (rule plain_update_commit, rule tidy_eqI, simp_all)+
  show ?thesis
    using False t n by (cases "log_get (rf_log rf) (aea_PrevLogIndex args)"; cases ?m) (simp_all add: raft_AppendEntries_def Let_def bindE_def)
qed

lemma plain_commit_scan: "rf_state rf = Leader \<Longrightarrow> commit_scan (plain rf) N = map_sum id plain (commit_scan rf N)"
proof (induction rf N rule: commit_scan.induct)
  case (1 rf N)
  then have m: "match_count (plain rf) N = match_count rf N"
    by (auto simp: match_count_def mget_def restr_apply intro!: arg_cong [where f = length] filter_cong)
  have p: "(plain rf)\<lparr>rf_commitIndex := N, rf_commitCh := True\<rparr> = plain (rf\<lparr>rf_commitIndex := N, rf_commitCh := True\<rparr>)"
    by (simp add: plain_def restr_def)
  show ?case
    by (subst (1 2) commit_scan.simps) (use 1 in \<open>auto simp: m p id_def split: option.splits\<close>)
qed

lemma plain_handleAppendReply:
  assumes "rf_state rf = Leader" and "j < length (rf_peers rf)"
  shows "map_sum id tidy (handleAppendReply (plain rf) (int j) args reply) = map_sum id plain (handleAppendReply rf (int j) args reply)"
proof -
  have r: "restr rf (m(int j \<mapsto> n)) = (restr rf m)(int j \<mapsto> n)" for m n
    using assms by (auto simp: restr_def restrict_map_def)
  have u: "restr (rf\<lparr>rf_matchIndex := a, rf_nextIndex := b\<rparr>) = restr rf" for a b by (simp add: restr_def fun_eq_iff)
  have a: "advance_indices (plain rf) (int j) n = plain (advance_indices rf (int j) n)" for n
    using assms by (simp add: advance_indices_def mget_def restr_apply) (simp add: plain_def u r)
  have s: "rf_state (advance_indices rf (int j) n) = Leader" for n using assms(1) by (simp add: advance_indices_def)
  have b: "backtrack (plain rf) reply = backtrack rf reply" by (simp add: backtrack_def)
  have t: "map_sum id tidy (map_sum id plain x) = map_sum id plain x" for x :: "raft result" by (cases x) auto
  show ?thesis
    by (auto simp: handleAppendReply_def Let_def a plain_commit_scan [OF s] b t intro!: tidy_eqI)
      (use r assms in \<open>auto simp: restr_def\<close>)
qed

lemma plain_Start: "apsnd tidy (raft_Start (plain rf) cmd) = apsnd plain (raft_Start rf cmd)"
  by (auto simp: raft_Start_def Let_def restr_def intro!: tidy_eqI split: option.splits)

lemma plain_applier: "map_sum id (apsnd tidy) (applier_step (plain rf)) = map_sum id (apsnd plain) (applier_step rf)"
  by (auto simp: applier_step_def Let_def restr_def intro!: tidy_eqI split: option.splits)

lemma plain_replicator: "tidy (replicator_step (plain rf)) = plain (replicator_step rf)"
  by (auto simp: replicator_step_def restr_def intro!: tidy_eqI)

section \<open>What is computed is reached\<close>

definition refines :: "exec_cluster \<Rightarrow> cluster \<Rightarrow> bool" where
  "refines ec c \<longleftrightarrow> cl_size c = length (ec_nodes ec) \<and> (\<forall>i < length (ec_nodes ec). ec_nodes ec ! i = plain (cl_node c i)) \<and>
     cl_msgs c = set (ec_msgs ec) \<and> cl_votes c = votes_of (ec_votes ec) \<and> cl_granted c = set (ec_granted ec)"

lemma refinesD:
  assumes "refines ec c"
  shows "cl_size c = length (ec_nodes ec)" "i < length (ec_nodes ec) \<Longrightarrow> ec_nodes ec ! i = plain (cl_node c i)"
    "cl_msgs c = set (ec_msgs ec)" "cl_votes c = votes_of (ec_votes ec)" "cl_granted c = set (ec_granted ec)"
  using assms by (simp_all add: refines_def)

lemma refines_erased: "refines ec c \<Longrightarrow> j < length (ec_nodes ec) \<Longrightarrow> vote_erased c j args \<longleftrightarrow> erased_ec ec j args"
  by (auto simp: vote_erased_def erased_ec_def refinesD)

lemma refines_set:
  "refines ec c \<Longrightarrow> refines (set_ec i (plain rf) ec) (set_node i rf c)"
  by (auto simp: refines_def nth_list_update)

lemma result_eqD:
  "map_sum id (apsnd f) x = map_sum id (apsnd g) y \<Longrightarrow> x = Inr (a, r) \<Longrightarrow> \<exists>r'. y = Inr (a, r') \<and> f r = g r'"
  by (cases y) (auto simp: apsnd_def map_prod_def)

lemma step_refinesI: "cluster_step strict timely c c' \<Longrightarrow> refines ec' c' \<Longrightarrow> \<exists>c'. cluster_step strict timely c c' \<and> refines ec' c'"
  by blast

lemma exec_elect_sound:
  assumes "exec_elect i ec = Some ec'" and r: "refines ec c"
  shows "\<exists>c'. cluster_step strict timely c c' \<and> refines ec' c'"
proof -
  from assms obtain args rf where i: "i < length (ec_nodes ec)" and e: "startElection (plain (cl_node c i)) 0 = Inr (args, rf)"
    and ec': "ec' = (set_ec i (tidy rf) ec)\<lparr>
               ec_msgs := map (\<lambda>j. VoteReq i j args) (filter (\<lambda>j. j \<noteq> i) [0..<length (ec_nodes ec)]) @ ec_msgs ec,
               ec_votes := ((i, rf_currentTerm rf), 1) # ec_votes ec,
               ec_granted := (i, rf_currentTerm rf, i) # ec_granted ec\<rparr>"
    by (auto simp: exec_elect_def refinesD split: if_splits sum.splits)
  from result_eqD [OF plain_startElection e] obtain rf1 where e1: "startElection (cl_node c i) 0 = Inr (args, rf1)" "tidy rf = plain rf1"
    by blast
  have "i < cl_size c" using i r by (simp add: refinesD)
  from cluster_step.elect [OF this e1(1), of strict timely] show ?thesis
    by (rule step_refinesI) (use refines_set [OF r, of i rf1] i r in \<open>auto simp: refines_def ec' e1(2) tidy_plainD [OF e1(2)]\<close>)
qed

lemma exec_deliver_sound:
  assumes "exec_deliver strict timely m ec = Some ec'" and r: "refines ec c" and m: "m \<in> set (ec_msgs ec)"
  shows "\<exists>c'. cluster_step strict timely c c' \<and> refines ec' c'"
proof -
  note R = refinesD [OF r]
  have mc: "m \<in> cl_msgs c" using m by (simp add: R)
  show ?thesis
  proof (cases m)
    case (VoteReq i j args)
    with assms(1) obtain reply rf where j: "j < length (ec_nodes ec)" "\<not> (strict \<and> erased_ec ec j args)"
      and e: "raft_RequestVote (plain (cl_node c j)) args 0 = Inr (reply, rf)"
      and ec': "ec' = (set_ec j (tidy rf) ec)\<lparr>ec_msgs := VoteRep i j (rva_Term args) reply # removeAll m (ec_msgs ec),
        ec_granted := (if rvr_VoteGranted reply then (j, rva_Term args, i) # ec_granted ec else ec_granted ec)\<rparr>"
      by (auto simp: R split: if_splits sum.splits)
    from result_eqD [OF plain_RequestVote e] obtain rf1 where e1: "raft_RequestVote (cl_node c j) args 0 = Inr (reply, rf1)" "tidy rf = plain rf1"
      by blast
    from cluster_step.vote [OF mc [unfolded VoteReq] e1(1), of strict timely] j(2) refines_erased [OF r j(1)] show ?thesis
      by (intro step_refinesI) (blast, use refines_set [OF r, of j rf1] R in \<open>auto simp: refines_def ec' e1(2) VoteReq\<close>)
  next
    case (VoteRep i j t reply)
    with assms(1) obtain n won rf where i: "i < length (ec_nodes ec)"
      and e: "handleVoteReply (plain (cl_node c i)) t (cl_votes c i t) reply = (n, won, rf)"
      and ec': "ec' = (set_ec i (tidy rf) ec)\<lparr>ec_msgs := removeAll m (ec_msgs ec), ec_votes := ((i, t), n) # ec_votes ec\<rparr>"
      by (auto simp: R split: if_splits prod.splits)
    from e plain_handleVoteReply [of "cl_node c i" t "cl_votes c i t" reply]
    obtain rf1 where e1: "handleVoteReply (cl_node c i) t (cl_votes c i t) reply = (n, won, rf1)" "tidy rf = plain rf1"
      by (cases "handleVoteReply (cl_node c i) t (cl_votes c i t) reply") auto
    from cluster_step.count [OF mc [unfolded VoteRep] e1(1), of strict timely] show ?thesis
      by (rule step_refinesI) (use refines_set [OF r, of i rf1] R in \<open>auto simp: refines_def ec' e1(2) VoteRep\<close>)
  next
    case (Heartbeat i j t)
    with assms(1) obtain args where l: "j < length (rf_peers (cl_node c i))" and i: "\<not> (timely \<and> t \<noteq> rf_currentTerm (cl_node c i))"
      and e: "heartbeat_args (cl_node c i) t (int j) = Inr (Some args)" and ec': "ec' = ec\<lparr>ec_msgs := AppReq i j args # ec_msgs ec\<rparr>"
      by (auto simp: R plain_heartbeat split: if_splits sum.splits option.splits)
    from cluster_step.send [OF mc [unfolded Heartbeat] e, of timely strict] i show ?thesis
      by (intro step_refinesI) (blast, use r in \<open>auto simp: refines_def ec'\<close>)
  next
    case (AppReq i j args)
    with assms(1) obtain reply rf where e: "raft_AppendEntries (plain (cl_node c j)) args 0 = Inr (reply, rf)"
      and ec': "ec' = (set_ec j (tidy rf) ec)\<lparr>ec_msgs := AppRep i j args reply # ec_msgs ec\<rparr>"
      by (auto simp: R split: if_splits sum.splits)
    from result_eqD [OF plain_AppendEntries e] obtain rf1 where e1: "raft_AppendEntries (cl_node c j) args 0 = Inr (reply, rf1)" "tidy rf = plain rf1"
      by blast
    from cluster_step.append [OF mc [unfolded AppReq] e1(1), of strict timely] show ?thesis
      by (rule step_refinesI) (use refines_set [OF r, of j rf1] R in \<open>auto simp: refines_def ec' e1(2)\<close>)
  next
    case (AppRep i j args reply)
    with assms(1) obtain rf where l: "j < length (rf_peers (cl_node c i))" "rf_state (cl_node c i) = Leader"
      and t: "\<not> (timely \<and> aea_Term args \<noteq> rf_currentTerm (cl_node c i))"
      and e: "handleAppendReply (plain (cl_node c i)) (int j) args reply = Inr rf" and ec': "ec' = set_ec i (tidy rf) ec"
      by (auto simp: R split: if_splits sum.splits)
    from e plain_handleAppendReply [OF l(2,1), of args reply]
    obtain rf1 where e1: "handleAppendReply (cl_node c i) (int j) args reply = Inr rf1" "tidy rf = plain rf1"
      by (cases "handleAppendReply (cl_node c i) (int j) args reply") auto
    from cluster_step.ack [OF mc [unfolded AppRep] e1(1), of timely strict] t refines_set [OF r, of i rf1] show ?thesis
      by (auto simp: ec' e1(2))
  qed
qed

lemma reach_steps:
  assumes "step\<^sup>*\<^sup>* s t" and "reach init step s"
  shows "reach init step t"
  using assms by (induction rule: rtranclp_induct) (auto intro: reach_step)

lemma lose_all: "(cluster_step strict timely)\<^sup>*\<^sup>* c (c\<lparr>cl_msgs := cl_msgs c - set ms\<rparr>)"
proof (induction ms)
  case (Cons m ms)
  have "cl_msgs c - set (m # ms) = cl_msgs c - set ms - {m}" by auto
  moreover have "cluster_step strict timely (c\<lparr>cl_msgs := cl_msgs c - set ms\<rparr>) (c\<lparr>cl_msgs := cl_msgs c - set ms - {m}\<rparr>)"
    using cluster_step.lose [of strict timely "c\<lparr>cl_msgs := cl_msgs c - set ms\<rparr>" m] by simp
  ultimately show ?case using Cons.IH by (simp only: rtranclp.rtrancl_into_rtrancl)
qed simp

lemma exec_sound:
  assumes "exec strict timely e ec = Some ec'" and r: "refines ec c"
  shows "\<exists>c'. (cluster_step strict timely)\<^sup>*\<^sup>* c c' \<and> refines ec' c'"
proof (cases e)
  case (Elect i)
  with assms exec_elect_sound show ?thesis by simp (meson r_into_rtranclp)
next
  case (Deliver k i j n)
  let ?ms = "filter (of_kind k i j) (ec_msgs ec)"
  from assms(1) Deliver have n: "n < length ?ms" "exec_deliver strict timely (?ms ! n) ec = Some ec'"
    by (auto simp: Let_def split: if_splits)
  from nth_mem [OF n(1)] have "?ms ! n \<in> set (ec_msgs ec)" by (simp only: set_filter) blast
  from exec_deliver_sound [OF n(2) r this] show ?thesis by blast
next
  case (Beat i)
  with assms obtain t where i: "i < cl_size c" "i < length (ec_nodes ec)" and t: "sendHeartBeats_term (cl_node c i) = Some t"
    and ec': "ec' = ec\<lparr>ec_msgs := map (\<lambda>j. Heartbeat i (nat j) t) (heartbeat_peers (cl_node c i)) @ ec_msgs ec\<rparr>"
    by (auto simp: refinesD plain_heartbeat split: if_splits option.splits)
  have "(\<lambda>j. Heartbeat i (nat j) t) ` set (heartbeat_peers (cl_node c i)) = {Heartbeat i j t | j. int j \<in> set (heartbeat_peers (cl_node c i))}"
    by (force simp: heartbeat_peers_def)
  with r have "refines ec' (c\<lparr>cl_msgs := cl_msgs c \<union> {Heartbeat i j t | j. int j \<in> set (heartbeat_peers (cl_node c i))}\<rparr>)"
    by (auto simp: refines_def ec')
  with cluster_step.beat [OF i(1) t, of strict timely] show ?thesis by blast
next
  case (Client i cmd)
  obtain x rf where s: "raft_Start (cl_node c i) (Some cmd) = (x, rf)" by fastforce
  with assms Client plain_Start [of "cl_node c i" "Some cmd"] have "ec' = set_ec i (plain rf) ec"
    by (cases "raft_Start (plain (cl_node c i)) (Some cmd)") (auto simp: refinesD split: if_splits)
  with cluster_step.client [OF s, of strict timely] refines_set [OF r, of i rf] show ?thesis by auto
next
  case (Apply i)
  with assms obtain es rf where w: "applier_round (plain (cl_node c i)) = Some (Inr (es, rf))" and ec': "ec' = set_ec i (tidy rf) ec"
    by (auto simp: refinesD split: if_splits sum.splits option.splits)
  note a = applier_roundD(2) [OF w]
  from result_eqD [OF plain_applier a] obtain rf1 where "applier_step (cl_node c i) = Inr (es, rf1)" "tidy rf = plain rf1"
    by blast
  moreover from this have "applier_round (cl_node c i) = Some (Inr (es, rf1))"
    using applier_roundD(1) [OF w] by (intro applier_roundI) simp_all
  ultimately show ?thesis using cluster_step.applier [of c i es rf1 strict timely] refines_set [OF r, of i rf1] ec' by auto
next
  case (Replicate i)
  with assms have "ec' = set_ec i (plain (replicator_step (cl_node c i))) ec"
    by (auto simp: refinesD plain_replicator split: if_splits)
  with cluster_step.replicator [of strict timely c i] refines_set [OF r] show ?thesis by auto
next
  case (Keep k i j)
  have "refines (ec\<lparr>ec_msgs := filter (of_kind k i j) (ec_msgs ec)\<rparr>) (c\<lparr>cl_msgs := cl_msgs c - set (filter (Not \<circ> of_kind k i j) (ec_msgs ec))\<rparr>)"
    using r by (auto simp: refines_def)
  with lose_all [of strict timely c "filter (Not \<circ> of_kind k i j) (ec_msgs ec)"] assms(1) Keep show ?thesis by auto
qed

lemma exec_run_reach:
  assumes "exec_run strict timely es ec = Some ec'" and "refines ec c" and "reach init (cluster_step strict timely) c"
  shows "\<exists>c'. reach init (cluster_step strict timely) c' \<and> refines ec' c'"
  using assms
proof (induction es arbitrary: ec c)
  case (Cons e es)
  from Cons.prems(1) obtain ec1 where e: "exec strict timely e ec = Some ec1" "exec_run strict timely es ec1 = Some ec'"
    by (auto split: option.splits)
  from exec_sound [OF e(1) Cons.prems(2)] obtain c1 where "(cluster_step strict timely)\<^sup>*\<^sup>* c c1" "refines ec1 c1" by blast
  with Cons.IH [OF e(2)] reach_steps [OF _ Cons.prems(3)] show ?case by blast
qed auto

lemma fresh_refines: "refines fresh_exec fresh_cluster"
proof -
  have p: "tidy (plain_node i) = plain_node i" for i by (simp add: tidy_def plain_node_def)
  have "tidy (plain_node i) = plain (fresh_node i)" for i
    by (rule tidy_eqI) (simp_all add: plain_node_def fresh_node_def raft_Make_def readPersist_def RecoverEntries_def
        createOrOpenRaftWAL_def recover_rrecs.simps)
  with p show ?thesis by (simp add: refines_def fresh_exec_def fresh_cluster_def)
qed

text \<open>A run of three new nodes: its state, up to the write-ahead logs, is the one that is computed.\<close>

lemma fresh_run:
  assumes "exec_run strict timely es fresh_exec = Some ec" and "init fresh_cluster"
  shows "\<exists>c. reach init (cluster_step strict timely) c \<and> refines ec c"
  using exec_run_reach [OF assms(1) fresh_refines] reach_init [of init, OF assms(2)] by blast

section \<open>Parts of runs\<close>

text \<open>What an applier would hand to the store now.\<close>

definition would_apply :: "raft \<Rightarrow> log_entry list option" where
  "would_apply rf = (case applier_round rf of Some (Inr (es, _)) \<Rightarrow> Some es | _ \<Rightarrow> None)"

lemma would_apply_plain [simp]: "would_apply (plain rf) = would_apply rf"
  by (simp add: would_apply_def applier_round_def applier_step_def Let_def split: option.splits)

lemma would_applyD: "would_apply rf = Some es \<Longrightarrow> \<exists>rf'. applier_round rf = Some (Inr (es, rf'))"
  by (auto simp: would_apply_def split: sum.splits option.splits)

text \<open>An election of node \<open>i\<close> that node \<open>j\<close> votes in; a heartbeat that is answered, with and without the handling of the answer.\<close>

definition election :: "nat \<Rightarrow> nat \<Rightarrow> event list" where
  "election i j = [Elect i, Deliver KVoteReq i j 0, Deliver KVoteRep i j 0]"

definition call :: "nat \<Rightarrow> nat \<Rightarrow> event list" where
  "call i j = [Beat i, Deliver KHeartbeat i j 0, Deliver KAppReq i j 0]"

definition round_trip :: "nat \<Rightarrow> nat \<Rightarrow> event list" where
  "round_trip i j = call i j @ [Deliver KAppRep i j 0]"

end
