(* ===== verification/Raft_Late_Reply.thy ===== *)
theory Raft_Late_Reply
  imports Raft_Schedule Raft_Cluster_Logs
begin

text \<open>
  A run in which a reply to AppendEntries is handled in a later term than the one in which it was asked for. The call
  gives up after 500 ms, but its goroutine takes the lock whenever it is scheduled, and checks neither the
  term of its request nor that the node is still the leader of that term.
\<close>

definition late_reply_run :: "event list" where
  "late_reply_run =
     election 0 1 @ [Client 0 [1], Client 0 [2], Keep KAppRep 0 1] @ \<comment> \<open>term 1: node 0 gets two commands\<close>
     [Elect 2] @ election 2 1 @ [Client 2 [3], Keep KAppRep 0 1] @ \<comment> \<open>term 2: node 2 gets one\<close>
     [Elect 0] @ election 0 1 @ round_trip 0 1 @ call 0 1 @ [Keep KAppRep 0 1] @ \<comment> \<open>term 3: node 1 stores the two, the reply is late\<close>
     [Elect 2] @ election 2 1 @ round_trip 2 0 @ call 2 0 @ [Keep KAppRep 0 1] @ \<comment> \<open>term 4: node 0 replaces its commands by the one\<close>
     election 0 1 @ [Client 0 [4], Deliver KAppRep 0 1 0, Keep KAppReq 0 0] @ \<comment> \<open>term 5: node 0 gets a command, then the late reply\<close>
     [Elect 2] @ election 2 1 @ [Client 2 [5]] @ round_trip 2 1 @ round_trip 2 1 \<comment> \<open>term 6: node 2 gets and commits a command\<close>"

lemma late_reply_computed:
  "case exec_run True False late_reply_run fresh_exec of
     None \<Rightarrow> False
   | Some ec \<Rightarrow> length (ec_nodes ec) = 3 \<and>
       would_apply (ec_nodes ec ! 0) = Some [\<lparr>le_Index = 1, le_Term = 2, le_Command = [3]\<rparr>, \<lparr>le_Index = 2, le_Term = 5, le_Command = [4]\<rparr>] \<and>
       would_apply (ec_nodes ec ! 2) = Some [\<lparr>le_Index = 1, le_Term = 2, le_Command = [3]\<rparr>, \<lparr>le_Index = 2, le_Term = 6, le_Command = [5]\<rparr>]"
  by code_simp

text \<open>
  C36: Replies are handled late: even if no node votes twice in a term, a leader commits a command that no other node
  has when the answer to a request of an earlier term is handled only now; the next leader commits another command
  at the same index, and the stores diverge.
\<close>

theorem late_reply_diverges:
  "\<exists>c rf0 rf2. reach cluster_new (cluster_step True False) c \<and>
     applier_round (cl_node c 0) = Some (Inr ([\<lparr>le_Index = 1, le_Term = 2, le_Command = [3]\<rparr>, \<lparr>le_Index = 2, le_Term = 5, le_Command = [4]\<rparr>], rf0)) \<and>
     applier_round (cl_node c 2) = Some (Inr ([\<lparr>le_Index = 1, le_Term = 2, le_Command = [3]\<rparr>, \<lparr>le_Index = 2, le_Term = 6, le_Command = [5]\<rparr>], rf2))"
proof -
  obtain ec where ec: "exec_run True False late_reply_run fresh_exec = Some ec"
    using late_reply_computed by (auto split: option.splits)
  note this late_reply_computed [unfolded this option.case]
  moreover obtain c where "reach cluster_new (cluster_step True False) c" "refines ec c"
    using fresh_run [OF ec, of cluster_new, OF fresh_cluster_new] by blast
  ultimately show ?thesis
    using would_applyD [of "cl_node c 0"] would_applyD [of "cl_node c 2"] by (auto simp: refinesD)
qed

end
