(* ===== verification/Raft_Rpc.thy ===== *)
theory Raft_Rpc
  imports Raft_Node
begin

text \<open>
  The RPC layer of a Raft node: the gRPC service of \<^verbatim>\<open>api/raft_server.go\<close> and the client
  functions \<open>sendRequestVote\<close> (\<^verbatim>\<open>raft/raft.go\<close>) and \<open>sendAppendEntries\<close>
  (\<^verbatim>\<open>raft/appendEntries.go\<close>). The messages have the 32-bit fields of \<^verbatim>\<open>proto/raft.proto\<close>, the
  node has 64-bit integers: a conversion to \<open>int32\<close> keeps the low 32 bits, the one back is
  signed. A peer is an argument: the function that answers a request, or gives an error; the
  client of a peer may be nil. The lemmas show when a remote call is the same as a local one.
\<close>

section \<open>The messages\<close>

record pb_RequestVoteRequest =
  pvq_Term :: "32 word"
  pvq_CandidateId :: "32 word"
  pvq_LastLogIndex :: "32 word"
  pvq_LastLogTerm :: "32 word"

record pb_RequestVoteResponse =
  pvs_Term :: "32 word"
  pvs_VoteGranted :: bool

record pb_LogEntry =
  ple_Term :: "32 word"
  ple_Index :: "32 word"
  ple_Command :: bytes

record pb_AppendEntriesRequest =
  paq_Term :: "32 word"
  paq_LeaderId :: "32 word"
  paq_PrevLogIndex :: "32 word"
  paq_PrevLogTerm :: "32 word"
  paq_Entries :: "pb_LogEntry list"
  paq_LeaderCommit :: "32 word"

record pb_AppendEntriesResponse =
  pas_Term :: "32 word"
  pas_Success :: bool
  pas_ConflictIndex :: "32 word"
  pas_ConflictTerm :: "32 word"

section \<open>The client\<close>

definition pb_vote_args :: "RequestVoteArgs \<Rightarrow> pb_RequestVoteRequest" where
  "pb_vote_args args = \<lparr>pvq_Term = word_of_int (rva_Term args), pvq_CandidateId = word_of_int (rva_CandidateId args),
     pvq_LastLogIndex = word_of_int (rva_LastLogIndex args), pvq_LastLogTerm = word_of_int (rva_LastLogTerm args)\<rparr>"

definition vote_reply :: "pb_RequestVoteResponse \<Rightarrow> RequestVoteReply" where
  "vote_reply r = \<lparr>rvr_Term = sint (pvs_Term r), rvr_VoteGranted = pvs_VoteGranted r\<rparr>"

definition sendRequestVote ::
  "(pb_RequestVoteRequest \<Rightarrow> pb_RequestVoteResponse option) option \<Rightarrow> RequestVoteArgs \<Rightarrow> RequestVoteReply option" where
  "sendRequestVote peer args =
     (case peer of
        None \<Rightarrow> None
      | Some RequestVote \<Rightarrow> map_option vote_reply (RequestVote (pb_vote_args args)))"

definition pb_entry :: "log_entry \<Rightarrow> pb_LogEntry" where
  "pb_entry v = \<lparr>ple_Term = word_of_int (le_Term v), ple_Index = word_of_int (le_Index v), ple_Command = le_Command v\<rparr>"

definition pb_append_args :: "AppendEntriesArgs \<Rightarrow> pb_AppendEntriesRequest" where
  "pb_append_args args = \<lparr>paq_Term = word_of_int (aea_Term args), paq_LeaderId = word_of_int (aea_LeaderId args),
     paq_PrevLogIndex = word_of_int (aea_PrevLogIndex args), paq_PrevLogTerm = word_of_int (aea_PrevLogTerm args),
     paq_Entries = map pb_entry (aea_Entries args), paq_LeaderCommit = word_of_int (aea_LeaderCommit args)\<rparr>"

definition append_reply :: "pb_AppendEntriesResponse \<Rightarrow> AppendEntriesReply" where
  "append_reply r = \<lparr>aer_Term = sint (pas_Term r), aer_Success = pas_Success r,
     aer_ConflictIndex = sint (pas_ConflictIndex r), aer_ConflictTerm = sint (pas_ConflictTerm r)\<rparr>"

text \<open>There is no check for a nil client here: the call panics.\<close>

definition sendAppendEntries ::
  "(pb_AppendEntriesRequest \<Rightarrow> pb_AppendEntriesResponse option) option \<Rightarrow> AppendEntriesArgs \<Rightarrow>
     AppendEntriesReply option result" where
  "sendAppendEntries peer args =
     (case peer of
        None \<Rightarrow> Inl Panic
      | Some AppendEntries \<Rightarrow> Inr (map_option append_reply (AppendEntries (pb_append_args args))))"

section \<open>The server\<close>

datatype ctx_err = CtxCanceled | CtxDeadlineExceeded | CtxOther

datatype grpc_code = Canceled | DeadlineExceeded | Internal | FailedPrecondition | InvalidArgument

type_synonym grpc_status = "grpc_code \<times> string"

text \<open>The node is \<open>None\<close> if the service or its node is nil.\<close>

definition ensureReady :: "ctx_err option \<Rightarrow> raft option \<Rightarrow> grpc_status option" where
  "ensureReady ctx s =
     (case ctx of
        Some CtxCanceled \<Rightarrow> Some (Canceled, ''request canceled by client'')
      | Some CtxDeadlineExceeded \<Rightarrow> Some (DeadlineExceeded, ''request deadline exceeded'')
      | Some CtxOther \<Rightarrow> Some (Internal, ''request context error'')
      | None \<Rightarrow> if s = None then Some (FailedPrecondition, ''raft service not initialized'') else None)"

definition vote_args :: "pb_RequestVoteRequest \<Rightarrow> RequestVoteArgs" where
  "vote_args req = \<lparr>rva_Term = sint (pvq_Term req), rva_CandidateId = sint (pvq_CandidateId req),
     rva_LastLogIndex = sint (pvq_LastLogIndex req), rva_LastLogTerm = sint (pvq_LastLogTerm req)\<rparr>"

definition pb_vote_reply :: "RequestVoteReply \<Rightarrow> pb_RequestVoteResponse" where
  "pb_vote_reply reply = \<lparr>pvs_Term = word_of_int (rvr_Term reply), pvs_VoteGranted = rvr_VoteGranted reply\<rparr>"

definition server_RequestVote ::
  "ctx_err option \<Rightarrow> raft option \<Rightarrow> pb_RequestVoteRequest option \<Rightarrow> int \<Rightarrow>
     ((grpc_status + pb_RequestVoteResponse) \<times> raft option) result" where
  "server_RequestVote ctx s req now =
     (case ensureReady ctx s of
        Some err \<Rightarrow> Inr (Inl err, s)
      | None \<Rightarrow>
        (case req of
           None \<Rightarrow> Inr (Inl (InvalidArgument, ''request cannot be nil''), s)
         | Some req \<Rightarrow>
             bindE (raft_RequestVote (the s) (vote_args req) now) (\<lambda>(reply, rf).
             Inr (Inr (pb_vote_reply reply), Some rf))))"

definition log_entry_of :: "pb_LogEntry \<Rightarrow> log_entry" where
  "log_entry_of e = \<lparr>le_Index = sint (ple_Index e), le_Term = sint (ple_Term e), le_Command = ple_Command e\<rparr>"

definition append_args :: "pb_AppendEntriesRequest \<Rightarrow> AppendEntriesArgs" where
  "append_args req = \<lparr>aea_Term = sint (paq_Term req), aea_LeaderId = sint (paq_LeaderId req),
     aea_PrevLogIndex = sint (paq_PrevLogIndex req), aea_PrevLogTerm = sint (paq_PrevLogTerm req),
     aea_Entries = map log_entry_of (paq_Entries req), aea_LeaderCommit = sint (paq_LeaderCommit req)\<rparr>"

definition pb_append_reply :: "AppendEntriesReply \<Rightarrow> pb_AppendEntriesResponse" where
  "pb_append_reply reply = \<lparr>pas_Term = word_of_int (aer_Term reply), pas_Success = aer_Success reply,
     pas_ConflictIndex = word_of_int (aer_ConflictIndex reply), pas_ConflictTerm = word_of_int (aer_ConflictTerm reply)\<rparr>"

text \<open>\<open>ctx_after\<close>: the state of the context when the node has handled the request.\<close>

definition server_AppendEntries ::
  "ctx_err option \<Rightarrow> ctx_err option \<Rightarrow> raft option \<Rightarrow> pb_AppendEntriesRequest option \<Rightarrow> int \<Rightarrow>
     ((grpc_status + pb_AppendEntriesResponse) \<times> raft option) result" where
  "server_AppendEntries ctx ctx_after s req now =
     (case ensureReady ctx s of
        Some err \<Rightarrow> Inr (Inl err, s)
      | None \<Rightarrow>
        (case req of
           None \<Rightarrow> Inr (Inl (InvalidArgument, ''request cannot be nil''), s)
         | Some req \<Rightarrow>
             bindE (raft_AppendEntries (the s) (append_args req) now) (\<lambda>(reply, rf).
             if ctx_after \<noteq> None then Inr (Inl (Canceled, ''request context ended''), Some rf)
             else Inr (Inr (pb_append_reply reply), Some rf))))"

section \<open>Integers that survive the wire\<close>

definition int32_ok :: "int \<Rightarrow> bool" where
  "int32_ok x \<longleftrightarrow> - (2 ^ 31) \<le> x \<and> x < 2 ^ 31"

lemma sint_mod: "sint (word_of_int x :: 32 word) = (x + 2 ^ 31) mod 2 ^ 32 - 2 ^ 31"
  using int_word_sint [where 'a = 32, of x] by simp

lemma sint_int32 [simp]: "int32_ok x \<Longrightarrow> sint (word_of_int x :: 32 word) = x"
  by (simp add: int32_ok_def sint_mod)

lemma int32_ok_max [intro]: "int32_ok x \<Longrightarrow> int32_ok y \<Longrightarrow> int32_ok (max x y)"
  by (simp add: max_def)

definition vote_args_ok :: "RequestVoteArgs \<Rightarrow> bool" where
  "vote_args_ok args \<longleftrightarrow> int32_ok (rva_Term args) \<and> int32_ok (rva_CandidateId args) \<and>
     int32_ok (rva_LastLogIndex args) \<and> int32_ok (rva_LastLogTerm args)"

definition append_args_ok :: "AppendEntriesArgs \<Rightarrow> bool" where
  "append_args_ok args \<longleftrightarrow> int32_ok (aea_Term args) \<and> int32_ok (aea_LeaderId args) \<and>
     int32_ok (aea_PrevLogIndex args) \<and> int32_ok (aea_PrevLogTerm args) \<and> int32_ok (aea_LeaderCommit args) \<and>
     (\<forall>e \<in> set (aea_Entries args). int32_ok (le_Term e) \<and> int32_ok (le_Index e))"

definition append_reply_ok :: "AppendEntriesReply \<Rightarrow> bool" where
  "append_reply_ok r \<longleftrightarrow> int32_ok (aer_Term r) \<and> int32_ok (aer_ConflictIndex r) \<and> int32_ok (aer_ConflictTerm r)"

section \<open>The interface of a remote call\<close>

text \<open>
  A call over the wire: the request is encoded by the caller and decoded by the server, the
  answer the other way round. If both encodings are faithful on what is sent, the remote
  call is the local one.
\<close>

locale wire_call =
  fixes enc_req :: "'a \<Rightarrow> 'p" and dec_req :: "'p \<Rightarrow> 'a" and req_ok :: "'a \<Rightarrow> bool"
    and enc_resp :: "'r \<Rightarrow> 'q" and dec_resp :: "'q \<Rightarrow> 'r" and resp_ok :: "'r \<Rightarrow> bool"
  assumes req_faithful: "req_ok a \<Longrightarrow> dec_req (enc_req a) = a"
    and resp_faithful: "resp_ok r \<Longrightarrow> dec_resp (enc_resp r) = r"
begin

definition remote :: "('a \<Rightarrow> ('r \<times> 's) result) \<Rightarrow> 'a \<Rightarrow> ('r \<times> 's) result" where
  "remote handler a = bindE (handler (dec_req (enc_req a))) (\<lambda>(r, s). Inr (dec_resp (enc_resp r), s))"

lemma remote_local:
  assumes "req_ok a" and "\<And>r s. handler a = Inr (r, s) \<Longrightarrow> resp_ok r"
  shows "remote handler a = handler a"
  using assms by (cases "handler a") (auto simp: remote_def req_faithful resp_faithful)

end

lemma log_entry_wire: "int32_ok (le_Term e) \<Longrightarrow> int32_ok (le_Index e) \<Longrightarrow> log_entry_of (pb_entry e) = e"
  by (simp add: log_entry_of_def pb_entry_def)

interpretation vote: wire_call pb_vote_args vote_args vote_args_ok pb_vote_reply vote_reply "\<lambda>r. int32_ok (rvr_Term r)"
  by unfold_locales (simp_all add: pb_vote_args_def vote_args_def vote_args_ok_def pb_vote_reply_def vote_reply_def)

interpretation append: wire_call pb_append_args append_args append_args_ok pb_append_reply append_reply append_reply_ok
proof unfold_locales
  fix a assume ok: "append_args_ok a"
  then have "map (log_entry_of \<circ> pb_entry) (aea_Entries a) = aea_Entries a"
    by (intro map_idI) (simp add: append_args_ok_def log_entry_wire)
  with ok show "append_args (pb_append_args a) = a" by (simp add: pb_append_args_def append_args_def append_args_ok_def)
qed (simp add: pb_append_reply_def append_reply_def append_reply_ok_def)

text \<open>A whole call: the client sends, the server answers with a live context.\<close>

definition rpc_RequestVote :: "raft \<Rightarrow> RequestVoteArgs \<Rightarrow> int \<Rightarrow> (RequestVoteReply option \<times> raft) result" where
  "rpc_RequestVote rf args now =
     bindE (server_RequestVote None (Some rf) (Some (pb_vote_args args)) now) (\<lambda>(r, s).
     Inr (sendRequestVote (Some (\<lambda>_. case r of Inr resp \<Rightarrow> Some resp | Inl _ \<Rightarrow> None)) args, the s))"

definition rpc_AppendEntries :: "raft \<Rightarrow> AppendEntriesArgs \<Rightarrow> int \<Rightarrow> (AppendEntriesReply option \<times> raft) result" where
  "rpc_AppendEntries rf args now =
     bindE (server_AppendEntries None None (Some rf) (Some (pb_append_args args)) now) (\<lambda>(r, s).
     bindE (sendAppendEntries (Some (\<lambda>_. case r of Inr resp \<Rightarrow> Some resp | Inl _ \<Rightarrow> None)) args) (\<lambda>reply.
     Inr (reply, the s)))"

lemma rpc_RequestVote_remote:
  "rpc_RequestVote rf args now = bindE (vote.remote (\<lambda>a. raft_RequestVote rf a now) args) (\<lambda>(r, rf). Inr (Some r, rf))"
  by (cases "raft_RequestVote rf (vote_args (pb_vote_args args)) now")
    (auto simp: rpc_RequestVote_def server_RequestVote_def ensureReady_def sendRequestVote_def vote.remote_def)

lemma rpc_AppendEntries_remote:
  "rpc_AppendEntries rf args now = bindE (append.remote (\<lambda>a. raft_AppendEntries rf a now) args) (\<lambda>(r, rf). Inr (Some r, rf))"
  by (cases "raft_AppendEntries rf (append_args (pb_append_args args)) now")
    (auto simp: rpc_AppendEntries_def server_AppendEntries_def ensureReady_def sendAppendEntries_def append.remote_def)

lemma conflict_scan_range: "0 \<le> c \<Longrightarrow> c \<le> int n \<Longrightarrow> 0 \<le> conflict_scan l t n c \<and> conflict_scan l t n c \<le> int n"
proof (induction n arbitrary: c)
  case (Suc n)
  show ?case
  proof (cases "le_Term (l ! n) = t")
    case True
    with Suc.IH [of "int n"] show ?thesis by simp
  next
    case False
    with Suc.prems show ?thesis by simp
  qed
qed simp

text \<open>The fields of a reply are terms and indices of the log.\<close>

lemma append_reply_range:
  assumes "raft_AppendEntries rf args now = Inr (reply, rf')" and "0 \<le> aea_PrevLogIndex args"
    and "int32_ok (rf_currentTerm rf)" and "int32_ok (aea_Term args)" and "length (rf_log rf) < 2 ^ 31"
    and "\<forall>e \<in> set (rf_log rf). int32_ok (le_Term e)"
  shows "append_reply_ok reply"
proof -
  let ?i = "nat (aea_PrevLogIndex args)"
  have zero: "int32_ok 0" "int32_ok (-1)" by (simp_all add: int32_ok_def)
  have len: "int32_ok (int (length (rf_log rf)))" using assms(5) by (simp add: int32_ok_def)
  have c: "int32_ok (conflict_scan (rf_log rf) t (nat (aea_PrevLogIndex args + 1)) 0)"
    if "aea_PrevLogIndex args < int (length (rf_log rf))" for t
    using conflict_scan_range [of 0 "nat (aea_PrevLogIndex args + 1)" "rf_log rf" t] that assms(2,5) by (simp add: int32_ok_def)
  have e: "int32_ok (le_Term (rf_log rf ! ?i))" if "aea_PrevLogIndex args < int (length (rf_log rf))"
    using assms(2,6) that by simp
  from assms(1) show ?thesis
    using assms(3,4) zero len c e
    by (auto simp: raft_AppendEntries_def Let_def append_reply_ok_def log_get_def bindE_Inr_iff persistState_def
        split: if_splits option.splits)
qed

section \<open>Properties\<close>

text \<open>
  A remote vote request is a local one: if the fields of the request and the term of the node
  fit 32 bits, then a call through the service gives the caller the reply, and leaves the node
  in the state, of the handler applied to the original request.
\<close>

lemma rpc_vote_local:
  assumes "vote_args_ok args" and "int32_ok (rf_currentTerm rf)" and "rf_log rf \<noteq> []"
  shows "\<exists>reply rf'. raft_RequestVote rf args now = Inr (reply, rf') \<and>
    rpc_RequestVote rf args now = Inr (Some reply, rf')"
proof -
  obtain reply rf' where r: "raft_RequestVote rf args now = Inr (reply, rf')" "vote_outcome rf args reply rf'"
    by (rule raft_RequestVote_outcome [OF assms(3)])
  then have "int32_ok (rvr_Term reply)" using assms(1,2) by (auto simp: vote_outcome_def vote_args_ok_def)
  with r vote.remote_local [OF assms(1), of "\<lambda>a. raft_RequestVote rf a now"]
  have "vote.remote (\<lambda>a. raft_RequestVote rf a now) args = Inr (reply, rf')" by simp
  with r(1) show ?thesis by (simp add: rpc_RequestVote_remote)
qed

lemma rpc_vote_local_witness:
  "\<exists>reply rf'. rpc_RequestVote (raft_Make [] 0 \<lparr>content = [], quota = 0\<rparr> 0)
      \<lparr>rva_Term = 3, rva_CandidateId = 1, rva_LastLogIndex = 5, rva_LastLogTerm = 2\<rparr> 7 = Inr (Some reply, rf')"
proof -
  let ?rf = "raft_Make [] 0 \<lparr>content = [], quota = 0\<rparr> 0"
  have rf: "rf_currentTerm ?rf = 0" "rf_log ?rf \<noteq> []"
    by (simp_all add: raft_Make_def readPersist_def RecoverEntries_def createOrOpenRaftWAL_def recover_rrecs.simps Let_def)
  with rpc_vote_local [of "\<lparr>rva_Term = 3, rva_CandidateId = 1, rva_LastLogIndex = 5, rva_LastLogTerm = 2\<rparr>" ?rf 7]
  show ?thesis by (auto simp: vote_args_ok_def int32_ok_def)
qed

text \<open>
  C29: A remote AppendEntries request is a local one, under the same condition on the fields of
  the request and the terms and the length of the follower's log.
\<close>

theorem rpc_append_local:
  assumes "append_args_ok args" and "0 \<le> aea_PrevLogIndex args" and "int32_ok (rf_currentTerm rf)"
    and "length (rf_log rf) < 2 ^ 31" and "\<forall>e \<in> set (rf_log rf). int32_ok (le_Term e)"
  shows "\<exists>reply rf'. raft_AppendEntries rf args now = Inr (reply, rf') \<and>
    rpc_AppendEntries rf args now = Inr (Some reply, rf')"
proof -
  obtain reply rf' where r: "raft_AppendEntries rf args now = Inr (reply, rf')"
    by (rule raft_AppendEntries_outcome [OF assms(2)])
  have "int32_ok (aea_Term args)" using assms(1) by (simp add: append_args_ok_def)
  from append_reply_range [OF r assms(2,3) this assms(4,5)] r
    append.remote_local [OF assms(1), of "\<lambda>a. raft_AppendEntries rf a now"]
  have "append.remote (\<lambda>a. raft_AppendEntries rf a now) args = Inr (reply, rf')" by simp
  with r show ?thesis by (simp add: rpc_AppendEntries_remote)
qed

theorem rpc_append_local_witness:
  "\<exists>reply rf'. rpc_AppendEntries (raft_Make [] 0 \<lparr>content = [], quota = 0\<rparr> 0)
      \<lparr>aea_Term = 1, aea_LeaderId = 1, aea_PrevLogIndex = 0, aea_PrevLogTerm = 0,
       aea_Entries = [\<lparr>le_Index = 1, le_Term = 1, le_Command = [9]\<rparr>], aea_LeaderCommit = 0\<rparr> 7 = Inr (Some reply, rf')"
proof -
  let ?rf = "raft_Make [] 0 \<lparr>content = [], quota = 0\<rparr> 0"
  let ?args = "\<lparr>aea_Term = 1, aea_LeaderId = 1, aea_PrevLogIndex = 0, aea_PrevLogTerm = 0,
       aea_Entries = [\<lparr>le_Index = 1, le_Term = 1, le_Command = [9]\<rparr>], aea_LeaderCommit = 0\<rparr>"
  have "rf_currentTerm ?rf = 0" "rf_log ?rf = [\<lparr>le_Index = 0, le_Term = 0, le_Command = []\<rparr>]"
    by (simp_all add: raft_Make_def readPersist_def RecoverEntries_def createOrOpenRaftWAL_def recover_rrecs.simps Let_def)
  with rpc_append_local [of ?args ?rf 7] show ?thesis by (auto simp: append_args_ok_def int32_ok_def)
qed

text \<open>
  An index beyond 32 bits crashes the follower: if \<open>PrevLogIndex\<close> is between \<open>2 ^ 31\<close> and
  \<open>2 ^ 32\<close> and the term is not old, then the index arrives negative and the handler panics
  when it reads the log.
\<close>

lemma rpc_index_wraps:
  assumes "2 ^ 31 \<le> aea_PrevLogIndex args" and "aea_PrevLogIndex args < 2 ^ 32"
    and "int32_ok (aea_Term args)" and "rf_currentTerm rf \<le> aea_Term args"
  shows "rpc_AppendEntries rf args now = Inl Panic"
proof -
  have "sint (word_of_int (aea_PrevLogIndex args) :: 32 word) = aea_PrevLogIndex args - 2 ^ 32"
    using assms(1,2) mod_pos_pos_trivial [of "aea_PrevLogIndex args - 2 ^ 31" "2 ^ 32"]
      mod_add_self2 [of "aea_PrevLogIndex args - 2 ^ 31" "2 ^ 32"] by (simp add: sint_mod add.commute)
  then have neg: "aea_PrevLogIndex (append_args (pb_append_args args)) < 0"
    and t: "aea_Term (append_args (pb_append_args args)) = aea_Term args"
    using assms(2,3) by (simp_all add: append_args_def pb_append_args_def)
  from neg have "raft_AppendEntries rf (append_args (pb_append_args args)) now = Inl Panic"
    using assms(4) by (simp add: raft_AppendEntries_def t Let_def log_get_def)
  then show ?thesis by (simp add: rpc_AppendEntries_remote append.remote_def)
qed

lemma rpc_index_wraps_witness:
  "rpc_AppendEntries (raft_Make [] 0 \<lparr>content = [], quota = 0\<rparr> 0)
     \<lparr>aea_Term = 1, aea_LeaderId = 1, aea_PrevLogIndex = 2147483648, aea_PrevLogTerm = 1, aea_Entries = [],
      aea_LeaderCommit = 0\<rparr> 7 = Inl Panic"
proof -
  have "rf_currentTerm (raft_Make [] 0 \<lparr>content = [], quota = 0\<rparr> 0) = 0"
    by (simp add: raft_Make_def readPersist_def RecoverEntries_def createOrOpenRaftWAL_def recover_rrecs.simps Let_def)
  then show ?thesis by (intro rpc_index_wraps) (simp_all add: int32_ok_def)
qed

end
