(* ===== verification/Raft_Sync.thy ===== *)
theory Raft_Sync
  imports Raft_Node
begin

text \<open>
  A leader and one follower exchanging heartbeats: one round is the request of \<open>sendHeartBeats\<close>, the
  handler of the follower and the handling of its reply. The lemmas show that a new leader
  brings a follower up to date within a bounded number of rounds, however far its log is
  behind or apart, and when the exchange gets stuck.
\<close>

definition sync_round :: "int \<Rightarrow> int \<Rightarrow> raft \<times> raft \<Rightarrow> (raft \<times> raft) result" where
  "sync_round p now s =
     (case s of (ld, fo) \<Rightarrow>
      case sendHeartBeats_term ld of
        None \<Rightarrow> Inr (ld, fo)
      | Some tm \<Rightarrow>
          bindE (heartbeat_args ld tm p) (\<lambda>a.
          case a of
            None \<Rightarrow> Inr (ld, fo)
          | Some args \<Rightarrow>
              bindE (raft_AppendEntries fo args now) (\<lambda>(reply, fo).
              bindE (handleAppendReply ld p args reply) (\<lambda>ld. Inr (ld, fo)))))"

text \<open>Rounds at the given times.\<close>

fun sync_rounds :: "int \<Rightarrow> int list \<Rightarrow> raft \<times> raft \<Rightarrow> (raft \<times> raft) result" where
  "sync_rounds p [] s = Inr s"
| "sync_rounds p (now # ts) s = bindE (sync_round p now s) (sync_rounds p ts)"

section \<open>One round\<close>

text \<open>The leader with log \<open>L\<close>, its \<open>nextIndex\<close> \<open>k\<close> and \<open>matchIndex\<close> \<open>m\<close> for the follower.\<close>

definition paired :: "int \<Rightarrow> log_entry list \<Rightarrow> nat \<Rightarrow> nat \<Rightarrow> raft \<times> raft \<Rightarrow> bool" where
  "paired p L k m s \<longleftrightarrow> (case s of (ld, fo) \<Rightarrow>
     rf_state ld = Leader \<and> rf_log ld = L \<and> 0 \<le> rf_commitIndex ld \<and>
     rf_currentTerm fo \<le> rf_currentTerm ld \<and> rf_nextIndex ld p = Some (int k) \<and>
     mget (rf_matchIndex ld) p = int m \<and> 1 \<le> k \<and> k \<le> length L)"

definition agree_at :: "log_entry list \<Rightarrow> log_entry list \<Rightarrow> nat \<Rightarrow> bool" where
  "agree_at F L k \<longleftrightarrow> k \<le> length F \<and> le_Term (F ! (k - 1)) = le_Term (L ! (k - 1))"

definition batch :: "log_entry list \<Rightarrow> nat \<Rightarrow> log_entry list" where
  "batch L k = take 100 (drop k L)"

definition sync_args :: "raft \<Rightarrow> nat \<Rightarrow> AppendEntriesArgs" where
  "sync_args ld k = \<lparr>aea_Term = rf_currentTerm ld, aea_LeaderId = rf_me ld, aea_PrevLogIndex = int (k - 1),
     aea_PrevLogTerm = le_Term (rf_log ld ! (k - 1)), aea_Entries = batch (rf_log ld) k,
     aea_LeaderCommit = rf_commitIndex ld\<rparr>"

lemma sync_args_fields [simp]:
  "aea_Term (sync_args ld k) = rf_currentTerm ld" "aea_PrevLogIndex (sync_args ld k) = int (k - 1)"
  "aea_PrevLogTerm (sync_args ld k) = le_Term (rf_log ld ! (k - 1))" "aea_Entries (sync_args ld k) = batch (rf_log ld) k"
  by (simp_all add: sync_args_def)

lemma sync_round_eq:
  assumes "paired p L k m (ld, fo)"
  shows "sync_round p now (ld, fo) = bindE (raft_AppendEntries fo (sync_args ld k) now) (\<lambda>(reply, fo).
    bindE (handleAppendReply ld p (sync_args ld k) reply) (\<lambda>ld. Inr (ld, fo)))"
  using assms heartbeat_args_leader [of ld p k "rf_currentTerm ld"]
  by (simp add: sync_round_def paired_def sendHeartBeats_term_def sync_args_def batch_def)

lemma sync_append:
  assumes "paired p L k m (ld, fo)"
  obtains reply fo' where "raft_AppendEntries fo (sync_args ld k) now = Inr (reply, fo')"
    "aer_Success reply = agree_at (rf_log fo) L k" "aer_Term reply = rf_currentTerm ld"
    "rf_currentTerm fo' = rf_currentTerm ld"
    "rf_log fo' = (if agree_at (rf_log fo) L k then merged (rf_log fo) k (batch L k) else rf_log fo)"
proof -
  obtain reply fo' where r: "raft_AppendEntries fo (sync_args ld k) now = Inr (reply, fo')"
    "append_outcome fo (sync_args ld k) reply fo'"
    by (rule raft_AppendEntries_outcome [of "sync_args ld k" fo now]) (simp add: sync_args_def)
  have k: "Suc (k - 1) = k" "rf_log ld = L" "rf_currentTerm fo \<le> rf_currentTerm ld" using assms by (simp_all add: paired_def)
  have "accepts fo (sync_args ld k) = agree_at (rf_log fo) L k"
    using k assms by (auto simp: accepts_def agree_at_def paired_def simp del: of_nat_diff)
  then have "aer_Success reply = agree_at (rf_log fo) L k" "aer_Term reply = rf_currentTerm ld"
    "rf_currentTerm fo' = rf_currentTerm ld"
    "rf_log fo' = (if agree_at (rf_log fo) L k then merged (rf_log fo) k (batch L k) else rf_log fo)"
    using r(2) k unfolding append_outcome_def sync_args_fields nat_int by simp_all
  with r(1) show thesis by (rule that)
qed

text \<open>An accepted request: the indices advance unless the leader knew of more.\<close>

lemma sync_accept:
  assumes P: "paired p L k m (ld, fo)" and a: "agree_at (rf_log fo) L k"
  defines "n \<equiv> k - 1 + length (batch L k)"
  shows "\<exists>ld' fo'. sync_round p now (ld, fo) = Inr (ld', fo') \<and> rf_log fo' = merged (rf_log fo) k (batch L k) \<and>
    (if m < n then paired p L (Suc n) n (ld', fo') else paired p L k m (ld', fo'))"
proof -
  obtain reply fo' where r: "raft_AppendEntries fo (sync_args ld k) now = Inr (reply, fo')"
    "aer_Success reply" "aer_Term reply = rf_currentTerm ld" "rf_currentTerm fo' = rf_currentTerm ld"
    "rf_log fo' = merged (rf_log fo) k (batch L k)"
    using a by (auto intro: sync_append [OF P, of now])
  define ld1 where "ld1 = advance_indices ld p (int n)"
  have n: "aea_PrevLogIndex (sync_args ld k) + int (length (aea_Entries (sync_args ld k))) = int n"
    using P by (simp add: sync_args_def n_def paired_def)
  have le: "Suc n \<le> length L" using P by (auto simp: n_def batch_def paired_def)
  obtain ld' where h: "handleAppendReply ld p (sync_args ld k) reply = Inr ld'"
    using handleAppendReply_total P by (fastforce simp: paired_def)
  then have "commit_scan ld1 (int (length (rf_log ld1)) - 1) = Inr ld'"
    using r(2,3) by (simp add: handleAppendReply_def Let_def n ld1_def del: sync_args_fields)
  from commit_scan_result [OF this] obtain M c where ld': "ld' = ld1\<lparr>rf_commitIndex := M, rf_commitCh := c\<rparr>"
    "rf_commitIndex ld1 \<le> M" by blast
  have "rf_commitIndex ld1 = rf_commitIndex ld" by (simp add: ld1_def advance_indices_def)
  with P ld'(2) have "0 \<le> M" by (simp add: paired_def)
  then have "if m < n then paired p L (Suc n) n (ld', fo') else paired p L k m (ld', fo')"
    using P le ld'(1) r(4) by (auto simp: paired_def ld1_def advance_indices_def mget_def)
  moreover have "sync_round p now (ld, fo) = Inr (ld', fo')" by (simp add: sync_round_eq [OF P] r(1) h)
  ultimately show ?thesis using r(5) by blast
qed


text \<open>
  A refused request: under log matching with the terms' runs the leader goes back at least one index.
  The condition holds for logs that were both copied from the leaders of their terms.
\<close>

definition term_runs :: "log_entry list \<Rightarrow> log_entry list \<Rightarrow> bool" where
  "term_runs F L \<longleftrightarrow> (\<forall>i j. j \<le> i \<longrightarrow> i < length L \<longrightarrow> j < length F \<longrightarrow> le_Term (F ! j) = le_Term (L ! i) \<longrightarrow>
     le_Term (L ! j) = le_Term (L ! i))"

lemma backtrack_less:
  assumes P: "paired p L k m (ld, fo)" and no: "\<not> agree_at (rf_log fo) L k" and F: "agree_at (rf_log fo) L 1"
    and runs: "term_runs (rf_log fo) L" and r: "raft_AppendEntries fo (sync_args ld k) now = Inr (reply, fo')" "\<not> aer_Success reply"
  shows "backtrack ld reply < int k"
proof -
  define i where "i = k - 1"
  have "k \<noteq> 1" using no F by auto
  then have k: "k = Suc i" "1 \<le> i" using P by (auto simp: i_def paired_def)
  have L: "rf_log ld = L" "Suc i \<le> length L" using P k by (simp_all add: paired_def)
  have "rf_currentTerm fo \<le> aea_Term (sync_args ld k)" "0 \<le> aea_PrevLogIndex (sync_args ld k)"
    using P by (simp_all add: paired_def)
  note C = raft_AppendEntries_conflict [OF this r, unfolded sync_args_fields k diff_Suc_1 nat_int L(1)]
  consider
    (short) "length (rf_log fo) \<le> i" "aer_ConflictTerm reply = -1" "aer_ConflictIndex reply = int (length (rf_log fo))"
  | (clash) j where "aer_ConflictIndex reply = int j" "j \<le> i" "i < length (rf_log fo)"
      "aer_ConflictTerm reply = le_Term (rf_log fo ! i)" "le_Term (rf_log fo ! i) \<noteq> le_Term (L ! i)"
    using C unfolding of_nat_le_iff of_nat_less_iff by metis
  then show ?thesis
  proof cases
    case short
    with k show ?thesis by (simp add: backtrack_def)
  next
    case clash
    have "last_index_of_term L (le_Term (rf_log fo ! i)) (length L) < int i"
      using last_index_of_term_spec [of L "le_Term (rf_log fo ! i)" "length L"]
    proof (elim disjE exE conjE)
      fix e assume e: "e < length L" "le_Term (L ! e) = le_Term (rf_log fo ! i)"
        "last_index_of_term L (le_Term (rf_log fo ! i)) (length L) = int e"
      have "e < i"
      proof (rule ccontr)
        assume "\<not> e < i"
        with runs e(1,2) clash(3) have "le_Term (L ! i) = le_Term (L ! e)"
          unfolding term_runs_def by (metis not_less)
        with e(2) clash(5) show False by simp
      qed
      with e(3) show ?thesis by simp
    qed (use k in simp)
    with clash k show ?thesis by (auto simp: backtrack_def L Let_def)
  qed
qed

lemma sync_reject:
  assumes P: "paired p L k 0 (ld, fo)" and no: "\<not> agree_at (rf_log fo) L k" and F: "agree_at (rf_log fo) L 1"
    and runs: "term_runs (rf_log fo) L"
  shows "\<exists>ld' fo' k'. sync_round p now (ld, fo) = Inr (ld', fo') \<and> k' < k \<and> paired p L k' 0 (ld', fo') \<and>
    rf_log fo' = rf_log fo"
proof -
  obtain reply fo' where r: "raft_AppendEntries fo (sync_args ld k) now = Inr (reply, fo')"
    "\<not> aer_Success reply" "aer_Term reply = rf_currentTerm ld" "rf_currentTerm fo' = rf_currentTerm ld"
    "rf_log fo' = rf_log fo"
    using no by (auto intro: sync_append [OF P, of now])
  let ?ld = "ld\<lparr>rf_nextIndex := (rf_nextIndex ld)(p \<mapsto> backtrack ld reply)\<rparr>"
  have b: "1 \<le> backtrack ld reply" "backtrack ld reply < int k"
    using backtrack_ge backtrack_less [OF P no F runs r(1,2)] by blast+
  have "handleAppendReply ld p (sync_args ld k) reply = Inr ?ld" using r(2,3) by (simp add: handleAppendReply_def)
  then have "sync_round p now (ld, fo) = Inr (?ld, fo')" by (simp add: sync_round_eq [OF P] r(1))
  moreover have "paired p L (nat (backtrack ld reply)) 0 (?ld, fo')" using P r(4) b by (auto simp: paired_def)
  ultimately show ?thesis using b r(5) by (intro exI [of _ ?ld] exI [of _ fo'] exI [of _ "nat (backtrack ld reply)"]) auto
qed


section \<open>Many rounds\<close>

text \<open>The follower has what the leader believes it has.\<close>

definition insync :: "int \<Rightarrow> log_entry list \<Rightarrow> nat \<Rightarrow> raft \<times> raft \<Rightarrow> bool" where
  "insync p L k s \<longleftrightarrow> paired p L k (k - 1) s \<and> k \<le> length (rf_log (snd s)) \<and>
     take k (rf_log (snd s)) = take k L \<and> log_matching (rf_log (snd s)) L"

lemma insync_agree: "insync p L k (ld, fo) \<Longrightarrow> agree_at (rf_log fo) L k"
proof -
  assume a: "insync p L k (ld, fo)"
  then have "k - 1 < k" by (auto simp: insync_def paired_def)
  with a show ?thesis unfolding agree_at_def insync_def snd_conv by (metis nth_take)
qed

lemma sync_accept_insync:
  assumes P: "paired p L k m (ld, fo)" and "m < k" and a: "agree_at (rf_log fo) L k" and lm: "log_matching (rf_log fo) L"
  shows "\<exists>s. sync_round p now (ld, fo) = Inr s \<and> insync p L (min (k + 100) (length L)) s"
proof -
  let ?b = "batch L k" and ?F = "rf_log fo"
  have k: "1 \<le> k" "k \<le> length L" "k \<le> length ?F" "le_Term (?F ! (k - 1)) = le_Term (L ! (k - 1))"
    using P a by (auto simp: paired_def agree_at_def)
  have k': "k + length ?b = min (k + 100) (length L)" using k(2) by (auto simp: batch_def)
  obtain ld' fo' where s: "sync_round p now (ld, fo) = Inr (ld', fo')" "rf_log fo' = merged ?F k ?b"
    "if m < k - 1 + length ?b then paired p L (Suc (k - 1 + length ?b)) (k - 1 + length ?b) (ld', fo') else paired p L k m (ld', fo')"
    using sync_accept [OF P a, of now] by blast
  have "paired p L (k + length ?b) (k + length ?b - 1) (ld', fo')"
  proof (cases "m < k - 1 + length ?b")
    case True
    with s(3) k(1) show ?thesis by simp
  next
    case False
    with assms(2) k(1) have "length ?b = 0" "m = k - 1" by linarith+
    with s(3) show ?thesis by simp
  qed
  moreover have "take (k + length ?b) (rf_log fo') = take (k + length ?b) L" "log_matching (rf_log fo') L"
    using merged_matching [OF lm k, of ?b 100] s(2) by (simp_all add: batch_def)
  moreover have "k + length ?b \<le> length (rf_log fo')" using merged_length [OF k(3), of ?b] s(2) by simp
  ultimately show ?thesis using s(1) unfolding k' insync_def by auto
qed

lemma insync_rounds:
  "insync p L k s \<Longrightarrow> \<exists>s' k'. sync_rounds p ts s = Inr s' \<and> insync p L k' s' \<and> min (k + length ts) (length L) \<le> k'"
proof (induction ts arbitrary: k s)
  case (Cons now ts)
  obtain ld fo where s: "s = (ld, fo)" by (cases s)
  from Cons.prems have P: "paired p L k (k - 1) (ld, fo)" "k - 1 < k" "log_matching (rf_log fo) L"
    by (auto simp: insync_def paired_def s)
  from sync_accept_insync [OF P(1,2) insync_agree [OF Cons.prems [unfolded s]] P(3), of now]
  obtain s1 where s1: "sync_round p now (ld, fo) = Inr s1" "insync p L (min (k + 100) (length L)) s1" by blast
  from Cons.IH [OF s1(2)] obtain s' k' where "sync_rounds p ts s1 = Inr s'" "insync p L k' s'"
    "min (min (k + 100) (length L) + length ts) (length L) \<le> k'" by blast
  moreover from this(3) have "min (k + length (now # ts)) (length L) \<le> k'" by (simp add: min_def split: if_splits)
  ultimately show ?case using s1(1) s by auto
qed auto

lemma sync_converges:
  assumes "paired p L k 0 (ld, fo)" and "log_matching (rf_log fo) L" and "term_runs (rf_log fo) L"
    and "agree_at (rf_log fo) L 1" and "k + length L \<le> length ts"
  shows "\<exists>s. sync_rounds p ts (ld, fo) = Inr s \<and> insync p L (length L) s"
  using assms
proof (induction k arbitrary: ld fo ts rule: less_induct)
  case (less k)
  then obtain now ts' where ts: "ts = now # ts'" by (cases ts) (auto simp: paired_def)
  show ?case
  proof (cases "agree_at (rf_log fo) L k")
    case True
    have "0 < k" using less.prems(1) by (simp add: paired_def)
    from sync_accept_insync [OF less.prems(1) this True less.prems(2), of now]
    obtain s1 where s1: "sync_round p now (ld, fo) = Inr s1" "insync p L (min (k + 100) (length L)) s1" by blast
    from insync_rounds [OF s1(2), of ts'] obtain s' k' where s': "sync_rounds p ts' s1 = Inr s'" "insync p L k' s'"
      "min (min (k + 100) (length L) + length ts') (length L) \<le> k'" by blast
    have "k' \<le> length L" using s'(2) by (auto simp: insync_def paired_def split: prod.splits)
    with s'(3) less.prems(5) \<open>0 < k\<close> have "k' = length L" by (simp add: ts min_def split: if_splits)
    with s' s1(1) show ?thesis by (simp add: ts)
  next
    case False
    from sync_reject [OF less.prems(1) False less.prems(4,3), of now] obtain ld' fo' k' where
      r: "sync_round p now (ld, fo) = Inr (ld', fo')" "k' < k" "paired p L k' 0 (ld', fo')" "rf_log fo' = rf_log fo" by blast
    have "\<exists>s. sync_rounds p ts' (ld', fo') = Inr s \<and> insync p L (length L) s"
      by (rule less.IH [OF r(2,3)]) (use less.prems r(2) in \<open>simp_all add: r(4) ts\<close>)
    with r(1) show ?thesis by (simp add: ts)
  qed
qed

text \<open>
  C11: A new leader brings every follower up to date: after at most twice as many rounds as the leader
  has entries the follower's log begins with the leader's log and the leader knows it, however
  far the follower was behind and whatever conflicting entries it had, if the two logs obey log
  matching and the follower's term is not larger. No round panics, and further rounds keep this.
\<close>

theorem new_leader_syncs_follower:
  assumes "0 \<le> p" and "p < int (length (rf_peers rf))" and "0 \<le> rf_commitIndex rf" and "rf_log rf \<noteq> []"
    and "rf_currentTerm fo \<le> rf_currentTerm rf" and "log_matching (rf_log fo) (rf_log rf)"
    and "term_runs (rf_log fo) (rf_log rf)" and "rf_log fo \<noteq> []" and "le_Term (hd (rf_log fo)) = le_Term (hd (rf_log rf))"
    and "2 * length (rf_log rf) \<le> length ts"
  shows "\<exists>ld' fo'. sync_rounds p ts (init_leader rf, fo) = Inr (ld', fo') \<and> rf_log ld' = rf_log rf \<and>
    take (length (rf_log rf)) (rf_log fo') = rf_log rf \<and>
    mget (rf_matchIndex ld') p = int (length (rf_log rf)) - 1"
proof -
  let ?L = "rf_log rf"
  have n: "1 \<le> length ?L" using assms(4) by (cases ?L) simp_all
  then have P: "paired p ?L (length ?L) 0 (init_leader rf, fo)"
    using assms(1-5) by (simp add: paired_def init_leader_eq mget_def)
  have "agree_at (rf_log fo) ?L 1" using assms(4,8,9) by (cases "rf_log fo"; cases ?L) (simp_all add: agree_at_def)
  from sync_converges [OF P assms(6,7) this, of ts] assms(10) obtain s where
    s: "sync_rounds p ts (init_leader rf, fo) = Inr s" "insync p ?L (length ?L) s" by auto
  then show ?thesis using n by (cases s) (auto simp: insync_def paired_def)
qed


definition demo_entry :: "int \<Rightarrow> int \<Rightarrow> log_entry" where
  "demo_entry i t = \<lparr>le_Index = i, le_Term = t, le_Command = [word_of_int t]\<rparr>"

definition demo_apart :: "raft \<times> raft" where
  "demo_apart = (demo_node\<lparr>rf_currentTerm := 3, rf_log := [demo_entry 0 0, demo_entry 1 1, demo_entry 2 3]\<rparr>,
     demo_node\<lparr>rf_me := 1, rf_currentTerm := 2, rf_log := [demo_entry 0 0, demo_entry 1 1, demo_entry 2 2, demo_entry 3 2]\<rparr>)"

theorem new_leader_syncs_follower_witness:
  "\<exists>ld' fo'. sync_rounds 1 [0, 1, 2, 3, 4, 5] (init_leader (fst demo_apart), snd demo_apart) = Inr (ld', fo') \<and>
     take 3 (rf_log fo') = [demo_entry 0 0, demo_entry 1 1, demo_entry 2 3]"
proof -
  let ?ld = "fst demo_apart" and ?fo = "snd demo_apart"
  have l: "rf_log ?ld = [demo_entry 0 0, demo_entry 1 1, demo_entry 2 3]"
    "rf_log ?fo = [demo_entry 0 0, demo_entry 1 1, demo_entry 2 2, demo_entry 3 2]" by (simp_all add: demo_apart_def)
  have "log_matching (rf_log ?fo) (rf_log ?ld)" "term_runs (rf_log ?fo) (rf_log ?ld)"
    unfolding l log_matching_def term_runs_def by (auto simp: demo_entry_def nth_Cons' less_Suc_eq)
  with new_leader_syncs_follower [of 1 ?ld ?fo "[0, 1, 2, 3, 4, 5]"] show ?thesis
    unfolding l by (auto simp: demo_apart_def demo_node_eq eval_nat_numeral)
qed

section \<open>A round that leads nowhere\<close>

text \<open>
  \<open>nextIndex\<close> advances only together with \<open>matchIndex\<close>. If a rejection has set it back by more than the
  size of a batch, the same batch is sent over and over.
\<close>

lemma sync_stuck:
  assumes "paired p L k m (ld, fo)" and "k - 1 + length (batch L k) \<le> m" and "agree_at F L k"
    and "rf_log fo = F \<or> rf_log fo = merged F k (batch L k)"
  shows "\<exists>ld' fo'. sync_rounds p ts (ld, fo) = Inr (ld', fo') \<and> paired p L k m (ld', fo') \<and>
    (rf_log fo' = F \<or> rf_log fo' = merged F k (batch L k))"
  using assms(1,4)
proof (induction ts arbitrary: ld fo)
  case (Cons now ts)
  let ?M = "merged F k (batch L k)"
  have k: "1 \<le> k" "k \<le> length F" using assms(1,3) by (auto simp: paired_def agree_at_def)
  have "take k ?M = take k F" by (rule merged_prefix [OF k(2)])
  then have "?M ! (k - 1) = F ! (k - 1)" using k(1) by (metis diff_less less_one nth_take zero_less_one order_less_le_trans)
  then have a: "agree_at (rf_log fo) L k"
    using Cons.prems(2) assms(3) merged_length [OF k(2), of "batch L k"] by (auto simp: agree_at_def)
  from sync_accept [OF Cons.prems(1) a, of now] assms(2) obtain ld' fo' where
    r: "sync_round p now (ld, fo) = Inr (ld', fo')" "rf_log fo' = merged (rf_log fo) k (batch L k)" "paired p L k m (ld', fo')"
    by (auto simp: not_less)
  have "rf_log fo' = ?M" using r(2) Cons.prems(2) merged_again [OF k(2), of "batch L k"] by auto
  with Cons.IH [OF r(3)] r(1) show ?case by auto
qed auto

text \<open>
  C30: Replication to a follower can stall for good: if the leader's \<open>nextIndex\<close> for a follower is 100 or more
  below its \<open>matchIndex\<close> (a follower that came back with a shorter log, or a late rejection), then the
  follower accepts every request, and after any number of rounds it still has no entry
  beyond the first batch, although the leader counts it as a holder of all entries up to \<open>matchIndex\<close>.
\<close>

theorem replication_stalls:
  assumes "rf_state ld = Leader" and "0 \<le> rf_commitIndex ld" and "rf_currentTerm fo \<le> rf_currentTerm ld"
    and "rf_nextIndex ld p = Some (int k)" and "mget (rf_matchIndex ld) p = int m" and "1 \<le> k" and "k + 99 \<le> m"
    and "m < length (rf_log ld)" and "length (rf_log fo) = k" and "le_Term (rf_log fo ! (k - 1)) = le_Term (rf_log ld ! (k - 1))"
  shows "\<exists>ld' fo'. sync_rounds p ts (ld, fo) = Inr (ld', fo') \<and> rf_nextIndex ld' p = Some (int k) \<and>
    mget (rf_matchIndex ld') p = int m \<and> length (rf_log fo') \<le> k + 100"
proof -
  let ?L = "rf_log ld" and ?F = "rf_log fo"
  have P: "paired p ?L k m (ld, fo)" and b: "length (batch ?L k) = 100" and a: "agree_at ?F ?L k"
    using assms by (simp_all add: paired_def batch_def agree_at_def)
  have "k - 1 + length (batch ?L k) \<le> m" using b assms(6,7) by simp
  from sync_stuck [OF P this a, of ts] obtain ld' fo' where
    s: "sync_rounds p ts (ld, fo) = Inr (ld', fo')" "paired p ?L k m (ld', fo')"
    "rf_log fo' = ?F \<or> rf_log fo' = merged ?F k (batch ?L k)" by blast
  have "length (merged ?F k (batch ?L k)) \<le> k + 100"
    using agree_le [of ?F k "batch ?L k"] agree_in_range [of k ?F "batch ?L k"] b assms(9) by (auto simp: merged_def)
  with s assms(9) show ?thesis by (auto simp: paired_def)
qed

text \<open>A leader with 200 entries that believes its follower to have all of them, but sees it with the first only.\<close>

definition demo_stalled :: "raft \<times> raft" where
  "demo_stalled = (demo_node\<lparr>rf_state := Leader, rf_currentTerm := 1, rf_log := map (\<lambda>i. demo_entry (int i) 0) [0..<200],
     rf_nextIndex := [1 \<mapsto> 1], rf_matchIndex := [1 \<mapsto> 199]\<rparr>,
     demo_node\<lparr>rf_me := 1, rf_log := [demo_entry 0 0]\<rparr>)"

theorem replication_stalls_witness:
  "\<exists>ld' fo'. sync_rounds 1 [0, 1, 2] demo_stalled = Inr (ld', fo') \<and> mget (rf_matchIndex ld') 1 = 199 \<and> length (rf_log fo') \<le> 101"
  using replication_stalls [of "fst demo_stalled" "snd demo_stalled" 1 1 199 "[0, 1, 2]"]
  by (auto simp: demo_stalled_def demo_node_eq mget_def demo_entry_def)

section \<open>A reply that arrives too late\<close>

text \<open>
  The reply handler does not look at the state of the node: a success reply makes also a former
  leader, now a follower in a later term, commit the entries it received since, from the \<open>matchIndex\<close>
  values of its own time as leader.
\<close>

lemma follower_commits_on_reply:
  assumes "rf_state rf = Follower" and "0 \<le> rf_commitIndex rf" and "aer_Term reply \<le> rf_currentTerm rf" and "aer_Success reply"
    and "aea_PrevLogIndex args + int (length (aea_Entries args)) \<le> mget (rf_matchIndex rf) server"
    and "rf_commitIndex rf < N" and "N < int (length (rf_log rf))" and "committable rf N"
  shows "\<exists>rf'. handleAppendReply rf server args reply = Inr rf' \<and> rf_state rf' = Follower \<and> N \<le> rf_commitIndex rf'"
proof -
  have "handleAppendReply rf server args reply = commit_scan rf (int (length (rf_log rf)) - 1)"
    using assms(3-5) by (simp add: handleAppendReply_def advance_indices_def)
  moreover consider M where "commit_scan rf (int (length (rf_log rf)) - 1) = Inr (rf\<lparr>rf_commitIndex := M, rf_commitCh := True\<rparr>)"
      "\<forall>K. M < K \<longrightarrow> K \<le> int (length (rf_log rf)) - 1 \<longrightarrow> \<not> committable rf K"
    | "\<forall>K. rf_commitIndex rf < K \<longrightarrow> K \<le> int (length (rf_log rf)) - 1 \<longrightarrow> \<not> committable rf K"
    using commit_scan_spec [of rf "int (length (rf_log rf)) - 1"] assms(2) by fastforce
  then have "\<exists>rf'. commit_scan rf (int (length (rf_log rf)) - 1) = Inr rf' \<and> rf_state rf' = Follower \<and> N \<le> rf_commitIndex rf'"
  proof cases
    case 1
    from 1(2) [rule_format, of N] assms(7,8) have "N \<le> M" by linarith
    with 1(1) assms(1) show ?thesis by simp
  next
    case 2
    with assms(6-8) show ?thesis by auto
  qed
  ultimately show ?thesis by simp
qed

end
