(* ===== verification/Raft_Progress.thy ===== *)
theory Raft_Progress
  imports Raft_Safety Raft_Sync
begin

text \<open>
  A cluster never gets stuck: from every state that it reaches, whatever messages were lost, some
  steps lead to a new leader, and further steps to the commitment of a command. The node with the most
  up-to-date log starts elections until its term is the largest, the others vote for it, and its
  heartbeats bring them up to date (\<open>Raft_Sync\<close>).
\<close>

abbreviation cluster_steps :: "bool \<Rightarrow> bool \<Rightarrow> cluster \<Rightarrow> cluster \<Rightarrow> bool" where
  "cluster_steps strict timely \<equiv> (cluster_step strict timely)\<^sup>*\<^sup>*"

section \<open>Elections\<close>

definition election_args :: "raft \<Rightarrow> RequestVoteArgs" where
  "election_args rf = \<lparr>rva_Term = rf_currentTerm rf, rva_CandidateId = rf_me rf,
     rva_LastLogIndex = int (length (rf_log rf)) - 1, rva_LastLogTerm = le_Term (last (rf_log rf))\<rparr>"

lemma startElection_args:
  assumes "rf_log rf \<noteq> []"
  obtains rf' where "startElection rf now = Inr (election_args rf', rf')" "rf_log rf' = rf_log rf"
proof -
  have "log_get (rf_log rf) (int (length (rf_log rf)) - 1) = Some (last (rf_log rf))"
    using assms by (cases "rf_log rf" rule: rev_cases) (simp_all add: log_get_def nth_append)
  moreover define rf' where "rf' = persistState (rf\<lparr>rf_state := Candidate, rf_currentTerm := rf_currentTerm rf + 1,
      rf_votedFor := rf_me rf, rf_lastResetTime := now\<rparr>)"
  ultimately have "startElection rf now = Inr (election_args rf', rf')" "rf_log rf' = rf_log rf"
    by (simp_all add: startElection_def election_args_def Let_def)
  then show thesis by (rule that)
qed

text \<open>A candidate with \<open>v\<close> votes, and a node that will vote for it when its request arrives.\<close>

definition campaigning :: "cluster \<Rightarrow> nat \<Rightarrow> int \<Rightarrow> bool" where
  "campaigning c i v \<longleftrightarrow> i < cl_size c \<and> rf_state (cl_node c i) = Candidate \<and>
     cl_votes c i (rf_currentTerm (cl_node c i)) = v"

definition up_to_date :: "log_entry list \<Rightarrow> log_entry list \<Rightarrow> bool" where
  "up_to_date l l' \<longleftrightarrow> le_Term (last l') < le_Term (last l) \<or> le_Term (last l') = le_Term (last l) \<and> length l' \<le> length l"

definition supporter :: "cluster \<Rightarrow> nat \<Rightarrow> nat \<Rightarrow> bool" where
  "supporter c i j \<longleftrightarrow> j \<noteq> i \<and> VoteReq i j (election_args (cl_node c i)) \<in> cl_msgs c \<and>
     rf_currentTerm (cl_node c j) < rf_currentTerm (cl_node c i) \<and> up_to_date (rf_log (cl_node c i)) (rf_log (cl_node c j))"

lemma elect_once:
  assumes "cluster_typed c" and "i < cl_size c"
  obtains c' where "cluster_step strict timely c c'" "cl_size c' = cl_size c" "campaigning c' i 1"
    "rf_currentTerm (cl_node c' i) = rf_currentTerm (cl_node c i) + 1" "rf_log (cl_node c' i) = rf_log (cl_node c i)"
    "\<And>j. j \<noteq> i \<Longrightarrow> cl_node c' j = cl_node c j"
    "\<And>j. j < cl_size c \<Longrightarrow> j \<noteq> i \<Longrightarrow> VoteReq i j (election_args (cl_node c' i)) \<in> cl_msgs c'"
proof -
  have "rf_log (cl_node c i) \<noteq> []" using cluster_typedD(1) [OF assms(1), of i] by (simp add: node_typed_def node_inv_def)
  then obtain rf' where e: "startElection (cl_node c i) 0 = Inr (election_args rf', rf')" "rf_log rf' = rf_log (cl_node c i)"
    by (rule startElection_args)
  from that [OF elect [OF assms(2) e(1)]] startElection_result [OF e(1)] e(2) assms(2) show thesis
    by (simp add: campaigning_def)
qed

lemma elect_many:
  assumes "cluster_typed c" and "i < cl_size c"
  shows "\<exists>c'. cluster_steps strict timely c c' \<and> cl_size c' = cl_size c \<and> campaigning c' i 1 \<and>
    rf_currentTerm (cl_node c' i) = rf_currentTerm (cl_node c i) + 1 + int m \<and> rf_log (cl_node c' i) = rf_log (cl_node c i) \<and>
    (\<forall>j. j \<noteq> i \<longrightarrow> cl_node c' j = cl_node c j) \<and>
    (\<forall>j < cl_size c. j \<noteq> i \<longrightarrow> VoteReq i j (election_args (cl_node c' i)) \<in> cl_msgs c')"
proof (induction m)
  case 0
  obtain c' where "cluster_step strict timely c c'" "cl_size c' = cl_size c" "campaigning c' i 1"
    "rf_currentTerm (cl_node c' i) = rf_currentTerm (cl_node c i) + 1" "rf_log (cl_node c' i) = rf_log (cl_node c i)"
    "\<And>j. j \<noteq> i \<Longrightarrow> cl_node c' j = cl_node c j"
    "\<And>j. j < cl_size c \<Longrightarrow> j \<noteq> i \<Longrightarrow> VoteReq i j (election_args (cl_node c' i)) \<in> cl_msgs c'"
    using elect_once [OF assms, of strict timely] by metis
  then show ?case by (intro exI [of _ c']) auto
next
  case (Suc m)
  then obtain c1 where c1: "cluster_steps strict timely c c1" "cl_size c1 = cl_size c"
    "rf_currentTerm (cl_node c1 i) = rf_currentTerm (cl_node c i) + 1 + int m" "rf_log (cl_node c1 i) = rf_log (cl_node c i)"
    "\<forall>j. j \<noteq> i \<longrightarrow> cl_node c1 j = cl_node c j" by blast
  have t: "cluster_typed c1" using ty.steps_inv [OF c1(1) assms(1)] .
  obtain c' where "cluster_step strict timely c1 c'" "cl_size c' = cl_size c1" "campaigning c' i 1"
    "rf_currentTerm (cl_node c' i) = rf_currentTerm (cl_node c1 i) + 1" "rf_log (cl_node c' i) = rf_log (cl_node c1 i)"
    "\<And>j. j \<noteq> i \<Longrightarrow> cl_node c' j = cl_node c1 j"
    "\<And>j. j < cl_size c1 \<Longrightarrow> j \<noteq> i \<Longrightarrow> VoteReq i j (election_args (cl_node c' i)) \<in> cl_msgs c'"
    using elect_once [OF t, of i strict timely] c1(2) assms(2) by metis
  with c1 show ?case by (intro exI [of _ c']) (auto intro: rtranclp.rtrancl_into_rtrancl)
qed

lemma one_vote:
  assumes t: "cluster_typed c" and c: "campaigning c i v" and s: "supporter c i j"
  obtains c' where "cluster_steps strict timely c c'" "cl_size c' = cl_size c"
    "cl_node c' i = (if v + 1 = votesRequired (cl_node c i) then init_leader (cl_node c i) else cl_node c i)"
    "cl_votes c' i (rf_currentTerm (cl_node c i)) = v + 1"
    "rf_currentTerm (cl_node c' j) = rf_currentTerm (cl_node c i)" "rf_log (cl_node c' j) = rf_log (cl_node c j)"
    "\<And>k. k \<noteq> i \<Longrightarrow> k \<noteq> j \<Longrightarrow> cl_node c' k = cl_node c k"
    "\<And>k a. k \<noteq> j \<Longrightarrow> VoteReq i k a \<in> cl_msgs c \<Longrightarrow> VoteReq i k a \<in> cl_msgs c'"
proof -
  let ?t = "rf_currentTerm (cl_node c i)" and ?a = "election_args (cl_node c i)"
  have j: "j \<noteq> i" "VoteReq i j ?a \<in> cl_msgs c" "rf_currentTerm (cl_node c j) < ?t" "up_to_date (rf_log (cl_node c i)) (rf_log (cl_node c j))"
    using s by (simp_all add: supporter_def)
  have l: "rf_log (cl_node c k) \<noteq> []" for k using cluster_typedD(1) [OF t, of k] by (simp add: node_typed_def node_inv_def)
  obtain reply rf' where v: "raft_RequestVote (cl_node c j) ?a 0 = Inr (reply, rf')" "vote_outcome (cl_node c j) ?a reply rf'"
    by (rule raft_RequestVote_outcome [OF l [of j], of ?a 0])
  have "int (length (rf_log (cl_node c j))) - 1 \<le> int (length (rf_log (cl_node c i))) - 1 \<longleftrightarrow>
      length (rf_log (cl_node c j)) \<le> length (rf_log (cl_node c i))" by linarith
  then have "grants (cl_node c j) ?a" using j(3,4) by (auto simp: grants_def election_args_def logOk_def up_to_date_def)
  with v(2) j(3) have r: "rvr_VoteGranted reply" "rvr_Term reply = ?t" "rf_currentTerm rf' = ?t" "rf_log rf' = rf_log (cl_node c j)"
    by (simp_all add: vote_outcome_def election_args_def)
  have "\<not> vote_erased c j ?a" using j(3) by (simp add: vote_erased_def election_args_def)
  then have s1: "cluster_step strict timely c ((set_node j rf' c)\<lparr>
      cl_msgs := insert (VoteRep i j (rva_Term ?a) reply) (cl_msgs c - {VoteReq i j ?a}),
      cl_granted := (if rvr_VoteGranted reply then insert (j, rva_Term ?a, i) (cl_granted c) else cl_granted c)\<rparr>)"
    (is "cluster_step _ _ _ ?c1") using vote [OF j(2) v(1)] by blast
  have n1: "cl_node ?c1 i = cl_node c i" "cl_votes ?c1 = cl_votes c" "VoteRep i j ?t reply \<in> cl_msgs ?c1"
    using j(1) by (simp_all add: election_args_def)
  define ld where "ld = (if v + 1 = votesRequired (cl_node c i) then init_leader (cl_node c i) else cl_node c i)"
  have "handleVoteReply (cl_node ?c1 i) ?t (cl_votes ?c1 i ?t) reply = (v + 1, v + 1 = votesRequired (cl_node c i), ld)"
    unfolding n1(1,2) using c r(1,2) by (simp add: handleVoteReply_def campaigning_def ld_def)
  note s2 = count [of i j ?t reply ?c1 "v + 1" _ ld strict timely, OF n1(3) this]
  have "cluster_steps strict timely c ?c1" using s1 by simp
  from that [OF rtranclp.rtrancl_into_rtrancl [of "cluster_step strict timely", OF this s2]] j(1) r(3,4) show thesis
    by (simp add: ld_def)
qed

lemma election_won:
  assumes "cluster_typed c" and "campaigning c i v" and "\<forall>j \<in> set js. supporter c i j" and "distinct js"
    and "v < votesRequired (cl_node c i)" and "votesRequired (cl_node c i) \<le> v + int (length js)"
  shows "\<exists>c'. cluster_steps strict timely c c' \<and> cl_size c' = cl_size c \<and> cl_node c' i = init_leader (cl_node c i) \<and>
    (\<forall>j. j \<noteq> i \<longrightarrow> rf_log (cl_node c' j) = rf_log (cl_node c j) \<and>
       rf_currentTerm (cl_node c' j) \<le> max (rf_currentTerm (cl_node c i)) (rf_currentTerm (cl_node c j)))"
  using assms
proof (induction js arbitrary: c v)
  case (Cons j js)
  have s: "supporter c i j" "j \<notin> set js" using Cons.prems(3,4) by simp_all
  obtain c1 where c1: "cluster_steps strict timely c c1" "cl_size c1 = cl_size c"
    "cl_node c1 i = (if v + 1 = votesRequired (cl_node c i) then init_leader (cl_node c i) else cl_node c i)"
    "cl_votes c1 i (rf_currentTerm (cl_node c i)) = v + 1"
    "rf_currentTerm (cl_node c1 j) = rf_currentTerm (cl_node c i)" "rf_log (cl_node c1 j) = rf_log (cl_node c j)"
    "\<And>k. k \<noteq> i \<Longrightarrow> k \<noteq> j \<Longrightarrow> cl_node c1 k = cl_node c k"
    "\<And>k a. k \<noteq> j \<Longrightarrow> VoteReq i k a \<in> cl_msgs c \<Longrightarrow> VoteReq i k a \<in> cl_msgs c1"
    using one_vote [OF Cons.prems(1,2) s(1), of strict timely] by metis
  have keep: "rf_log (cl_node c1 k) = rf_log (cl_node c k) \<and>
      rf_currentTerm (cl_node c1 k) \<le> max (rf_currentTerm (cl_node c i)) (rf_currentTerm (cl_node c k))" if "k \<noteq> i" for k
    using c1(5-7) that by (cases "k = j") auto
  show ?case
  proof (cases "v + 1 = votesRequired (cl_node c i)")
    case True
    with c1(1-3) keep show ?thesis by (intro exI [of _ c1]) auto
  next
    case False
    with c1(3) have n: "cl_node c1 i = cl_node c i" by simp
    have "supporter c1 i k" if "k \<in> set js" for k
    proof -
      have k: "supporter c i k" "k \<noteq> j" "k \<noteq> i" using Cons.prems(3) s(2) that by (auto simp: supporter_def)
      with c1(7,8) [of k] show ?thesis by (simp add: supporter_def n)
    qed
    moreover have "campaigning c1 i (v + 1)" using Cons.prems(2) c1(2,4) n by (simp add: campaigning_def)
    ultimately obtain c' where c': "cluster_steps strict timely c1 c'" "cl_size c' = cl_size c1" "cl_node c' i = init_leader (cl_node c1 i)"
      "\<forall>j. j \<noteq> i \<longrightarrow> rf_log (cl_node c' j) = rf_log (cl_node c1 j) \<and>
       rf_currentTerm (cl_node c' j) \<le> max (rf_currentTerm (cl_node c1 i)) (rf_currentTerm (cl_node c1 j))"
      using Cons.IH [OF ty.steps_inv [OF c1(1) Cons.prems(1)], of "v + 1"] Cons.prems(4-6) False n by auto
    show ?thesis
    proof (intro exI conjI allI impI)
      show "cluster_steps strict timely c c'" using c1(1) c'(1) by (rule rtranclp_trans)
      show "cl_size c' = cl_size c" "cl_node c' i = init_leader (cl_node c i)" using c'(2,3) c1(2) n by simp_all
      fix k assume k: "k \<noteq> i"
      note c'k = c'(4) [rule_format, OF k, unfolded n]
      show "rf_log (cl_node c' k) = rf_log (cl_node c k)" using c'k keep [OF k] by simp
      show "rf_currentTerm (cl_node c' k) \<le> max (rf_currentTerm (cl_node c i)) (rf_currentTerm (cl_node c k))"
        using c'k keep [OF k] by linarith
    qed
  qed
qed simp

text \<open>Some node has a log that is up to date for all others.\<close>

lemma best_log:
  fixes log :: "nat \<Rightarrow> log_entry list"
  assumes "0 < n"
  shows "\<exists>i < n. \<forall>j < n. up_to_date (log i) (log j)"
proof -
  let ?t = "\<lambda>j. le_Term (last (log j))"
  define T where "T = Max (?t ` {..<n})"
  have fin: "finite (?t ` {..<n})" "?t ` {..<n} \<noteq> {}" using assms by auto
  have T: "T \<in> ?t ` {..<n}" "\<And>j. j < n \<Longrightarrow> ?t j \<le> T" unfolding T_def using fin by (auto intro: Max_in)
  define S where "S = {j. j < n \<and> ?t j = T}"
  have S: "finite S" "S \<noteq> {}" using T(1) by (auto simp: S_def)
  define m where "m = Max ((\<lambda>j. length (log j)) ` S)"
  have "m \<in> (\<lambda>j. length (log j)) ` S" unfolding m_def using S by (intro Max_in) auto
  then obtain i where i: "i \<in> S" "length (log i) = m" by auto
  have "length (log j) \<le> m" if "j \<in> S" for j unfolding m_def using S(1) that by simp
  with i T(2) show ?thesis
    by (intro exI [of _ i]) (auto simp: S_def up_to_date_def order_less_le)
qed

lemma leader_electable:
  assumes t: "cluster_typed c" and n: "2 \<le> cl_size c"
  shows "\<exists>c' i rf. cluster_steps strict timely c c' \<and> cl_size c' = cl_size c \<and> i < cl_size c \<and>
    cl_node c' i = init_leader rf \<and> (\<forall>j < cl_size c. rf_log (cl_node c' j) = rf_log (cl_node c j) \<and>
       rf_currentTerm (cl_node c' j) \<le> rf_currentTerm (cl_node c' i))"
proof -
  have "0 < cl_size c" using n by simp
  from best_log [OF this, of "\<lambda>j. rf_log (cl_node c j)"] obtain i where
    i: "i < cl_size c" "\<And>j. j < cl_size c \<Longrightarrow> up_to_date (rf_log (cl_node c i)) (rf_log (cl_node c j))" by blast
  define M where "M = Max ((\<lambda>j. rf_currentTerm (cl_node c j)) ` {..<cl_size c})"
  have M: "rf_currentTerm (cl_node c j) \<le> M" if "j < cl_size c" for j unfolding M_def using that by simp
  obtain c1 where c1: "cluster_steps strict timely c c1" "cl_size c1 = cl_size c" "campaigning c1 i 1"
    "rf_currentTerm (cl_node c1 i) = rf_currentTerm (cl_node c i) + 1 + int (nat (M - rf_currentTerm (cl_node c i)))"
    "rf_log (cl_node c1 i) = rf_log (cl_node c i)" "\<And>j. j \<noteq> i \<Longrightarrow> cl_node c1 j = cl_node c j"
    "\<And>j. j < cl_size c \<Longrightarrow> j \<noteq> i \<Longrightarrow> VoteReq i j (election_args (cl_node c1 i)) \<in> cl_msgs c1"
    using elect_many [OF t i(1), of strict timely "nat (M - rf_currentTerm (cl_node c i))"] by blast
  have t1: "cluster_typed c1" using ty.steps_inv [OF c1(1) t] .
  have top: "rf_currentTerm (cl_node c j) < rf_currentTerm (cl_node c1 i)" if "j < cl_size c" for j
    using c1(4) M [OF that] M [OF i(1)] by simp
  let ?js = "filter (\<lambda>j. j \<noteq> i) [0..<cl_size c]"
  have "supporter c1 i j" if "j \<in> set ?js" for j using that c1(5) c1(6,7) [of j] i(2) [of j] top [of j] by (simp add: supporter_def)
  then have sup: "\<forall>j \<in> set ?js. supporter c1 i j" by blast
  have req: "votesRequired (cl_node c1 i) = int (cl_size c) div 2 + 1"
    using cluster_typedD(1) [OF t1, of i] c1(2) by (simp add: votesRequired_def node_typed_def)
  have len: "length ?js = cl_size c - 1"
  proof -
    have "set ?js = {..<cl_size c} - {i}" by auto
    then have "card (set ?js) = cl_size c - 1" using i(1) by simp
    then show ?thesis by (metis distinct_card distinct_filter distinct_upt)
  qed
  have "1 < votesRequired (cl_node c1 i)" "votesRequired (cl_node c1 i) \<le> 1 + int (length ?js)"
    unfolding req len using n by linarith+
  from election_won [OF t1 c1(3) sup _ this, of strict timely] obtain c' where
    c': "cluster_steps strict timely c1 c'" "cl_size c' = cl_size c1" "cl_node c' i = init_leader (cl_node c1 i)"
    "\<And>j. j \<noteq> i \<Longrightarrow> rf_log (cl_node c' j) = rf_log (cl_node c1 j) \<and>
       rf_currentTerm (cl_node c' j) \<le> max (rf_currentTerm (cl_node c1 i)) (rf_currentTerm (cl_node c1 j))"
    by auto
  have "rf_log (cl_node c' j) = rf_log (cl_node c j) \<and> rf_currentTerm (cl_node c' j) \<le> rf_currentTerm (cl_node c' i)"
    if "j < cl_size c" for j
    using c'(3) c'(4) [of j] c1(5) c1(6) [of j] top [OF that] by (cases "j = i") (auto simp: init_leader_eq)
  moreover have "cluster_steps strict timely c c'" using c1(1) c'(1) by (rule rtranclp_trans)
  ultimately show ?thesis using c'(2,3) c1(2) i(1) by metis
qed

section \<open>Replication\<close>

text \<open>What the leader keeps during rounds with the followers \<open>Q\<close>.\<close>

definition kept :: "int set \<Rightarrow> raft \<Rightarrow> raft \<Rightarrow> bool" where
  "kept Q ld ld' \<longleftrightarrow> rf_state ld' = rf_state ld \<and> rf_currentTerm ld' = rf_currentTerm ld \<and> rf_log ld' = rf_log ld \<and>
     rf_commitIndex ld \<le> rf_commitIndex ld' \<and>
     (\<forall>q. q \<notin> Q \<longrightarrow> rf_nextIndex ld' q = rf_nextIndex ld q \<and> rf_matchIndex ld' q = rf_matchIndex ld q)"

lemma kept_refl: "kept Q ld ld"
  by (simp add: kept_def)

lemma kept_trans: "kept Q ld ld1 \<Longrightarrow> kept Q' ld1 ld' \<Longrightarrow> kept (Q \<union> Q') ld ld'"
  by (auto simp: kept_def)

lemma ack_kept:
  assumes "handleAppendReply ld p args reply = Inr ld'" and "aer_Term reply \<le> rf_currentTerm ld"
  shows "kept {p} ld ld'"
proof (cases "aer_Success reply")
  case True
  let ?ld = "advance_indices ld p (aea_PrevLogIndex args + int (length (aea_Entries args)))"
  have k: "kept {p} ld ?ld" by (auto simp: kept_def advance_indices_def)
  from True assms have "commit_scan ?ld (int (length (rf_log ?ld)) - 1) = Inr ld'" by (simp add: handleAppendReply_def Let_def)
  from commit_scan_result [OF this] k show ?thesis by (auto simp: kept_def)
next
  case False
  with assms show ?thesis by (auto simp: handleAppendReply_def kept_def)
qed

lemma heartbeat_args_term: "heartbeat_args rf t p = Inr (Some args) \<Longrightarrow> aea_Term args = t \<and> 0 \<le> aea_PrevLogIndex args"
  by (auto simp: heartbeat_args_def Let_def bindE_Inr_iff split: if_splits option.splits)

text \<open>A round is a sequence of steps of the cluster.\<close>

lemma round_steps:
  assumes t: "cluster_typed c" and ij: "i < cl_size c" "j < cl_size c" "i \<noteq> j"
    and r: "sync_round (int j) now (cl_node c i, cl_node c j) = Inr (ld, fo)"
    and le: "rf_currentTerm (cl_node c j) \<le> rf_currentTerm (cl_node c i)"
  shows "\<exists>c'. cluster_steps strict timely c c' \<and> cl_size c' = cl_size c \<and> cl_node c' = (cl_node c)(i := ld, j := fo) \<and>
    kept {int j} (cl_node c i) ld \<and> rf_currentTerm fo \<le> rf_currentTerm ld"
proof (cases "rf_state (cl_node c i) = Leader")
  case False
  then have "ld = cl_node c i" "fo = cl_node c j" using r by (simp_all add: sync_round_def sendHeartBeats_term_def)
  then show ?thesis using le by (intro exI [of _ c]) (simp add: kept_refl)
next
  case True
  let ?t = "rf_currentTerm (cl_node c i)"
  have b: "sendHeartBeats_term (cl_node c i) = Some ?t" using True by (simp add: sendHeartBeats_term_def)
  obtain a where "heartbeat_args (cl_node c i) ?t (int j) = Inr a" using r b by (auto simp: sync_round_def bindE_Inr_iff)
  then obtain args where a: "heartbeat_args (cl_node c i) ?t (int j) = Inr (Some args)"
    using True by (auto simp: heartbeat_args_def Let_def bindE_Inr_iff split: if_splits option.splits)
  with r b obtain reply where h: "raft_AppendEntries (cl_node c j) args now = Inr (reply, fo)"
    "handleAppendReply (cl_node c i) (int j) args reply = Inr ld"
    by (auto simp: sync_round_def bindE_Inr_iff)
  note at = heartbeat_args_term [OF a]
  obtain reply' fo' where o: "raft_AppendEntries (cl_node c j) args now = Inr (reply', fo')" "append_outcome (cl_node c j) args reply' fo'"
    using raft_AppendEntries_outcome [of args "cl_node c j" now] at by blast
  with h(1) at le have tm: "aer_Term reply = ?t" "rf_currentTerm fo = ?t" by (simp_all add: append_outcome_def)
  have k: "kept {int j} (cl_node c i) ld" by (rule ack_kept [OF h(2)]) (simp add: tm)
  have "int j \<in> set (heartbeat_peers (cl_node c i))"
    using cluster_typedD(1,2) [OF t, of i] ij by (auto simp: heartbeat_peers_def node_typed_def)
  define c1 where "c1 = c\<lparr>cl_msgs := cl_msgs c \<union> {Heartbeat i j ?t | j. int j \<in> set (heartbeat_peers (cl_node c i))}\<rparr>"
  have s1: "cluster_step strict timely c c1" unfolding c1_def by (rule beat [OF ij(1) b])
  have m1: "Heartbeat i j ?t \<in> cl_msgs c1" "cl_node c1 = cl_node c" using \<open>int j \<in> _\<close> by (auto simp: c1_def)
  define c2 where "c2 = c1\<lparr>cl_msgs := insert (AppReq i j args) (cl_msgs c1)\<rparr>"
  have s2: "cluster_step strict timely c1 c2" unfolding c2_def by (rule send [OF m1(1)]) (simp_all add: m1(2) a)
  have m2: "AppReq i j args \<in> cl_msgs c2" "cl_node c2 = cl_node c" by (simp_all add: c2_def m1(2))
  define c3 where "c3 = (set_node j fo c2)\<lparr>cl_msgs := insert (AppRep i j args reply) (cl_msgs c2)\<rparr>"
  have s3: "cluster_step strict timely c2 c3" unfolding c3_def by (rule append [OF m2(1), where now = now]) (simp add: m2(2) h(1))
  have m3: "AppRep i j args reply \<in> cl_msgs c3" "cl_node c3 = (cl_node c)(j := fo)" by (simp_all add: c3_def m2(2))
  define c4 where "c4 = set_node i ld c3"
  have s4: "cluster_step strict timely c3 c4" unfolding c4_def
    by (rule ack [OF m3(1)]) (simp_all add: m3(2) h(2) at ij(3))
  have "cluster_steps strict timely c c4" using s1 s2 s3 s4 by (meson converse_rtranclp_into_rtranclp r_into_rtranclp)
  moreover have "cl_size c4 = cl_size c" "cl_node c4 = (cl_node c)(i := ld, j := fo)"
    using ij(3) by (auto simp: c4_def c3_def c2_def c1_def fun_eq_iff)
  ultimately show ?thesis using k tm by (metis kept_def order_refl)
qed

lemma rounds_steps:
  assumes "cluster_typed c" and ij: "i < cl_size c" "j < cl_size c" "i \<noteq> j"
    and "sync_rounds (int j) ts (cl_node c i, cl_node c j) = Inr (ld, fo)"
    and "rf_currentTerm (cl_node c j) \<le> rf_currentTerm (cl_node c i)"
  shows "\<exists>c'. cluster_steps strict timely c c' \<and> cl_size c' = cl_size c \<and> cl_node c' = (cl_node c)(i := ld, j := fo) \<and>
    kept {int j} (cl_node c i) ld \<and> rf_currentTerm fo \<le> rf_currentTerm ld"
  using assms
proof (induction ts arbitrary: c)
  case Nil
  then show ?case by (intro exI [of _ c]) (auto simp: kept_refl)
next
  case (Cons now ts)
  then obtain ld1 fo1 where r: "sync_round (int j) now (cl_node c i, cl_node c j) = Inr (ld1, fo1)"
    "sync_rounds (int j) ts (ld1, fo1) = Inr (ld, fo)" by (auto simp: bindE_Inr_iff)
  from round_steps [OF Cons.prems(1-4) r(1) Cons.prems(6), of strict timely] obtain c1 where
    c1: "cluster_steps strict timely c c1" "cl_size c1 = cl_size c" "cl_node c1 = (cl_node c)(i := ld1, j := fo1)"
      "kept {int j} (cl_node c i) ld1" "rf_currentTerm fo1 \<le> rf_currentTerm ld1" by blast
  have n: "cl_node c1 i = ld1" "cl_node c1 j = fo1" using c1(3) Cons.prems(4) by simp_all
  note IH = Cons.IH [OF ty.steps_inv [OF c1(1) Cons.prems(1)], unfolded n c1(2), OF Cons.prems(2-4) r(2) c1(5)]
  then obtain c' where
    c': "cluster_steps strict timely c1 c'" "cl_size c' = cl_size c" "cl_node c' = (cl_node c1)(i := ld, j := fo)"
      "kept {int j} ld1 ld" "rf_currentTerm fo \<le> rf_currentTerm ld" by blast
  have "kept {int j} (cl_node c i) ld" using kept_trans [OF c1(4) c'(4)] by simp
  moreover have "cl_node c' = (cl_node c)(i := ld, j := fo)" using c'(3) c1(3) by (auto simp: fun_eq_iff)
  ultimately show ?case using rtranclp_trans [OF c1(1) c'(1)] c'(2,5) by blast
qed

text \<open>The leader brings the followers up to date, one after the other.\<close>

lemma paired_kept:
  assumes "paired p L k m (ld, fo)" and "kept Q ld ld'" and "p \<notin> Q"
  shows "paired p L k m (ld', fo)"
  using assms unfolding paired_def kept_def by (auto simp: mget_def)

lemma insync_kept: "insync p L k (ld, fo) \<Longrightarrow> kept Q ld ld' \<Longrightarrow> p \<notin> Q \<Longrightarrow> insync p L k (ld', fo)"
  unfolding insync_def using paired_kept by auto

definition behind :: "nat \<Rightarrow> log_entry list \<Rightarrow> nat \<Rightarrow> raft \<times> raft \<Rightarrow> bool" where
  "behind j L k s \<longleftrightarrow> paired (int j) L k 0 s \<and> log_matching (rf_log (snd s)) L \<and> term_runs (rf_log (snd s)) L \<and>
     agree_at (rf_log (snd s)) L 1"

lemma sync_all:
  assumes "cluster_typed c" and "i < cl_size c" and "distinct js" and "\<forall>j \<in> set js. j < cl_size c \<and> j \<noteq> i"
    and "\<forall>j \<in> set js. behind j L k (cl_node c i, cl_node c j)"
  shows "\<exists>c'. cluster_steps strict timely c c' \<and> cl_size c' = cl_size c \<and> kept (int ` set js) (cl_node c i) (cl_node c' i) \<and>
    (\<forall>j. j \<noteq> i \<longrightarrow> j \<notin> set js \<longrightarrow> cl_node c' j = cl_node c j) \<and>
    (\<forall>j \<in> set js. insync (int j) L (length L) (cl_node c' i, cl_node c' j))"
  using assms
proof (induction js arbitrary: c)
  case Nil
  then show ?case by (intro exI [of _ c]) (auto simp: kept_refl)
next
  case (Cons j js)
  have j: "j < cl_size c" "i \<noteq> j" "j \<notin> set js" "behind j L k (cl_node c i, cl_node c j)" using Cons.prems(3-5) by auto
  then have b: "paired (int j) L k 0 (cl_node c i, cl_node c j)" "log_matching (rf_log (cl_node c j)) L"
    "term_runs (rf_log (cl_node c j)) L" "agree_at (rf_log (cl_node c j)) L 1" by (simp_all add: behind_def)
  from sync_converges [OF b, of "replicate (k + length L) 0"] obtain ld fo where
    s: "sync_rounds (int j) (replicate (k + length L) 0) (cl_node c i, cl_node c j) = Inr (ld, fo)" "insync (int j) L (length L) (ld, fo)"
    by auto
  have "rf_currentTerm (cl_node c j) \<le> rf_currentTerm (cl_node c i)" using b(1) by (simp add: paired_def)
  from rounds_steps [OF Cons.prems(1,2) j(1,2) s(1) this, of strict timely] obtain c1 where
    c1: "cluster_steps strict timely c c1" "cl_size c1 = cl_size c" "cl_node c1 = (cl_node c)(i := ld, j := fo)"
      "kept {int j} (cl_node c i) ld" by blast
  have n: "cl_node c1 i = ld" "cl_node c1 j = fo" "\<And>k. k \<noteq> i \<Longrightarrow> k \<noteq> j \<Longrightarrow> cl_node c1 k = cl_node c k" using c1(3) j(2) by simp_all
  have "behind m L k (cl_node c1 i, cl_node c1 m)" if "m \<in> set js" for m
  proof -
    have m: "m \<noteq> i" "m \<noteq> j" "behind m L k (cl_node c i, cl_node c m)" using Cons.prems(4,5) j(3) that by auto
    with paired_kept [OF _ c1(4), of "int m" L k 0 "cl_node c m"] show ?thesis by (simp add: behind_def n)
  qed
  then obtain c' where c': "cluster_steps strict timely c1 c'" "cl_size c' = cl_size c1" "kept (int ` set js) (cl_node c1 i) (cl_node c' i)"
    "\<And>m. m \<noteq> i \<Longrightarrow> m \<notin> set js \<Longrightarrow> cl_node c' m = cl_node c1 m"
    "\<forall>j \<in> set js. insync (int j) L (length L) (cl_node c' i, cl_node c' j)"
    using Cons.IH [OF ty.steps_inv [OF c1(1) Cons.prems(1)]] Cons.prems(2-4) c1(2) by auto
  have "int j \<notin> int ` set js" using j(3) by auto
  then have "insync (int j) L (length L) (cl_node c' i, cl_node c' j)"
    using insync_kept [OF s(2) c'(3) [unfolded n]] c'(4) [of j] j(2,3) n(2) by simp
  moreover have "kept (int ` set (j # js)) (cl_node c i) (cl_node c' i)"
    using kept_trans [OF c1(4) c'(3) [unfolded n]] by simp
  moreover have "cl_node c' m = cl_node c m" if "m \<noteq> i" "m \<notin> set (j # js)" for m using that c'(4) [of m] n(3) [of m] by simp
  ultimately show ?case using rtranclp_trans [OF c1(1) c'(1)] c'(2,5) c1(2) by (intro exI [of _ c']) auto
qed

text \<open>A round with a follower that is up to date commits what all followers have.\<close>

lemma all_match_count:
  assumes "rf_me ld = int i" and "i < length (rf_peers ld)"
    and "\<And>q. q < length (rf_peers ld) \<Longrightarrow> q \<noteq> i \<Longrightarrow> N \<le> mget (rf_matchIndex ld) (int q)"
  shows "match_count ld N = length (rf_peers ld)"
proof -
  let ?n = "length (rf_peers ld)"
  have "filter (\<lambda>q. int q \<noteq> rf_me ld \<and> mget (rf_matchIndex ld) (int q) \<ge> N) [0..<?n] = filter (\<lambda>q. q \<noteq> i) [0..<?n]"
    by (rule filter_cong) (use assms in auto)
  moreover have "length (filter (\<lambda>q. q \<noteq> i) [0..<?n]) = ?n - 1"
  proof -
    have "set (filter (\<lambda>q. q \<noteq> i) [0..<?n]) = {..<?n} - {i}" by auto
    then have "card (set (filter (\<lambda>q. q \<noteq> i) [0..<?n])) = ?n - 1" using assms(2) by simp
    then show ?thesis by (metis distinct_card distinct_filter distinct_upt)
  qed
  ultimately show ?thesis using assms(2) by (simp add: match_count_def)
qed

lemma sync_commits:
  assumes s: "insync p L (length L) (ld, fo)" and t: "le_Term (last L) = rf_currentTerm ld"
    and m: "match_count ld (int (length L) - 1) = length (rf_peers ld)" "rf_peers ld \<noteq> []"
  shows "\<exists>ld' fo'. sync_round p now (ld, fo) = Inr (ld', fo') \<and> int (length L) - 1 \<le> rf_commitIndex ld'"
proof -
  let ?n = "length L" and ?N = "int (length L) - 1"
  have P: "paired p L ?n (?n - 1) (ld, fo)" using s by (simp add: insync_def)
  then have ld: "rf_log ld = L" "0 \<le> rf_commitIndex ld" "1 \<le> ?n" "mget (rf_matchIndex ld) p = int (?n - 1)" by (simp_all add: paired_def)
  obtain reply fo' where r: "raft_AppendEntries fo (sync_args ld ?n) now = Inr (reply, fo')" "aer_Success reply"
    "aer_Term reply = rf_currentTerm ld"
    using insync_agree [OF s] by (auto intro: sync_append [OF P, of now])
  have adv: "advance_indices ld p (aea_PrevLogIndex (sync_args ld ?n) + int (length (aea_Entries (sync_args ld ?n)))) = ld"
    using ld(1,4) by (simp add: advance_indices_def batch_def)
  have "log_get L ?N = Some (last L)" using ld(3) by (cases L rule: rev_cases) (simp_all add: log_get_def nth_append)
  moreover have "length (rf_peers ld) div 2 < length (rf_peers ld)" using m(2) by simp
  ultimately have c: "committable ld ?N" using m t ld(1) by (simp add: committable_def)
  have "-1 \<le> rf_commitIndex ld" "?N < int (length (rf_log ld))" using ld by simp_all
  from commit_scan_spec [OF this] c have "\<exists>ld'. commit_scan ld ?N = Inr ld' \<and> ?N \<le> rf_commitIndex ld'"
  proof (elim disjE exE conjE)
    fix M assume M: "rf_commitIndex ld < M" "M \<le> ?N" "\<forall>K. M < K \<longrightarrow> K \<le> ?N \<longrightarrow> \<not> committable ld K"
      "commit_scan ld ?N = Inr (ld\<lparr>rf_commitIndex := M, rf_commitCh := True\<rparr>)"
    from M(2,3) c have "M = ?N" by (metis linorder_not_le order_antisym_conv order_refl)
    with M(4) show ?thesis by simp
  next
    assume "\<forall>K. rf_commitIndex ld < K \<longrightarrow> K \<le> ?N \<longrightarrow> \<not> committable ld K" "commit_scan ld ?N = Inr ld"
    with c show ?thesis by (intro exI [of _ ld]) (metis linorder_not_le order_refl)
  qed
  then obtain ld' where "handleAppendReply ld p (sync_args ld ?n) reply = Inr ld'" "?N \<le> rf_commitIndex ld'"
    using r(2,3) adv ld(1) by (auto simp: handleAppendReply_def Let_def simp del: sync_args_fields)
  then show ?thesis by (simp add: sync_round_eq [OF P] r(1))
qed

section \<open>Properties\<close>

lemma traced_runs:
  assumes "traced h F" and "traced h L"
  shows "log_matching F L" and "term_runs F L"
proof -
  show "log_matching F L" using traced_same [OF assms] by (auto simp: log_matching_def same_upto_def)
  show "term_runs F L"
    unfolding term_runs_def
  proof (intro allI impI)
    fix i j assume ij: "j \<le> i" "i < length L" "j < length F" "le_Term (F ! j) = le_Term (L ! i)"
    have "F ! j = h (le_Term (L ! i)) ! j" using tracedD [OF assms(1) ij(3)] ij(4) same_upto_nth by (metis order_refl)
    moreover have "L ! j = h (le_Term (L ! i)) ! j" using tracedD [OF assms(2) ij(2)] ij(1) same_upto_nth by metis
    ultimately show "le_Term (L ! j) = le_Term (L ! i)" using ij(4) by simp
  qed
qed

text \<open>A new leader accepts a command, and the others are behind.\<close>

lemma new_leader_behind:
  fixes bs :: bytes
  assumes S: "safety_inv c" and i: "i < cl_size c" and n: "cl_node c i = init_leader rf"
    and t: "\<And>j. j < cl_size c \<Longrightarrow> rf_currentTerm (cl_node c j) \<le> rf_currentTerm (cl_node c i)"
  defines "L \<equiv> rf_log (cl_node c i) @ [\<lparr>le_Index = int (length (rf_log (cl_node c i))), le_Term = rf_currentTerm (cl_node c i), le_Command = bs\<rparr>]"
  shows "\<exists>c'. cluster_step True True c c' \<and> cl_size c' = cl_size c \<and> rf_log (cl_node c' i) = L \<and>
    le_Term (last L) = rf_currentTerm (cl_node c' i) \<and>
    (\<forall>j < cl_size c. j \<noteq> i \<longrightarrow> behind j L (length (rf_log (cl_node c i))) (cl_node c' i, cl_node c' j))"
proof -
  let ?ld = "(cl_node c i)\<lparr>rf_log := L, rf_triggerCh := True\<rparr>" and ?k = "length (rf_log (cl_node c i))"
  have ldr: "rf_state (cl_node c i) = Leader" by (simp add: n init_leader_eq)
  then have "raft_Start (cl_node c i) (Some bs) = ((int ?k, rf_currentTerm (cl_node c i), True), ?ld)"
    by (simp add: raft_Start_def Let_def L_def)
  from client [OF this, of True True] have s: "cluster_step True True c (set_node i ?ld c)" .
  have S': "safety_inv (set_node i ?ld c)" by (rule sm.step_inv [OF S s])
  obtain h M A where "safe (set_node i ?ld c) h M A" using S' by (rule safety_invD)
  then have "tracked (set_node i ?ld c) h M" by (rule safeD(1))
  then have tr: "traced h (rf_log (cl_node (set_node i ?ld c) j))" for j by (rule trackedD(1))
  have ty': "cluster_typed (set_node i ?ld c)" and ty: "cluster_typed c" using S' S by (blast intro: safety_invD)+
  have "behind j L ?k (?ld, cl_node c j)" if j: "j < cl_size c" "j \<noteq> i" for j
  proof -
    have F: "traced h (rf_log (cl_node c j))" "traced h L" using tr [of j] tr [of i] j(2) by simp_all
    have "same_upto 0 (rf_log (cl_node c j)) L" using first_entry_same [OF ty' ty', of j i] j(2) by simp
    then have "agree_at (rf_log (cl_node c j)) L 1" using same_upto_nth [of 0 "rf_log (cl_node c j)" L 0] by (auto simp: agree_at_def same_upto_def Suc_le_eq)
    moreover have "length (rf_peers rf) = cl_size c" "rf_log (cl_node c i) \<noteq> []" "0 \<le> rf_commitIndex (cl_node c i)"
      using cluster_typedD(1) [OF ty, of i] n by (simp_all add: node_typed_def node_inv_def init_leader_eq)
    then have "paired (int j) L ?k 0 (?ld, cl_node c j)"
      using t [OF j(1)] j(1) ldr by (auto simp: paired_def n init_leader_eq mget_def L_def Suc_le_eq)
    ultimately show ?thesis using traced_runs [OF F] by (simp add: behind_def)
  qed
  with s show ?thesis by (intro exI [of _ "set_node i ?ld c"]) (auto simp: L_def)
qed

text \<open>The signal of the applier is not lost: as long as something is to be applied, it is there.\<close>

definition signalled :: "raft \<Rightarrow> bool" where
  "signalled rf \<longleftrightarrow> rf_commitIndex rf \<le> rf_lastApplied rf \<or> rf_commitCh rf"

lemma signalled_AppendEntries:
  assumes "raft_AppendEntries rf args now = Inr (reply, rf')" and "signalled rf"
  shows "signalled rf'"
  using assms
  by (auto simp: raft_AppendEntries_def Let_def signalled_def update_commit_def bindE_Inr_iff split: if_splits option.splits)

lemma commit_scan_signal: "commit_scan rf N = Inr rf' \<Longrightarrow> rf' = rf \<or> rf_commitCh rf'"
  by (induction rf N rule: commit_scan.induct) (subst (asm) (2) commit_scan.simps, auto split: if_splits option.splits)

lemma signalled_AppendReply:
  assumes "handleAppendReply rf server args reply = Inr rf'" and "signalled rf"
  shows "signalled rf'"
proof -
  let ?rf1 = "advance_indices rf server (aea_PrevLogIndex args + int (length (aea_Entries args)))"
  have s: "signalled ?rf1" using assms(2) by (simp add: signalled_def advance_indices_def)
  consider "rf_commitIndex rf' = rf_commitIndex rf" "rf_lastApplied rf' = rf_lastApplied rf" "rf_commitCh rf' = rf_commitCh rf"
    | "commit_scan ?rf1 (int (length (rf_log ?rf1)) - 1) = Inr rf'"
    using assms(1) by (auto simp: handleAppendReply_def Let_def split: if_splits)
  then show ?thesis
  proof cases
    case 2
    from commit_scan_signal [OF this] s show ?thesis by (auto simp: signalled_def)
  qed (use assms(2) in \<open>simp add: signalled_def\<close>)
qed

lemma signalled_step:
  assumes "cluster_step strict timely c c'" and "\<forall>i. signalled (cl_node c i)"
  shows "\<forall>i. signalled (cl_node c' i)"
  using assms(1)
proof cases
  case (elect i now args rf')
  then show ?thesis using assms(2) by (auto simp: startElection_def Let_def signalled_def split: option.splits)
next
  case (vote i j args now reply rf')
  then show ?thesis using assms(2)
    by (auto simp: raft_RequestVote_def Let_def signalled_def split: if_splits option.splits)
next
  case (count i j t reply n won rf')
  then show ?thesis using assms(2) by (auto simp: handleVoteReply_def Let_def signalled_def init_leader_eq split: if_splits)
next
  case (append i j args now reply rf')
  then show ?thesis using assms(2) signalled_AppendEntries [OF append(3)] by auto
next
  case (ack i j args reply rf')
  then show ?thesis using assms(2) signalled_AppendReply [OF ack(3)] by auto
next
  case (client i cmd r rf')
  then show ?thesis using assms(2) by (auto simp: raft_Start_def Let_def signalled_def split: if_splits option.splits)
next
  case (applier i es rf')
  then show ?thesis using assms(2)
    by (auto dest!: applier_roundD(2) simp: applier_step_def Let_def signalled_def split: if_splits option.splits)
next
  case (replicator i)
  then show ?thesis using assms(2) by (auto simp: replicator_step_def signalled_def)
qed (use assms(2) in auto)

interpretation sg: invariant_system cluster_new "cluster_step strict timely" "\<lambda>c. \<forall>i. signalled (cl_node c i)" for strict timely
  by unfold_locales (use signalled_step in \<open>auto simp: signalled_def new_node_fields\<close>)

lemma commits_command:
  assumes S: "safety_inv c" and n: "2 \<le> cl_size c"
  shows "\<exists>c' i. cluster_steps True True c c' \<and> i < cl_size c \<and>
    (\<exists>t. rf_log (cl_node c' i) = rf_log (cl_node c i) @ [\<lparr>le_Index = int (length (rf_log (cl_node c i))), le_Term = t, le_Command = bs\<rparr>]) \<and>
    rf_commitIndex (cl_node c' i) = int (length (rf_log (cl_node c i))) \<and> rf_state (cl_node c' i) = Leader"
proof -
  have t: "cluster_typed c" using S by (rule safety_invD)
  obtain c1 i rf where c1: "cluster_steps True True c c1" "cl_size c1 = cl_size c" "i < cl_size c" "cl_node c1 i = init_leader rf"
    "\<And>j. j < cl_size c \<Longrightarrow> rf_log (cl_node c1 j) = rf_log (cl_node c j) \<and> rf_currentTerm (cl_node c1 j) \<le> rf_currentTerm (cl_node c1 i)"
    using leader_electable [OF t n, of True True] by blast
  have S1: "safety_inv c1" by (rule sm.steps_inv [OF c1(1) S])
  have i: "i < cl_size c1" using c1(2,3) by simp
  let ?k = "length (rf_log (cl_node c i))"
  define L where "L = rf_log (cl_node c i) @ [\<lparr>le_Index = int ?k, le_Term = rf_currentTerm (cl_node c1 i), le_Command = bs\<rparr>]"
  have l1: "rf_log (cl_node c1 i) = rf_log (cl_node c i)" using c1(3,5) by blast
  from new_leader_behind [OF S1 i c1(4), of bs, unfolded l1, folded L_def] c1(2,5) obtain c2 where
    c2: "cluster_step True True c1 c2" "cl_size c2 = cl_size c" "rf_log (cl_node c2 i) = L" "le_Term (last L) = rf_currentTerm (cl_node c2 i)"
    "\<forall>j < cl_size c. j \<noteq> i \<longrightarrow> behind j L ?k (cl_node c2 i, cl_node c2 j)" by auto
  have S2: "safety_inv c2" by (rule sm.step_inv [OF S1 c2(1)])
  then have t2: "cluster_typed c2" by (rule safety_invD)
  let ?js = "filter (\<lambda>j. j \<noteq> i) [0..<cl_size c]"
  have "i < cl_size c2" "distinct ?js" "\<forall>j \<in> set ?js. j < cl_size c2 \<and> j \<noteq> i" "\<forall>j \<in> set ?js. behind j L ?k (cl_node c2 i, cl_node c2 j)"
    using c1(3) c2(2,5) by auto
  from sync_all [OF t2 this, of True True] obtain c3 where
    c3: "cluster_steps True True c2 c3" "cl_size c3 = cl_size c" "kept (int ` set ?js) (cl_node c2 i) (cl_node c3 i)"
    "\<forall>j \<in> set ?js. insync (int j) L (length L) (cl_node c3 i, cl_node c3 j)" using c2(2) by auto
  have S3: "safety_inv c3" by (rule sm.steps_inv [OF c3(1) S2])
  then have t3: "cluster_typed c3" by (rule safety_invD)
  define j where "j = (if i = 0 then 1 else 0 :: nat)"
  have j: "j < cl_size c3" "i \<noteq> j" "insync (int j) L (length L) (cl_node c3 i, cl_node c3 j)" using c3(2,4) n by (auto simp: j_def)
  have peers: "rf_me (cl_node c3 i) = int i" "length (rf_peers (cl_node c3 i)) = cl_size c"
    using cluster_typedD(1,2) [OF t3, of i] c3(2) by (simp_all add: node_typed_def)
  have "match_count (cl_node c3 i) (int (length L) - 1) = length (rf_peers (cl_node c3 i))"
  proof (rule all_match_count [OF peers(1)])
    show "i < length (rf_peers (cl_node c3 i))" using c1(3) peers(2) by simp
    fix q assume "q < length (rf_peers (cl_node c3 i))" "q \<noteq> i"
    then have "insync (int q) L (length L) (cl_node c3 i, cl_node c3 q)" using c3(4) peers(2) by auto
    then show "int (length L) - 1 \<le> mget (rf_matchIndex (cl_node c3 i)) (int q)" by (auto simp: insync_def paired_def L_def)
  qed
  moreover have "rf_peers (cl_node c3 i) \<noteq> []" using peers(2) c1(3) by auto
  moreover have "le_Term (last L) = rf_currentTerm (cl_node c3 i)" "rf_log (cl_node c3 i) = L" using c2(3,4) c3(3) by (simp_all add: kept_def)
  ultimately obtain ld fo where r: "sync_round (int j) 0 (cl_node c3 i, cl_node c3 j) = Inr (ld, fo)" "int (length L) - 1 \<le> rf_commitIndex ld"
    using sync_commits [OF j(3), of 0] by blast
  have "rf_currentTerm (cl_node c3 j) \<le> rf_currentTerm (cl_node c3 i)" using j(3) by (simp add: insync_def paired_def)
  from round_steps [OF t3 _ j(1,2) r(1) this, of True True] c1(3) c3(2) obtain c4 where
    c4: "cluster_steps True True c3 c4" "cl_node c4 = (cl_node c3)(i := ld, j := fo)" "kept {int j} (cl_node c3 i) ld" by auto
  have "rf_log (cl_node c4 i) = L" "rf_commitIndex (cl_node c4 i) = rf_commitIndex ld" "rf_state (cl_node c4 i) = Leader"
    using c4(2,3) j(2,3) \<open>rf_log (cl_node c3 i) = L\<close> by (simp_all add: kept_def insync_def paired_def)
  moreover from this commit_in_log(3) [OF sm.steps_inv [OF c4(1) S3], of i] r(2) have "rf_commitIndex (cl_node c4 i) = int ?k"
    by (simp add: L_def)
  moreover have "cluster_steps True True c c4"
    using c1(1) c2(1) c3(1) c4(1) by (meson rtranclp.rtrancl_into_rtrancl rtranclp_trans)
  ultimately show ?thesis using c1(3) unfolding L_def by blast
qed

text \<open>
  C3: A cluster of two or more nodes can always make progress: from every state it reaches, in runs as those of
  state machine safety, whatever messages were lost and whichever elections failed, there are steps after which some node
  is the leader, has appended any given command to the log that it had, and has committed it and applied all
  entries up to it.
\<close>

theorem command_can_be_applied:
  assumes "reach cluster_new (cluster_step True True) c" and "2 \<le> cl_size c"
  shows "\<exists>c' i n. (cluster_step True True)\<^sup>*\<^sup>* c c' \<and> i < cl_size c \<and> n = length (rf_log (cl_node c i)) \<and>
    take n (rf_log (cl_node c' i)) = rf_log (cl_node c i) \<and> length (rf_log (cl_node c' i)) = Suc n \<and>
    le_Command (rf_log (cl_node c' i) ! n) = command \<and> rf_state (cl_node c' i) = Leader \<and> rf_commitIndex (cl_node c' i) = int n \<and>
    int n \<le> rf_lastApplied (cl_node c' i)"
proof -
  have S: "safety_inv c" by (rule sm.reach_inv [OF assms(1)])
  obtain c1 i t where c1: "cluster_steps True True c c1" "i < cl_size c"
    "rf_log (cl_node c1 i) = rf_log (cl_node c i) @ [\<lparr>le_Index = int (length (rf_log (cl_node c i))), le_Term = t, le_Command = command\<rparr>]"
    "rf_commitIndex (cl_node c1 i) = int (length (rf_log (cl_node c i)))" "rf_state (cl_node c1 i) = Leader"
    using commits_command [OF S assms(2), of command] by blast
  have S1: "safety_inv c1" by (rule sm.steps_inv [OF c1(1) S])
  have sig: "signalled (cl_node c1 i)" using sg.steps_inv [OF c1(1) sg.reach_inv [OF assms(1)]] by blast
  obtain c2 where c2: "cluster_steps True True c c2" "rf_log (cl_node c2 i) = rf_log (cl_node c1 i)" "rf_state (cl_node c2 i) = Leader"
    "rf_commitIndex (cl_node c2 i) = rf_commitIndex (cl_node c1 i)" "rf_commitIndex (cl_node c1 i) \<le> rf_lastApplied (cl_node c2 i)"
  proof (cases "rf_commitCh (cl_node c1 i)")
    case True
    obtain es rf where a: "applier_step (cl_node c1 i) = Inr (es, rf)" using applier_slice [OF commit_in_log(2,3) [OF S1]] by blast
    note run = applier [OF applier_roundI [OF True a], of True True]
    from c1(1) run have "cluster_steps True True c (set_node i rf c1)" by (rule rtranclp.rtrancl_into_rtrancl)
    then show thesis
      by (rule that) (use a c1(5) in \<open>auto simp: applier_step_def Let_def split: if_splits option.splits\<close>)
  qed (use that [of c1] c1 sig in \<open>simp add: signalled_def\<close>)
  with c1(2-4) show ?thesis
    by (intro exI [of _ c2] exI [of _ i] exI [of _ "length (rf_log (cl_node c i))"]) auto
qed

theorem command_can_be_applied_witness:
  "\<exists>c' i. (cluster_step True True)\<^sup>*\<^sup>* fresh_cluster c' \<and> i < 3 \<and> le_Command (rf_log (cl_node c' i) ! 1) = [7] \<and>
     1 \<le> rf_lastApplied (cl_node c' i)"
proof -
  have r: "reach cluster_new (cluster_step True True) fresh_cluster" using fresh_cluster_new by (rule reach_init)
  have "cl_size fresh_cluster = 3" "length (rf_log (cl_node fresh_cluster i)) = 1" for i
    using new_node_fields(1) [OF fresh_cluster_new, of i] by (simp_all add: fresh_cluster_def fresh_log_def)
  with command_can_be_applied [OF r, of "[7]"] show ?thesis by force
qed

end
